(* ===== verification/Prelude.thy ===== *)
theory Prelude
  imports Main "HOL-Library.Word"
begin

text \<open>
  Shared vocabulary of the development: machine integers and byte strings,
  the engine's error type with the two ways the Rust code propagates it, slices
  and fixed-width integer codecs, and the lemmas about them that every
  component uses.

  \<^item> \<open>u8\<close>, \<open>u16\<close>, \<open>u32\<close> and \<open>u64\<close> are words of their width; a signed \<open>i64\<close> or
    \<open>i32\<close> is the word of the same width read by \<^const>\<open>sint\<close>; an \<open>f64\<close> is its bit
    pattern.  A \<open>usize\<close> is a \<^typ>\<open>nat\<close> (a 64-bit target is assumed where a
    conversion to or from \<open>usize\<close> is checked).
  \<^item> \<open>Result\<close> is \<open>'a result\<close>, with the error on the left.  Messages carry the
    fixed text of the source; numbers interpolated by \<open>format!\<close> are left out.
  \<^item> A routine that updates a page store through \<open>&mut\<close> is a \<open>('s, 'a) prog\<close>:
    it returns the result and the store as the code leaves it, also on an error
    path; \<^const>\<open>None\<close> stands for a loop that does not return.
\<close>

unbundle bit_operations_syntax

named_theorems codec_simps \<open>lengths and round trips of the fixed-width codecs\<close>
named_theorems prog_simps \<open>how results and store programs compute\<close>

section \<open>Machine integers, errors and results\<close>

type_synonym u8 = "8 word"
type_synonym u16 = "16 word"
type_synonym u32 = "32 word"
type_synonym u64 = "64 word"
type_synonym i32 = "32 word"
type_synonym i64 = "64 word"
type_synonym f64 = "64 word"
type_synonym bytes = "u8 list"
type_synonym page_id = u32

datatype db_error =
    Io string
  | Corruption string
  | Constraint string
  | Transaction string
  | Sql string
  | Internal string
  | UnsupportedFormatVersion u32

type_synonym 'a result = "db_error + 'a"

definition rbind :: "'a result \<Rightarrow> ('a \<Rightarrow> 'b result) \<Rightarrow> 'b result" where
  "rbind m f = (case m of Inl e \<Rightarrow> Inl e | Inr x \<Rightarrow> f x)"

definition rmap :: "('a \<Rightarrow> 'b) \<Rightarrow> 'a result \<Rightarrow> 'b result" where
  "rmap f m = (case m of Inl e \<Rightarrow> Inl e | Inr x \<Rightarrow> Inr (f x))"

definition ok_or :: "db_error \<Rightarrow> 'a option \<Rightarrow> 'a result" where
  "ok_or e v = (case v of None \<Rightarrow> Inl e | Some x \<Rightarrow> Inr x)"

type_synonym ('s, 'a) prog = "'s \<Rightarrow> ('a result \<times> 's) option"

definition pret :: "'a \<Rightarrow> ('s, 'a) prog" where
  "pret x s = Some (Inr x, s)"

definition pfail :: "db_error \<Rightarrow> ('s, 'a) prog" where
  "pfail e s = Some (Inl e, s)"

definition plift :: "'a result \<Rightarrow> ('s, 'a) prog" where
  "plift r s = Some (r, s)"

definition pstep :: "('s \<Rightarrow> 'a result \<times> 's) \<Rightarrow> ('s, 'a) prog" where
  "pstep m s = Some (m s)"

definition pbind :: "('s, 'a) prog \<Rightarrow> ('a \<Rightarrow> ('s, 'b) prog) \<Rightarrow> ('s, 'b) prog" where
  "pbind m f s =
     (case m s of
        None \<Rightarrow> None
      | Some (r, s') \<Rightarrow> (case r of Inl e \<Rightarrow> Some (Inl e, s') | Inr x \<Rightarrow> f x s'))"

text \<open>A \<open>for\<close> loop whose body may fail: it stops at the first error.\<close>

fun pforeach :: "('a \<Rightarrow> ('s, unit) prog) \<Rightarrow> 'a list \<Rightarrow> ('s, unit) prog" where
  "pforeach f [] = pret ()"
| "pforeach f (x # xs) = pbind (f x) (\<lambda>_. pforeach f xs)"

text \<open>A loop that collects one value per element, as \<open>collect::<Result<Vec<_>>>\<close>.\<close>

fun pmapM :: "('a \<Rightarrow> ('s, 'b) prog) \<Rightarrow> 'a list \<Rightarrow> ('s, 'b list) prog" where
  "pmapM f [] = pret []"
| "pmapM f (x # xs) = pbind (f x) (\<lambda>y. pbind (pmapM f xs) (\<lambda>ys. pret (y # ys)))"

section \<open>Slices and arrays\<close>

text \<open>
  \<open>bslice xs i j\<close> is \<open>&xs[i..j]\<close> and \<open>copy_at xs off ys\<close> is
  \<open>xs[off..off + ys.len()].copy_from_slice(ys)\<close>, both for ranges inside \<open>xs\<close>;
  \<open>get_range\<close> is \<open>xs.get(i..j)\<close>, with \<^const>\<open>None\<close> out of range.
\<close>

definition bslice :: "'a list \<Rightarrow> nat \<Rightarrow> nat \<Rightarrow> 'a list" where
  "bslice xs i j = take (j - i) (drop i xs)"

definition get_range :: "'a list \<Rightarrow> nat \<Rightarrow> nat \<Rightarrow> 'a list option" where
  "get_range xs i j = (if i \<le> j \<and> j \<le> length xs then Some (bslice xs i j) else None)"

definition get_at :: "'a list \<Rightarrow> nat \<Rightarrow> 'a option" where
  "get_at xs i = (if i < length xs then Some (xs ! i) else None)"

definition copy_at :: "'a list \<Rightarrow> nat \<Rightarrow> 'a list \<Rightarrow> 'a list" where
  "copy_at xs off ys = take off xs @ ys @ drop (off + length ys) xs"

text \<open>
  \<open>partition_point\<close> of a bslice that is partitioned by the predicate, the case in
  which the standard library specifies its result.
\<close>

definition partition_point :: "('a \<Rightarrow> bool) \<Rightarrow> 'a list \<Rightarrow> nat" where
  "partition_point p xs = length (takeWhile p xs)"

section \<open>Fixed-width integer codecs\<close>

text \<open>
  \<open>to_le_bytes\<close> / \<open>from_le_bytes\<close> and \<open>to_be_bytes\<close> of the standard library, for a
  value and a width in bytes.
\<close>

fun le_bytes :: "nat \<Rightarrow> nat \<Rightarrow> bytes" where
  "le_bytes 0 v = []"
| "le_bytes (Suc n) v = of_nat (v mod 256) # le_bytes n (v div 256)"

fun le_nat :: "bytes \<Rightarrow> nat" where
  "le_nat [] = 0"
| "le_nat (b # bs) = unat b + 256 * le_nat bs"

definition be_bytes :: "nat \<Rightarrow> nat \<Rightarrow> bytes" where
  "be_bytes n v = rev (le_bytes n v)"

definition u16_le :: "u16 \<Rightarrow> bytes" where "u16_le v = le_bytes 2 (unat v)"
definition u32_le :: "u32 \<Rightarrow> bytes" where "u32_le v = le_bytes 4 (unat v)"
definition u64_le :: "u64 \<Rightarrow> bytes" where "u64_le v = le_bytes 8 (unat v)"
definition u16_be :: "u16 \<Rightarrow> bytes" where "u16_be v = be_bytes 2 (unat v)"
definition u32_be :: "u32 \<Rightarrow> bytes" where "u32_be v = be_bytes 4 (unat v)"
definition u64_be :: "u64 \<Rightarrow> bytes" where "u64_be v = be_bytes 8 (unat v)"

definition u16_of_le :: "bytes \<Rightarrow> u16" where "u16_of_le bs = of_nat (le_nat bs)"
definition u32_of_le :: "bytes \<Rightarrow> u32" where "u32_of_le bs = of_nat (le_nat bs)"
definition u64_of_le :: "bytes \<Rightarrow> u64" where "u64_of_le bs = of_nat (le_nat bs)"

text \<open>Checked conversions and arithmetic of the integer types.\<close>

definition u16_try_from :: "nat \<Rightarrow> u16 option" where
  "u16_try_from n = (if n < 2 ^ 16 then Some (of_nat n) else None)"

definition u32_try_from :: "nat \<Rightarrow> u32 option" where
  "u32_try_from n = (if n < 2 ^ 32 then Some (of_nat n) else None)"

definition u64_checked_add :: "u64 \<Rightarrow> u64 \<Rightarrow> u64 option" where
  "u64_checked_add a b = (if unat a + unat b < 2 ^ 64 then Some (a + b) else None)"

definition u64_saturating_sub :: "u64 \<Rightarrow> u64 \<Rightarrow> u64" where
  "u64_saturating_sub a b = (if b \<le> a then a - b else 0)"

definition u32_saturating_add :: "u32 \<Rightarrow> u32 \<Rightarrow> u32" where
  "u32_saturating_add a b = (if unat a + unat b < 2 ^ 32 then a + b else - 1)"

definition u32_saturating_sub :: "u32 \<Rightarrow> u32 \<Rightarrow> u32" where
  "u32_saturating_sub a b = (if b \<le> a then a - b else 0)"

definition usize_checked_add :: "nat \<Rightarrow> nat \<Rightarrow> nat option" where
  "usize_checked_add a b = (if a + b < 2 ^ 64 then Some (a + b) else None)"

definition div_ceil :: "nat \<Rightarrow> nat \<Rightarrow> nat" where
  "div_ceil a b = (a + b - 1) div b"

section \<open>Lemmas on results and programs\<close>

lemma rbind_simps [simp, prog_simps]:
  "rbind (Inl e) f = Inl e"
  "rbind (Inr x) f = f x"
  by (simp_all add: rbind_def)

lemma rmap_simps [simp, prog_simps]:
  "rmap f (Inl e) = Inl e"
  "rmap f (Inr x) = Inr (f x)"
  by (simp_all add: rmap_def)

lemma ok_or_simps [simp, prog_simps]:
  "ok_or e None = Inl e"
  "ok_or e (Some x) = Inr x"
  by (simp_all add: ok_or_def)

lemma rbind_cong [fundef_cong]:
  "m = n \<Longrightarrow> (\<And>x. n = Inr x \<Longrightarrow> f x = g x) \<Longrightarrow> rbind m f = rbind n g"
  by (simp add: rbind_def split: sum.splits)

lemma rbind_eq_Inr: "rbind m f = Inr y \<longleftrightarrow> (\<exists>x. m = Inr x \<and> f x = Inr y)"
  by (auto simp: rbind_def split: sum.splits)

lemma ok_or_eq_Inr [simp]: "ok_or e v = Inr x \<longleftrightarrow> v = Some x"
  by (auto simp: ok_or_def split: option.splits)

lemma pbind_Some [simp, prog_simps]:
  "m s = Some (Inr x, s') \<Longrightarrow> pbind m f s = f x s'"
  "m s = Some (Inl e, s') \<Longrightarrow> pbind m f s = Some (Inl e, s')"
  "m s = None \<Longrightarrow> pbind m f s = None"
  by (simp_all add: pbind_def)

lemma prog_basic_simps [simp, prog_simps]:
  "pret x s = Some (Inr x, s)"
  "pfail e s = Some (Inl e, s)"
  "plift r s = Some (r, s)"
  "pstep m s = Some (m s)"
  by (simp_all add: pret_def pfail_def plift_def pstep_def)

lemma pbind_eq_Ok:
  "pbind m f s = Some (Inr y, t) \<longleftrightarrow>
     (\<exists>x s'. m s = Some (Inr x, s') \<and> f x s' = Some (Inr y, t))"
  by (auto simp: pbind_def split: option.splits sum.splits)

lemma pbind_pret [simp]: "pbind (pret x) f = f x"
  by (rule ext) simp

lemma pforeach_append:
  "pforeach f (xs @ ys) = pbind (pforeach f xs) (\<lambda>_. pforeach f ys)"
  by (induction xs) (auto simp: pbind_def pret_def split: option.splits sum.splits)

section \<open>Lemmas on slices\<close>

lemma length_bslice [simp]: "length (bslice xs i j) = min (j - i) (length xs - i)"
  by (simp add: bslice_def)

lemma bslice_empty [simp]: "j \<le> i \<Longrightarrow> bslice xs i j = []"
  by (simp add: bslice_def)

lemma bslice_0 [simp]: "bslice xs 0 j = take j xs"
  by (simp add: bslice_def)

lemma bslice_all [simp]: "length xs \<le> j \<Longrightarrow> bslice xs i j = drop i xs"
  by (simp add: bslice_def)

lemma bslice_append1: "j \<le> length xs \<Longrightarrow> bslice (xs @ ys) i j = bslice xs i j"
  by (simp add: bslice_def)

lemma bslice_append2: "length xs \<le> i \<Longrightarrow> bslice (xs @ ys) i j = bslice ys (i - length xs) (j - length xs)"
  by (simp add: bslice_def)

lemma bslice_append_exact:
  "length xs = i \<Longrightarrow> length ys = j - i \<Longrightarrow> bslice (xs @ ys @ zs) i j = ys"
  by (simp add: bslice_def)

lemma nth_bslice: "i + k < j \<Longrightarrow> j \<le> length xs \<Longrightarrow> bslice xs i j ! k = xs ! (i + k)"
  by (simp add: bslice_def)

lemma bslice_bslice: "j \<le> l - k \<Longrightarrow> bslice (bslice xs k l) i j = bslice xs (k + i) (k + j)"
  by (simp add: bslice_def drop_take min_def add.commute)

lemma bslice_Suc: "i < j \<Longrightarrow> j \<le> length xs \<Longrightarrow> bslice xs i j = xs ! i # bslice xs (Suc i) j"
  by (simp add: bslice_def Cons_nth_drop_Suc [symmetric] take_Cons')

lemma bslice_append_bslice: "i \<le> j \<Longrightarrow> j \<le> k \<Longrightarrow> bslice xs i j @ bslice xs j k = bslice xs i k"
proof -
  assume "i \<le> j" "j \<le> k"
  then have "k - i = (j - i) + (k - j)" by simp
  moreover have "drop (j - i) (drop i xs) = drop j xs" using \<open>i \<le> j\<close> by simp
  ultimately show ?thesis by (simp add: bslice_def take_add)
qed

lemma get_range_Some [simp]:
  "get_range xs i j = Some ys \<longleftrightarrow> i \<le> j \<and> j \<le> length xs \<and> ys = bslice xs i j"
  by (auto simp: get_range_def)

lemma get_at_Some [simp]: "get_at xs i = Some x \<longleftrightarrow> i < length xs \<and> x = xs ! i"
  by (auto simp: get_at_def)

lemma get_at_None [simp]: "get_at xs i = None \<longleftrightarrow> length xs \<le> i"
  by (auto simp: get_at_def)

lemma length_copy_at [simp]: "off + length ys \<le> length xs \<Longrightarrow> length (copy_at xs off ys) = length xs"
  by (simp add: copy_at_def)

lemma copy_at_Nil [simp]: "copy_at xs off [] = xs"
  by (simp add: copy_at_def)

lemma bslice_copy_at_same:
  "off + length ys \<le> length xs \<Longrightarrow> off \<le> length xs \<Longrightarrow> j = off + length ys \<Longrightarrow>
     bslice (copy_at xs off ys) off j = ys"
  by (simp add: copy_at_def bslice_def)

lemma bslice_copy_at_before:
  "j \<le> off \<Longrightarrow> off + length ys \<le> length xs \<Longrightarrow> bslice (copy_at xs off ys) i j = bslice xs i j"
  by (simp add: copy_at_def bslice_append1) (simp add: bslice_def drop_take min_def)

lemma bslice_copy_at_after:
  "off + length ys \<le> i \<Longrightarrow> off + length ys \<le> length xs \<Longrightarrow>
     bslice (copy_at xs off ys) i j = bslice xs i j"
  by (simp add: copy_at_def bslice_def)

lemma nth_copy_at:
  "off + length ys \<le> length xs \<Longrightarrow> i < length xs \<Longrightarrow>
     copy_at xs off ys ! i = (if off \<le> i \<and> i < off + length ys then ys ! (i - off) else xs ! i)"
  by (auto simp: copy_at_def nth_append not_less)

section \<open>Lemmas on the codecs\<close>

lemma unat_ucast_widen [simp]:
  "LENGTH('a) \<le> LENGTH('b) \<Longrightarrow> unat (ucast (x :: 'a::len word) :: 'b::len word) = unat x"
proof -
  assume "LENGTH('a) \<le> LENGTH('b)"
  then have "(2 :: nat) ^ LENGTH('a) \<le> 2 ^ LENGTH('b)" by (intro power_increasing) auto
  with unsigned_less [of x, where ?'a = nat] have "unat x < 2 ^ LENGTH('b)" by linarith
  then show ?thesis by (simp add: unsigned_ucast_eq take_bit_nat_eq_self)
qed

lemma unat_of_nat_small:
  "n < 65536 \<Longrightarrow> unat (of_nat n :: u16) = n"
  "n < 4294967296 \<Longrightarrow> unat (of_nat n :: u32) = n"
  "n < 18446744073709551616 \<Longrightarrow> unat (of_nat n :: u64) = n"
  by (simp_all add: unat_of_nat)

lemma length_le_bytes [simp, codec_simps]: "length (le_bytes n v) = n"
  by (induction n arbitrary: v) auto

lemma length_be_bytes [simp, codec_simps]: "length (be_bytes n v) = n"
  by (simp add: be_bytes_def)

lemma unat_of_nat_u8 [simp]: "unat (of_nat (v mod 256) :: u8) = v mod 256"
  by (simp add: unat_of_nat)

lemma le_nat_le_bytes: "le_nat (le_bytes n v) = v mod 256 ^ n"
proof (induction n arbitrary: v)
  case 0
  then show ?case by simp
next
  case (Suc n)
  then show ?case
    by (simp add: mod_mult2_eq [of v 256 "256 ^ n"] unat_of_nat)
qed

lemma le_nat_less: "le_nat bs < 256 ^ length bs"
proof (induction bs)
  case Nil
  then show ?case by simp
next
  case (Cons b bs)
  have "unat b < 256" using unsigned_less [of b, where ?'a = nat] by simp
  with Cons show ?case by simp
qed

lemma le_bytes_le_nat: "le_bytes (length bs) (le_nat bs) = bs"
proof (induction bs)
  case Nil
  then show ?case by simp
next
  case (Cons b bs)
  have "unat b < 256" using unsigned_less [of b, where ?'a = nat] by simp
  then have "(unat b + 256 * le_nat bs) mod 256 = unat b"
    and "(unat b + 256 * le_nat bs) div 256 = le_nat bs" by auto
  with Cons show ?case by simp
qed

lemma length_word_codecs [simp, codec_simps]:
  "length (u16_le a) = 2" "length (u32_le b) = 4" "length (u64_le c) = 8"
  "length (u16_be a) = 2" "length (u32_be b) = 4" "length (u64_be c) = 8"
  by (simp_all add: u16_le_def u32_le_def u64_le_def u16_be_def u32_be_def u64_be_def)

lemma u16_of_le_u16_le [simp, codec_simps]: "u16_of_le (u16_le v) = v"
  using unsigned_less [of v, where ?'a = nat] by (simp add: u16_of_le_def u16_le_def le_nat_le_bytes)

lemma u32_of_le_u32_le [simp, codec_simps]: "u32_of_le (u32_le v) = v"
  using unsigned_less [of v, where ?'a = nat] by (simp add: u32_of_le_def u32_le_def le_nat_le_bytes)

lemma u64_of_le_u64_le [simp, codec_simps]: "u64_of_le (u64_le v) = v"
  using unsigned_less [of v, where ?'a = nat] by (simp add: u64_of_le_def u64_le_def le_nat_le_bytes)

lemma u32_le_of_le: "length bs = 4 \<Longrightarrow> u32_le (u32_of_le bs) = bs"
  using le_nat_less [of bs] le_bytes_le_nat [of bs]
  unfolding u32_le_def u32_of_le_def by (simp add: unat_of_nat del: le_bytes.simps)

lemma u16_le_of_le: "length bs = 2 \<Longrightarrow> u16_le (u16_of_le bs) = bs"
  using le_nat_less [of bs] le_bytes_le_nat [of bs]
  unfolding u16_le_def u16_of_le_def by (simp add: unat_of_nat del: le_bytes.simps)

lemma u64_le_of_le: "length bs = 8 \<Longrightarrow> u64_le (u64_of_le bs) = bs"
  using le_nat_less [of bs] le_bytes_le_nat [of bs]
  unfolding u64_le_def u64_of_le_def by (simp add: unat_of_nat del: le_bytes.simps)

lemma u16_try_from_Some [simp]: "u16_try_from n = Some w \<longleftrightarrow> n < 65536 \<and> w = of_nat n"
  by (auto simp: u16_try_from_def)

lemma u32_try_from_Some [simp]: "u32_try_from n = Some w \<longleftrightarrow> n < 4294967296 \<and> w = of_nat n"
  by (auto simp: u32_try_from_def)

end
