(* ===== verification/Varint.thy ===== *)
theory Varint
  imports Prelude
begin

text \<open>
  The integer encodings of \<open>record/mod.rs\<close>: the zigzag map between signed and
  unsigned 64-bit integers, and LEB128 variable-length integers.  The decoder
  is the code's loop over the input bytes, with its accumulator, its shift and
  its two error exits.  The lemmas give both round trips, the length bound of
  an encoding and that no encoding is a proper prefix of another.
\<close>

section \<open>Definitions\<close>

definition zigzag_encode_i64 :: "i64 \<Rightarrow> u64" where
  "zigzag_encode_i64 value = push_bit 1 value XOR signed_drop_bit 63 value"

definition zigzag_decode_u64 :: "u64 \<Rightarrow> i64" where
  "zigzag_decode_u64 value = drop_bit 1 value XOR (- (value AND 1))"

lemma drop_bit_7_less: "drop_bit 7 (v :: u64) \<noteq> 0 \<Longrightarrow> unat (drop_bit 7 v) < unat v"
proof -
  assume "drop_bit 7 v \<noteq> 0"
  then have "v \<noteq> 0" by auto
  then have "unat v \<noteq> 0" by (simp add: unat_eq_0)
  moreover have "unat (drop_bit 7 v) = unat v div 128"
    by (simp add: drop_bit_eq_div unat_div_distrib)
  ultimately show ?thesis by simp
qed

function encode_varint_u64_into :: "u64 \<Rightarrow> bytes \<Rightarrow> bytes" where
  "encode_varint_u64_into value output =
     (let byte = ucast (value AND 0x7F);
          value' = drop_bit 7 value;
          byte' = (if value' \<noteq> 0 then byte OR 0x80 else byte);
          output' = output @ [byte']
      in if value' = 0 then output' else encode_varint_u64_into value' output')"
  by pat_completeness auto
termination
  by (relation "measure (\<lambda>(v, _). unat v)") (auto simp: drop_bit_7_less)

definition encode_varint_u64 :: "u64 \<Rightarrow> bytes" where
  "encode_varint_u64 value = encode_varint_u64_into value []"

fun decode_varint_loop :: "bytes \<Rightarrow> nat \<Rightarrow> nat \<Rightarrow> u64 \<Rightarrow> (u64 \<times> nat) result" where
  "decode_varint_loop [] index shift value = Inl (Corruption ''truncated varint'')"
| "decode_varint_loop (byte # rest) index shift value =
     (let payload = ucast (byte AND 0x7F);
          value' = value OR push_bit shift payload
      in if byte AND 0x80 = 0 then Inr (value', index + 1)
         else if shift + 7 \<ge> 64 then Inl (Corruption ''varint exceeds 64-bit range'')
         else decode_varint_loop rest (index + 1) (shift + 7) value')"

definition decode_varint_u64 :: "bytes \<Rightarrow> (u64 \<times> nat) result" where
  "decode_varint_u64 input = decode_varint_loop input 0 0 0"

section \<open>Zigzag\<close>

lemma bit_zigzag_encode:
  "bit (zigzag_encode_i64 v) n \<longleftrightarrow> n < 64 \<and> ((0 < n \<and> bit v (n - 1)) \<noteq> bit v 63)"
  unfolding zigzag_encode_i64_def bit_xor_iff bit_push_bit_iff bit_signed_drop_bit_iff
  by (cases n) (auto simp: min_def dest: bit_imp_le_length)

lemma minus_lsb_u64: "- (x AND 1 :: u64) = (if bit x 0 then - 1 else 0)"
  by (simp add: and_one_eq mod_2_eq_odd bit_0)

lemma bit_zigzag_decode:
  "bit (zigzag_decode_u64 v) n \<longleftrightarrow> n < 64 \<and> (bit v (Suc n) \<noteq> bit v 0)"
  unfolding zigzag_decode_u64_def minus_lsb_u64
  by (auto simp: bit_simps dest: bit_imp_le_length)

lemma less_64_cases: "n < 64 \<longleftrightarrow> n < 63 \<or> n = (63 :: nat)"
  by auto

lemma zigzag_decode_encode: "zigzag_decode_u64 (zigzag_encode_i64 v) = v"
  by (rule bit_eqI) (auto simp: bit_zigzag_encode bit_zigzag_decode less_64_cases)

lemma zigzag_encode_decode: "zigzag_encode_i64 (zigzag_decode_u64 v) = v"
proof (rule bit_eqI)
  fix n
  show "bit (zigzag_encode_i64 (zigzag_decode_u64 v)) n \<longleftrightarrow> bit v n"
    by (cases n) (auto simp: bit_zigzag_encode bit_zigzag_decode dest: bit_imp_le_length)
qed

section \<open>Variable-length integers\<close>

declare encode_varint_u64_into.simps [simp del]

lemma encode_varint_into_append:
  "encode_varint_u64_into v out = out @ encode_varint_u64 v"
  unfolding encode_varint_u64_def
proof (induction v arbitrary: out rule: measure_induct_rule [of unat])
  case (less v)
  show ?case
  proof (cases "drop_bit 7 v = 0")
    case True
    then show ?thesis
      by (subst (1 2) encode_varint_u64_into.simps) (simp add: Let_def)
  next
    case False
    let ?b = "(ucast (v AND 0x7F) OR 0x80) :: u8"
    have "encode_varint_u64_into v out = encode_varint_u64_into (drop_bit 7 v) (out @ [?b])" for out
      by (subst encode_varint_u64_into.simps) (use False in \<open>simp add: Let_def\<close>)
    moreover have "encode_varint_u64_into (drop_bit 7 v) (out @ [?b]) =
        (out @ [?b]) @ encode_varint_u64_into (drop_bit 7 v) []" for out
      by (rule less.IH) (simp add: drop_bit_7_less False)
    ultimately show ?thesis by simp
  qed
qed

lemma and_7F: "(v :: 'a::len word) AND 0x7F = take_bit 7 v"
  by (simp add: take_bit_eq_mask mask_eq_exp_minus_1)

lemma encode_varint_rec:
  "encode_varint_u64 v =
     (if drop_bit 7 v = 0 then [ucast v]
      else (ucast (v AND 0x7F) OR 0x80) # encode_varint_u64 (drop_bit 7 v))"
proof (cases "drop_bit 7 v = 0")
  case True
  then have "v AND 0x7F = v"
    by (simp add: and_7F take_bit_eq_self_iff_drop_bit_eq_0)
  with True show ?thesis
    unfolding encode_varint_u64_def by (subst encode_varint_u64_into.simps) (simp add: Let_def)
next
  case False
  then have "encode_varint_u64 v =
      encode_varint_u64_into (drop_bit 7 v) [ucast (v AND 0x7F) OR 0x80]"
    unfolding encode_varint_u64_def by (subst encode_varint_u64_into.simps) (simp add: Let_def)
  with False show ?thesis by (simp add: encode_varint_into_append)
qed

lemma or_80: "(b :: u8) OR 0x80 = set_bit 7 b"
  by (simp add: set_bit_eq_or)

lemma and_80_iff: "(b :: u8) AND 0x80 = 0 \<longleftrightarrow> \<not> bit b 7"
  using and_exp_eq_0_iff_not_bit [of b 7] by simp

lemma varint_payload:
  "ucast (take_bit 7 (set_bit 7 (ucast (take_bit 7 v) :: u8))) = take_bit 7 (v :: u64)"
  "bit (set_bit 7 (ucast (take_bit 7 v) :: u8)) 7"
  by (rule bit_eqI, auto simp: bit_simps)

lemma varint_last_payload:
  assumes "drop_bit 7 v = 0"
  shows "ucast (take_bit 7 (ucast v :: u8)) = (v :: u64)" "\<not> bit (ucast v :: u8) 7"
proof -
  have hi: "\<not> bit v n" if "7 \<le> n" for n
    using bit_drop_bit_eq [of 7 v] that unfolding assms by (auto simp: fun_eq_iff dest: spec [of _ "n - 7"])
  show "\<not> bit (ucast v :: u8) 7"
    using hi [of 7] by (simp add: bit_simps)
  show "ucast (take_bit 7 (ucast v :: u8)) = v"
  proof (rule bit_eqI)
    fix n
    show "bit (ucast (take_bit 7 (ucast v :: u8)) :: u64) n \<longleftrightarrow> bit v n"
      using hi [of n] by (cases "7 \<le> n") (auto simp: bit_simps)
  qed
qed

text \<open>The accumulator invariant of the decoder's loop on an encoding.\<close>

lemma decode_varint_loop_encode:
  assumes "unat v < 2 ^ (64 - shift)" "shift < 64"
  shows "decode_varint_loop (encode_varint_u64 v @ rest) index shift acc =
    Inr (acc OR push_bit shift v, index + length (encode_varint_u64 v))"
  using assms
proof (induction v arbitrary: index shift acc rule: measure_induct_rule [of unat])
  case (less v)
  show ?case
  proof (cases "drop_bit 7 v = 0")
    case True
    then show ?thesis by (subst (1 2) encode_varint_rec) (simp add: varint_last_payload and_7F and_80_iff)
  next
    case False
    then have dm: "unat (drop_bit 7 v) = unat v div 128"
      by (simp add: drop_bit_eq_div unat_div_distrib)
    with False have big: "128 \<le> unat v"
      by (metis div_less not_le unat_eq_0)
    have shift: "shift + 7 < 64"
    proof (rule ccontr)
      assume "\<not> shift + 7 < 64"
      then have "(2 :: nat) ^ (64 - shift) \<le> 2 ^ 7" by (intro power_increasing) auto
      with less.prems big show False by simp
    qed
    moreover from shift have "(2 :: nat) ^ (64 - shift) = 2 ^ (64 - (shift + 7)) * 128"
      using power_add [of "2 :: nat" "64 - (shift + 7)" 7] by simp
    with less.prems dm have "unat (drop_bit 7 v) < 2 ^ (64 - (shift + 7))"
      by (simp add: div_less_iff_less_mult)
    moreover have "push_bit shift v = push_bit shift (take_bit 7 v) OR push_bit (shift + 7) (drop_bit 7 v)"
    proof (rule bit_eqI)
      fix n
      show "bit (push_bit shift v) n \<longleftrightarrow>
          bit (push_bit shift (take_bit 7 v) OR push_bit (shift + 7) (drop_bit 7 v)) n"
        by (cases "n < shift + 7") (auto simp: bit_simps)
    qed
    ultimately show ?thesis
      using False less.IH [OF drop_bit_7_less [OF False], of "shift + 7"]
      by (subst (1 2) encode_varint_rec) (simp add: and_7F or_80 and_80_iff varint_payload or.assoc)
  qed
qed

lemma varint_roundtrip [simp, codec_simps]:
  "decode_varint_u64 (encode_varint_u64 v @ rest) = Inr (v, length (encode_varint_u64 v))"
proof -
  have "unat v < 2 ^ 64" using unsigned_less [of v, where ?'a = nat] by simp
  then show ?thesis
    unfolding decode_varint_u64_def by (subst decode_varint_loop_encode) simp_all
qed

lemma encode_varint_not_Nil [simp]: "encode_varint_u64 v \<noteq> []"
  by (subst encode_varint_rec) simp

lemma encode_varint_length_le:
  "unat v < 2 ^ (7 * k) \<Longrightarrow> 0 < k \<Longrightarrow> length (encode_varint_u64 v) \<le> k"
proof (induction k arbitrary: v)
  case 0
  then show ?case by simp
next
  case (Suc k)
  show ?case
  proof (cases "drop_bit 7 v = 0")
    case True
    then show ?thesis by (subst encode_varint_rec) simp
  next
    case False
    have d: "unat (drop_bit 7 v) = unat v div 128"
      by (simp add: drop_bit_eq_div unat_div_distrib)
    with Suc.prems have lt: "unat (drop_bit 7 v) < 2 ^ (7 * k)"
      by (simp add: div_less_iff_less_mult power_add)
    moreover from lt False have "0 < k"
      by (cases k) (auto simp: unat_eq_0)
    ultimately have "length (encode_varint_u64 (drop_bit 7 v)) \<le> k" by (rule Suc.IH)
    with False show ?thesis by (subst encode_varint_rec) simp
  qed
qed

lemma encode_varint_length: "1 \<le> length (encode_varint_u64 v)" "length (encode_varint_u64 v) \<le> 10"
proof -
  show "1 \<le> length (encode_varint_u64 v)" by (simp add: Suc_le_eq)
  have "unat v < 2 ^ 64" using unsigned_less [of v, where ?'a = nat] by simp
  also have "(2 :: nat) ^ 64 \<le> 2 ^ (7 * 10)" by (intro power_increasing) auto
  finally show "length (encode_varint_u64 v) \<le> 10" by (rule encode_varint_length_le) simp
qed

lemma decode_varint_loop_bounds:
  "decode_varint_loop input index shift acc = Inr (v, n) \<Longrightarrow> shift < 64 \<Longrightarrow>
     index < n \<and> n \<le> index + length input \<and> (n - Suc index) * 7 + shift < 64"
proof (induction input arbitrary: index shift acc)
  case (Cons byte rest)
  show ?case
  proof (cases "byte AND 0x80 = 0")
    case True
    with Cons.prems show ?thesis by (auto simp: Let_def)
  next
    case False
    with Cons.prems show ?thesis
      using Cons.IH [of "index + 1" "shift + 7" "acc OR push_bit shift (ucast (byte AND 0x7F))"]
      by (auto simp: Let_def split: if_splits)
  qed
qed simp

lemma decode_varint_loop_prefix:
  "decode_varint_loop input index shift acc = Inr (v, n) \<Longrightarrow> shift < 64 \<Longrightarrow>
     decode_varint_loop (take (n - index) input @ rest) index shift acc = Inr (v, n)"
proof (induction input arbitrary: index shift acc)
  case (Cons byte more)
  show ?case
  proof (cases "byte AND 0x80 = 0")
    case True
    with Cons.prems show ?thesis by (auto simp: Let_def)
  next
    case False
    let ?acc = "acc OR push_bit shift (ucast (byte AND 0x7F))"
    from False Cons.prems
    have rec: "decode_varint_loop more (index + 1) (shift + 7) ?acc = Inr (v, n)" "shift + 7 < 64"
      by (auto simp: Let_def split: if_splits)
    from decode_varint_loop_bounds [OF this] have "index + 1 < n" by simp
    then have "n - index = Suc (n - (index + 1))" by simp
    with Cons.IH [OF rec] rec False show ?thesis by (simp add: Let_def)
  qed
qed simp

lemma decode_varint_bounds:
  "decode_varint_u64 input = Inr (v, n) \<Longrightarrow> 1 \<le> n \<and> n \<le> length input \<and> n \<le> 10"
  using decode_varint_loop_bounds [of input 0 0 0 v n] by (auto simp: decode_varint_u64_def)

section \<open>Properties\<close>

text \<open>
  Zigzag is a bijection between \<open>i64\<close> and \<open>u64\<close>: decoding undoes encoding and
  encoding undoes decoding, for every 64-bit value.
\<close>

theorem zigzag_bijection:
  "zigzag_decode_u64 (zigzag_encode_i64 v) = v \<and> zigzag_encode_i64 (zigzag_decode_u64 u) = u"
  by (simp add: zigzag_decode_encode zigzag_encode_decode)

text \<open>
  C40: A varint decodes to the encoded value whatever bytes follow it, and the
  decoder consumes exactly the bytes the encoder wrote; an encoding has
  between one and ten bytes.
\<close>

theorem varint_decode_encode:
  "decode_varint_u64 (encode_varint_u64 v @ rest) = Inr (v, length (encode_varint_u64 v)) \<and>
   1 \<le> length (encode_varint_u64 v) \<and> length (encode_varint_u64 v) \<le> 10"
  using encode_varint_length by simp

text \<open>
  Whatever the input, a successful decode reads between one and ten bytes, all
  of them inside the input, and depends on no byte after those.
\<close>

theorem varint_decode_reads_prefix:
  "decode_varint_u64 input = Inr (v, n) \<Longrightarrow>
     1 \<le> n \<and> n \<le> 10 \<and> n \<le> length input \<and> decode_varint_u64 (take n input @ rest) = Inr (v, n)"
  using decode_varint_bounds [of input v n] decode_varint_loop_prefix [of input 0 0 0 v n rest]
  by (simp add: decode_varint_u64_def)

theorem varint_decode_reads_prefix_witness:
  "decode_varint_u64 [0xAC, 0x02, 0xFF] = Inr (300, 2) \<and>
   decode_varint_u64 (take 2 [0xAC, 0x02, 0xFF] @ [7]) = Inr (300, 2)"
proof -
  have "decode_varint_u64 [0xAC, 0x02, 0xFF] = Inr (300, 2)" by code_simp
  with varint_decode_reads_prefix [of "[0xAC, 0x02, 0xFF]" 300 2 "[7]"] show ?thesis by simp
qed

text \<open>
  The decoder is not injective at the top of the range: the tenth byte is
  shifted by 63, so all but its lowest payload bit are dropped and an encoding
  of a number above the 64-bit range is accepted instead of being rejected with
  the error the code has for it.
\<close>

theorem varint_tenth_byte_overflow_accepted:
  "decode_varint_u64 (replicate 9 0x80 @ [0x02]) = Inr (0, 10) \<and>
   decode_varint_u64 (replicate 9 0x80 @ [0x80, 0x00]) =
     Inl (Corruption ''varint exceeds 64-bit range'')"
  by code_simp

end
