(* ===== verification/Pages.thy ===== *)
theory Pages
  imports Prelude
begin

text \<open>
  Fixed-size pages: \<open>storage/page.rs\<close> and \<open>storage/freelist.rs\<close>.  The trait
  \<open>PageStore\<close> is a record of operations, passed to the routines that are generic in
  it; the locale \<open>page_store\<close> is the contract those routines rely on, stated against
  the abstract map from page ids to page contents, and \<open>InMemoryPageStore\<close> is shown
  to satisfy it.
\<close>

section \<open>Definitions\<close>

definition DEFAULT_PAGE_SIZE :: u32 where "DEFAULT_PAGE_SIZE = 4096"
definition SUPPORTED_PAGE_SIZES :: "u32 list" where "SUPPORTED_PAGE_SIZES = [4096, 8192, 16384]"
definition HEADER_PAGE_ID :: page_id where "HEADER_PAGE_ID = 1"
definition CATALOG_ROOT_PAGE_ID :: page_id where "CATALOG_ROOT_PAGE_ID = 2"

definition is_supported_page_size :: "u32 \<Rightarrow> bool" where
  "is_supported_page_size page_size = (page_size \<in> set SUPPORTED_PAGE_SIZES)"

definition zeroed_page :: "u32 \<Rightarrow> bytes" where
  "zeroed_page page_size = replicate (unat page_size) 0"

definition page_offset :: "page_id \<Rightarrow> u32 \<Rightarrow> u64" where
  "page_offset page_id page_size = ucast (u32_saturating_sub page_id 1) * ucast page_size"

definition page_count_for_len :: "u64 \<Rightarrow> u32 \<Rightarrow> page_id" where
  "page_count_for_len len page_size = ucast (len div ucast page_size)"

definition validate_page_id :: "page_id \<Rightarrow> unit result" where
  "validate_page_id page_id =
     (if page_id = 0 then Inl (Corruption ''page id 0 is invalid'') else Inr ())"

text \<open>The trait \<open>PageStore\<close>; a read takes \<open>&self\<close> and cannot change the store.\<close>

record 's page_store_ops =
  ps_page_size :: "'s \<Rightarrow> u32"
  ps_allocate_page :: "'s \<Rightarrow> page_id result \<times> 's"
  ps_free_page :: "page_id \<Rightarrow> 's \<Rightarrow> unit result \<times> 's"
  ps_read_page :: "page_id \<Rightarrow> 's \<Rightarrow> bytes result"
  ps_write_page :: "page_id \<Rightarrow> bytes \<Rightarrow> 's \<Rightarrow> unit result \<times> 's"
  ps_write_page_owned :: "page_id \<Rightarrow> bytes \<Rightarrow> 's \<Rightarrow> unit result \<times> 's"

record InMemoryPageStore =
  im_page_size :: u32
  im_next_page_id :: page_id
  im_free_pages :: "page_id list"
  im_pages :: "page_id \<Rightarrow> bytes option"

definition inmem_new :: "u32 \<Rightarrow> InMemoryPageStore" where
  "inmem_new page_size =
     \<lparr>im_page_size = page_size, im_next_page_id = CATALOG_ROOT_PAGE_ID + 1, im_free_pages = [],
      im_pages = Map.empty\<rparr>"

definition inmem_contains_page :: "page_id \<Rightarrow> InMemoryPageStore \<Rightarrow> bool" where
  "inmem_contains_page page_id s = (im_pages s page_id \<noteq> None)"

definition inmem_allocate_page :: "InMemoryPageStore \<Rightarrow> page_id result \<times> InMemoryPageStore" where
  "inmem_allocate_page s =
     (if im_free_pages s \<noteq> [] then
        let page_id = last (im_free_pages s)
        in (Inr page_id,
            s\<lparr>im_free_pages := butlast (im_free_pages s),
              im_pages := (im_pages s)(page_id \<mapsto> zeroed_page (im_page_size s))\<rparr>)
      else
        let page_id = im_next_page_id s
        in (Inr page_id,
            s\<lparr>im_next_page_id := u32_saturating_add (im_next_page_id s) 1,
              im_pages := (im_pages s)(page_id \<mapsto> zeroed_page (im_page_size s))\<rparr>))"

definition inmem_free_page :: "page_id \<Rightarrow> InMemoryPageStore \<Rightarrow> unit result \<times> InMemoryPageStore" where
  "inmem_free_page page_id s =
     (case validate_page_id page_id of
        Inl e \<Rightarrow> (Inl e, s)
      | Inr _ \<Rightarrow>
          let s' = s\<lparr>im_pages := (im_pages s)(page_id := None)\<rparr>
          in if page_id \<notin> set (im_free_pages s')
             then (Inr (), s'\<lparr>im_free_pages := im_free_pages s' @ [page_id]\<rparr>)
             else (Inr (), s'))"

definition inmem_read_page :: "page_id \<Rightarrow> InMemoryPageStore \<Rightarrow> bytes result" where
  "inmem_read_page page_id s =
     rbind (validate_page_id page_id) (\<lambda>_.
       Inr (case im_pages s page_id of
              Some data \<Rightarrow> data
            | None \<Rightarrow> zeroed_page (im_page_size s)))"

definition inmem_write_page ::
  "page_id \<Rightarrow> bytes \<Rightarrow> InMemoryPageStore \<Rightarrow> unit result \<times> InMemoryPageStore"
where
  "inmem_write_page page_id data s =
     (case validate_page_id page_id of
        Inl e \<Rightarrow> (Inl e, s)
      | Inr _ \<Rightarrow>
          if length data \<noteq> unat (im_page_size s)
          then (Inl (Internal ''page write length does not match configured page size''), s)
          else (Inr (), s\<lparr>im_pages := (im_pages s)(page_id \<mapsto> data)\<rparr>))"

definition inmem_write_page_owned ::
  "page_id \<Rightarrow> bytes \<Rightarrow> InMemoryPageStore \<Rightarrow> unit result \<times> InMemoryPageStore"
where
  "inmem_write_page_owned page_id data s =
     (case validate_page_id page_id of
        Inl e \<Rightarrow> (Inl e, s)
      | Inr _ \<Rightarrow>
          if length data \<noteq> unat (im_page_size s)
          then (Inl (Internal ''page write length does not match configured page size''), s)
          else (Inr (), s\<lparr>im_pages := (im_pages s)(page_id \<mapsto> data)\<rparr>))"

definition inmem_ops :: "InMemoryPageStore page_store_ops" where
  "inmem_ops =
     \<lparr>ps_page_size = im_page_size, ps_allocate_page = inmem_allocate_page,
      ps_free_page = inmem_free_page, ps_read_page = inmem_read_page,
      ps_write_page = inmem_write_page, ps_write_page_owned = inmem_write_page_owned\<rparr>"

subsection \<open>Freelist pages\<close>

record FreelistState =
  fl_root_page_id :: u32
  fl_head_page_id :: u32
  fl_page_count :: u32

definition encode_freelist_page :: "u32 \<Rightarrow> page_id \<Rightarrow> bytes" where
  "encode_freelist_page page_size next_id = copy_at (zeroed_page page_size) 0 (u32_le next_id)"

definition decode_freelist_next :: "bytes \<Rightarrow> page_id result" where
  "decode_freelist_next page =
     (if length page < 4
      then Inl (Corruption ''freelist page is shorter than next-page pointer'')
      else Inr (u32_of_le (bslice page 0 4)))"

section \<open>The contract of a page store\<close>

text \<open>
  \<open>pages s\<close> is the content of the allocated pages and \<open>room s\<close> a number of
  allocations that are certain to return an unused page id.
\<close>

locale page_store =
  fixes ops :: "'s page_store_ops"
    and inv :: "'s \<Rightarrow> bool"
    and pages :: "'s \<Rightarrow> page_id \<Rightarrow> bytes option"
    and room :: "'s \<Rightarrow> nat"
  assumes page_0: "inv s \<Longrightarrow> pages s 0 = None"
    and page_length: "inv s \<Longrightarrow> pages s p = Some d \<Longrightarrow> length d = unat (ps_page_size ops s)"
    and page_read: "inv s \<Longrightarrow> pages s p = Some d \<Longrightarrow> ps_read_page ops p s = Inr d"
    and page_write: "inv s \<Longrightarrow> pages s p \<noteq> None \<Longrightarrow> length d = unat (ps_page_size ops s) \<Longrightarrow>
      \<exists>s'. ps_write_page ops p d s = (Inr (), s') \<and> inv s' \<and> pages s' = (pages s)(p \<mapsto> d) \<and>
        ps_page_size ops s' = ps_page_size ops s \<and> room s' = room s"
    and page_write_owned: "inv s \<Longrightarrow> pages s p \<noteq> None \<Longrightarrow>
      ps_write_page_owned ops p d s = ps_write_page ops p d s"
    and page_alloc: "inv s \<Longrightarrow> 0 < room s \<Longrightarrow>
      \<exists>p s'. ps_allocate_page ops s = (Inr p, s') \<and> inv s' \<and> pages s p = None \<and> p \<noteq> 0 \<and>
        pages s' = (pages s)(p \<mapsto> zeroed_page (ps_page_size ops s)) \<and>
        ps_page_size ops s' = ps_page_size ops s \<and> room s' = room s - 1"
    and page_free: "inv s \<Longrightarrow> pages s p \<noteq> None \<Longrightarrow>
      \<exists>s'. ps_free_page ops p s = (Inr (), s') \<and> inv s' \<and> pages s' = (pages s)(p := None) \<and>
        ps_page_size ops s' = ps_page_size ops s \<and> room s' = Suc (room s)"
begin

lemma write_then_read:
  assumes "inv s" "pages s p \<noteq> None" "length d = unat (ps_page_size ops s)"
  shows "\<exists>s'. ps_write_page ops p d s = (Inr (), s') \<and> ps_read_page ops p s' = Inr d \<and>
    (\<forall>q e. q \<noteq> p \<longrightarrow> pages s q = Some e \<longrightarrow> ps_read_page ops q s' = Inr e)"
  using page_write [OF assms] page_read by fastforce

lemma alloc_preserves_reads:
  assumes "inv s" "0 < room s"
  shows "\<exists>p s'. ps_allocate_page ops s = (Inr p, s') \<and> pages s p = None \<and>
    ps_read_page ops p s' = Inr (zeroed_page (ps_page_size ops s)) \<and>
    (\<forall>q e. pages s q = Some e \<longrightarrow> ps_read_page ops q s' = Inr e)"
  using page_alloc [OF assms] page_read by (metis fun_upd_other fun_upd_same option.distinct(1))

end

section \<open>The in-memory store satisfies it\<close>

definition inmem_inv :: "InMemoryPageStore \<Rightarrow> bool" where
  "inmem_inv s \<longleftrightarrow>
     3 \<le> im_next_page_id s \<and> distinct (im_free_pages s) \<and>
     (\<forall>p \<in> set (im_free_pages s). p \<noteq> 0 \<and> p < im_next_page_id s \<and> im_pages s p = None) \<and>
     (\<forall>p d. im_pages s p = Some d \<longrightarrow>
        p \<noteq> 0 \<and> p < im_next_page_id s \<and> length d = unat (im_page_size s))"

definition inmem_room :: "InMemoryPageStore \<Rightarrow> nat" where
  "inmem_room s = length (im_free_pages s) + (2 ^ 32 - 1 - unat (im_next_page_id s))"

lemma length_zeroed_page [simp]: "length (zeroed_page n) = unat n"
  by (simp add: zeroed_page_def)

lemma validate_page_id_simps [simp]:
  "p \<noteq> 0 \<Longrightarrow> validate_page_id p = Inr ()"
  "validate_page_id 0 = Inl (Corruption ''page id 0 is invalid'')"
  by (simp_all add: validate_page_id_def)

lemma inmem_new_inv: "inmem_inv (inmem_new page_size)"
  by (simp add: inmem_inv_def inmem_new_def CATALOG_ROOT_PAGE_ID_def)

lemma inmem_alloc_law:
  assumes inv: "inmem_inv s" and room: "0 < inmem_room s"
  shows "\<exists>p s'. inmem_allocate_page s = (Inr p, s') \<and> inmem_inv s' \<and> im_pages s p = None \<and>
    p \<noteq> 0 \<and> im_pages s' = (im_pages s)(p \<mapsto> zeroed_page (im_page_size s)) \<and>
    im_page_size s' = im_page_size s \<and> inmem_room s' = inmem_room s - 1"
proof (cases "im_free_pages s = []")
  case True
  with room have small: "unat (im_next_page_id s) < 2 ^ 32 - 1" by (simp add: inmem_room_def)
  then have nx: "u32_saturating_add (im_next_page_id s) 1 = im_next_page_id s + 1"
    "unat (im_next_page_id s + 1) = unat (im_next_page_id s) + 1"
    by (simp_all add: u32_saturating_add_def unat_word_ariths)
  have ge: "3 \<le> im_next_page_id s" using inv by (simp add: inmem_inv_def)
  then have "im_next_page_id s \<noteq> 0" "3 \<le> im_next_page_id s + 1" "im_next_page_id s < im_next_page_id s + 1"
    using nx(2) by (auto simp: word_le_nat_alt word_less_nat_alt)
  moreover have "p < im_next_page_id s + 1" if "p < im_next_page_id s" for p
    using that nx(2) by (simp add: word_less_nat_alt)
  moreover have "im_pages s (im_next_page_id s) = None"
    using inv unfolding inmem_inv_def by (metis less_irrefl not_None_eq)
  ultimately show ?thesis
    using inv True nx small
    by (auto simp: inmem_allocate_page_def inmem_inv_def inmem_room_def Let_def)
next
  case False
  then have "im_free_pages s = butlast (im_free_pages s) @ [last (im_free_pages s)]" by simp
  then obtain ps p where f: "im_free_pages s = ps @ [p]" by blast
  with inv show ?thesis
    by (auto simp: inmem_allocate_page_def inmem_inv_def inmem_room_def Let_def)
qed

lemma inmem_write_law:
  assumes "inmem_inv s" "im_pages s p \<noteq> None" "length d = unat (im_page_size s)"
  shows "\<exists>s'. inmem_write_page p d s = (Inr (), s') \<and> inmem_inv s' \<and>
    im_pages s' = (im_pages s)(p \<mapsto> d) \<and> im_page_size s' = im_page_size s \<and>
    inmem_room s' = inmem_room s"
proof -
  from assms have "p \<noteq> 0" by (auto simp: inmem_inv_def)
  with assms show ?thesis
    by (auto simp: inmem_write_page_def inmem_inv_def inmem_room_def)
qed

lemma inmem_free_law:
  assumes "inmem_inv s" "im_pages s p \<noteq> None"
  shows "\<exists>s'. inmem_free_page p s = (Inr (), s') \<and> inmem_inv s' \<and>
    im_pages s' = (im_pages s)(p := None) \<and> im_page_size s' = im_page_size s \<and>
    inmem_room s' = Suc (inmem_room s)"
proof -
  from assms have "p \<noteq> 0" "p \<notin> set (im_free_pages s)" by (auto simp: inmem_inv_def)
  with assms show ?thesis
    by (auto simp: inmem_free_page_def inmem_inv_def inmem_room_def Let_def)
qed

interpretation inmem: page_store inmem_ops inmem_inv im_pages inmem_room
proof (unfold_locales, goal_cases)
  case (1 s)
  then show ?case by (auto simp: inmem_inv_def) (metis not_None_eq)
next
  case (2 s p d)
  then show ?case by (simp add: inmem_inv_def inmem_ops_def)
next
  case (3 s p d)
  then have "p \<noteq> 0" by (auto simp: inmem_inv_def)
  with 3 show ?case by (simp add: inmem_ops_def inmem_read_page_def)
next
  case (4 s p d)
  then show ?case using inmem_write_law by (simp add: inmem_ops_def)
next
  case (5 s p d)
  then show ?case by (simp add: inmem_ops_def inmem_write_page_def inmem_write_page_owned_def)
next
  case (6 s)
  then show ?case using inmem_alloc_law by (simp add: inmem_ops_def)
next
  case (7 s p)
  then show ?case using inmem_free_law by (simp add: inmem_ops_def)
qed

section \<open>Page positions in the file\<close>

lemma page_offset_unat:
  "p \<noteq> 0 \<Longrightarrow> unat (page_offset p sz) = (unat p - 1) * unat sz"
proof -
  assume "p \<noteq> 0"
  then have p1: "1 \<le> p" by (simp add: word_le_nat_alt unat_gt_0 Suc_le_eq)
  then have "unat (p - 1) = unat p - 1" by (simp add: unat_sub word_le_nat_alt)
  moreover have "unat (ucast (p - 1) * ucast sz :: u64) = unat (p - 1) * unat sz"
  proof -
    have "unat (p - 1) * unat sz < 2 ^ 32 * 2 ^ 32"
      using unsigned_less [of "p - 1", where ?'a = nat] unsigned_less [of sz, where ?'a = nat]
      by (intro mult_strict_mono) auto
    then show ?thesis by (simp add: unat_word_ariths)
  qed
  ultimately show ?thesis
    using p1 by (simp add: page_offset_def u32_saturating_sub_def)
qed

section \<open>Properties\<close>

text \<open>
  Pages do not overlap in the file: the offset of a page is computed without
  wrap-around, and the bytes of a lower-numbered page end before a
  higher-numbered one begins.
\<close>

theorem page_ranges_disjoint:
  assumes "p \<noteq> 0" "p < q"
  shows "unat (page_offset p sz) = (unat p - 1) * unat sz \<and>
    unat (page_offset p sz) + unat sz \<le> unat (page_offset q sz)"
proof -
  have "q \<noteq> 0" using assms(2) by auto
  moreover have "unat p - 1 + 1 \<le> unat q - 1"
    using assms by (auto simp: word_less_nat_alt unat_gt_0 [symmetric])
  then have "(unat p - 1 + 1) * unat sz \<le> (unat q - 1) * unat sz" by (rule mult_le_mono1)
  ultimately show ?thesis using assms(1) by (simp add: page_offset_unat)
qed

theorem page_ranges_disjoint_witness:
  "unat (page_offset 3 4096) = 8192 \<and> unat (page_offset 3 4096) + 4096 \<le> unat (page_offset 5 4096)"
  using page_ranges_disjoint [of 3 5 4096] by simp

text \<open>
  C32: The in-memory page store implements a map of pages: from a well-formed store
  with room left, allocation returns an id that no live page has, a write to a
  live page is what a later read of it returns, freeing removes exactly that
  page, no other page changes, and every one of these operations succeeds and
  leaves the store well-formed.
\<close>

theorem inmem_implements_page_map:
  assumes "inmem_inv s"
  shows "(0 < inmem_room s \<longrightarrow>
      (\<exists>p s'. inmem_allocate_page s = (Inr p, s') \<and> inmem_inv s' \<and> im_pages s p = None \<and>
        im_pages s' = (im_pages s)(p \<mapsto> zeroed_page (im_page_size s)))) \<and>
    (im_pages s p \<noteq> None \<and> length d = unat (im_page_size s) \<longrightarrow>
      (\<exists>s'. inmem_write_page p d s = (Inr (), s') \<and> inmem_inv s' \<and>
        im_pages s' = (im_pages s)(p \<mapsto> d) \<and> inmem_read_page p s' = Inr d)) \<and>
    (im_pages s p \<noteq> None \<longrightarrow>
      (\<exists>s'. inmem_free_page p s = (Inr (), s') \<and> inmem_inv s' \<and>
        im_pages s' = (im_pages s)(p := None)))"
proof (intro conjI impI)
  assume "0 < inmem_room s"
  from inmem_alloc_law [OF assms this]
  show "\<exists>p s'. inmem_allocate_page s = (Inr p, s') \<and> inmem_inv s' \<and> im_pages s p = None \<and>
        im_pages s' = (im_pages s)(p \<mapsto> zeroed_page (im_page_size s))" by blast
next
  assume "im_pages s p \<noteq> None \<and> length d = unat (im_page_size s)"
  with inmem.write_then_read [OF assms, of p d] inmem_write_law [OF assms, of p d]
  show "\<exists>s'. inmem_write_page p d s = (Inr (), s') \<and> inmem_inv s' \<and>
        im_pages s' = (im_pages s)(p \<mapsto> d) \<and> inmem_read_page p s' = Inr d"
    by (auto simp: inmem_ops_def)
next
  assume "im_pages s p \<noteq> None"
  from inmem_free_law [OF assms this]
  show "\<exists>s'. inmem_free_page p s = (Inr (), s') \<and> inmem_inv s' \<and>
        im_pages s' = (im_pages s)(p := None)" by blast
qed

theorem inmem_implements_page_map_witness:
  "\<exists>p s'. inmem_allocate_page (inmem_new 4096) = (Inr p, s') \<and> inmem_inv s' \<and>
     im_pages s' = (im_pages (inmem_new 4096))(p \<mapsto> zeroed_page (im_page_size (inmem_new 4096)))"
proof -
  have "0 < inmem_room (inmem_new 4096)"
    by (simp add: inmem_room_def inmem_new_def CATALOG_ROOT_PAGE_ID_def)
  with inmem_implements_page_map [OF inmem_new_inv] show ?thesis by blast
qed

text \<open>
  A freelist page decodes to the successor it was encoded with, for every
  supported page size, and is a full page; a page shorter than the pointer is
  reported as corruption.
\<close>

theorem freelist_page_roundtrip:
  assumes "is_supported_page_size sz"
  shows "decode_freelist_next (encode_freelist_page sz next_id) = Inr next_id \<and>
    length (encode_freelist_page sz next_id) = unat sz \<and>
    (length short < 4 \<longrightarrow>
      decode_freelist_next short = Inl (Corruption ''freelist page is shorter than next-page pointer''))"
proof -
  have "4 \<le> unat sz"
    using assms by (auto simp: is_supported_page_size_def SUPPORTED_PAGE_SIZES_def)
  then show ?thesis
    by (simp add: decode_freelist_next_def encode_freelist_page_def copy_at_def)
qed

theorem freelist_page_roundtrip_witness:
  "decode_freelist_next (encode_freelist_page 4096 77) = Inr 77 \<and>
   length (encode_freelist_page 4096 77) = 4096 \<and>
   decode_freelist_next [1] = Inl (Corruption ''freelist page is shorter than next-page pointer'')"
  using freelist_page_roundtrip [of 4096 77 "[1]"]
  by (simp add: is_supported_page_size_def SUPPORTED_PAGE_SIZES_def)

end
