(* ===== verification/Checksum.thy ===== *)
theory Checksum
  imports Prelude
begin

text \<open>
  CRC-32C as \<open>storage/checksum.rs\<close> computes it: the table-driven software routine,
  the SSE4.2 routine over the two \<open>crc32\<close> instructions, and the incremental patch
  that updates a stored checksum without the unchanged bytes by multiplying with
  GF(2) matrices.  The instructions are parameters (\<open>crc_cpu\<close>); \<open>crc_cpu_ok\<close> is
  their documented behaviour.  The lemmas show that every routine computes the
  bit-serial CRC register \<open>crc_bit\<close>, which is linear over exclusive or.
\<close>

section \<open>Definitions\<close>

definition CRC32C_POLYNOMIAL :: u32 where
  "CRC32C_POLYNOMIAL = 0x82F63B78"

definition crc_bit :: "u32 \<Rightarrow> u32" where
  "crc_bit crc = (if crc AND 1 = 1 then drop_bit 1 crc XOR CRC32C_POLYNOMIAL else drop_bit 1 crc)"

definition build_crc32c_table :: "u32 list" where
  "build_crc32c_table = map (\<lambda>index. (crc_bit ^^ 8) (of_nat index)) [0..<256]"

definition crc32c_software_step :: "u32 \<Rightarrow> u8 \<Rightarrow> u32" where
  "crc32c_software_step crc byte =
     (let table_index = unat ((crc XOR ucast byte) AND 0xFF)
      in drop_bit 8 crc XOR build_crc32c_table ! table_index)"

definition crc32c_software :: "u32 \<Rightarrow> bytes \<Rightarrow> u32" where
  "crc32c_software crc bs = foldl crc32c_software_step crc bs"

text \<open>The processor: whether SSE4.2 is detected and what its two instructions return.\<close>

record crc_cpu =
  has_sse42 :: bool
  mm_crc32_u64 :: "u64 \<Rightarrow> u64 \<Rightarrow> u64"
  mm_crc32_u8 :: "u32 \<Rightarrow> u8 \<Rightarrow> u32"

text \<open>The \<open>while i < chunks_end\<close> loop of \<open>crc32c_hw\<close>, with the bytes left to process.\<close>

fun crc32c_hw_chunks :: "crc_cpu \<Rightarrow> u64 \<Rightarrow> bytes \<Rightarrow> u64 \<times> bytes" where
  "crc32c_hw_chunks cpu crc64 (b0 # b1 # b2 # b3 # b4 # b5 # b6 # b7 # rest) =
     crc32c_hw_chunks cpu
       (mm_crc32_u64 cpu crc64 (u64_of_le [b0, b1, b2, b3, b4, b5, b6, b7])) rest"
| "crc32c_hw_chunks cpu crc64 rest = (crc64, rest)"

definition crc32c_hw :: "crc_cpu \<Rightarrow> u32 \<Rightarrow> bytes \<Rightarrow> u32" where
  "crc32c_hw cpu crc bs =
     (let (crc64, rest) = crc32c_hw_chunks cpu (ucast crc) bs
      in foldl (mm_crc32_u8 cpu) (ucast crc64) rest)"

definition crc32c_update :: "crc_cpu \<Rightarrow> u32 \<Rightarrow> bytes \<Rightarrow> u32" where
  "crc32c_update cpu crc bs =
     (if has_sse42 cpu then crc32c_hw cpu crc bs else crc32c_software crc bs)"

definition crc32c_parts :: "crc_cpu \<Rightarrow> bytes list \<Rightarrow> u32" where
  "crc32c_parts cpu parts = NOT (foldl (crc32c_update cpu) (- 1) parts)"

definition crc32c_extend :: "crc_cpu \<Rightarrow> u32 \<Rightarrow> bytes list \<Rightarrow> u32" where
  "crc32c_extend cpu initial_crc parts = NOT (foldl (crc32c_update cpu) (NOT initial_crc) parts)"

lemma drop_bit_1_less: "(v :: u32) \<noteq> 0 \<Longrightarrow> unat (drop_bit 1 v) < unat v"
  by (simp add: drop_bit_eq_div unat_div_distrib unat_gt_0)

function gf2_matrix_times_loop :: "u32 list \<Rightarrow> u32 \<Rightarrow> nat \<Rightarrow> u32 \<Rightarrow> u32" where
  "gf2_matrix_times_loop matrix v index acc =
     (if v \<noteq> 0
      then gf2_matrix_times_loop matrix (drop_bit 1 v) (index + 1)
             (if v AND 1 \<noteq> 0 then acc XOR matrix ! index else acc)
      else acc)"
  by pat_completeness auto
termination
  by (relation "measure (\<lambda>(_, v, _, _). unat v)") (auto simp: drop_bit_1_less simp del: One_nat_def)

definition gf2_matrix_times :: "u32 list \<Rightarrow> u32 \<Rightarrow> u32" where
  "gf2_matrix_times matrix v = gf2_matrix_times_loop matrix v 0 0"

definition gf2_matrix_square :: "u32 list \<Rightarrow> u32 list" where
  "gf2_matrix_square matrix = map (\<lambda>index. gf2_matrix_times matrix (matrix ! index)) [0..<32]"

text \<open>The matrix of one zero bit, and the squaring loop over the number of zero bytes.\<close>

definition crc32c_zero_bit_matrix :: "u32 list" where
  "crc32c_zero_bit_matrix = CRC32C_POLYNOMIAL # map (\<lambda>k. push_bit k 1) [0..<31]"

function crc32c_shift_loop :: "u32 list \<Rightarrow> nat \<Rightarrow> u32 \<Rightarrow> u32" where
  "crc32c_shift_loop odd_m zero_bytes crc =
     (let even_m = gf2_matrix_square odd_m;
          crc1 = (if zero_bytes mod 2 \<noteq> 0 then gf2_matrix_times even_m crc else crc);
          zero_bytes1 = zero_bytes div 2
      in if zero_bytes1 = 0 then crc1
         else
           let odd_m2 = gf2_matrix_square even_m;
               crc2 = (if zero_bytes1 mod 2 \<noteq> 0 then gf2_matrix_times odd_m2 crc1 else crc1);
               zero_bytes2 = zero_bytes1 div 2
           in if zero_bytes2 = 0 then crc2 else crc32c_shift_loop odd_m2 zero_bytes2 crc2)"
  by pat_completeness auto
termination
  by (relation "measure (\<lambda>(_, n, _). n)") auto

definition crc32c_shift_zeroes :: "u32 \<Rightarrow> nat \<Rightarrow> u32" where
  "crc32c_shift_zeroes crc zero_bytes =
     (if zero_bytes = 0 then crc
      else
        let odd_m = crc32c_zero_bit_matrix;
            even_m = gf2_matrix_square odd_m;
            odd_m2 = gf2_matrix_square even_m
        in crc32c_shift_loop odd_m2 zero_bytes crc)"

definition crc32c_patch_bytes ::
  "crc_cpu \<Rightarrow> u32 \<Rightarrow> nat \<Rightarrow> nat \<Rightarrow> bytes \<Rightarrow> bytes \<Rightarrow> u32 option"
where
  "crc32c_patch_bytes cpu existing_crc total_len offset old_bytes new_bytes =
     (if length old_bytes \<noteq> length new_bytes then None
      else case usize_checked_add offset (length old_bytes) of
        None \<Rightarrow> None
      | Some end_ \<Rightarrow>
          if end_ > total_len then None
          else
            let delta = map2 (XOR) old_bytes new_bytes;
                changed = list_ex (\<lambda>byte. byte \<noteq> 0) delta
            in if \<not> changed then Some existing_crc
               else
                 let delta_crc = crc32c_update cpu 0 delta;
                     delta_crc' = crc32c_shift_zeroes delta_crc (total_len - end_)
                 in Some (existing_crc XOR delta_crc'))"

text \<open>
  What the instructions compute: \<open>crc32 r32, r/m8\<close> feeds eight bits into the
  register, \<open>crc32 r64, r/m64\<close> feeds the eight bytes of its operand from the lowest
  on and clears the upper half of the destination.
\<close>

definition crc_byte :: "u32 \<Rightarrow> u8 \<Rightarrow> u32" where
  "crc_byte crc byte = (crc_bit ^^ 8) (crc XOR ucast byte)"

definition crc_cpu_ok :: "crc_cpu \<Rightarrow> bool" where
  "crc_cpu_ok cpu \<longleftrightarrow>
     (\<forall>crc byte. mm_crc32_u8 cpu crc byte = crc_byte crc byte) \<and>
     (\<forall>crc64 w. mm_crc32_u64 cpu crc64 w =
        ucast (foldl crc_byte (ucast crc64) (u64_le w)))"

section \<open>The register is linear\<close>

lemma crc_bit_alt: "crc_bit c = drop_bit 1 c XOR (if bit c 0 then CRC32C_POLYNOMIAL else 0)"
  by (simp add: crc_bit_def and_one_eq mod_2_eq_odd bit_0)

lemma crc_bit_xor: "crc_bit (a XOR b) = crc_bit a XOR crc_bit b"
  unfolding crc_bit_alt drop_bit_xor bit_xor_iff by (auto simp: ac_simps)

lemma crc_bit_0 [simp]: "crc_bit 0 = 0"
  by (simp add: crc_bit_alt)

lemma crc_bits_xor: "(crc_bit ^^ n) (a XOR b) = (crc_bit ^^ n) a XOR (crc_bit ^^ n) b"
  by (induction n) (simp_all add: crc_bit_xor)

lemma crc_bits_0 [simp]: "(crc_bit ^^ n) 0 = 0"
  by (induction n) simp_all

lemma crc_bits_shift: "(\<And>i. i < n \<Longrightarrow> \<not> bit c i) \<Longrightarrow> (crc_bit ^^ n) c = drop_bit n c"
proof (induction n)
  case (Suc n)
  then have "(crc_bit ^^ n) c = drop_bit n c" by simp
  moreover have "\<not> bit (drop_bit n c) 0"
    using Suc.prems [of n] by (simp add: bit_drop_bit_eq)
  ultimately show ?case 
    using crc_bit_alt [of "drop_bit n c"] by (simp add: drop_bit_drop_bit)
qed simp

lemma word_split_low: "(x :: 'a::len word) = take_bit n x XOR push_bit n (drop_bit n x)"
proof (rule bit_eqI)
  fix i
  show "bit x i \<longleftrightarrow> bit (take_bit n x XOR push_bit n (drop_bit n x)) i"
    by (cases "i < n") (auto simp: bit_simps dest: bit_imp_le_length)
qed

lemma crc_bits_split:
  "(crc_bit ^^ n) x = (crc_bit ^^ n) (take_bit n x) XOR drop_bit n x"
proof -
  have "(crc_bit ^^ n) (push_bit n (drop_bit n x)) = drop_bit n x"
  proof (subst crc_bits_shift)
    show "drop_bit n (push_bit n (drop_bit n x)) = drop_bit n x"
      by (rule bit_eqI) (use bit_imp_le_length [of x] in \<open>force simp: bit_simps\<close>)
  qed (simp add: bit_simps)
  then show ?thesis
    by (subst word_split_low [of x n]) (simp only: crc_bits_xor)
qed

section \<open>Every routine computes the register\<close>

lemma table_nth: "i < 256 \<Longrightarrow> build_crc32c_table ! i = (crc_bit ^^ 8) (of_nat i)"
  by (simp add: build_crc32c_table_def)

lemma and_FF: "(x :: 'a::len word) AND 0xFF = take_bit 8 x"
  by (simp add: take_bit_eq_mask mask_eq_exp_minus_1)

lemma drop_8_byte: "drop_bit 8 (ucast (b :: u8)) = (0 :: u32)"
  by (rule bit_eqI) (auto simp: bit_simps dest: bit_imp_le_length)

lemma unat_take_bit_8: "unat (take_bit 8 (x :: u32)) < 256"
  by (simp add: take_bit_eq_mod unat_mod_distrib)

lemma software_step_eq: "crc32c_software_step c b = crc_byte c b"
proof -
  let ?x = "c XOR ucast b"
  have "crc_byte c b = (crc_bit ^^ 8) (take_bit 8 ?x) XOR drop_bit 8 ?x"
    unfolding crc_byte_def by (rule crc_bits_split)
  moreover have "build_crc32c_table ! unat (take_bit 8 ?x) = (crc_bit ^^ 8) (take_bit 8 ?x)"
    using unat_take_bit_8 [of ?x] by (simp add: table_nth)
  ultimately show ?thesis
    by (simp add: crc32c_software_step_def Let_def and_FF drop_8_byte xor.commute del: take_bit_xor)
qed

lemma crc32c_software_eq: "crc32c_software c bs = foldl crc_byte c bs"
  unfolding crc32c_software_def software_step_eq [abs_def] ..

lemma ucast_u64_u32 [simp]: "ucast (ucast (c :: u32) :: u64) = c"
  by (rule bit_eqI) (auto simp: bit_simps)

lemma hw_chunks_eq:
  assumes "crc_cpu_ok cpu"
  shows "foldl crc_byte (ucast (fst (crc32c_hw_chunks cpu r bs))) (snd (crc32c_hw_chunks cpu r bs)) =
    foldl crc_byte (ucast r) bs"
  using assms
proof (induction cpu r bs rule: crc32c_hw_chunks.induct)
  case (1 cpu r b0 b1 b2 b3 b4 b5 b6 b7 rest)
  have "u64_le (u64_of_le [b0, b1, b2, b3, b4, b5, b6, b7]) = [b0, b1, b2, b3, b4, b5, b6, b7]"
    by (simp add: u64_le_of_le)
  with 1 show ?case by (simp add: crc_cpu_ok_def)
qed simp_all

lemma crc32c_update_eq:
  assumes "crc_cpu_ok cpu"
  shows "crc32c_update cpu c bs = foldl crc_byte c bs"
proof -
  have "mm_crc32_u8 cpu = crc_byte"
    using assms by (auto simp: crc_cpu_ok_def)
  then show ?thesis
    using hw_chunks_eq [OF assms, of "ucast c" bs]
    by (simp add: crc32c_update_def crc32c_software_eq crc32c_hw_def case_prod_unfold Let_def)
qed

lemma crc_reg_xor:
  "length xs = length ys \<Longrightarrow>
     foldl crc_byte (a XOR b) (map2 (XOR) xs ys) = foldl crc_byte a xs XOR foldl crc_byte b ys"
proof (induction xs ys arbitrary: a b rule: list_induct2)
  case (Cons x xs y ys)
  have "crc_byte (a XOR b) (x XOR y) = crc_byte a x XOR crc_byte b y"
    unfolding crc_byte_def crc_bits_xor [symmetric] by (simp add: ac_simps unsigned_xor_eq)
  with Cons.IH show ?case by simp
qed simp

lemma crc_reg_zeroes: "foldl crc_byte c (replicate n 0) = (crc_bit ^^ (8 * n)) c"
proof (induction n arbitrary: c)
  case (Suc n)
  have "(crc_bit ^^ (8 * n)) ((crc_bit ^^ 8) c) = (crc_bit ^^ (8 * n + 8)) c"
    by (simp only: funpow_add comp_def)
  with Suc show ?case by (simp add: crc_byte_def add.commute)
qed simp

section \<open>The matrices of zero bits\<close>

definition gf2_repr :: "u32 list \<Rightarrow> (u32 \<Rightarrow> u32) \<Rightarrow> bool" where
  "gf2_repr M f \<longleftrightarrow> length M = 32 \<and> (\<forall>a b. f (a XOR b) = f a XOR f b) \<and>
     (\<forall>i < 32. M ! i = f (push_bit i 1))"

declare gf2_matrix_times_loop.simps [simp del]

lemma gf2_linear_0: "gf2_repr M f \<Longrightarrow> f 0 = 0"
  unfolding gf2_repr_def by (metis xor_self_eq)

lemma unat_drop_bit_1: "unat (drop_bit 1 (v :: u32)) = unat v div 2"
  by (simp add: drop_bit_eq_div unat_div_distrib)

lemma push_bit_split_lsb:
  "push_bit i v = (if v AND 1 \<noteq> 0 then push_bit i 1 else 0) XOR push_bit (Suc i) (drop_bit 1 (v :: u32))"
proof (rule bit_eqI)
  fix n
  have "v AND 1 \<noteq> 0 \<longleftrightarrow> bit v 0" using and_exp_eq_0_iff_not_bit [of v 0] by simp
  then show "bit (push_bit i v) n \<longleftrightarrow>
      bit ((if v AND 1 \<noteq> 0 then push_bit i 1 else 0) XOR push_bit (Suc i) (drop_bit 1 v)) n"
    by (cases "n = i"; cases "n < i") (auto simp: bit_simps bit_1_iff Suc_diff_Suc simp del: push_bit_Suc)
qed

lemma gf2_times_loop:
  assumes "gf2_repr M f"
  shows "unat v < 2 ^ (32 - i) \<Longrightarrow> i \<le> 32 \<Longrightarrow>
    gf2_matrix_times_loop M v i acc = acc XOR f (push_bit i v)"
proof (induction v arbitrary: i acc rule: measure_induct_rule [of unat])
  case (less v)
  show ?case
  proof (cases "v = 0")
    case True
    then show ?thesis
      using gf2_linear_0 [OF assms] by (simp add: gf2_matrix_times_loop.simps)
  next
    case False
    with less.prems have i: "i < 32" by (cases "i = 32") (auto simp: unat_eq_0)
    then have "32 - i = Suc (32 - Suc i)" by simp
    with less.prems have "unat (drop_bit 1 v) < 2 ^ (32 - Suc i)"
      by (simp add: unat_drop_bit_1 div_less_iff_less_mult del: One_nat_def)
    then have "gf2_matrix_times_loop M (drop_bit 1 v) (Suc i) a =
        a XOR f (push_bit (Suc i) (drop_bit 1 v))" for a
      using less.IH [OF drop_bit_1_less [OF False]] i by simp
    moreover have "f (push_bit i v) = (if v AND 1 \<noteq> 0 then M ! i else 0) XOR
        f (push_bit (Suc i) (drop_bit 1 v))"
      using assms i gf2_linear_0 [OF assms]
      by (subst push_bit_split_lsb) (simp add: gf2_repr_def)
    ultimately show ?thesis
      using False by (subst gf2_matrix_times_loop.simps) (simp add: xor.assoc)
  qed
qed

lemma gf2_matrix_times_eq: "gf2_repr M f \<Longrightarrow> gf2_matrix_times M v = f v"
  unfolding gf2_matrix_times_def
  using gf2_times_loop [of M f v 0 0] unsigned_less [of v, where ?'a = nat] by simp

lemma gf2_square_repr: "gf2_repr M f \<Longrightarrow> gf2_repr (gf2_matrix_square M) (f \<circ> f)"
  by (auto simp: gf2_matrix_square_def gf2_matrix_times_eq)
     (auto simp: gf2_repr_def gf2_matrix_times_eq)

lemma zero_bit_matrix_repr: "gf2_repr crc32c_zero_bit_matrix crc_bit"
proof -
  have "crc32c_zero_bit_matrix ! i = crc_bit (push_bit i 1)" if "i < 32" for i
  proof (cases i)
    case 0
    then show ?thesis by (simp add: crc32c_zero_bit_matrix_def crc_bit_def)
  next
    case (Suc k)
    have "drop_bit 1 (push_bit (Suc k) 1 :: u32) = push_bit k 1"
      using that Suc by (intro bit_eqI) (auto simp: bit_simps)
    moreover have "\<not> bit (push_bit (Suc k) 1 :: u32) 0" by (simp add: bit_simps)
    ultimately show ?thesis
      using that Suc unfolding crc_bit_alt by (simp add: crc32c_zero_bit_matrix_def del: One_nat_def)
  qed
  then show ?thesis by (simp add: gf2_repr_def crc_bit_xor crc32c_zero_bit_matrix_def)
qed

declare crc32c_shift_loop.simps [simp del]

lemma crc32c_shift_loop_eq:
  "gf2_repr odd_m (crc_bit ^^ k) \<Longrightarrow>
     crc32c_shift_loop odd_m n crc = (crc_bit ^^ (2 * k * n)) crc"
proof (induction odd_m n crc arbitrary: k rule: crc32c_shift_loop.induct)
  case (1 odd_m n crc)
  have sq: "gf2_repr (gf2_matrix_square M) (crc_bit ^^ (2 * j))" if "gf2_repr M (crc_bit ^^ j)" for M j
    using gf2_square_repr [OF that] by (simp add: mult_2 funpow_add)
  let ?even = "gf2_matrix_square odd_m"
  let ?odd = "gf2_matrix_square ?even"
  have e: "gf2_repr ?even (crc_bit ^^ (2 * k))" using sq [OF "1.prems"] .
  have o: "gf2_repr ?odd (crc_bit ^^ (2 * (2 * k)))" using sq [OF e] .
  let ?c1 = "if n mod 2 \<noteq> 0 then gf2_matrix_times ?even crc else crc"
  have c1: "?c1 = (crc_bit ^^ (2 * k * (n mod 2))) crc"
    using gf2_matrix_times_eq [OF e] by (cases "n mod 2 = 0") (auto simp: mod_2_eq_odd)
  let ?n1 = "n div 2"
  let ?c2 = "if ?n1 mod 2 \<noteq> 0 then gf2_matrix_times ?odd ?c1 else ?c1"
  have c2: "?c2 = (crc_bit ^^ (4 * k * (?n1 mod 2) + 2 * k * (n mod 2))) crc"
    using gf2_matrix_times_eq [OF o, of ?c1] unfolding c1
    by (cases "?n1 mod 2 = 0") (auto simp: mod_2_eq_odd funpow_add)
  have n1: "n = 2 * ?n1 + n mod 2" and n2: "?n1 = 2 * (?n1 div 2) + ?n1 mod 2" by simp_all
  show ?case
  proof (cases "?n1 = 0")
    case True
    then have "n mod 2 = n" by (simp add: div_eq_0_iff)
    with True c1 show ?thesis by (subst crc32c_shift_loop.simps) (simp add: Let_def)
  next
    case F1: False
    show ?thesis
    proof (cases "?n1 div 2 = 0")
      case True
      then have m: "?n1 mod 2 = ?n1" by (simp add: div_eq_0_iff)
      have "2 * k * n = 2 * k * (2 * ?n1 + n mod 2)" by simp
      also have "\<dots> = 4 * k * (?n1 mod 2) + 2 * k * (n mod 2)"
        unfolding m by (simp only: distrib_left mult.assoc)
      finally have "2 * k * n = 4 * k * (?n1 mod 2) + 2 * k * (n mod 2)" .
      with True F1 c2 show ?thesis by (subst crc32c_shift_loop.simps) (simp add: Let_def)
    next
      case False
      have "crc32c_shift_loop odd_m n crc = crc32c_shift_loop ?odd (?n1 div 2) ?c2"
        using F1 False by (subst crc32c_shift_loop.simps) (simp only: Let_def if_False)
      also have "\<dots> = (crc_bit ^^ (2 * (2 * (2 * k)) * (?n1 div 2))) ?c2"
        by (rule "1.IH") (use F1 False o in simp_all)
      also have "\<dots> = (crc_bit ^^ (2 * (2 * (2 * k)) * (?n1 div 2) +
          (4 * k * (?n1 mod 2) + 2 * k * (n mod 2)))) crc"
        unfolding c2 by (simp only: funpow_add comp_def)
      also have "2 * (2 * (2 * k)) * (?n1 div 2) + (4 * k * (?n1 mod 2) + 2 * k * (n mod 2)) = 2 * k * n"
        by (subst (4) n1, subst (3) n2) (simp only: algebra_simps)
      finally show ?thesis .
    qed
  qed
qed

lemma crc32c_shift_zeroes_eq: "crc32c_shift_zeroes crc n = (crc_bit ^^ (8 * n)) crc"
proof -
  have "gf2_repr (gf2_matrix_square crc32c_zero_bit_matrix) (crc_bit ^^ 2)"
    using gf2_square_repr [OF zero_bit_matrix_repr] by (simp add: numeral_2_eq_2 comp_def)
  from gf2_square_repr [OF this]
  have "gf2_repr (gf2_matrix_square (gf2_matrix_square crc32c_zero_bit_matrix)) (crc_bit ^^ 4)"
    by (simp add: funpow_add [symmetric])
  from crc32c_shift_loop_eq [OF this, of n crc] show ?thesis
    by (simp add: crc32c_shift_zeroes_def Let_def)
qed

section \<open>Bursts of up to four bytes\<close>

lemma crc_bit_eq_0: "crc_bit c = 0 \<Longrightarrow> c = 0"
proof -
  assume z: "crc_bit c = 0"
  have "bit CRC32C_POLYNOMIAL 31" by (simp add: CRC32C_POLYNOMIAL_def)
  moreover have "\<not> bit (drop_bit 1 c) 31" by (auto simp: bit_simps dest: bit_imp_le_length)
  ultimately have "bit (crc_bit c) 31" if "bit c 0"
    using that unfolding crc_bit_alt bit_xor_iff by simp
  with z have "\<not> bit c 0" by auto
  with z have d: "drop_bit 1 c = 0" by (simp add: crc_bit_alt)
  show "c = 0"
  proof (rule bit_eqI)
    fix n
    show "bit c n \<longleftrightarrow> bit 0 n"
      using \<open>\<not> bit c 0\<close> d bit_drop_bit_eq [of 1 c] by (cases n) (auto simp: fun_eq_iff)
  qed
qed

lemma crc_bits_eq_0: "(crc_bit ^^ n) c = 0 \<Longrightarrow> c = 0"
  by (induction n arbitrary: c) (auto dest: crc_bit_eq_0)

lemma le_word_Cons:
  "length bs \<le> 3 \<Longrightarrow>
     (of_nat (le_nat (b # bs)) :: u32) = ucast b XOR push_bit 8 (of_nat (le_nat bs))"
proof -
  have "(ucast b :: u32) AND push_bit 8 (of_nat (le_nat bs)) = 0"
    by (rule bit_eqI) (auto simp: bit_simps dest: bit_imp_le_length)
  from disjunctive_add_eq_xor [OF this]
  have "ucast b XOR push_bit 8 (of_nat (le_nat bs)) = (ucast b :: u32) + push_bit 8 (of_nat (le_nat bs))"
    by simp
  also have "\<dots> = of_nat (le_nat (b # bs))" by (simp add: push_bit_eq_mult)
  finally show ?thesis by simp
qed

lemma drop_push_8_small:
  assumes "length bs \<le> 3"
  shows "drop_bit 8 (push_bit 8 (of_nat (le_nat bs) :: u32)) = of_nat (le_nat bs)"
proof -
  have "le_nat bs < 256 ^ length bs" by (rule le_nat_less)
  also have "\<dots> \<le> 256 ^ 3" using assms by (intro power_increasing) auto
  finally have "le_nat bs < 2 ^ 24" by simp
  then have hi: "\<not> bit (le_nat bs) i" if "24 \<le> i" for i
    using that power_increasing [of 24 i "2 :: nat"] by (simp add: bit_iff_odd)
  show ?thesis
  proof (rule bit_eqI)
    fix n
    show "bit (drop_bit 8 (push_bit 8 (of_nat (le_nat bs) :: u32))) n \<longleftrightarrow>
        bit (of_nat (le_nat bs) :: u32) n"
      using hi [of n] by (cases "24 \<le> n") (simp_all add: bit_simps del: push_bit_of_nat)
  qed
qed

lemma crc_reg_word:
  "length bs \<le> 4 \<Longrightarrow>
     foldl crc_byte c bs = (crc_bit ^^ (8 * length bs)) (c XOR of_nat (le_nat bs))"
proof (induction bs arbitrary: c)
  case (Cons b bs)
  let ?w = "of_nat (le_nat bs) :: u32"
  from Cons.prems have "(crc_bit ^^ 8) (push_bit 8 ?w) = ?w"
    by (subst crc_bits_shift) (simp_all add: bit_simps drop_push_8_small del: push_bit_of_nat)
  then have "crc_byte c b XOR ?w = (crc_bit ^^ 8) ((c XOR ucast b) XOR push_bit 8 ?w)"
    unfolding crc_bits_xor crc_byte_def by simp
  moreover have "foldl crc_byte c (b # bs) = (crc_bit ^^ (8 * length bs)) (crc_byte c b XOR ?w)"
    using Cons by simp
  moreover have "8 * length (b # bs) = 8 * length bs + 8" by simp
  moreover have "c XOR of_nat (le_nat (b # bs)) = (c XOR ucast b) XOR push_bit 8 ?w"
    using le_word_Cons [of bs b] Cons.prems by (simp only: xor.assoc) simp
  ultimately show ?case by (simp only: funpow_add comp_def)
qed simp

lemma crc_reg_delta_nonzero:
  assumes "length d \<le> 4" "\<exists>b \<in> set d. b \<noteq> 0"
  shows "foldl crc_byte 0 d \<noteq> 0"
proof
  assume "foldl crc_byte 0 d = 0"
  with assms(1) have "(of_nat (le_nat d) :: u32) = 0"
    by (auto simp: crc_reg_word dest: crc_bits_eq_0)
  moreover have "le_nat d < 2 ^ 32"
  proof -
    have "le_nat d < 256 ^ length d" by (rule le_nat_less)
    also have "\<dots> \<le> 256 ^ 4" using assms(1) by (intro power_increasing) auto
    finally show ?thesis by simp
  qed
  then have "unat (of_nat (le_nat d) :: u32) = le_nat d" by (simp add: unat_of_nat)
  ultimately have "le_nat d = 0" by simp
  then have "d = le_bytes (length d) 0" using le_bytes_le_nat [of d] by simp
  moreover have "set (le_bytes n 0) \<subseteq> {0}" for n by (induction n) auto
  ultimately show False using assms(2) by (metis singletonD subsetD)
qed

lemma xor_eq_0_imp: "(x :: 'a::len word) XOR y = 0 \<Longrightarrow> x = y"
  by (metis xor.assoc xor.left_neutral xor.right_neutral xor_self_eq)

lemma map2_xor_self [simp]: "map2 (XOR) xs xs = replicate (length xs) (0 :: u8)"
  by (induction xs) simp_all

text \<open>A change of \<open>old\<close> to \<open>new\<close> inside a message moves the register by the difference alone.\<close>

lemma crc_reg_change:
  assumes "length new = length old"
  shows "foldl crc_byte c (pre @ new @ post) =
    foldl crc_byte c (pre @ old @ post) XOR
    (crc_bit ^^ (8 * length post)) (foldl crc_byte 0 (map2 (XOR) old new))"
proof -
  let ?d = "map2 (XOR) (pre @ old @ post) (pre @ new @ post)"
  have "foldl crc_byte (c XOR c) ?d =
      foldl crc_byte c (pre @ old @ post) XOR foldl crc_byte c (pre @ new @ post)"
    using assms by (intro crc_reg_xor) simp
  moreover have "?d = replicate (length pre) 0 @ map2 (XOR) old new @ replicate (length post) 0"
    using assms by (simp add: zip_append del: map_append) simp
  ultimately have "(crc_bit ^^ (8 * length post)) (foldl crc_byte 0 (map2 (XOR) old new)) =
      foldl crc_byte c (pre @ old @ post) XOR foldl crc_byte c (pre @ new @ post)"
    by (simp add: crc_reg_zeroes)
  then show ?thesis by (simp add: xor.assoc [symmetric])
qed

lemma foldl_update_concat:
  "crc_cpu_ok cpu \<Longrightarrow> foldl (crc32c_update cpu) c parts = foldl crc_byte c (concat parts)"
  by (induction parts arbitrary: c) (simp_all add: crc32c_update_eq)

lemma crc32c_parts_concat:
  "crc_cpu_ok cpu \<Longrightarrow> crc32c_parts cpu parts = crc32c_parts cpu [concat parts]"
  by (simp add: crc32c_parts_def foldl_update_concat crc32c_update_eq)

lemma crc32c_burst:
  assumes "crc_cpu_ok cpu" "length new = length old" "length old \<le> 4" "new \<noteq> old"
  shows "crc32c_parts cpu [pre @ new @ post] \<noteq> crc32c_parts cpu [pre @ old @ post]"
proof -
  have "\<exists>b \<in> set (map2 (XOR) old new). b \<noteq> 0"
    using assms(2,4) by (induction rule: list_induct2) (auto dest: xor_eq_0_imp)
  with assms(2,3) have "foldl crc_byte 0 (map2 (XOR) old new) \<noteq> 0"
    by (intro crc_reg_delta_nonzero) simp_all
  then have "(crc_bit ^^ (8 * length post)) (foldl crc_byte 0 (map2 (XOR) old new)) \<noteq> 0"
    using crc_bits_eq_0 by blast
  moreover have "x = 0" if "y = y XOR x" for x y :: u32
  proof -
    have "x = y XOR (y XOR x)" by (simp add: xor.assoc [symmetric])
    also have "\<dots> = y XOR y" by (simp only: that [symmetric])
    finally show ?thesis by simp
  qed
  ultimately have "foldl crc_byte (- 1) (pre @ new @ post) \<noteq> foldl crc_byte (- 1) (pre @ old @ post)"
    using crc_reg_change [OF assms(2), of "- 1" pre post] by metis
  then show ?thesis
    by (simp add: crc32c_parts_def crc32c_update_eq [OF assms(1)])
qed

lemma crc32c_byte_change:
  assumes "crc_cpu_ok cpu" "j < length m" "x \<noteq> m ! j"
  shows "crc32c_parts cpu [m[j := x]] \<noteq> crc32c_parts cpu [m]"
proof -
  have "m[j := x] = take j m @ [x] @ drop (Suc j) m" "m = take j m @ [m ! j] @ drop (Suc j) m"
    using assms(2) by (simp_all add: upd_conv_take_nth_drop id_take_nth_drop [symmetric])
  then show ?thesis
    using crc32c_burst [OF assms(1), of "[x]" "[m ! j]" "take j m" "drop (Suc j) m"] assms(3) by simp
qed

section \<open>Properties\<close>

text \<open>
  C33: The checksum does not depend on the processor: on a CPU whose \<open>crc32\<close>
  instructions behave as documented, the hardware routine with its eight-byte
  chunks and its tail loop returns what the table-driven software routine
  returns, from any starting register.
\<close>

theorem crc32c_hardware_equals_software:
  assumes "crc_cpu_ok cpu"
  shows "crc32c_update cpu crc bs = crc32c_software crc bs"
  using crc32c_update_eq [OF assms] by (simp add: crc32c_software_eq)

definition sse42_cpu :: crc_cpu where
  "sse42_cpu = \<lparr>has_sse42 = True,
     mm_crc32_u64 = (\<lambda>crc64 w. ucast (foldl crc_byte (ucast crc64) (u64_le w))),
     mm_crc32_u8 = crc_byte\<rparr>"

lemma sse42_cpu_ok: "crc_cpu_ok sse42_cpu"
  by (simp add: crc_cpu_ok_def sse42_cpu_def)

theorem crc32c_hardware_equals_software_witness:
  "crc32c_update sse42_cpu 7 [1, 2, 3, 4, 5, 6, 7, 8, 9] =
   crc32c_software 7 [1, 2, 3, 4, 5, 6, 7, 8, 9]"
  using crc32c_hardware_equals_software [OF sse42_cpu_ok] .

text \<open>
  C22: Patching a checksum is recomputing it: for a range inside the message whose
  old bytes are replaced by as many new ones, \<open>crc32c_patch_bytes\<close> applied to the
  message's checksum returns the checksum of the whole patched message, though
  it reads neither the bytes before the range nor those after it.
\<close>

theorem crc32c_patch_is_recompute:
  assumes "crc_cpu_ok cpu" "length msg < 2 ^ 64" "offset + length new \<le> length msg"
  shows "crc32c_patch_bytes cpu (crc32c_parts cpu [msg]) (length msg) offset
      (bslice msg offset (offset + length new)) new =
    Some (crc32c_parts cpu [copy_at msg offset new])"
proof -
  let ?old = "bslice msg offset (offset + length new)"
  let ?pre = "take offset msg" and ?post = "drop (offset + length new) msg"
  have msg: "msg = ?pre @ ?old @ ?post"
    using bslice_append_bslice [of 0 offset "offset + length new" msg]
    by (metis append.assoc append_take_drop_id bslice_0 le_add1 zero_le)
  have len: "length ?old = length new" using assms(3) by simp
  define delta where "delta = map2 (XOR) ?old new"
  have "foldl crc_byte (- 1) (copy_at msg offset new) =
      foldl crc_byte (- 1) msg XOR (crc_bit ^^ (8 * length ?post)) (foldl crc_byte 0 delta)"
    using crc_reg_change [of new ?old "- 1" ?pre ?post] len msg
    unfolding delta_def copy_at_def by metis
  then have new: "crc32c_parts cpu [copy_at msg offset new] = crc32c_parts cpu [msg] XOR
      (crc_bit ^^ (8 * (length msg - (offset + length new)))) (foldl crc_byte 0 delta)"
    by (simp add: crc32c_parts_def crc32c_update_eq [OF assms(1)])
  have "delta = replicate (length new) 0" if "\<not> list_ex (\<lambda>b. b \<noteq> 0) delta"
    using that len by (auto simp: list_ex_iff delta_def intro!: replicate_eqI)
  then have same: "foldl crc_byte 0 delta = 0" if "\<not> list_ex (\<lambda>b. b \<noteq> 0) delta"
    using that by (simp add: crc_reg_zeroes)
  show ?thesis
    using assms(2,3) len new same unfolding crc32c_patch_bytes_def delta_def [symmetric]
    by (simp add: usize_checked_add_def Let_def crc32c_update_eq [OF assms(1)]
        crc32c_shift_zeroes_eq)
qed

theorem crc32c_patch_is_recompute_witness:
  "crc32c_patch_bytes sse42_cpu (crc32c_parts sse42_cpu [[1, 2, 3, 4]]) 4 1 [2, 3] [8, 9] =
     Some (crc32c_parts sse42_cpu [[1, 8, 9, 4]])"
proof -
  have "Suc (Suc (Suc (Suc 0))) = 4" by simp
  with crc32c_patch_is_recompute [OF sse42_cpu_ok, of "[1, 2, 3, 4]" 1 "[8, 9]"]
  show ?thesis by (simp add: bslice_def copy_at_def)
qed

text \<open>
  C34: Corruption of at most four consecutive bytes never goes unnoticed: if the new
  bytes differ from the old ones anywhere in a window of up to 32 bits, the
  checksum of the message changes.
\<close>

theorem crc32c_detects_bursts:
  assumes "crc_cpu_ok cpu" "length new = length old" "length old \<le> 4" "new \<noteq> old"
  shows "crc32c_parts cpu [pre @ new @ post] \<noteq> crc32c_parts cpu [pre @ old @ post]"
  using assms by (rule crc32c_burst)

theorem crc32c_detects_bursts_witness:
  "crc32c_parts sse42_cpu [[7] @ [1, 2, 3, 5] @ [9]] \<noteq> crc32c_parts sse42_cpu [[7] @ [1, 2, 3, 4] @ [9]]"
  using crc32c_detects_bursts [OF sse42_cpu_ok, of "[1, 2, 3, 5]" "[1, 2, 3, 4]" "[7]" "[9]"] by simp

text \<open>
  Checksums compose: extending the checksum of some parts by further parts is
  the checksum of all of them, and how the bytes are cut into parts is
  immaterial.
\<close>

theorem crc32c_extend_composes:
  assumes "crc_cpu_ok cpu"
  shows "crc32c_extend cpu (crc32c_parts cpu ps) qs = crc32c_parts cpu [concat ps @ concat qs]"
  by (simp add: crc32c_extend_def crc32c_parts_def foldl_update_concat [OF assms]
      crc32c_update_eq [OF assms])

theorem crc32c_extend_composes_witness:
  "crc32c_extend sse42_cpu (crc32c_parts sse42_cpu [[1], [2, 3]]) [[4], [5]] =
     crc32c_parts sse42_cpu [[1, 2, 3, 4, 5]]"
  using crc32c_extend_composes [OF sse42_cpu_ok, of "[[1], [2, 3]]" "[[4], [5]]"] by simp

end
