(* ===== verification/Overflow.thy ===== *)
theory Overflow
  imports Pages Checksum
begin

text \<open>
  Overflow chains, \<open>record/overflow.rs\<close> with \<open>record/compression.rs\<close>: payloads too
  large for a row are cut into chunks and stored in a linked list of pages.  Every
  routine is generic in the page store, as in the code.  The zlib codec comes from
  another crate and is a parameter (\<open>zlib\<close>).  A loop that follows next-page
  pointers need not end on a cyclic chain, so such loops are partial functions;
  the theorems show that they return on the chains the writers build.  Growing an
  output buffer is assumed to succeed.

  This theory holds the data types, the page format, reading, writing, freeing and
  rewriting of chains; \<open>OverflowUpdate\<close> holds the in-place updates.
\<close>

section \<open>Compression\<close>

record zlib =
  compress_to_vec_zlib :: "bytes \<Rightarrow> u8 \<Rightarrow> bytes"
  decompress_to_vec_zlib :: "bytes \<Rightarrow> bytes option"

definition AUTO_COMPRESSION_LEVEL :: u8 where "AUTO_COMPRESSION_LEVEL = 1"
definition AUTO_MIN_PAYLOAD_BYTES :: nat where "AUTO_MIN_PAYLOAD_BYTES = 64 * 1024"

datatype CompressionMode = Never | Auto | AutoMinBytes nat

record CompressedPayload =
  cp_bytes :: bytes
  cp_compressed :: bool

definition maybe_compress :: "zlib \<Rightarrow> bytes \<Rightarrow> CompressionMode \<Rightarrow> CompressedPayload" where
  "maybe_compress z bs mode =
     (let plain = \<lparr>cp_bytes = bs, cp_compressed = False\<rparr>;
          attempt = (\<lambda>min_payload_bytes.
            if bs = [] \<or> length bs < min_payload_bytes then plain
            else
              let compressed = compress_to_vec_zlib z bs AUTO_COMPRESSION_LEVEL
              in if length compressed + 8 < length bs
                 then \<lparr>cp_bytes = compressed, cp_compressed = True\<rparr>
                 else plain)
      in case mode of
           Never \<Rightarrow> plain
         | Auto \<Rightarrow> attempt AUTO_MIN_PAYLOAD_BYTES
         | AutoMinBytes min_payload_bytes \<Rightarrow> attempt min_payload_bytes)"

definition decompress :: "zlib \<Rightarrow> bytes \<Rightarrow> bytes result" where
  "decompress z bs =
     ok_or (Corruption ''invalid compressed overflow payload'') (decompress_to_vec_zlib z bs)"

section \<open>Pointers and the page format\<close>

definition OVERFLOW_HEADER_SIZE :: nat where "OVERFLOW_HEADER_SIZE = 8"
definition FLAG_COMPRESSED :: u8 where "FLAG_COMPRESSED = 0x01"
definition FLAG_TABLE_PAGED_MANIFEST :: u8 where "FLAG_TABLE_PAGED_MANIFEST = 0x02"

record OverflowPointer =
  op_head_page_id :: page_id
  op_logical_len :: u32
  op_flags :: u8

definition is_compressed :: "OverflowPointer \<Rightarrow> bool" where
  "is_compressed p = (op_flags p AND FLAG_COMPRESSED \<noteq> 0)"

definition is_table_paged_manifest :: "OverflowPointer \<Rightarrow> bool" where
  "is_table_paged_manifest p = (op_flags p AND FLAG_TABLE_PAGED_MANIFEST \<noteq> 0)"

definition with_table_paged_manifest :: "OverflowPointer \<Rightarrow> bool \<Rightarrow> OverflowPointer" where
  "with_table_paged_manifest p paged =
     (if paged then p\<lparr>op_flags := op_flags p OR FLAG_TABLE_PAGED_MANIFEST\<rparr>
      else p\<lparr>op_flags := op_flags p AND NOT FLAG_TABLE_PAGED_MANIFEST\<rparr>)"

record OverflowTailInfo =
  tail_page_id :: page_id
  tail_chunk_len :: nat

text \<open>The two header fields of an overflow page and a page with a given next and chunk.\<close>

definition page_next :: "bytes \<Rightarrow> page_id" where
  "page_next page = u32_of_le (bslice page 0 4)"

definition page_chunk_len :: "bytes \<Rightarrow> nat" where
  "page_chunk_len page = unat (u32_of_le (bslice page 4 8))"

definition overflow_page :: "nat \<Rightarrow> page_id \<Rightarrow> bytes \<Rightarrow> bytes result" where
  "overflow_page page_size next chunk =
     rbind (ok_or (Constraint ''overflow chunk length exceeds u32'') (u32_try_from (length chunk)))
       (\<lambda>chunk_len.
         Inr (copy_at
               (copy_at (copy_at (replicate page_size 0) 0 (u32_le next)) 4 (u32_le chunk_len))
               OVERFLOW_HEADER_SIZE chunk))"

definition pread :: "'s page_store_ops \<Rightarrow> page_id \<Rightarrow> ('s, bytes) prog" where
  "pread ops page_id s = Some (ps_read_page ops page_id s, s)"

section \<open>Reading chains\<close>

text \<open>One page of a chain walk: the guard every loop of the file starts with.\<close>

definition read_chain_page :: "'s page_store_ops \<Rightarrow> 's \<Rightarrow> page_id \<Rightarrow> bytes result" where
  "read_chain_page ops s page_id =
     rbind (ps_read_page ops page_id s) (\<lambda>page.
       if length page < OVERFLOW_HEADER_SIZE
       then Inl (Corruption ''overflow page shorter than header'')
       else Inr page)"

definition checked_chunk_end :: "bytes \<Rightarrow> nat result" where
  "checked_chunk_end page =
     (let chunk_end = OVERFLOW_HEADER_SIZE + page_chunk_len page
      in if chunk_end > length page
         then Inl (Corruption ''overflow chunk length exceeds page payload'')
         else Inr chunk_end)"

partial_function (option) read_chain_loop ::
  "'s page_store_ops \<Rightarrow> 's \<Rightarrow> page_id \<Rightarrow> bytes \<Rightarrow> bytes result option"
where
  "read_chain_loop ops s page_id output =
     (if page_id = 0 then Some (Inr output)
      else case read_chain_page ops s page_id of
        Inl e \<Rightarrow> Some (Inl e)
      | Inr page \<Rightarrow>
          (case checked_chunk_end page of
             Inl e \<Rightarrow> Some (Inl e)
           | Inr chunk_end \<Rightarrow>
               if page_chunk_len page = 0
               then Some (Inl (Corruption ''overflow chunk made no progress toward logical payload length''))
               else read_chain_loop ops s (page_next page)
                      (output @ bslice page OVERFLOW_HEADER_SIZE chunk_end)))"

definition read_chain_into :: "'s page_store_ops \<Rightarrow> 's \<Rightarrow> page_id \<Rightarrow> bytes result option" where
  "read_chain_into ops s head_page_id = read_chain_loop ops s head_page_id []"

definition read_chain :: "'s page_store_ops \<Rightarrow> 's \<Rightarrow> page_id \<Rightarrow> bytes result option" where
  "read_chain ops s head_page_id = read_chain_into ops s head_page_id"

definition read_overflow_into ::
  "zlib \<Rightarrow> 's page_store_ops \<Rightarrow> 's \<Rightarrow> OverflowPointer \<Rightarrow> bytes result option"
where
  "read_overflow_into z ops s pointer =
     (case read_chain_into ops s (op_head_page_id pointer) of
        None \<Rightarrow> None
      | Some r \<Rightarrow>
          Some (rbind r (\<lambda>output.
            rbind (if is_compressed pointer then decompress z output else Inr output) (\<lambda>output.
              if length output \<noteq> unat (op_logical_len pointer)
              then Inl (Corruption ''overflow payload length mismatch'')
              else Inr output))))"

definition read_overflow ::
  "zlib \<Rightarrow> 's page_store_ops \<Rightarrow> 's \<Rightarrow> OverflowPointer \<Rightarrow> bytes result option"
where
  "read_overflow z ops s pointer = read_overflow_into z ops s pointer"

partial_function (option) read_prefix_loop ::
  "'s page_store_ops \<Rightarrow> 's \<Rightarrow> nat \<Rightarrow> page_id \<Rightarrow> bytes \<Rightarrow> bytes result option"
where
  "read_prefix_loop ops s prefix_len page_id prefix =
     (if page_id = 0 \<or> prefix_len \<le> length prefix then Some (Inr prefix)
      else case read_chain_page ops s page_id of
        Inl e \<Rightarrow> Some (Inl e)
      | Inr page \<Rightarrow>
          (case checked_chunk_end page of
             Inl e \<Rightarrow> Some (Inl e)
           | Inr chunk_end \<Rightarrow>
               let remaining = prefix_len - length prefix;
                   take_len = min remaining (page_chunk_len page)
               in read_prefix_loop ops s prefix_len (page_next page)
                    (prefix @ bslice page OVERFLOW_HEADER_SIZE (OVERFLOW_HEADER_SIZE + take_len))))"

definition read_overflow_prefix ::
  "'s page_store_ops \<Rightarrow> 's \<Rightarrow> OverflowPointer \<Rightarrow> nat \<Rightarrow> bytes option result option"
where
  "read_overflow_prefix ops s pointer prefix_len =
     (if op_head_page_id pointer = 0 \<or> is_compressed pointer \<or> prefix_len = 0
      then Some (Inr None)
      else map_option (rmap Some) (read_prefix_loop ops s prefix_len (op_head_page_id pointer) []))"

partial_function (option) read_tail_loop ::
  "'s page_store_ops \<Rightarrow> 's \<Rightarrow> page_id \<Rightarrow> nat \<Rightarrow> OverflowTailInfo
    \<Rightarrow> (nat \<times> OverflowTailInfo) result option"
where
  "read_tail_loop ops s page_id logical_len tail =
     (if page_id = 0 then Some (Inr (logical_len, tail))
      else case read_chain_page ops s page_id of
        Inl e \<Rightarrow> Some (Inl e)
      | Inr page \<Rightarrow>
          (case checked_chunk_end page of
             Inl e \<Rightarrow> Some (Inl e)
           | Inr chunk_end \<Rightarrow>
               read_tail_loop ops s (page_next page)
                 (min (logical_len + page_chunk_len page) (2 ^ 64 - 1))
                 \<lparr>tail_page_id = page_id, tail_chunk_len = page_chunk_len page\<rparr>))"

definition read_uncompressed_overflow_tail ::
  "'s page_store_ops \<Rightarrow> 's \<Rightarrow> OverflowPointer \<Rightarrow> OverflowTailInfo option result option"
where
  "read_uncompressed_overflow_tail ops s pointer =
     (if op_head_page_id pointer = 0 \<or> is_compressed pointer then Some (Inr None)
      else map_option
        (\<lambda>r. rbind r (\<lambda>(logical_len, tail).
           if logical_len \<noteq> unat (op_logical_len pointer)
           then Inl (Corruption ''overflow logical length mismatch'')
           else Inr (Some tail)))
        (read_tail_loop ops s (op_head_page_id pointer) 0
           \<lparr>tail_page_id = 0, tail_chunk_len = 0\<rparr>))"

partial_function (option) collect_chain_loop ::
  "'s page_store_ops \<Rightarrow> 's \<Rightarrow> page_id \<Rightarrow> (page_id \<times> bytes) list
    \<Rightarrow> (page_id \<times> bytes) list result option"
where
  "collect_chain_loop ops s page_id pages =
     (if page_id = 0 then Some (Inr pages)
      else case read_chain_page ops s page_id of
        Inl e \<Rightarrow> Some (Inl e)
      | Inr page \<Rightarrow> collect_chain_loop ops s (page_next page) (pages @ [(page_id, page)]))"

definition collect_chain_pages ::
  "'s page_store_ops \<Rightarrow> 's \<Rightarrow> page_id \<Rightarrow> (page_id \<times> bytes) list result option"
where
  "collect_chain_pages ops s head_page_id = collect_chain_loop ops s head_page_id []"

partial_function (option) chain_cache_loop ::
  "'s page_store_ops \<Rightarrow> 's \<Rightarrow> page_id \<Rightarrow> page_id list \<Rightarrow> page_id list result option"
where
  "chain_cache_loop ops s page_id page_ids =
     (if page_id = 0 then Some (Inr page_ids)
      else case read_chain_page ops s page_id of
        Inl e \<Rightarrow> Some (Inl e)
      | Inr page \<Rightarrow> chain_cache_loop ops s (page_next page) (page_ids @ [page_id]))"

definition build_overflow_chain_cache ::
  "'s page_store_ops \<Rightarrow> 's \<Rightarrow> page_id \<Rightarrow> page_id list result option"
where
  "build_overflow_chain_cache ops s head_page_id =
     (if head_page_id = 0 then Some (Inr []) else chain_cache_loop ops s head_page_id [])"

section \<open>Writing, freeing and rewriting chains\<close>

partial_function (option) free_overflow_loop ::
  "'s page_store_ops \<Rightarrow> page_id \<Rightarrow> page_id list \<Rightarrow> 's \<Rightarrow> (page_id list result \<times> 's) option"
where
  "free_overflow_loop ops page_id freed s =
     (if page_id = 0 then Some (Inr freed, s)
      else case read_chain_page ops s page_id of
        Inl e \<Rightarrow> Some (Inl e, s)
      | Inr page \<Rightarrow>
          (case ps_free_page ops page_id s of
             (Inl e, s') \<Rightarrow> Some (Inl e, s')
           | (Inr _, s') \<Rightarrow> free_overflow_loop ops (page_next page) (freed @ [page_id]) s'))"

definition free_overflow :: "'s page_store_ops \<Rightarrow> page_id \<Rightarrow> ('s, page_id list) prog" where
  "free_overflow ops head_page_id = free_overflow_loop ops head_page_id []"

fun alloc_pages :: "'s page_store_ops \<Rightarrow> nat \<Rightarrow> ('s, page_id list) prog" where
  "alloc_pages ops 0 = pret []"
| "alloc_pages ops (Suc n) =
     pbind (pstep (ps_allocate_page ops)) (\<lambda>p. pbind (alloc_pages ops n) (\<lambda>ps. pret (p # ps)))"

definition page_unchanged ::
  "'s page_store_ops \<Rightarrow> bool \<Rightarrow> (page_id \<times> bytes) list option \<Rightarrow> nat \<Rightarrow> page_id \<Rightarrow> bytes
    \<Rightarrow> ('s, bool) prog"
where
  "page_unchanged ops skip_unchanged existing_pages index page_id page s =
     Some (if \<not> skip_unchanged then Inr False
       else case existing_pages of
         Some existing_pages \<Rightarrow>
           (case get_at existing_pages index of
              Some (existing_page_id, existing_page) \<Rightarrow>
                if existing_page_id = page_id then Inr (existing_page = page)
                else rmap (\<lambda>d. d = page) (ps_read_page ops page_id s)
            | None \<Rightarrow> Inr False)
       | None \<Rightarrow> rmap (\<lambda>d. d = page) (ps_read_page ops page_id s), s)"

fun write_chain_pages_loop ::
  "'s page_store_ops \<Rightarrow> bytes \<Rightarrow> nat \<Rightarrow> nat \<Rightarrow> bool \<Rightarrow> (page_id \<times> bytes) list option
    \<Rightarrow> page_id list \<Rightarrow> nat \<Rightarrow> nat \<Rightarrow> ('s, unit) prog"
where
  "write_chain_pages_loop ops bs page_size cap skip existing [] index offset = pret ()"
| "write_chain_pages_loop ops bs page_size cap skip existing (page_id # page_ids) index offset =
     (let next = (case page_ids of [] \<Rightarrow> 0 | q # _ \<Rightarrow> q);
          remaining = length bs - offset;
          chunk_len = min remaining cap;
          chunk = bslice bs offset (offset + chunk_len)
      in pbind (plift (overflow_page page_size next chunk)) (\<lambda>page.
         pbind (page_unchanged ops skip existing index page_id page) (\<lambda>unchanged.
         pbind (if unchanged then pret () else pstep (ps_write_page_owned ops page_id page)) (\<lambda>_.
           write_chain_pages_loop ops bs page_size cap skip existing page_ids (index + 1)
             (offset + chunk_len)))))"

definition write_chain_pages ::
  "'s page_store_ops \<Rightarrow> page_id list \<Rightarrow> bytes \<Rightarrow> nat \<Rightarrow> nat \<Rightarrow> bool
    \<Rightarrow> (page_id \<times> bytes) list option \<Rightarrow> ('s, unit) prog"
where
  "write_chain_pages ops page_ids bs page_size cap skip existing =
     write_chain_pages_loop ops bs page_size cap skip existing page_ids 0 0"

definition page_size_guard :: "'s page_store_ops \<Rightarrow> ('s, nat) prog" where
  "page_size_guard ops s =
     (let page_size = unat (ps_page_size ops s)
      in if page_size \<le> OVERFLOW_HEADER_SIZE
         then Some (Inl (Internal ''page size too small for overflow pages''), s)
         else Some (Inr page_size, s))"

definition write_chain :: "'s page_store_ops \<Rightarrow> bytes \<Rightarrow> ('s, page_id) prog" where
  "write_chain ops bs =
     (if bs = [] then pret 0
      else pbind (page_size_guard ops) (\<lambda>page_size.
        let cap = page_size - OVERFLOW_HEADER_SIZE
        in pbind (alloc_pages ops (div_ceil (length bs) cap)) (\<lambda>page_ids.
           pbind (write_chain_pages ops page_ids bs page_size cap False None) (\<lambda>_.
             pret (hd page_ids)))))"

definition checked_logical_len :: "bytes \<Rightarrow> u32 result" where
  "checked_logical_len bs =
     ok_or (Constraint ''overflow payload exceeds u32 logical length'') (u32_try_from (length bs))"

definition write_overflow ::
  "zlib \<Rightarrow> 's page_store_ops \<Rightarrow> bytes \<Rightarrow> CompressionMode \<Rightarrow> ('s, OverflowPointer) prog"
where
  "write_overflow z ops bs compression =
     (let compressed = maybe_compress z bs compression;
          flags = (if cp_compressed compressed then FLAG_COMPRESSED else 0)
      in pbind (write_chain ops (cp_bytes compressed)) (\<lambda>head.
         pbind (plift (checked_logical_len bs)) (\<lambda>logical_len.
           pret \<lparr>op_head_page_id = head, op_logical_len = logical_len, op_flags = flags\<rparr>)))"

definition free_pages_each :: "'s page_store_ops \<Rightarrow> page_id list \<Rightarrow> ('s, unit) prog" where
  "free_pages_each ops = pforeach (\<lambda>page_id. pstep (ps_free_page ops page_id))"

definition rewrite_overflow ::
  "zlib \<Rightarrow> 's page_store_ops \<Rightarrow> OverflowPointer \<Rightarrow> bytes \<Rightarrow> CompressionMode
    \<Rightarrow> ('s, OverflowPointer) prog"
where
  "rewrite_overflow z ops previous bs compression =
     (let compressed = maybe_compress z bs compression;
          flags = (if cp_compressed compressed then FLAG_COMPRESSED else 0)
      in pbind (plift (checked_logical_len bs)) (\<lambda>logical_len.
         if cp_bytes compressed = [] then
           pbind (if op_head_page_id previous \<noteq> 0
                  then pbind (free_overflow ops (op_head_page_id previous)) (\<lambda>_. pret ())
                  else pret ()) (\<lambda>_.
             pret \<lparr>op_head_page_id = 0, op_logical_len = logical_len, op_flags = flags\<rparr>)
         else if op_head_page_id previous = 0 then
           pbind (write_chain ops (cp_bytes compressed)) (\<lambda>head.
             pret \<lparr>op_head_page_id = head, op_logical_len = logical_len, op_flags = flags\<rparr>)
         else
           pbind (page_size_guard ops) (\<lambda>page_size.
             let cap = page_size - OVERFLOW_HEADER_SIZE;
                 needed_pages = div_ceil (length (cp_bytes compressed)) cap
             in pbind (\<lambda>s. map_option (\<lambda>r. (r, s))
                     (collect_chain_pages ops s (op_head_page_id previous))) (\<lambda>existing.
                pbind (alloc_pages ops (needed_pages - length existing)) (\<lambda>fresh.
                  let page_ids = map fst existing @ fresh
                  in pbind (write_chain_pages ops (take needed_pages page_ids)
                        (cp_bytes compressed) page_size cap True (Some existing)) (\<lambda>_.
                     pbind (free_pages_each ops (drop needed_pages page_ids)) (\<lambda>_.
                       pret \<lparr>op_head_page_id = hd page_ids, op_logical_len = logical_len,
                             op_flags = flags\<rparr>)))))))"

section \<open>The page format\<close>

lemma overflow_page_ok:
  assumes "8 < page_size" "length chunk \<le> page_size - 8" "page_size < 2 ^ 32"
  shows "\<exists>page. overflow_page page_size next chunk = Inr page \<and> length page = page_size \<and>
    page_next page = next \<and> page_chunk_len page = length chunk \<and>
    bslice page 8 (8 + length chunk) = chunk"
proof -
  have len: "length chunk < 4294967296" using assms by simp
  then have "unat (of_nat (length chunk) :: u32) = length chunk" by (simp add: unat_of_nat)
  with len assms show ?thesis
    by (simp add: overflow_page_def OVERFLOW_HEADER_SIZE_def ok_or_def u32_try_from_def
        page_next_def page_chunk_len_def bslice_copy_at_before bslice_copy_at_after
        bslice_copy_at_same)
       (simp add: copy_at_def)
qed

text \<open>A page holds a chunk when its length field delimits the chunk inside the page.\<close>

definition chunk_page :: "bytes \<Rightarrow> bytes \<Rightarrow> bool" where
  "chunk_page page chunk \<longleftrightarrow> 8 + page_chunk_len page \<le> length page \<and>
     chunk = bslice page 8 (8 + page_chunk_len page)"

fun is_chain :: "(page_id \<Rightarrow> bytes option) \<Rightarrow> page_id \<Rightarrow> page_id list \<Rightarrow> bytes list \<Rightarrow> bool" where
  "is_chain m h [] cs \<longleftrightarrow> h = 0 \<and> cs = []"
| "is_chain m h (p # ps) cs \<longleftrightarrow> h = p \<and> p \<noteq> 0 \<and>
     (\<exists>page c cs'. m p = Some page \<and> cs = c # cs' \<and> chunk_page page c \<and>
        is_chain m (page_next page) ps cs')"

lemma is_chain_length: "is_chain m h ps cs \<Longrightarrow> length cs = length ps"
  by (induction m h ps cs rule: is_chain.induct) auto

lemma is_chain_live: "is_chain m h ps cs \<Longrightarrow> p \<in> set ps \<Longrightarrow> p \<noteq> 0 \<and> m p \<noteq> None"
  by (induction m h ps cs rule: is_chain.induct) auto

lemma is_chain_head: "is_chain m h ps cs \<Longrightarrow> ps \<noteq> [] \<Longrightarrow> h = hd ps \<and> h \<noteq> 0"
  by (cases ps) auto

lemma is_chain_cong:
  "is_chain m h ps cs \<Longrightarrow> (\<And>p. p \<in> set ps \<Longrightarrow> m' p = m p) \<Longrightarrow> is_chain m' h ps cs"
  by (induction m h ps cs rule: is_chain.induct) auto

subsection \<open>Cutting a payload into chunks\<close>

fun chunk_list :: "nat \<Rightarrow> nat \<Rightarrow> bytes \<Rightarrow> bytes list" where
  "chunk_list cap 0 bs = []"
| "chunk_list cap (Suc n) bs = take cap bs # chunk_list cap n (drop cap bs)"

lemma length_chunk_list [simp]: "length (chunk_list cap n bs) = n"
  by (induction n arbitrary: bs) simp_all

lemma concat_chunk_list: "concat (chunk_list cap n bs) = take (n * cap) bs"
  by (induction n arbitrary: bs) (simp_all add: take_add)

lemma div_ceil_bounds:
  assumes "0 < cap"
  shows "n \<le> div_ceil n cap * cap" "0 < n \<Longrightarrow> (div_ceil n cap - 1) * cap < n"
    "0 < n \<Longrightarrow> 0 < div_ceil n cap"
proof -
  let ?q = "(n + cap - 1) div cap"
  have "?q * cap + (n + cap - 1) mod cap = n + cap - 1" by simp
  moreover have "(n + cap - 1) mod cap < cap" using assms by simp
  ultimately show le: "n \<le> div_ceil n cap * cap" using assms unfolding div_ceil_def by linarith
  show pos: "0 < div_ceil n cap" if "0 < n"
    using le that by (cases "div_ceil n cap") auto
  show "(div_ceil n cap - 1) * cap < n" if "0 < n"
  proof -
    have "(div_ceil n cap - 1) * cap = ?q * cap - cap"
      by (simp add: div_ceil_def diff_mult_distrib)
    moreover have "?q * cap \<le> n + cap - 1" by simp
    ultimately show ?thesis using that by linarith
  qed
qed

lemma concat_chunk_list_all: "0 < cap \<Longrightarrow> concat (chunk_list cap (div_ceil (length bs) cap) bs) = bs"
  using div_ceil_bounds(1) [of cap "length bs"] by (simp add: concat_chunk_list)

lemma chunk_list_nonempty:
  "(n - 1) * cap < length bs \<Longrightarrow> 0 < cap \<Longrightarrow> c \<in> set (chunk_list cap n bs) \<Longrightarrow> c \<noteq> []"
proof (induction n arbitrary: bs)
  case (Suc n)
  show ?case
  proof (cases "c = take cap bs")
    case True
    with Suc.prems show ?thesis by auto
  next
    case False
    with Suc.prems have c: "c \<in> set (chunk_list cap n (drop cap bs))" by simp
    then have "(n - 1) * cap < length (drop cap bs)"
      using Suc.prems by (cases n) auto
    then show ?thesis using Suc.IH Suc.prems(2) c by blast
  qed
qed simp

lemma chunk_list_small: "c \<in> set (chunk_list cap n bs) \<Longrightarrow> length c \<le> cap"
  by (induction n arbitrary: bs) auto

section \<open>What a pointer promises\<close>

text \<open>
  \<open>overflow_holds z m ptr ids payload\<close>: in the page map \<open>m\<close> the pointer leads along the
  distinct pages \<open>ids\<close> to the stored form of \<open>payload\<close>.  \<open>zlib_ok\<close> is what the crate
  documents: inflating a deflated buffer gives it back.
\<close>

definition zlib_ok :: "zlib \<Rightarrow> bool" where
  "zlib_ok z \<longleftrightarrow> (\<forall>b level. decompress_to_vec_zlib z (compress_to_vec_zlib z b level) = Some b)"

definition overflow_holds ::
  "zlib \<Rightarrow> (page_id \<Rightarrow> bytes option) \<Rightarrow> OverflowPointer \<Rightarrow> page_id list \<Rightarrow> bytes \<Rightarrow> bool"
where
  "overflow_holds z m ptr ids payload \<longleftrightarrow>
     distinct ids \<and> length payload = unat (op_logical_len ptr) \<and>
     (\<exists>cs. is_chain m (op_head_page_id ptr) ids cs \<and> [] \<notin> set cs \<and>
        (if is_compressed ptr then decompress_to_vec_zlib z (concat cs) = Some payload
         else concat cs = payload))"

lemma is_compressed_flags [simp]:
  "is_compressed \<lparr>op_head_page_id = h, op_logical_len = l, op_flags = 0\<rparr> = False"
  "is_compressed \<lparr>op_head_page_id = h, op_logical_len = l, op_flags = FLAG_COMPRESSED\<rparr> = True"
  by (simp_all add: is_compressed_def FLAG_COMPRESSED_def)

lemma maybe_compress_cases:
  "(\<not> cp_compressed (maybe_compress z bs mode) \<and> cp_bytes (maybe_compress z bs mode) = bs) \<or>
   (cp_compressed (maybe_compress z bs mode) \<and>
    cp_bytes (maybe_compress z bs mode) = compress_to_vec_zlib z bs AUTO_COMPRESSION_LEVEL \<and>
    length (cp_bytes (maybe_compress z bs mode)) < length bs)"
  by (cases mode) (simp_all add: maybe_compress_def Let_def)

lemma div_ceil_mono: "a \<le> b \<Longrightarrow> div_ceil a c \<le> div_ceil b c"
  unfolding div_ceil_def by (intro div_le_mono) simp

lemma stored_len_le: "length (cp_bytes (maybe_compress z bs mode)) \<le> length bs"
  using maybe_compress_cases [of z bs mode] by auto

lemma holds_new:
  assumes "zlib_ok z" "length bs < 2 ^ 32" "distinct ids"
    and "is_chain m h ids cs" "[] \<notin> set cs" "concat cs = cp_bytes (maybe_compress z bs mode)"
  shows "overflow_holds z m
    \<lparr>op_head_page_id = h, op_logical_len = of_nat (length bs),
     op_flags = (if cp_compressed (maybe_compress z bs mode) then FLAG_COMPRESSED else 0)\<rparr> ids bs"
  using assms maybe_compress_cases [of z bs mode]
  by (auto simp: overflow_holds_def unat_of_nat zlib_ok_def)

section \<open>What the routines do in a page store\<close>

text \<open>Records of existing pages that the writer may compare with instead of reading.\<close>

definition existing_ok ::
  "(page_id \<Rightarrow> bytes option) \<Rightarrow> (page_id \<times> bytes) list option \<Rightarrow> nat \<Rightarrow> page_id list \<Rightarrow> bool"
where
  "existing_ok m existing index ids \<longleftrightarrow>
     (\<forall>ex i page. existing = Some ex \<longrightarrow> i < length ids \<longrightarrow>
        get_at ex (index + i) = Some (ids ! i, page) \<longrightarrow> m (ids ! i) = Some page)"

lemma existing_ok_None [simp]: "existing_ok m None index ids"
  by (simp add: existing_ok_def)

lemma existing_ok_Cons:
  assumes "existing_ok m existing index (p # ps)"
    and "\<And>q. q \<in> set ps \<Longrightarrow> m' q = m q"
  shows "existing_ok m' existing (Suc index) ps"
  unfolding existing_ok_def
proof (intro allI impI)
  fix ex i page
  assume h: "existing = Some ex" "i < length ps" "get_at ex (Suc index + i) = Some (ps ! i, page)"
  with assms(1) have "m ((p # ps) ! Suc i) = Some page"
    unfolding existing_ok_def by (metis add_Suc_shift length_Cons nth_Cons_Suc not_less_eq)
  with h(2) assms(2) show "m' (ps ! i) = Some page" by simp
qed

lemma drop_chunk: "drop (off + min (length bs - off) cap) bs = drop cap (drop off bs)"
  by (cases "length bs - off \<le> cap") (simp_all add: min_def add.commute)

lemma bslice_chunk: "bslice bs off (off + min (length bs - off) cap) = take cap (drop off bs)"
  by (simp add: bslice_def min_def)

context page_store
begin

lemma read_chain_page_ok:
  "inv s \<Longrightarrow> pages s p = Some page \<Longrightarrow> 8 \<le> length page \<Longrightarrow> read_chain_page ops s p = Inr page"
  by (simp add: read_chain_page_def page_read OVERFLOW_HEADER_SIZE_def)

lemma read_chain_loop_ok:
  assumes "inv s"
  shows "is_chain (pages s) h ps cs \<Longrightarrow> [] \<notin> set cs \<Longrightarrow>
    read_chain_loop ops s h out = Some (Inr (out @ concat cs))"
proof (induction ps arbitrary: h cs out)
  case Nil
  then show ?case by (simp add: read_chain_loop.simps)
next
  case (Cons p ps)
  then obtain page c cs' where pg: "pages s p = Some page" "cs = c # cs'" "chunk_page page c"
    "is_chain (pages s) (page_next page) ps cs'" "h = p" "p \<noteq> 0" by auto
  then have "read_chain_page ops s p = Inr page"
    using assms by (simp add: read_chain_page_ok chunk_page_def)
  moreover have "checked_chunk_end page = Inr (8 + page_chunk_len page)"
    using pg by (simp add: checked_chunk_end_def OVERFLOW_HEADER_SIZE_def chunk_page_def)
  moreover have "page_chunk_len page \<noteq> 0"
    using pg Cons.prems(2) by (cases "page_chunk_len page") (auto simp: chunk_page_def)
  ultimately show ?case
    using pg Cons.prems(2) Cons.IH [OF pg(4), of "out @ c"]
    by (subst read_chain_loop.simps) (simp add: chunk_page_def OVERFLOW_HEADER_SIZE_def)
qed

lemma alloc_pages_ok:
  "inv s \<Longrightarrow> n \<le> room s \<Longrightarrow>
     \<exists>ps s'. alloc_pages ops n s = Some (Inr ps, s') \<and> inv s' \<and> length ps = n \<and> distinct ps \<and>
       (\<forall>p \<in> set ps. p \<noteq> 0 \<and> pages s p = None \<and> pages s' p \<noteq> None) \<and>
       (\<forall>q. q \<notin> set ps \<longrightarrow> pages s' q = pages s q) \<and>
       ps_page_size ops s' = ps_page_size ops s \<and> room s' = room s - n"
proof (induction n arbitrary: s)
  case (Suc n)
  then obtain p s1 where a: "ps_allocate_page ops s = (Inr p, s1)" "inv s1" "pages s p = None"
    "p \<noteq> 0" "pages s1 = (pages s)(p \<mapsto> zeroed_page (ps_page_size ops s))"
    "ps_page_size ops s1 = ps_page_size ops s" "room s1 = room s - 1"
    using page_alloc [of s] by auto
  with Suc.prems have "n \<le> room s1" by simp
  from Suc.IH [OF a(2) this] obtain ps s2 where
    b: "alloc_pages ops n s1 = Some (Inr ps, s2)" "inv s2" "length ps = n" "distinct ps"
      "\<forall>q \<in> set ps. q \<noteq> 0 \<and> pages s1 q = None \<and> pages s2 q \<noteq> None"
      "\<forall>q. q \<notin> set ps \<longrightarrow> pages s2 q = pages s1 q"
      "ps_page_size ops s2 = ps_page_size ops s1" "room s2 = room s1 - n"
    by blast
  moreover have "p \<notin> set ps" using b(5) a(5) by auto
  ultimately show ?case
    using a by (intro exI [of _ "p # ps"] exI [of _ s2]) (auto split: if_splits)
qed simp

lemma page_unchanged_ok:
  assumes "inv s" "pages s p = Some d" "existing_ok (pages s) existing index (p # ps)"
  shows "\<exists>u. page_unchanged ops skip existing index p page s = Some (Inr u, s) \<and> (u \<longrightarrow> d = page)"
proof -
  have rd: "ps_read_page ops p s = Inr d" using assms by (simp add: page_read)
  have ex: "d = e" if "existing = Some ex" "get_at ex index = Some (p, e)" for ex e
    using assms(2,3) that unfolding existing_ok_def
    by (metis add.right_neutral length_greater_0_conv list.distinct(1) nth_Cons_0 option.inject)
  show ?thesis
    using rd ex by (auto simp: page_unchanged_def simp del: get_at_Some split: option.splits)
qed

lemma write_chain_pages_loop_ok:
  assumes "inv s" "distinct ids" "\<forall>p \<in> set ids. p \<noteq> 0 \<and> pages s p \<noteq> None"
    and "existing_ok (pages s) existing index ids"
    and "page_size = unat (ps_page_size ops s)" "8 < page_size" "cap = page_size - 8"
  shows "\<exists>s'. write_chain_pages_loop ops bs page_size cap skip existing ids index offset s =
      Some (Inr (), s') \<and> inv s' \<and>
    is_chain (pages s') (case ids of [] \<Rightarrow> 0 | q # _ \<Rightarrow> q) ids
      (chunk_list cap (length ids) (drop offset bs)) \<and>
    (\<forall>q. q \<notin> set ids \<longrightarrow> pages s' q = pages s q) \<and> dom (pages s') = dom (pages s) \<and>
    ps_page_size ops s' = ps_page_size ops s \<and> room s' = room s"
  using assms(1-5)
proof (induction ids arbitrary: s index offset)
  case (Cons p ids)
  let ?next = "case ids of [] \<Rightarrow> 0 | q # _ \<Rightarrow> q"
  let ?chunk = "take cap (drop offset bs)"
  have "page_size < 2 ^ 32"
    using Cons.prems(5) unsigned_less [of "ps_page_size ops s", where ?'a = nat] by simp
  with overflow_page_ok [of page_size ?chunk ?next] assms(6,7)
  obtain page where pg: "overflow_page page_size ?next ?chunk = Inr page"
    "length page = page_size" "page_next page = ?next" "page_chunk_len page = length ?chunk"
    "bslice page 8 (8 + length ?chunk) = ?chunk" by auto
  have cp: "chunk_page page ?chunk"
    using pg assms(6,7) by (simp add: chunk_page_def)
  obtain d where d: "pages s p = Some d" using Cons.prems by auto
  obtain u where u: "page_unchanged ops skip existing index p page s = Some (Inr u, s)"
    "u \<longrightarrow> d = page" using page_unchanged_ok [OF Cons.prems(1) d Cons.prems(4)] by blast
  obtain s1 where s1: "(if u then pret () else pstep (ps_write_page_owned ops p page)) s =
      Some (Inr (), s1)" "inv s1" "pages s1 = (pages s)(p \<mapsto> page)"
      "ps_page_size ops s1 = ps_page_size ops s" "room s1 = room s"
  proof (cases u)
    case True
    then show ?thesis using that [of s] u d Cons.prems(1) by (simp add: fun_upd_idem)
  next
    case False
    then show ?thesis
      using that page_write [of s p page] page_write_owned [of s p page] Cons.prems(1,5) d pg(2) by auto
  qed
  have ex1: "existing_ok (pages s1) existing (Suc index) ids"
    by (rule existing_ok_Cons [OF Cons.prems(4)]) (use s1 Cons.prems(2) in auto)
  have d1: "distinct ids" and live1: "\<forall>q \<in> set ids. q \<noteq> 0 \<and> pages s1 q \<noteq> None"
    and ps1: "page_size = unat (ps_page_size ops s1)"
    using Cons.prems s1 by auto
  from Cons.IH [OF s1(2) d1 live1 ex1 ps1, of "offset + min (length bs - offset) cap"]
  obtain s' where s': "write_chain_pages_loop ops bs page_size cap skip existing ids (Suc index)
      (offset + min (length bs - offset) cap) s1 = Some (Inr (), s')" "inv s'"
    "is_chain (pages s') ?next ids (chunk_list cap (length ids) (drop cap (drop offset bs)))"
    "\<forall>q. q \<notin> set ids \<longrightarrow> pages s' q = pages s1 q" "dom (pages s') = dom (pages s1)"
    "ps_page_size ops s' = ps_page_size ops s1" "room s' = room s1"
    unfolding drop_chunk by blast
  have "pages s' p = Some page" using s' s1 Cons.prems(2) by simp
  with s' s1 pg cp u d Cons.prems show ?case
    by (auto simp: Let_def bslice_chunk)
qed simp


lemma write_chain_ok:
  assumes "inv s" "bs \<noteq> []" "8 < unat (ps_page_size ops s)"
    and "div_ceil (length bs) (unat (ps_page_size ops s) - 8) \<le> room s"
  shows "\<exists>h ids s'. write_chain ops bs s = Some (Inr h, s') \<and> inv s' \<and> ids \<noteq> [] \<and>
    is_chain (pages s') h ids (chunk_list (unat (ps_page_size ops s) - 8) (length ids) bs) \<and>
    length ids = div_ceil (length bs) (unat (ps_page_size ops s) - 8) \<and> distinct ids \<and>
    (\<forall>p \<in> set ids. pages s p = None) \<and> (\<forall>q. q \<notin> set ids \<longrightarrow> pages s' q = pages s q) \<and>
    ps_page_size ops s' = ps_page_size ops s \<and> room s' = room s - length ids"
proof -
  let ?ps = "unat (ps_page_size ops s)" and ?n = "div_ceil (length bs) (unat (ps_page_size ops s) - 8)"
  from alloc_pages_ok [OF assms(1,4)] obtain ids s1 where
    a: "alloc_pages ops ?n s = Some (Inr ids, s1)" "inv s1" "length ids = ?n" "distinct ids"
      "\<forall>p \<in> set ids. p \<noteq> 0 \<and> pages s p = None \<and> pages s1 p \<noteq> None"
      "\<forall>q. q \<notin> set ids \<longrightarrow> pages s1 q = pages s q"
      "ps_page_size ops s1 = ps_page_size ops s" "room s1 = room s - ?n" by blast
  have live: "\<forall>p \<in> set ids. p \<noteq> 0 \<and> pages s1 p \<noteq> None" and ps1: "?ps = unat (ps_page_size ops s1)"
    using a by auto
  have ne: "ids \<noteq> []"
    using div_ceil_bounds(3) [of "?ps - 8" "length bs"] assms(2,3) a(3) by auto
  from write_chain_pages_loop_ok
    [OF a(2,4) live existing_ok_None ps1 assms(3) refl, of bs False 0 0]
  obtain s2 where
    w: "write_chain_pages_loop ops bs ?ps (?ps - 8) False None ids 0 0 s1 = Some (Inr (), s2)"
      "inv s2" "is_chain (pages s2) (case ids of [] \<Rightarrow> 0 | q # _ \<Rightarrow> q) ids
        (chunk_list (?ps - 8) (length ids) (drop 0 bs))"
      "\<forall>q. q \<notin> set ids \<longrightarrow> pages s2 q = pages s1 q"
      "ps_page_size ops s2 = ps_page_size ops s1" "room s2 = room s1" by blast
  have "write_chain ops bs s = Some (Inr (hd ids), s2)"
    using assms(2,3) a(1) w(1)
    by (simp add: write_chain_def page_size_guard_def OVERFLOW_HEADER_SIZE_def Let_def
        write_chain_pages_def)
  moreover have "is_chain (pages s2) (hd ids) ids (chunk_list (?ps - 8) (length ids) bs)"
    using w(3) ne by (cases ids) simp_all
  ultimately show ?thesis
    using a(3,4,5,6,7,8) w(2,4,5,6) ne by metis
qed

lemma free_overflow_loop_ok:
  "inv s \<Longrightarrow> is_chain (pages s) h ps cs \<Longrightarrow> distinct ps \<Longrightarrow>
     \<exists>s'. free_overflow_loop ops h freed s = Some (Inr (freed @ ps), s') \<and> inv s' \<and>
       pages s' = (\<lambda>q. if q \<in> set ps then None else pages s q) \<and>
       ps_page_size ops s' = ps_page_size ops s \<and> room s' = room s + length ps"
proof (induction ps arbitrary: s h cs freed)
  case Nil
  then show ?case by (simp add: free_overflow_loop.simps)
next
  case (Cons p ps)
  then obtain page c cs' where pg: "pages s p = Some page" "cs = c # cs'" "chunk_page page c"
    "is_chain (pages s) (page_next page) ps cs'" "h = p" "p \<noteq> 0" by auto
  then have rd: "read_chain_page ops s p = Inr page"
    using Cons.prems by (simp add: read_chain_page_ok chunk_page_def)
  obtain s1 where s1: "ps_free_page ops p s = (Inr (), s1)" "inv s1"
    "pages s1 = (pages s)(p := None)" "ps_page_size ops s1 = ps_page_size ops s"
    "room s1 = Suc (room s)"
    using page_free [of s p] Cons.prems(1) pg(1) by auto
  have "is_chain (pages s1) (page_next page) ps cs'"
    by (rule is_chain_cong [OF pg(4)]) (use s1 Cons.prems(3) in auto)
  from Cons.IH [OF s1(2) this, of "freed @ [p]"] Cons.prems(3)
  obtain s' where "free_overflow_loop ops (page_next page) (freed @ [p]) s1 =
      Some (Inr ((freed @ [p]) @ ps), s')" "inv s'"
    "pages s' = (\<lambda>q. if q \<in> set ps then None else pages s1 q)"
    "ps_page_size ops s' = ps_page_size ops s1" "room s' = room s1 + length ps" by auto
  with rd s1 pg show ?case
    by (subst free_overflow_loop.simps) (auto simp: fun_eq_iff)
qed

lemma collect_chain_loop_ok:
  "inv s \<Longrightarrow> is_chain (pages s) h ps cs \<Longrightarrow>
     \<exists>ex. collect_chain_loop ops s h acc = Some (Inr (acc @ ex)) \<and> map fst ex = ps \<and>
       (\<forall>(p, page) \<in> set ex. pages s p = Some page)"
proof (induction ps arbitrary: h cs acc)
  case Nil
  then show ?case by (auto simp: collect_chain_loop.simps)
next
  case (Cons p ps)
  then obtain page c cs' where pg: "pages s p = Some page" "cs = c # cs'" "chunk_page page c"
    "is_chain (pages s) (page_next page) ps cs'" "h = p" "p \<noteq> 0" by auto
  then have "read_chain_page ops s p = Inr page"
    using Cons.prems by (simp add: read_chain_page_ok chunk_page_def)
  moreover from Cons.IH [OF Cons.prems(1) pg(4), of "acc @ [(p, page)]"]
  obtain ex where "collect_chain_loop ops s (page_next page) (acc @ [(p, page)]) =
      Some (Inr ((acc @ [(p, page)]) @ ex))" "map fst ex = ps"
    "\<forall>(p, page) \<in> set ex. pages s p = Some page" by auto
  ultimately show ?case
    using pg by (intro exI [of _ "(p, page) # ex"], subst collect_chain_loop.simps) simp
qed


lemma read_overflow_ok:
  assumes "inv s" "overflow_holds z (pages s) ptr ids payload"
  shows "read_overflow z ops s ptr = Some (Inr payload)"
proof -
  obtain cs where "is_chain (pages s) (op_head_page_id ptr) ids cs" "[] \<notin> set cs"
    "if is_compressed ptr then decompress_to_vec_zlib z (concat cs) = Some payload
     else concat cs = payload" "length payload = unat (op_logical_len ptr)"
    using assms(2) unfolding overflow_holds_def by blast
  with read_chain_loop_ok [OF assms(1), of "op_head_page_id ptr" ids cs "[]"] show ?thesis
    by (auto simp: read_overflow_def read_overflow_into_def read_chain_into_def decompress_def
        split: if_splits)
qed

lemma write_stored_ok:
  assumes "inv s" "8 < unat (ps_page_size ops s)"
    and "div_ceil (length bs) (unat (ps_page_size ops s) - 8) \<le> room s"
  shows "\<exists>h ids cs s'. write_chain ops bs s = Some (Inr h, s') \<and> inv s' \<and> distinct ids \<and>
    is_chain (pages s') h ids cs \<and> [] \<notin> set cs \<and> concat cs = bs \<and>
    (\<forall>p \<in> set ids. pages s p = None) \<and> (\<forall>q. q \<notin> set ids \<longrightarrow> pages s' q = pages s q) \<and>
    ps_page_size ops s' = ps_page_size ops s \<and> room s = room s' + length ids \<and>
    length ids = div_ceil (length bs) (unat (ps_page_size ops s) - 8)"
proof (cases "bs = []")
  case True
  moreover have "div_ceil 0 (unat (ps_page_size ops s) - 8) = 0" using assms(2) by (simp add: div_ceil_def)
  ultimately show ?thesis
    using assms(1) by (intro exI [of _ 0] exI [of _ "[]"] exI [of _ s]) (simp add: write_chain_def)
next
  case False
  let ?cap = "unat (ps_page_size ops s) - 8"
  from write_chain_ok [OF assms(1) False assms(2,3)] obtain h ids s' where
    w: "write_chain ops bs s = Some (Inr h, s')" "inv s'" "ids \<noteq> []"
      "is_chain (pages s') h ids (chunk_list ?cap (length ids) bs)"
      "length ids = div_ceil (length bs) ?cap" "distinct ids"
      "\<forall>p \<in> set ids. pages s p = None" "\<forall>q. q \<notin> set ids \<longrightarrow> pages s' q = pages s q"
      "ps_page_size ops s' = ps_page_size ops s" "room s' = room s - length ids" by blast
  have "[] \<notin> set (chunk_list ?cap (length ids) bs)"
    using chunk_list_nonempty [of "length ids" ?cap bs] div_ceil_bounds(2) [of ?cap "length bs"]
      False assms(2) w(5) by auto
  moreover have "concat (chunk_list ?cap (length ids) bs) = bs"
    using w(5) assms(2) by (simp add: concat_chunk_list_all)
  moreover have "room s = room s' + length ids" using w(5,10) assms(3) by simp
  ultimately show ?thesis using w by blast
qed

lemma write_overflow_ok:
  assumes "inv s" "zlib_ok z" "8 < unat (ps_page_size ops s)" "length bs < 2 ^ 32"
    and "div_ceil (length bs) (unat (ps_page_size ops s) - 8) \<le> room s"
  shows "\<exists>ptr ids s'. write_overflow z ops bs mode s = Some (Inr ptr, s') \<and> inv s' \<and>
    overflow_holds z (pages s') ptr ids bs \<and> (\<forall>p \<in> set ids. pages s p = None) \<and>
    (\<forall>q. q \<notin> set ids \<longrightarrow> pages s' q = pages s q) \<and>
    ps_page_size ops s' = ps_page_size ops s \<and> room s = room s' + length ids"
proof -
  let ?c = "maybe_compress z bs mode"
  have "div_ceil (length (cp_bytes ?c)) (unat (ps_page_size ops s) - 8) \<le> room s"
    using div_ceil_mono [OF stored_len_le] assms(5) le_trans by blast
  from write_stored_ok [OF assms(1,3) this] obtain h ids cs s' where
    w: "write_chain ops (cp_bytes ?c) s = Some (Inr h, s')" "inv s'" "distinct ids"
      "is_chain (pages s') h ids cs" "[] \<notin> set cs" "concat cs = cp_bytes ?c"
      "\<forall>p \<in> set ids. pages s p = None" "\<forall>q. q \<notin> set ids \<longrightarrow> pages s' q = pages s q"
      "ps_page_size ops s' = ps_page_size ops s" "room s = room s' + length ids" by blast
  let ?ptr = "\<lparr>op_head_page_id = h, op_logical_len = of_nat (length bs),
     op_flags = (if cp_compressed ?c then FLAG_COMPRESSED else 0)\<rparr>"
  have "overflow_holds z (pages s') ?ptr ids bs"
    by (rule holds_new [OF assms(2,4) w(3-6)])
  moreover have "write_overflow z ops bs mode s = Some (Inr ?ptr, s')"
    using w(1) assms(4) by (simp add: write_overflow_def Let_def checked_logical_len_def ok_or_def u32_try_from_def)
  ultimately show ?thesis using w(2,7-10) by blast
qed

lemma free_overflow_ok:
  assumes "inv s" "overflow_holds z (pages s) ptr ids payload"
  shows "\<exists>s'. free_overflow ops (op_head_page_id ptr) s = Some (Inr ids, s') \<and> inv s' \<and>
    pages s' = (\<lambda>q. if q \<in> set ids then None else pages s q) \<and>
    ps_page_size ops s' = ps_page_size ops s \<and> room s' = room s + length ids"
proof -
  obtain cs where "is_chain (pages s) (op_head_page_id ptr) ids cs" "distinct ids"
    using assms(2) unfolding overflow_holds_def by blast
  from free_overflow_loop_ok [OF assms(1) this, of "[]"] show ?thesis
    by (simp add: free_overflow_def)
qed


lemma free_pages_each_ok:
  "inv s \<Longrightarrow> distinct ps \<Longrightarrow> \<forall>p \<in> set ps. pages s p \<noteq> None \<Longrightarrow>
     \<exists>s'. free_pages_each ops ps s = Some (Inr (), s') \<and> inv s' \<and>
       pages s' = (\<lambda>q. if q \<in> set ps then None else pages s q) \<and>
       ps_page_size ops s' = ps_page_size ops s \<and> room s' = room s + length ps"
proof (induction ps arbitrary: s)
  case Nil
  then show ?case by (simp add: free_pages_each_def)
next
  case (Cons p ps)
  obtain s1 where s1: "ps_free_page ops p s = (Inr (), s1)" "inv s1"
    "pages s1 = (pages s)(p := None)" "ps_page_size ops s1 = ps_page_size ops s"
    "room s1 = Suc (room s)"
    using page_free [of s p] Cons.prems by auto
  moreover have "\<forall>q \<in> set ps. pages s1 q \<noteq> None" using s1 Cons.prems by auto
  ultimately obtain s' where "free_pages_each ops ps s1 = Some (Inr (), s')" "inv s'"
    "pages s' = (\<lambda>q. if q \<in> set ps then None else pages s1 q)"
    "ps_page_size ops s' = ps_page_size ops s1" "room s' = room s1 + length ps"
    using Cons.IH [of s1] Cons.prems by auto
  with s1 show ?case by (auto simp: free_pages_each_def fun_eq_iff)
qed

lemma existing_ok_collected:
  assumes "\<forall>(p, page) \<in> set ex. pages s p = Some page" "\<And>p. p \<in> fst ` set ex \<Longrightarrow> pages s1 p = pages s p"
  shows "existing_ok (pages s1) (Some ex) 0 ids"
  unfolding existing_ok_def
proof (intro allI impI)
  fix ex' i page
  assume "Some ex = Some ex'" "i < length ids" "get_at ex' (0 + i) = Some (ids ! i, page)"
  then have "(ids ! i, page) \<in> set ex" by (auto simp: in_set_conv_nth)
  then show "pages s1 (ids ! i) = Some page" using assms by force
qed

text \<open>Rewriting a chain over its own pages, growing or shrinking it.\<close>

lemma rewrite_pages_ok:
  assumes "inv s" "is_chain (pages s) h ids cs" "distinct ids" "ids \<noteq> []" "b \<noteq> []"
    and psz: "8 < unat (ps_page_size ops s)" and cap: "cap = unat (ps_page_size ops s) - 8"
    and n: "n = div_ceil (length b) cap" "n \<le> room s + length ids"
  shows "\<exists>ex fresh s1 s2 s3. collect_chain_pages ops s h = Some (Inr ex) \<and> map fst ex = ids \<and>
    alloc_pages ops (n - length ex) s = Some (Inr fresh, s1) \<and>
    write_chain_pages ops (take n (ids @ fresh)) b (unat (ps_page_size ops s)) cap True (Some ex) s1 =
      Some (Inr (), s2) \<and>
    free_pages_each ops (drop n (ids @ fresh)) s2 = Some (Inr (), s3) \<and> inv s3 \<and>
    is_chain (pages s3) (hd (ids @ fresh)) (take n (ids @ fresh)) (chunk_list cap n b) \<and>
    distinct (ids @ fresh) \<and> (\<forall>p \<in> set fresh. pages s p = None) \<and>
    (\<forall>q. q \<notin> set (ids @ fresh) \<longrightarrow> pages s3 q = pages s q) \<and>
    (\<forall>q \<in> set (drop n (ids @ fresh)). pages s3 q = None)"
proof -
  from collect_chain_loop_ok [OF assms(1,2), of "[]"] obtain ex where
    ex: "collect_chain_pages ops s h = Some (Inr ex)" "map fst ex = ids"
      "\<forall>(p, page) \<in> set ex. pages s p = Some page"
    by (auto simp: collect_chain_pages_def)
  have lex: "length ex = length ids" using ex(2) by (metis length_map)
  have "n - length ex \<le> room s" using n lex by simp
  from alloc_pages_ok [OF assms(1) this] obtain fresh s1 where
    a: "alloc_pages ops (n - length ex) s = Some (Inr fresh, s1)" "inv s1"
      "length fresh = n - length ex" "distinct fresh"
      "\<forall>p \<in> set fresh. p \<noteq> 0 \<and> pages s p = None \<and> pages s1 p \<noteq> None"
      "\<forall>q. q \<notin> set fresh \<longrightarrow> pages s1 q = pages s q"
      "ps_page_size ops s1 = ps_page_size ops s" by blast
  let ?all = "ids @ fresh"
  have live: "\<forall>p \<in> set ids. p \<noteq> 0 \<and> pages s p \<noteq> None" using is_chain_live [OF assms(2)] by blast
  then have dall: "distinct ?all" using a(4,5) assms(3) by auto
  have live1: "\<forall>p \<in> set ?all. p \<noteq> 0 \<and> pages s1 p \<noteq> None" using live a(5,6) by (metis Un_iff set_append)
  have ids1: "pages s1 p = pages s p" if "p \<in> fst ` set ex" for p
    using that ex(2) live a(5,6) by (metis list.set_map)
  have n0: "0 < n" using div_ceil_bounds(3) [of cap "length b"] assms(5) psz cap n(1) by simp
  have tk: "distinct (take n ?all)" "\<forall>p \<in> set (take n ?all). p \<noteq> 0 \<and> pages s1 p \<noteq> None"
    using distinct_take [OF dall] live1 set_take_subset [of n ?all] by (blast, blast)
  from write_chain_pages_loop_ok [OF a(2) tk existing_ok_collected [OF ex(3) ids1] _ psz cap, of b True 0]
  obtain s2 where w: "write_chain_pages_loop ops b (unat (ps_page_size ops s)) cap True (Some ex)
      (take n ?all) 0 0 s1 = Some (Inr (), s2)" "inv s2"
    "is_chain (pages s2) (case take n ?all of [] \<Rightarrow> 0 | q # _ \<Rightarrow> q) (take n ?all)
      (chunk_list cap (length (take n ?all)) (drop 0 b))"
    "\<forall>q. q \<notin> set (take n ?all) \<longrightarrow> pages s2 q = pages s1 q" "dom (pages s2) = dom (pages s1)"
    using a(7) by (auto simp del: take_append)
  have "\<forall>p \<in> set (drop n ?all). pages s2 p \<noteq> None"
    using live1 w(5) by (metis domIff in_set_dropD)
  from free_pages_each_ok [OF w(2) distinct_drop [OF dall] this] obtain s3 where
    f: "free_pages_each ops (drop n ?all) s2 = Some (Inr (), s3)" "inv s3"
      "pages s3 = (\<lambda>q. if q \<in> set (drop n ?all) then None else pages s2 q)" by blast
  have disj: "set (take n ?all) \<inter> set (drop n ?all) = {}"
    using dall set_take_disj_set_drop_if_distinct by blast
  have hd: "(case take n ?all of [] \<Rightarrow> 0 | q # _ \<Rightarrow> q) = hd ?all"
    using assms(4) n0 by (cases ids; cases n) auto
  have len: "length (take n ?all) = n" using a(3) lex by simp
  have "is_chain (pages s2) (hd ?all) (take n ?all) (chunk_list cap n b)"
    using w(3) unfolding hd len by simp
  then have "is_chain (pages s3) (hd ?all) (take n ?all) (chunk_list cap n b)"
    by (rule is_chain_cong) (use f(3) disj in auto)
  moreover have "pages s3 q = pages s q" if "q \<notin> set ?all" for q
  proof -
    have "q \<notin> set (take n ?all)" "q \<notin> set (drop n ?all)" "q \<notin> set fresh"
      using that by (auto dest: in_set_takeD in_set_dropD simp del: take_append drop_append)
    then show ?thesis using w(4) f(3) a(6) by simp
  qed
  ultimately show ?thesis
    using ex(1,2) a(1,5) w(1) f(1,2) dall
    by (intro exI [of _ ex] exI [of _ fresh] exI [of _ s1] exI [of _ s2] exI [of _ s3])
       (simp add: write_chain_pages_def f(3) del: take_append drop_append)
qed


text \<open>The three ways a rewrite goes: nothing left to store, no chain yet, and reuse.\<close>

definition rewritten ::
  "zlib \<Rightarrow> OverflowPointer \<Rightarrow> bytes \<Rightarrow> CompressionMode \<Rightarrow> page_id list \<Rightarrow> 's \<Rightarrow> bool"
where
  "rewritten z prev bs mode ids s \<longleftrightarrow>
    (\<exists>ptr ids' s'. rewrite_overflow z ops prev bs mode s = Some (Inr ptr, s') \<and> inv s' \<and>
      overflow_holds z (pages s') ptr ids' bs \<and>
      (\<forall>p \<in> set ids'. p \<in> set ids \<or> pages s p = None) \<and>
      (\<forall>q \<in> set ids - set ids'. pages s' q = None) \<and>
      (\<forall>q. q \<notin> set ids \<union> set ids' \<longrightarrow> pages s' q = pages s q))"

lemma checked_logical_len_ok:
  "length bs < 2 ^ 32 \<Longrightarrow> checked_logical_len bs = Inr (of_nat (length bs))"
  by (simp add: checked_logical_len_def ok_or_def u32_try_from_def)

lemma rewrite_empty_ok:
  assumes "inv s" "zlib_ok z" "length bs < 2 ^ 32" "overflow_holds z (pages s) prev ids old"
    and empty: "cp_bytes (maybe_compress z bs mode) = []"
  shows "rewritten z prev bs mode ids s"
proof -
  from free_overflow_ok [OF assms(1,4)] obtain s' where
    f: "free_overflow ops (op_head_page_id prev) s = Some (Inr ids, s')" "inv s'"
      "pages s' = (\<lambda>q. if q \<in> set ids then None else pages s q)" by blast
  let ?ptr = "\<lparr>op_head_page_id = 0, op_logical_len = of_nat (length bs),
     op_flags = (if cp_compressed (maybe_compress z bs mode) then FLAG_COMPRESSED else 0)\<rparr>"
  have "s' = s" if "op_head_page_id prev = 0"
    using f(1) that by (simp add: free_overflow_def free_overflow_loop.simps)
  then have "rewrite_overflow z ops prev bs mode s = Some (Inr ?ptr, s')"
    using empty f(1) checked_logical_len_ok [OF assms(3)] by (simp add: rewrite_overflow_def Let_def)
  moreover have "overflow_holds z (pages s') ?ptr [] bs"
    by (rule holds_new [OF assms(2,3), of "[]" _ _ "[]"]) (simp_all add: empty)
  ultimately show ?thesis
    unfolding rewritten_def using f(2,3) by (intro exI [of _ ?ptr] exI [of _ "[]"] exI [of _ s']) simp
qed

lemma rewrite_fresh_ok:
  assumes "inv s" "zlib_ok z" "8 < unat (ps_page_size ops s)" "length bs < 2 ^ 32"
    and "cp_bytes (maybe_compress z bs mode) \<noteq> []" "op_head_page_id prev = 0"
    and "div_ceil (length (cp_bytes (maybe_compress z bs mode))) (unat (ps_page_size ops s) - 8) \<le> room s"
  shows "rewritten z prev bs mode [] s"
proof -
  let ?c = "maybe_compress z bs mode"
  from write_stored_ok [OF assms(1,3,7)] obtain h ids' cs' s' where
    w: "write_chain ops (cp_bytes ?c) s = Some (Inr h, s')" "inv s'" "distinct ids'"
      "is_chain (pages s') h ids' cs'" "[] \<notin> set cs'" "concat cs' = cp_bytes ?c"
      "\<forall>p \<in> set ids'. pages s p = None" "\<forall>q. q \<notin> set ids' \<longrightarrow> pages s' q = pages s q" by blast
  let ?ptr = "\<lparr>op_head_page_id = h, op_logical_len = of_nat (length bs),
     op_flags = (if cp_compressed ?c then FLAG_COMPRESSED else 0)\<rparr>"
  have "overflow_holds z (pages s') ?ptr ids' bs"
    by (rule holds_new [OF assms(2,4) w(3-6)])
  moreover have "rewrite_overflow z ops prev bs mode s = Some (Inr ?ptr, s')"
    using assms(5,6) checked_logical_len_ok [OF assms(4)] w(1) by (simp add: rewrite_overflow_def Let_def)
  ultimately show ?thesis
    unfolding rewritten_def using w(2,7,8) by (intro exI [of _ ?ptr] exI [of _ ids'] exI [of _ s']) simp
qed

lemma rewrite_reuse_ok:
  assumes "inv s" "zlib_ok z" "8 < unat (ps_page_size ops s)" "length bs < 2 ^ 32"
    and "is_chain (pages s) (op_head_page_id prev) ids cs" "distinct ids" "ids \<noteq> []"
    and nonempty: "cp_bytes (maybe_compress z bs mode) \<noteq> []"
    and "div_ceil (length (cp_bytes (maybe_compress z bs mode))) (unat (ps_page_size ops s) - 8) \<le> room s"
  shows "rewritten z prev bs mode ids s"
proof -
  let ?c = "maybe_compress z bs mode" and ?psz = "unat (ps_page_size ops s)"
  let ?b = "cp_bytes ?c" and ?cap = "?psz - 8"
  let ?n = "div_ceil (length ?b) ?cap"
  have "?n \<le> room s + length ids" using assms(9) by simp
  from rewrite_pages_ok [OF assms(1,5,6,7) nonempty assms(3) refl refl this]
  obtain ex fresh s1 s2 s3 where
    r: "collect_chain_pages ops s (op_head_page_id prev) = Some (Inr ex)" "map fst ex = ids"
      "alloc_pages ops (?n - length ex) s = Some (Inr fresh, s1)"
      "write_chain_pages ops (take ?n (ids @ fresh)) ?b ?psz ?cap True (Some ex) s1 = Some (Inr (), s2)"
      "free_pages_each ops (drop ?n (ids @ fresh)) s2 = Some (Inr (), s3)" "inv s3"
      "is_chain (pages s3) (hd (ids @ fresh)) (take ?n (ids @ fresh)) (chunk_list ?cap ?n ?b)"
      "distinct (ids @ fresh)" "\<forall>p \<in> set fresh. pages s p = None"
      "\<forall>q. q \<notin> set (ids @ fresh) \<longrightarrow> pages s3 q = pages s q"
      "\<forall>q \<in> set (drop ?n (ids @ fresh)). pages s3 q = None" by blast
  let ?ids = "take ?n (ids @ fresh)"
  let ?ptr = "\<lparr>op_head_page_id = hd (ids @ fresh), op_logical_len = of_nat (length bs),
     op_flags = (if cp_compressed ?c then FLAG_COMPRESSED else 0)\<rparr>"
  have "[] \<notin> set (chunk_list ?cap ?n ?b)"
    using chunk_list_nonempty [of ?n ?cap ?b] div_ceil_bounds(2) [of ?cap "length ?b"] assms(3) nonempty
    by auto
  then have "overflow_holds z (pages s3) ?ptr ?ids bs"
    using holds_new [OF assms(2,4) distinct_take [OF r(8)] r(7)] assms(3)
    by (simp add: concat_chunk_list_all)
  moreover have "op_head_page_id prev \<noteq> 0" using is_chain_head [OF assms(5,7)] by blast
  then have "rewrite_overflow z ops prev bs mode s = Some (Inr ?ptr, s3)"
    using nonempty checked_logical_len_ok [OF assms(4)] r(1-5) assms(3)
    by (simp add: rewrite_overflow_def Let_def page_size_guard_def OVERFLOW_HEADER_SIZE_def
        del: take_append drop_append)
  moreover have all: "set (ids @ fresh) = set ?ids \<union> set (drop ?n (ids @ fresh))"
    by (metis append_take_drop_id set_append)
  moreover have "\<forall>p \<in> set ?ids. p \<in> set ids \<or> pages s p = None"
    using r(9) set_take_subset [of ?n "ids @ fresh"] by auto
  moreover have "\<forall>q \<in> set ids - set ?ids. pages s3 q = None" using r(11) all by auto
  moreover have "pages s3 q = pages s q" if q: "q \<notin> set ids \<union> set ?ids" for q
    using r(9,10,11) all q by (cases "q \<in> set fresh") auto
  ultimately show ?thesis unfolding rewritten_def using r(6) by blast
qed

lemma rewrite_overflow_ok:
  assumes "inv s" "zlib_ok z" "8 < unat (ps_page_size ops s)" "length bs < 2 ^ 32"
    and holds: "overflow_holds z (pages s) prev ids old"
    and "div_ceil (length bs) (unat (ps_page_size ops s) - 8) \<le> room s"
  shows "rewritten z prev bs mode ids s"
proof -
  obtain cs where chain: "is_chain (pages s) (op_head_page_id prev) ids cs" "distinct ids"
    using holds unfolding overflow_holds_def by blast
  have rm: "div_ceil (length (cp_bytes (maybe_compress z bs mode))) (unat (ps_page_size ops s) - 8) \<le> room s"
    using div_ceil_mono [OF stored_len_le] assms(6) le_trans by blast
  consider (empty) "cp_bytes (maybe_compress z bs mode) = []"
    | (none) "cp_bytes (maybe_compress z bs mode) \<noteq> []" "ids = []"
    | (reuse) "cp_bytes (maybe_compress z bs mode) \<noteq> []" "ids \<noteq> []" by blast
  then show ?thesis
  proof cases
    case empty
    then show ?thesis by (rule rewrite_empty_ok [OF assms(1,2,4) holds])
  next
    case none
    with chain show ?thesis using rewrite_fresh_ok [OF assms(1-4) none(1) _ rm] by simp
  next
    case reuse
    then show ?thesis using rewrite_reuse_ok [OF assms(1-4) chain _ _ rm] by blast
  qed
qed

end

section \<open>Properties\<close>

definition stored_zlib :: zlib where
  "stored_zlib = \<lparr>compress_to_vec_zlib = (\<lambda>b level. b), decompress_to_vec_zlib = Some\<rparr>"

lemma stored_zlib_ok: "zlib_ok stored_zlib"
  by (simp add: zlib_ok_def stored_zlib_def)

text \<open>
  C14: What is written to overflow pages is read back: storing a payload of any
  length below four gigabytes, in any compression mode, in a well-formed store
  with enough room succeeds, and reading the returned pointer terminates with
  exactly the payload; every page it took was free before, no other page changes
  and the store stays well-formed.
\<close>

theorem overflow_write_read:
  assumes "inmem_inv s" "zlib_ok z" "8 < unat (im_page_size s)" "length bs < 2 ^ 32"
    and "div_ceil (length bs) (unat (im_page_size s) - 8) \<le> inmem_room s"
  shows "\<exists>ptr ids s'. write_overflow z inmem_ops bs mode s = Some (Inr ptr, s') \<and> inmem_inv s' \<and>
    read_overflow z inmem_ops s' ptr = Some (Inr bs) \<and> (\<forall>p \<in> set ids. im_pages s p = None) \<and>
    (\<forall>q. q \<notin> set ids \<longrightarrow> im_pages s' q = im_pages s q)"
proof -
  from inmem.write_overflow_ok [of s z bs mode] assms obtain ptr ids s' where
    "write_overflow z inmem_ops bs mode s = Some (Inr ptr, s')" "inmem_inv s'"
    "overflow_holds z (im_pages s') ptr ids bs" "\<forall>p \<in> set ids. im_pages s p = None"
    "\<forall>q. q \<notin> set ids \<longrightarrow> im_pages s' q = im_pages s q" by (auto simp: inmem_ops_def)
  with inmem.read_overflow_ok show ?thesis by blast
qed

theorem overflow_write_read_witness:
  "\<exists>ptr s'. write_overflow stored_zlib inmem_ops (replicate 5000 7) Auto (inmem_new 4096) = Some (Inr ptr, s') \<and>
     read_overflow stored_zlib inmem_ops s' ptr = Some (Inr (replicate 5000 7))"
  using overflow_write_read [OF inmem_new_inv [of 4096] stored_zlib_ok, of "replicate 5000 7" Auto]
  by (auto simp: inmem_new_def inmem_room_def CATALOG_ROOT_PAGE_ID_def div_ceil_def)

text \<open>
  C36: Overflow storage does not leak: freeing the pointer returned by a write
  terminates, frees exactly the pages of the chain and restores the page map the
  store had before the write.
\<close>

theorem overflow_write_free:
  assumes "inmem_inv s" "zlib_ok z" "8 < unat (im_page_size s)" "length bs < 2 ^ 32"
    and "div_ceil (length bs) (unat (im_page_size s) - 8) \<le> inmem_room s"
  shows "\<exists>ptr freed s1 s2. write_overflow z inmem_ops bs mode s = Some (Inr ptr, s1) \<and>
    free_overflow inmem_ops (op_head_page_id ptr) s1 = Some (Inr freed, s2) \<and>
    im_pages s2 = im_pages s \<and> inmem_inv s2 \<and> distinct freed \<and> inmem_room s2 = inmem_room s"
proof -
  from inmem.write_overflow_ok [of s z bs mode] assms obtain ptr ids s1 where
    w: "write_overflow z inmem_ops bs mode s = Some (Inr ptr, s1)" "inmem_inv s1"
      "overflow_holds z (im_pages s1) ptr ids bs" "\<forall>p \<in> set ids. im_pages s p = None"
      "\<forall>q. q \<notin> set ids \<longrightarrow> im_pages s1 q = im_pages s q"
      "inmem_room s = inmem_room s1 + length ids" by (auto simp: inmem_ops_def)
  from inmem.free_overflow_ok [OF w(2,3)] obtain s2 where
    f: "free_overflow inmem_ops (op_head_page_id ptr) s1 = Some (Inr ids, s2)" "inmem_inv s2"
      "im_pages s2 = (\<lambda>q. if q \<in> set ids then None else im_pages s1 q)"
      "inmem_room s2 = inmem_room s1 + length ids" by blast
  have "im_pages s2 = im_pages s" using f(3) w(4,5) by (auto simp: fun_eq_iff)
  moreover have "distinct ids" using w(3) by (simp add: overflow_holds_def)
  ultimately show ?thesis using w(1,6) f(1,2,4) by (metis (no_types, lifting))
qed

theorem overflow_write_free_witness:
  "\<exists>ptr freed s1 s2. write_overflow stored_zlib inmem_ops (replicate 5000 7) Never (inmem_new 4096) =
       Some (Inr ptr, s1) \<and>
     free_overflow inmem_ops (op_head_page_id ptr) s1 = Some (Inr freed, s2) \<and>
     im_pages s2 = im_pages (inmem_new 4096)"
  using overflow_write_free [OF inmem_new_inv [of 4096] stored_zlib_ok, of "replicate 5000 7" Never]
  by (auto simp: inmem_new_def inmem_room_def CATALOG_ROOT_PAGE_ID_def div_ceil_def)

text \<open>
  C24: Rewriting replaces the payload and nothing else: from a pointer that holds a
  payload, \<open>rewrite_overflow\<close> succeeds whether the new payload is empty, longer or
  shorter, and the returned pointer reads as the new payload.  With \<open>ids'\<close> the pages that
  the links visit from the returned pointer, every page of the old chain that is not
  among them has been freed, every page of \<open>ids'\<close> belonged to the old chain or was free,
  and pages outside the two chains keep their content.
\<close>

theorem overflow_rewrite_replaces:
  assumes "inmem_inv s" "zlib_ok z" "8 < unat (im_page_size s)" "length bs < 2 ^ 32"
    and "overflow_holds z (im_pages s) prev ids old"
    and "div_ceil (length bs) (unat (im_page_size s) - 8) \<le> inmem_room s"
  shows "\<exists>ptr ids' s'. rewrite_overflow z inmem_ops prev bs mode s = Some (Inr ptr, s') \<and> inmem_inv s' \<and>
    read_overflow z inmem_ops s' ptr = Some (Inr bs) \<and> overflow_holds z (im_pages s') ptr ids' bs \<and>
    (\<forall>p \<in> set ids'. p \<in> set ids \<or> im_pages s p = None) \<and>
    (\<forall>q \<in> set ids - set ids'. im_pages s' q = None) \<and>
    (\<forall>q. q \<notin> set ids \<union> set ids' \<longrightarrow> im_pages s' q = im_pages s q)"
  using inmem.rewrite_overflow_ok [of s z bs prev ids old mode] assms inmem.read_overflow_ok
  unfolding inmem.rewritten_def by (auto simp: inmem_ops_def)

text \<open>A store with a chain of two overflow pages holding ten bytes, on 16-byte pages.\<close>

definition two_page_store :: InMemoryPageStore where
  "two_page_store = \<lparr>im_page_size = 16, im_next_page_id = 5, im_free_pages = [],
     im_pages = [3 \<mapsto> [4, 0, 0, 0, 8, 0, 0, 0, 1, 2, 3, 4, 5, 6, 7, 8], 4 \<mapsto> [0, 0, 0, 0, 2, 0, 0, 0, 9, 10, 0, 0, 0, 0, 0, 0]]\<rparr>"

lemma two_page_store_facts:
  "inmem_inv two_page_store" "1 \<le> inmem_room two_page_store" "im_page_size two_page_store = 16"
  "overflow_holds z (im_pages two_page_store) \<lparr>op_head_page_id = 3, op_logical_len = 10, op_flags = 0\<rparr> [3, 4] [1, 2, 3, 4, 5, 6, 7, 8, 9, 10]"
proof -
  show "inmem_inv two_page_store" "1 \<le> inmem_room two_page_store" "im_page_size two_page_store = 16"
    by (simp_all add: inmem_inv_def inmem_room_def two_page_store_def)
  have "is_chain (im_pages two_page_store) 3 [3, 4] [[1, 2, 3, 4, 5, 6, 7, 8], [9, 10]]"
    by (simp add: two_page_store_def chunk_page_def page_next_def page_chunk_len_def bslice_def u32_of_le_def)
  then show "overflow_holds z (im_pages two_page_store) \<lparr>op_head_page_id = 3, op_logical_len = 10, op_flags = 0\<rparr> [3, 4] [1, 2, 3, 4, 5, 6, 7, 8, 9, 10]"
    unfolding overflow_holds_def
    by (auto simp del: is_chain.simps intro!: exI [of _ "[[1, 2, 3, 4, 5, 6, 7, 8], [9, 10]]"])
qed

theorem overflow_rewrite_replaces_witness:
  "\<exists>ptr ids' s'. rewrite_overflow stored_zlib inmem_ops
       \<lparr>op_head_page_id = 3, op_logical_len = 10, op_flags = 0\<rparr> [1, 2, 3] Never two_page_store = Some (Inr ptr, s') \<and>
     read_overflow stored_zlib inmem_ops s' ptr = Some (Inr [1, 2, 3]) \<and>
     overflow_holds stored_zlib (im_pages s') ptr ids' [1, 2, 3] \<and> (\<forall>q \<in> {3, 4} - set ids'. im_pages s' q = None)"
proof -
  have "8 < unat (im_page_size two_page_store)" "length [1, 2, 3 :: u8] < 2 ^ 32"
    "div_ceil (length [1, 2, 3 :: u8]) (unat (im_page_size two_page_store) - 8) \<le> inmem_room two_page_store"
    using two_page_store_facts(2) by (simp_all add: two_page_store_facts(3) div_ceil_def)
  from overflow_rewrite_replaces [OF two_page_store_facts(1) stored_zlib_ok this(1,2) two_page_store_facts(4) this(3), of Never]
  show ?thesis by (simp only: list.simps) blast
qed

end
