(* ===== verification/OverflowUpdate.thy ===== *)
theory OverflowUpdate
  imports Overflow "HOL-Library.Product_Lexorder"
begin

text \<open>
  In-place updates of uncompressed overflow chains, \<open>record/overflow.rs\<close>: the
  cached rewrite with its dirty page ranges, sparse byte patches that maintain
  the payload checksum, and the two ways of appending to a chain.
\<close>

section \<open>Cached rewrite\<close>

type_synonym byte_range = "nat \<times> nat"

definition write_cached_overflow_page ::
  "'s page_store_ops \<Rightarrow> bytes \<Rightarrow> page_id list \<Rightarrow> page_id list \<Rightarrow> nat \<Rightarrow> nat \<Rightarrow> nat \<Rightarrow> ('s, unit) prog"
where
  "write_cached_overflow_page ops bs page_ids cached_page_ids chunk_capacity page_size index =
     (let page_id = page_ids ! index;
          next = (case get_at page_ids (index + 1) of Some q \<Rightarrow> q | None \<Rightarrow> 0);
          offset = index * chunk_capacity;
          remaining = length bs - offset;
          chunk_len = min remaining chunk_capacity
      in pbind (plift (overflow_page page_size next (bslice bs offset (offset + chunk_len)))) (\<lambda>page.
         (\<lambda>s. if index < length cached_page_ids \<and> ps_read_page ops page_id s = Inr page
              then Some (Inr (), s)
              else Some (ps_write_page ops page_id page s))))"

text \<open>The page window one dirty byte range touches, and the merge of sorted windows.\<close>

definition dirty_window :: "nat \<Rightarrow> nat \<Rightarrow> nat \<Rightarrow> nat \<Rightarrow> byte_range \<Rightarrow> byte_range list" where
  "dirty_window len chunk_capacity needed_pages skip_first_n_pages dirty_range =
     (let range_start = min (fst dirty_range) len;
          range_end = min (snd dirty_range) len
      in if range_start \<ge> range_end then []
         else
           let rewrite_from_page =
                 min (max (range_start div chunk_capacity) skip_first_n_pages) needed_pages;
               rewrite_to_page = min ((range_end - 1) div chunk_capacity + 1) needed_pages
           in if rewrite_from_page < rewrite_to_page then [(rewrite_from_page, rewrite_to_page)] else [])"

definition resize_window :: "nat \<Rightarrow> nat \<Rightarrow> nat \<Rightarrow> byte_range list" where
  "resize_window needed_pages cached_len skip_first_n_pages =
     (if needed_pages \<noteq> cached_len \<and> needed_pages > 0 then
        let rewrite_from_page =
              min (max (if needed_pages > cached_len then cached_len - 1 else needed_pages - 1)
                       skip_first_n_pages) needed_pages
        in if rewrite_from_page < needed_pages then [(rewrite_from_page, needed_pages)] else []
      else [])"

definition merge_range :: "byte_range list \<Rightarrow> byte_range \<Rightarrow> byte_range list" where
  "merge_range merged rng =
     (if merged \<noteq> [] \<and> fst rng \<le> snd (last merged)
      then butlast merged @ [(fst (last merged), max (snd (last merged)) (snd rng))]
      else merged @ [rng])"

definition rewrite_page_ranges ::
  "nat \<Rightarrow> nat \<Rightarrow> nat \<Rightarrow> nat \<Rightarrow> nat \<Rightarrow> byte_range list \<Rightarrow> byte_range list"
where
  "rewrite_page_ranges len chunk_capacity needed_pages cached_len skip_first_n_pages ranges =
     foldl merge_range []
       (sort_key fst
         (concat (map (dirty_window len chunk_capacity needed_pages skip_first_n_pages) ranges) @
          resize_window needed_pages cached_len skip_first_n_pages))"

text \<open>The page indices a call rewrites, in the order it visits them.\<close>

definition rewrite_indices ::
  "nat \<Rightarrow> nat \<Rightarrow> nat \<Rightarrow> nat \<Rightarrow> nat \<Rightarrow> byte_range list option \<Rightarrow> nat list"
where
  "rewrite_indices len chunk_capacity needed_pages cached_len skip_first_n_pages dirty_byte_ranges =
     (case dirty_byte_ranges of
        Some (r # rs) \<Rightarrow>
          concat (map (\<lambda>(a, b). [a..<b])
            (rewrite_page_ranges len chunk_capacity needed_pages cached_len skip_first_n_pages (r # rs)))
      | _ \<Rightarrow>
          [(if needed_pages = cached_len then min skip_first_n_pages needed_pages else 0)
             ..< needed_pages])"

definition rewrite_overflow_cached_with_dirty_byte_ranges ::
  "'s page_store_ops \<Rightarrow> OverflowPointer \<Rightarrow> bytes \<Rightarrow> page_id list \<Rightarrow> nat \<Rightarrow> byte_range list option
    \<Rightarrow> ('s, OverflowPointer \<times> page_id list \<times> OverflowTailInfo) prog"
where
  "rewrite_overflow_cached_with_dirty_byte_ranges ops previous bs cached_page_ids
       skip_first_n_pages dirty_byte_ranges =
     pbind (plift (checked_logical_len bs)) (\<lambda>logical_len.
       if bs = [] then
         pbind (if op_head_page_id previous \<noteq> 0
                then pbind (free_overflow ops (op_head_page_id previous)) (\<lambda>_. pret ())
                else pret ()) (\<lambda>_.
           pret (\<lparr>op_head_page_id = 0, op_logical_len = logical_len, op_flags = 0\<rparr>, [],
                 \<lparr>tail_page_id = 0, tail_chunk_len = 0\<rparr>))
       else
         pbind (page_size_guard ops) (\<lambda>page_size.
           let chunk_capacity = page_size - OVERFLOW_HEADER_SIZE;
               needed_pages = div_ceil (length bs) chunk_capacity
           in pbind (alloc_pages ops (needed_pages - length cached_page_ids)) (\<lambda>fresh.
              let page_ids = take needed_pages cached_page_ids @ fresh
              in pbind (pforeach
                    (write_cached_overflow_page ops bs page_ids cached_page_ids chunk_capacity page_size)
                    (rewrite_indices (length bs) chunk_capacity needed_pages (length cached_page_ids)
                       skip_first_n_pages dirty_byte_ranges)) (\<lambda>_.
                 pbind (free_pages_each ops (drop needed_pages cached_page_ids)) (\<lambda>_.
                   pret (\<lparr>op_head_page_id = hd page_ids, op_logical_len = logical_len, op_flags = 0\<rparr>,
                         page_ids,
                         \<lparr>tail_page_id = page_ids ! (needed_pages - 1),
                          tail_chunk_len = length bs - (needed_pages - 1) * chunk_capacity\<rparr>))))))"

definition rewrite_overflow_cached_with_dirty_byte_range ::
  "'s page_store_ops \<Rightarrow> OverflowPointer \<Rightarrow> bytes \<Rightarrow> page_id list \<Rightarrow> nat \<Rightarrow> byte_range option
    \<Rightarrow> ('s, OverflowPointer \<times> page_id list \<times> OverflowTailInfo) prog"
where
  "rewrite_overflow_cached_with_dirty_byte_range ops previous bs cached skip dirty_byte_range =
     (case dirty_byte_range of
        Some rng \<Rightarrow>
          rewrite_overflow_cached_with_dirty_byte_ranges ops previous bs cached skip (Some [rng])
      | None \<Rightarrow>
          rewrite_overflow_cached_with_dirty_byte_ranges ops previous bs cached skip None)"

definition rewrite_overflow_cached ::
  "'s page_store_ops \<Rightarrow> OverflowPointer \<Rightarrow> bytes \<Rightarrow> page_id list \<Rightarrow> nat
    \<Rightarrow> ('s, OverflowPointer \<times> page_id list \<times> OverflowTailInfo) prog"
where
  "rewrite_overflow_cached ops previous bs cached skip =
     rewrite_overflow_cached_with_dirty_byte_range ops previous bs cached skip None"

section \<open>Sparse byte patches\<close>

record OverflowBytePatch =
  patch_offset :: nat
  patch_bytes :: bytes

record PagePatchSegment =
  seg_page_index :: nat
  seg_logical_offset :: nat
  seg_local_offset :: nat
  seg_bytes :: bytes

fun check_patches :: "nat \<Rightarrow> OverflowBytePatch list \<Rightarrow> unit result" where
  "check_patches logical_len [] = Inr ()"
| "check_patches logical_len (patch # patches) =
     (if patch_bytes patch = [] then check_patches logical_len patches
      else case usize_checked_add (patch_offset patch) (length (patch_bytes patch)) of
        None \<Rightarrow> Inl (Constraint ''overflow byte patch offset + length overflows usize'')
      | Some end_ \<Rightarrow>
          if end_ > logical_len \<or> patch_offset patch > logical_len
          then Inl (Constraint ''overflow byte patch exceeds logical payload length'')
          else check_patches logical_len patches)"

fun ranges_overlap :: "byte_range list \<Rightarrow> bool" where
  "ranges_overlap (a # b # rest) = (snd a > fst b \<or> ranges_overlap (b # rest))"
| "ranges_overlap _ = False"

text \<open>Cutting one patch at page boundaries: the \<open>while segment_start < patch_end\<close> loop.\<close>

function patch_segments ::
  "nat \<Rightarrow> nat \<Rightarrow> OverflowBytePatch \<Rightarrow> nat \<Rightarrow> PagePatchSegment list result"
where
  "patch_segments chunk_capacity logical_len patch segment_start =
     (let patch_end = patch_offset patch + length (patch_bytes patch)
      in if segment_start \<ge> patch_end then Inr []
         else
           let page_index = segment_start div chunk_capacity;
               page_payload_offset = page_index * chunk_capacity;
               page_payload_end = page_payload_offset + chunk_capacity;
               segment_end = min (min patch_end page_payload_end) logical_len
           in if segment_start \<ge> segment_end
              then Inl (Constraint ''overflow byte patch segment did not advance'')
              else
                let patch_start = segment_start - patch_offset patch;
                    segment_len = segment_end - segment_start
                in rbind (ok_or (Internal ''overflow byte patch slice did not fit in source bytes'')
                       (get_range (patch_bytes patch) patch_start (patch_start + segment_len))) (\<lambda>bs.
                   rbind (patch_segments chunk_capacity logical_len patch segment_end) (\<lambda>rest.
                     Inr (\<lparr>seg_page_index = page_index, seg_logical_offset = segment_start,
                           seg_local_offset = segment_start - page_payload_offset,
                           seg_bytes = bs\<rparr> # rest))))"
  by pat_completeness auto
termination
  by (relation "measure (\<lambda>(_, _, patch, start). patch_offset patch + length (patch_bytes patch) - start)",
      simp, simp only: in_measure prod.case not_le, rule diff_less_mono2)

fun all_segments :: "nat \<Rightarrow> nat \<Rightarrow> OverflowBytePatch list \<Rightarrow> PagePatchSegment list result" where
  "all_segments chunk_capacity logical_len [] = Inr []"
| "all_segments chunk_capacity logical_len (patch # patches) =
     rbind (if patch_bytes patch = [] then Inr []
            else patch_segments chunk_capacity logical_len patch (patch_offset patch)) (\<lambda>segs.
     rbind (all_segments chunk_capacity logical_len patches) (\<lambda>rest. Inr (segs @ rest)))"

text \<open>The inner loop: all segments of one page, with the page buffer, checksum and change flag.\<close>

fun apply_segments ::
  "crc_cpu \<Rightarrow> nat \<Rightarrow> nat \<Rightarrow> PagePatchSegment list \<Rightarrow> bytes \<Rightarrow> u32 \<Rightarrow> bool
    \<Rightarrow> (bytes \<times> u32 \<times> bool) result"
where
  "apply_segments cpu logical_len chunk_len [] page_buf checksum changed =
     Inr (page_buf, checksum, changed)"
| "apply_segments cpu logical_len chunk_len (segment # segments) page_buf checksum changed =
     (let page_range_start = OVERFLOW_HEADER_SIZE + seg_local_offset segment;
          page_range_end = page_range_start + length (seg_bytes segment)
      in if page_range_end > OVERFLOW_HEADER_SIZE + chunk_len
         then Inl (Constraint ''overflow byte patch exceeds page payload length'')
         else
           let old_bytes = bslice page_buf page_range_start page_range_end
           in if old_bytes \<noteq> seg_bytes segment then
                rbind (ok_or (Internal ''overflow checksum patch failed'')
                    (crc32c_patch_bytes cpu checksum logical_len (seg_logical_offset segment)
                       old_bytes (seg_bytes segment))) (\<lambda>checksum'.
                  apply_segments cpu logical_len chunk_len segments
                    (copy_at page_buf page_range_start (seg_bytes segment)) checksum' True)
              else apply_segments cpu logical_len chunk_len segments page_buf checksum changed)"

text \<open>One iteration of the outer loop: the page with the given index and its segments.\<close>

definition patch_page ::
  "crc_cpu \<Rightarrow> 's page_store_ops \<Rightarrow> nat \<Rightarrow> nat \<Rightarrow> nat \<Rightarrow> page_id list \<Rightarrow> nat \<Rightarrow> PagePatchSegment list
    \<Rightarrow> u32 \<Rightarrow> ('s, u32) prog"
where
  "patch_page cpu ops page_size chunk_capacity logical_len page_ids page_index segments checksum =
     pbind (plift (ok_or (Internal ''overflow patch page index is out of range'')
              (get_at page_ids page_index))) (\<lambda>page_id.
       let page_payload_offset = page_index * chunk_capacity;
           logical_page_len = min ((page_index + 1) * chunk_capacity) logical_len;
           expected_len = logical_page_len - page_payload_offset
       in pbind (pread ops page_id) (\<lambda>existing.
          if length existing \<noteq> page_size then pfail (Corruption ''overflow page size mismatch'')
          else
            let existing_chunk_len = page_chunk_len existing
            in if existing_chunk_len \<noteq> expected_len
               then pfail (Corruption ''overflow chain payload chunk length does not match logical length'')
               else if OVERFLOW_HEADER_SIZE + existing_chunk_len > length existing
               then pfail (Corruption ''overflow chunk length exceeds page payload'')
               else pbind (plift (apply_segments cpu logical_len existing_chunk_len segments existing
                        checksum False)) (\<lambda>(page_buf, checksum', changed).
                      pbind (if changed then pstep (ps_write_page_owned ops page_id page_buf) else pret ())
                        (\<lambda>_. pret checksum'))))"

function patch_pages_loop ::
  "crc_cpu \<Rightarrow> 's page_store_ops \<Rightarrow> nat \<Rightarrow> nat \<Rightarrow> nat \<Rightarrow> page_id list \<Rightarrow> PagePatchSegment list
    \<Rightarrow> u32 \<Rightarrow> ('s, u32) prog"
where
  "patch_pages_loop cpu ops page_size chunk_capacity logical_len page_ids [] checksum = pret checksum"
| "patch_pages_loop cpu ops page_size chunk_capacity logical_len page_ids (segment # segments) checksum =
     (let same_page = (\<lambda>x. seg_page_index x = seg_page_index segment)
      in pbind (patch_page cpu ops page_size chunk_capacity logical_len page_ids
             (seg_page_index segment) (segment # takeWhile same_page segments) checksum) (\<lambda>checksum'.
           patch_pages_loop cpu ops page_size chunk_capacity logical_len page_ids
             (dropWhile same_page segments) checksum'))"
  by pat_completeness auto
termination
  by (relation "measure (\<lambda>(_, _, _, _, _, _, segments, _). length segments)")
     (auto simp: less_Suc_eq_le length_dropWhile_le)

definition rewrite_overflow_cached_with_sparse_byte_patches ::
  "crc_cpu \<Rightarrow> 's page_store_ops \<Rightarrow> OverflowPointer \<Rightarrow> u32 \<Rightarrow> page_id list \<Rightarrow> OverflowBytePatch list
    \<Rightarrow> ('s, OverflowPointer \<times> page_id list \<times> OverflowTailInfo \<times> u32) prog"
where
  "rewrite_overflow_cached_with_sparse_byte_patches cpu ops previous previous_checksum
       cached_page_ids patches =
     (if is_compressed previous
      then pfail (Internal ''sparse byte patches do not support compressed overflow payloads'')
      else if op_head_page_id previous = 0 then
        (if op_logical_len previous = 0
         then pret (previous, cached_page_ids, \<lparr>tail_page_id = 0, tail_chunk_len = 0\<rparr>, previous_checksum)
         else pfail (Internal ''cannot patch a non-empty overflow payload without page chain''))
      else pbind (page_size_guard ops) (\<lambda>page_size.
        let chunk_capacity = page_size - OVERFLOW_HEADER_SIZE;
            logical_len = unat (op_logical_len previous)
        in pbind (plift (check_patches logical_len patches)) (\<lambda>_.
           if logical_len = 0
           then pfail (Internal ''overflow logical length is zero for non-empty payload chain'')
           else
             let needed_pages = div_ceil logical_len chunk_capacity
             in if needed_pages = 0
                then pret (previous, cached_page_ids, \<lparr>tail_page_id = 0, tail_chunk_len = 0\<rparr>,
                           previous_checksum)
                else if length cached_page_ids < needed_pages
                then pfail (Internal ''overflow chain cache is shorter than payload'')
                else if get_at cached_page_ids 0 \<noteq> Some (op_head_page_id previous)
                then pfail (Internal ''overflow chain cache head does not match pointer'')
                else if ranges_overlap (sort_key fst
                    (map (\<lambda>patch. (patch_offset patch, patch_offset patch + length (patch_bytes patch)))
                       (filter (\<lambda>patch. patch_bytes patch \<noteq> []) patches)))
                then pfail (Constraint ''overflow byte patches overlap'')
                else pbind (plift (all_segments chunk_capacity logical_len patches)) (\<lambda>segments.
                  let page_ids = take needed_pages cached_page_ids
                  in pbind (patch_pages_loop cpu ops page_size chunk_capacity logical_len page_ids
                        (sort_key (\<lambda>x. (seg_page_index x, seg_local_offset x)) segments)
                        previous_checksum) (\<lambda>checksum.
                     pret (\<lparr>op_head_page_id = hd page_ids, op_logical_len = op_logical_len previous,
                            op_flags = op_flags previous\<rparr>, page_ids,
                           \<lparr>tail_page_id = last page_ids,
                            tail_chunk_len = logical_len - (needed_pages - 1) * chunk_capacity\<rparr>,
                           checksum))))))"

section \<open>Appending\<close>

text \<open>
  The \<open>while !source.is_empty()\<close> loop of both append routines takes a chunk of the
  source per iteration; \<open>new_chunk_pages\<close> is that loop over the chunks, and
  \<open>link_pages\<close> the loop that fills in the next pointers.
\<close>

fun new_chunk_pages ::
  "'s page_store_ops \<Rightarrow> nat \<Rightarrow> bytes list \<Rightarrow> ('s, (page_id \<times> bytes) list) prog"
where
  "new_chunk_pages ops page_size [] = pret []"
| "new_chunk_pages ops page_size (chunk # chunks) =
     pbind (pstep (ps_allocate_page ops)) (\<lambda>new_page_id.
     pbind (plift (overflow_page page_size 0 chunk)) (\<lambda>page.
     pbind (new_chunk_pages ops page_size chunks) (\<lambda>rest.
       pret ((new_page_id, page) # rest))))"

fun link_pages :: "(page_id \<times> bytes) list \<Rightarrow> (page_id \<times> bytes) list" where
  "link_pages ((p, page) # (q, qpage) # rest) =
     (p, copy_at page 0 (u32_le q)) # link_pages ((q, qpage) # rest)"
| "link_pages pages = pages"

definition write_new_pages ::
  "'s page_store_ops \<Rightarrow> (page_id \<times> bytes) list \<Rightarrow> ('s, unit) prog"
where
  "write_new_pages ops = pforeach (\<lambda>(page_id, page). pstep (ps_write_page_owned ops page_id page))"

text \<open>Filling the free space of a tail page: the page, its chunk length and what is left.\<close>

definition fill_tail :: "nat \<Rightarrow> bytes \<Rightarrow> nat \<Rightarrow> bytes \<Rightarrow> (bytes \<times> nat \<times> bytes) result" where
  "fill_tail chunk_capacity page chunk_len remaining =
     (let available = chunk_capacity - chunk_len
      in if available > 0 \<and> remaining \<noteq> [] then
           let take_len = min available (length remaining);
               start = OVERFLOW_HEADER_SIZE + chunk_len;
               page' = copy_at page start (take take_len remaining);
               updated = chunk_len + take_len
           in rbind (ok_or (Constraint ''overflow chunk length exceeds u32'') (u32_try_from updated))
                (\<lambda>len32. Inr (copy_at page' 4 (u32_le len32), updated, drop take_len remaining))
         else Inr (page, chunk_len, remaining))"

definition appended_pointer :: "OverflowPointer \<Rightarrow> bytes \<Rightarrow> OverflowPointer result" where
  "appended_pointer previous appended =
     rbind (checked_logical_len appended) (\<lambda>n.
       Inr (previous\<lparr>op_logical_len := u32_saturating_add (op_logical_len previous) n\<rparr>))"

definition append_uncompressed_with_tail ::
  "'s page_store_ops \<Rightarrow> OverflowPointer \<Rightarrow> OverflowTailInfo \<Rightarrow> bytes
    \<Rightarrow> ('s, OverflowPointer \<times> OverflowTailInfo) prog"
where
  "append_uncompressed_with_tail ops previous previous_tail appended =
     (if op_head_page_id previous = 0
      then pfail (Internal ''append_uncompressed_with_tail requires an existing overflow chain'')
      else if is_compressed previous
      then pfail (Internal ''append_uncompressed_with_tail does not support compressed payloads'')
      else if tail_page_id previous_tail = 0
      then pfail (Corruption ''append overflow tail page id is invalid'')
      else pbind (page_size_guard ops) (\<lambda>page_size.
        let chunk_capacity = page_size - OVERFLOW_HEADER_SIZE
        in pbind (\<lambda>s. Some (read_chain_page ops s (tail_page_id previous_tail), s)) (\<lambda>tail_page.
           let chunk_len = page_chunk_len tail_page
           in if chunk_len \<noteq> tail_chunk_len previous_tail
              then pfail (Corruption ''append overflow tail chunk length did not match cached state'')
              else if chunk_len > chunk_capacity
              then pfail (Corruption ''append overflow tail chunk length exceeds capacity'')
              else pbind (plift (fill_tail chunk_capacity tail_page chunk_len appended))
                (\<lambda>(tail_page, updated_tail_len, remaining).
                pbind (if remaining \<noteq> [] then
                         pbind (new_chunk_pages ops page_size
                             (chunk_list chunk_capacity (div_ceil (length remaining) chunk_capacity) remaining))
                           (\<lambda>new_pages.
                         pbind (pstep (ps_write_page_owned ops (tail_page_id previous_tail)
                             (copy_at tail_page 0 (u32_le (fst (hd new_pages)))))) (\<lambda>_.
                         pbind (write_new_pages ops (link_pages new_pages)) (\<lambda>_.
                           pret \<lparr>tail_page_id = fst (last new_pages),
                                 tail_chunk_len = page_chunk_len (snd (last new_pages))\<rparr>)))
                       else
                         pbind (pstep (ps_write_page_owned ops (tail_page_id previous_tail) tail_page)) (\<lambda>_.
                           pret \<lparr>tail_page_id = tail_page_id previous_tail,
                                 tail_chunk_len = updated_tail_len\<rparr>)) (\<lambda>final_tail.
                pbind (plift (appended_pointer previous appended)) (\<lambda>pointer.
                  pret (pointer, final_tail)))))))"

partial_function (option) collect_chunks_loop ::
  "'s page_store_ops \<Rightarrow> 's \<Rightarrow> page_id \<Rightarrow> (page_id \<times> bytes) list
    \<Rightarrow> (page_id \<times> bytes) list result option"
where
  "collect_chunks_loop ops s page_id pages =
     (if page_id = 0 then Some (Inr pages)
      else case read_chain_page ops s page_id of
        Inl e \<Rightarrow> Some (Inl e)
      | Inr page \<Rightarrow>
          (case checked_chunk_end page of
             Inl e \<Rightarrow> Some (Inl e)
           | Inr chunk_end \<Rightarrow>
               collect_chunks_loop ops s (page_next page) (pages @ [(page_id, page)])))"

definition page_chunk :: "bytes \<Rightarrow> bytes" where
  "page_chunk page = bslice page OVERFLOW_HEADER_SIZE (OVERFLOW_HEADER_SIZE + page_chunk_len page)"

definition append_uncompressed_with_first_page_patch ::
  "crc_cpu \<Rightarrow> 's page_store_ops \<Rightarrow> OverflowPointer \<Rightarrow> nat \<Rightarrow> bytes \<Rightarrow> bytes
    \<Rightarrow> ('s, OverflowPointer \<times> u32 \<times> page_id list \<times> OverflowTailInfo) prog"
where
  "append_uncompressed_with_first_page_patch cpu ops previous offset patch appended =
     (if op_head_page_id previous = 0
      then pfail (Internal ''append_uncompressed_with_first_page_patch requires an existing overflow chain'')
      else if is_compressed previous
      then pfail (Internal ''append_uncompressed_with_first_page_patch does not support compressed payloads'')
      else pbind (page_size_guard ops) (\<lambda>page_size.
        let chunk_capacity = page_size - OVERFLOW_HEADER_SIZE
        in pbind (\<lambda>s. map_option (\<lambda>r. (r, s))
               (collect_chunks_loop ops s (op_head_page_id previous) [])) (\<lambda>chain.
           if min (sum_list (map (page_chunk_len \<circ> snd) chain)) (2 ^ 64 - 1) \<noteq> unat (op_logical_len previous)
           then pfail (Corruption ''overflow logical length mismatch'')
           else if chain = []
           then pfail (Corruption ''overflow pointer referenced an empty page chain'')
           else if min (offset + length patch) (2 ^ 64 - 1) > page_chunk_len (snd (hd chain))
           then pfail (Corruption ''first-page patch exceeded available overflow payload bytes'')
           else
             let head_page = copy_at (snd (hd chain)) (OVERFLOW_HEADER_SIZE + offset) patch;
                 one_page = (length chain = 1);
                 tail_page = (if one_page then head_page else snd (last chain))
             in pbind (plift (fill_tail chunk_capacity tail_page (page_chunk_len (snd (last chain))) appended))
                  (\<lambda>(tail_page, tail_len, remaining).
                pbind (new_chunk_pages ops page_size
                    (chunk_list chunk_capacity (div_ceil (length remaining) chunk_capacity) remaining))
                  (\<lambda>new_pages.
                let tail_page = (if new_pages \<noteq> []
                      then copy_at tail_page 0 (u32_le (fst (hd new_pages))) else tail_page);
                    old_pages = (if one_page then [(fst (hd chain), tail_page)]
                      else (fst (hd chain), head_page) # butlast (tl chain) @ [(fst (last chain), tail_page)]);
                    checksum = foldl (\<lambda>c page. crc32c_extend cpu c [page_chunk page]) 0
                      (map snd old_pages @ map snd (link_pages new_pages));
                    tail = (if new_pages \<noteq> []
                      then \<lparr>tail_page_id = fst (last new_pages),
                            tail_chunk_len = page_chunk_len (snd (last new_pages))\<rparr>
                      else \<lparr>tail_page_id = fst (last chain), tail_chunk_len = tail_len\<rparr>)
                in pbind (write_new_pages ops (if one_page then old_pages else [hd old_pages, last old_pages])) (\<lambda>_.
                   pbind (write_new_pages ops (link_pages new_pages)) (\<lambda>_.
                   pbind (plift (appended_pointer previous appended)) (\<lambda>pointer.
                     pret (pointer, checksum, map fst chain @ map fst new_pages, tail))))))))) "

section \<open>Chains under update\<close>

lemma chain_replace_tail:
  "is_chain m h (ps @ [t]) cs \<Longrightarrow> (\<And>p. p \<in> set ps \<Longrightarrow> m' p = m p) \<Longrightarrow>
   m' t = Some page \<Longrightarrow> chunk_page page c \<Longrightarrow> is_chain m' (page_next page) new ncs \<Longrightarrow>
     is_chain m' h (ps @ t # new) (butlast cs @ c # ncs)"
proof (induction ps arbitrary: h cs)
  case Nil
  then show ?case by auto
next
  case (Cons p ps)
  then obtain pg c0 cs' where h: "h = p" "p \<noteq> 0" "m p = Some pg" "cs = c0 # cs'" "chunk_page pg c0"
    "is_chain m (page_next pg) (ps @ [t]) cs'" by auto
  then have "cs' \<noteq> []" using is_chain_length by fastforce
  moreover have "is_chain m' (page_next pg) (ps @ t # new) (butlast cs' @ c # ncs)"
    using Cons.IH [OF h(6)] Cons.prems by simp
  ultimately show ?case using h Cons.prems(2) by auto
qed

lemma chain_last: "is_chain m h (ps @ [t]) cs \<Longrightarrow>
    \<exists>page. m t = Some page \<and> t \<noteq> 0 \<and> page_next page = 0 \<and> chunk_page page (last cs)"
proof (induction ps arbitrary: h cs)
  case (Cons p ps)
  then obtain pg c0 cs' where h: "cs = c0 # cs'" "is_chain m (page_next pg) (ps @ [t]) cs'" by auto
  then have "cs' \<noteq> []" using is_chain_length by fastforce
  with h Cons.IH show ?case by auto
qed auto

lemma chunk_page_len: "chunk_page page c \<Longrightarrow> page_chunk_len page = length c"
  by (auto simp: chunk_page_def)

lemma fill_tail_ok:
  assumes "chunk_page page c" "length page = psz" "8 < psz" "psz < 2 ^ 32" "cap = psz - 8"
  shows "\<exists>page'. fill_tail cap page (length c) rem =
      Inr (page', length (c @ take (cap - length c) rem), drop (cap - length c) rem) \<and>
    length page' = psz \<and> page_next page' = page_next page \<and>
    chunk_page page' (c @ take (cap - length c) rem)"
proof (cases "0 < cap - length c \<and> rem \<noteq> []")
  case False
  then show ?thesis using assms by (auto simp: fill_tail_def)
next
  case True
  let ?k = "min (cap - length c) (length rem)"
  have tk: "take (cap - length c) rem = take ?k rem" "drop (cap - length c) rem = drop ?k rem"
    by (simp_all add: min_def)
  have cl: "page_chunk_len page = length c" using assms(1) by (rule chunk_page_len)
  have c: "c = bslice page 8 (8 + length c)" using assms(1) cl by (simp add: chunk_page_def)
  have fit: "8 + length c + ?k \<le> psz" using True assms by auto
  let ?p1 = "copy_at page (8 + length c) (take ?k rem)"
  let ?p2 = "copy_at ?p1 4 (u32_le (of_nat (length c + ?k)))"
  have l1: "length ?p1 = psz" using fit assms(2) by simp
  then have l2: "length ?p2 = psz" using assms(3) by simp
  have n: "page_next ?p2 = page_next page"
    using fit assms(2,3) l1 by (simp add: page_next_def bslice_copy_at_before del: bslice_0)
  have "unat (of_nat (length c + ?k) :: u32) = length c + ?k"
    by (rule unat_of_nat_small(2)) (use fit assms(4) in simp)
  then have k: "page_chunk_len ?p2 = length c + ?k"
    using l1 assms(3) by (simp add: page_chunk_len_def bslice_copy_at_same)
  have "bslice ?p2 8 (8 + (length c + ?k)) = bslice ?p1 8 (8 + (length c + ?k))"
    using l1 assms(3) by (simp add: bslice_copy_at_after)
  also have "\<dots> = bslice ?p1 8 (8 + length c) @ bslice ?p1 (8 + length c) (8 + length c + ?k)"
    by (subst bslice_append_bslice) (simp_all add: add.assoc)
  also have "bslice ?p1 8 (8 + length c) = c"
    using fit assms(2) c by (subst bslice_copy_at_before) auto
  also have "bslice ?p1 (8 + length c) (8 + length c + ?k) = take ?k rem"
    using fit assms(2) by (subst bslice_copy_at_same) auto
  finally have "chunk_page ?p2 (c @ take ?k rem)"
    using k l2 fit by (simp add: chunk_page_def)
  moreover have "length c + ?k < 2 ^ 32" using fit assms(4) by simp
  ultimately show ?thesis
    using True l2 n tk
    by (intro exI [of _ ?p2])
       (simp add: fill_tail_def Let_def OVERFLOW_HEADER_SIZE_def ok_or_def u32_try_from_def)
qed

lemma chunk_list_full:
  assumes "x \<noteq> []" "0 < cap"
  shows "chunk_list cap (div_ceil (length x) cap) x \<noteq> []"
    "[] \<notin> set (chunk_list cap (div_ceil (length x) cap) x)"
    "concat (chunk_list cap (div_ceil (length x) cap) x) = x"
    "\<forall>c \<in> set (chunk_list cap (div_ceil (length x) cap) x). length c \<le> cap"
proof -
  have n: "0 < div_ceil (length x) cap" "(div_ceil (length x) cap - 1) * cap < length x"
    using div_ceil_bounds [OF assms(2), of "length x"] assms(1) by auto
  then show "chunk_list cap (div_ceil (length x) cap) x \<noteq> []"
    by (metis length_chunk_list less_irrefl list.size(3))
  show "[] \<notin> set (chunk_list cap (div_ceil (length x) cap) x)"
    using chunk_list_nonempty [OF n(2) assms(2)] by blast
qed (use assms concat_chunk_list_all chunk_list_small in auto)

lemma append_chunks_concat:
  "cs \<noteq> [] \<Longrightarrow> concat ncs = drop k a \<Longrightarrow>
     concat (butlast cs @ (last cs @ take k a) # ncs) = concat cs @ a"
  by (cases cs rule: rev_cases) simp_all

lemma append_chunks_nonempty:
  "[] \<notin> set cs \<Longrightarrow> cs \<noteq> [] \<Longrightarrow> [] \<notin> set ncs \<Longrightarrow> [] \<notin> set (butlast cs @ (last cs @ x) # ncs)"
  by (cases cs rule: rev_cases) auto

text \<open>A tail record describes the last page of a chain: the page that has no successor.\<close>

definition tail_of :: "(page_id \<Rightarrow> bytes option) \<Rightarrow> page_id list \<Rightarrow> OverflowTailInfo \<Rightarrow> bool" where
  "tail_of m ids tail \<longleftrightarrow> ids \<noteq> [] \<and> tail_page_id tail = last ids \<and>
     (\<exists>page. m (last ids) = Some page \<and> page_next page = 0 \<and> tail_chunk_len tail = page_chunk_len page)"

text \<open>New pages, each with its chunk and no successor yet.\<close>

definition unlinked :: "nat \<Rightarrow> (page_id \<times> bytes) list \<Rightarrow> bytes list \<Rightarrow> bool" where
  "unlinked psz new cs = list_all2 (\<lambda>(p, page) c. p \<noteq> 0 \<and> length page = psz \<and> page_next page = 0 \<and>
     chunk_page page c) new cs"

lemma link_page_ok:
  assumes "chunk_page page c" "8 < length page"
  shows "chunk_page (copy_at page 0 (u32_le q)) c" "page_next (copy_at page 0 (u32_le q)) = q"
    "length (copy_at page 0 (u32_le q)) = length page"
  using assms
  by (auto simp: chunk_page_def page_chunk_len_def page_next_def bslice_copy_at_after)
     (simp add: copy_at_def)

lemma map_fst_link_pages [simp]: "map fst (link_pages new) = map fst new"
  by (induction new rule: link_pages.induct) auto

lemma link_pages_Nil [simp]: "link_pages new = [] \<longleftrightarrow> new = []"
  by (metis map_fst_link_pages map_is_Nil_conv)

lemma last_link_pages [simp]: "last (link_pages new) = last new"
  by (induction new rule: link_pages.induct) auto

lemma linked_is_chain:
  "unlinked psz new cs \<Longrightarrow> 8 < psz \<Longrightarrow> (\<forall>(p, page) \<in> set (link_pages new). m p = Some page) \<Longrightarrow>
     is_chain m (case new of [] \<Rightarrow> 0 | (p, _) # _ \<Rightarrow> p) (map fst new) cs \<and>
     (\<forall>(p, page) \<in> set (link_pages new). length page = psz)"
proof (induction new arbitrary: cs rule: link_pages.induct)
  case (1 p page q qpage rest)
  then obtain c cs' where cs: "cs = c # cs'" "unlinked psz ((q, qpage) # rest) cs'"
    "p \<noteq> 0" "length page = psz" "chunk_page page c"
    by (auto simp: unlinked_def list_all2_Cons1)
  with 1 link_page_ok [OF cs(5), of q] show ?case by auto
qed (auto simp: unlinked_def list_all2_Cons1)

subsection \<open>Which pages a cached rewrite visits\<close>

definition covered :: "byte_range list \<Rightarrow> nat set" where
  "covered rs = (\<Union>(a, b) \<in> set rs. {a..<b})"

lemma set_concat_ranges: "set (concat (map (\<lambda>(a, b). [a..<b]) rs)) = covered rs"
  by (auto simp: covered_def)

lemma covered_append [simp]: "covered (xs @ ys) = covered xs \<union> covered ys"
  by (auto simp: covered_def)

lemma merge_range_covers:
  "merged = [] \<or> fst (last merged) \<le> fst rng \<Longrightarrow>
     covered merged \<union> covered [rng] = covered (merge_range merged rng) \<and>
     fst (last (merge_range merged rng)) \<le> fst rng \<and> merge_range merged rng \<noteq> []"
  by (cases merged rule: rev_cases; cases rng) (auto simp: merge_range_def covered_def)

lemma merge_ranges_cover:
  "sorted (map fst rs) \<Longrightarrow> (merged = [] \<or> (\<forall>r \<in> set rs. fst (last merged) \<le> fst r)) \<Longrightarrow>
     covered (foldl merge_range merged rs) = covered merged \<union> covered rs"
proof (induction rs arbitrary: merged)
  case (Cons r rs)
  have m: "covered merged \<union> covered [r] = covered (merge_range merged r)"
    "fst (last (merge_range merged r)) \<le> fst r"
    using merge_range_covers [of merged r] Cons.prems by auto
  moreover have "\<forall>x \<in> set rs. fst r \<le> fst x" using Cons.prems(1) by simp
  ultimately have "\<forall>x \<in> set rs. fst (last (merge_range merged r)) \<le> fst x" by fastforce
  moreover have "covered (r # rs) = covered [r] \<union> covered rs" by (auto simp: covered_def)
  ultimately show ?case using Cons.IH [of "merge_range merged r"] Cons.prems(1) m by auto
qed (simp add: covered_def)

lemma rewrite_page_ranges_cover:
  "covered (rewrite_page_ranges len cap n cached skip ranges) =
     (\<Union>r \<in> set ranges. covered (dirty_window len cap n skip r)) \<union> covered (resize_window n cached skip)"
  unfolding rewrite_page_ranges_def by (subst merge_ranges_cover) (auto simp: covered_def)

lemma rewrite_indices_dirty:
  assumes "ranges \<noteq> []"
  shows "set (rewrite_indices len cap n cached skip (Some ranges)) =
     (\<Union>r \<in> set ranges. covered (dirty_window len cap n skip r)) \<union> covered (resize_window n cached skip)"
proof -
  have "set (rewrite_indices len cap n cached skip (Some ranges)) =
      covered (rewrite_page_ranges len cap n cached skip ranges)"
    using assms by (cases ranges) (simp, simp only: rewrite_indices_def option.case list.case set_concat_ranges)
  then show ?thesis by (simp only: rewrite_page_ranges_cover)
qed

lemma covered_single: "covered (if a < b then [(a, b)] else []) = {a..<b}"
  by (auto simp: covered_def)

lemma covered_Nil [simp]: "covered [] = {}"
  by (simp add: covered_def)

lemma dirty_window_bound: "covered (dirty_window len cap n skip r) \<subseteq> {..<n}"
  by (simp only: dirty_window_def Let_def covered_single covered_Nil split: if_splits) auto

lemma resize_window_bound: "covered (resize_window n cached skip) \<subseteq> {..<n}"
  by (simp only: resize_window_def Let_def covered_single split: if_splits) auto

lemma dirty_window_hit:
  assumes "0 < cap" "fst r \<le> j" "j < snd r" "j < len" "j div cap < n" "skip * cap \<le> j"
  shows "j div cap \<in> covered (dirty_window len cap n skip r)"
proof -
  have "fst r div cap \<le> j div cap" "min (fst r) len = fst r" using assms by (auto intro: div_le_mono)
  moreover have "j div cap \<le> (min (snd r) len - 1) div cap" by (rule div_le_mono) (use assms in simp)
  moreover have "fst r < min (snd r) len" using assms by auto
  moreover have "skip \<le> j div cap" using assms(1,6) by (simp add: less_eq_div_iff_mult_less_eq)
  ultimately show ?thesis using assms(5) by (simp add: dirty_window_def covered_def Let_def min_le_iff_disj)
qed

text \<open>A resize visits the page whose link changes and every new page.\<close>

lemma resize_window_hit:
  assumes "n \<noteq> cached" "skip \<le> min n cached - 1" "min n cached - 1 \<le> i" "i < n"
  shows "i \<in> covered (resize_window n cached skip)"
  using assms by (auto simp: resize_window_def covered_def Let_def min_def split: if_splits)

subsection \<open>The pages of a payload\<close>

text \<open>The page that index \<open>i\<close> of a chain with the given page ids has to contain.\<close>

definition target_page :: "nat \<Rightarrow> page_id list \<Rightarrow> bytes \<Rightarrow> nat \<Rightarrow> bytes result" where
  "target_page psz ids bs i =
     overflow_page psz (if Suc i < length ids then ids ! Suc i else 0)
       (take (psz - 8) (drop (i * (psz - 8)) bs))"

lemma target_page_ok:
  assumes "8 < psz" "psz < 2 ^ 32"
  shows "\<exists>page. target_page psz ids bs i = Inr page \<and> length page = psz \<and>
    page_next page = (if Suc i < length ids then ids ! Suc i else 0) \<and>
    chunk_page page (take (psz - 8) (drop (i * (psz - 8)) bs))"
proof -
  let ?c = "take (psz - 8) (drop (i * (psz - 8)) bs)"
  from overflow_page_ok [OF assms(1) _ assms(2), of ?c "if Suc i < length ids then ids ! Suc i else 0"]
  obtain page where "target_page psz ids bs i = Inr page" "length page = psz"
    "page_next page = (if Suc i < length ids then ids ! Suc i else 0)"
    "page_chunk_len page = length ?c" "bslice page 8 (8 + length ?c) = ?c"
    unfolding target_page_def by auto
  then show ?thesis using assms(1) by (auto simp: chunk_page_def)
qed

definition holds_page :: "(page_id \<Rightarrow> bytes option) \<Rightarrow> nat \<Rightarrow> page_id list \<Rightarrow> bytes \<Rightarrow> nat \<Rightarrow> bool" where
  "holds_page m cap ids bs i \<longleftrightarrow>
     (\<exists>page. m (ids ! i) = Some page \<and> page_next page = (if Suc i < length ids then ids ! Suc i else 0) \<and>
        chunk_page page (take cap (drop (i * cap) bs)))"

lemma holds_page_target:
  "8 < psz \<Longrightarrow> psz < 2 ^ 32 \<Longrightarrow> target_page psz ids bs i = Inr page \<Longrightarrow> m (ids ! i) = Some page \<Longrightarrow>
     holds_page m (psz - 8) ids bs i"
  using target_page_ok [of psz ids bs i] by (auto simp: holds_page_def)

lemma chain_of_pages:
  assumes "\<forall>p \<in> set ids. p \<noteq> 0" and t: "\<forall>i < length ids. holds_page m cap ids bs i"
  shows "k \<le> length ids \<Longrightarrow> is_chain m (if k < length ids then ids ! k else 0) (drop k ids)
    (chunk_list cap (length ids - k) (drop (k * cap) bs))"
proof (induction "length ids - k" arbitrary: k)
  case 0
  then show ?case by simp
next
  case (Suc n)
  then have k: "k < length ids" and l: "length ids - k = Suc (length ids - Suc k)" by auto
  obtain page where pg: "m (ids ! k) = Some page"
    "page_next page = (if Suc k < length ids then ids ! Suc k else 0)"
    "chunk_page page (take cap (drop (k * cap) bs))" using t k unfolding holds_page_def by blast
  have "is_chain m (page_next page) (drop (Suc k) ids)
      (chunk_list cap (length ids - Suc k) (drop (Suc k * cap) bs))"
    using Suc.hyps(1) [of "Suc k"] Suc.hyps(2) k pg(2) by simp
  moreover have "drop (Suc k * cap) bs = drop cap (drop (k * cap) bs)"
    by (simp add: add.commute)
  ultimately show ?case
    using k l pg assms(1) by (simp add: Cons_nth_drop_Suc [symmetric])
qed

lemma pages_of_chain:
  "is_chain m h ids (chunk_list cap (length ids) bs) \<Longrightarrow> i < length ids \<Longrightarrow> holds_page m cap ids bs i"
proof (induction ids arbitrary: h bs i)
  case (Cons p ids)
  then obtain page where pg: "m p = Some page" "chunk_page page (take cap bs)"
    "is_chain m (page_next page) ids (chunk_list cap (length ids) (drop cap bs))" by auto
  show ?case
  proof (cases i)
    case 0
    then show ?thesis using pg is_chain_head [OF pg(3)] by (cases ids) (auto simp: holds_page_def)
  next
    case (Suc j)
    with Cons.IH [OF pg(3), of j] Cons.prems(2) show ?thesis
      by (cases "Suc j < length ids") (simp_all add: holds_page_def add.commute)
  qed
qed simp

text \<open>
  A page that the rewrite does not visit already has the chunk it is to have: the ranges cover what differs,
  and the last byte if the payload shrinks within its last page.
\<close>

definition dirty_covers :: "nat \<Rightarrow> nat \<Rightarrow> byte_range list \<Rightarrow> bytes \<Rightarrow> bytes \<Rightarrow> bool" where
  "dirty_covers cap skip ranges old bs \<longleftrightarrow>
     (\<forall>j < length bs. \<not> (j < length old \<and> old ! j = bs ! j) \<longrightarrow> skip * cap \<le> j \<and> (\<exists>r \<in> set ranges. fst r \<le> j \<and> j < snd r)) \<and>
     (length bs < length old \<and> div_ceil (length bs) cap = div_ceil (length old) cap \<longrightarrow>
        skip * cap < length bs \<and> (\<exists>r \<in> set ranges. fst r < length bs \<and> length bs \<le> snd r))"

lemma div_ceil_page:
  assumes "0 < cap"
  shows "i < div_ceil n cap \<longleftrightarrow> i * cap < n"
proof -
  have "Suc i \<le> div_ceil n cap \<longleftrightarrow> Suc i * cap \<le> n + cap - 1"
    unfolding div_ceil_def by (rule less_eq_div_iff_mult_less_eq [OF assms])
  then show ?thesis using assms by (simp add: Suc_le_eq) linarith
qed

lemma chunk_agree:
  assumes cap: "0 < cap" and cov: "dirty_covers cap skip ranges old bs"
    and i: "i < div_ceil (length bs) cap" "i < div_ceil (length old) cap"
    and out: "\<forall>r \<in> set ranges. i \<notin> covered (dirty_window (length bs) cap (div_ceil (length bs) cap) skip r)"
    and sz: "div_ceil (length bs) cap = div_ceil (length old) cap \<or> Suc i < div_ceil (length bs) cap \<and> Suc i < div_ceil (length old) cap"
  shows "take cap (drop (i * cap) old) = take cap (drop (i * cap) bs)"
proof -
  let ?n = "div_ceil (length bs) cap"
  have ib: "i * cap < length bs" "i * cap < length old" using i by (simp_all add: div_ceil_page [OF cap])
  have hit: "\<not> (\<exists>r \<in> set ranges. fst r \<le> j \<and> j < snd r)" if "j < length bs" "j div cap = i" "skip * cap \<le> j" for j
    using dirty_window_hit [OF cap, of _ j "length bs" ?n skip] that i(1) out by auto
  have same: "j < length old \<and> old ! j = bs ! j" if j: "j < length bs" "j div cap = i" for j
    using cov hit [OF j] j(1) unfolding dirty_covers_def by blast
  have grow: "length bs \<le> length old" if last: "length old \<le> i * cap + cap"
  proof (rule ccontr)
    assume "\<not> length bs \<le> length old"
    moreover have "length old div cap = i" if "length old < i * cap + cap"
      using that ib(2) by (intro div_nat_eqI) (simp_all add: mult.commute)
    moreover have "\<not> i * cap + cap < length bs"
      using sz last div_ceil_page [OF cap, of "Suc i" "length bs"] div_ceil_page [OF cap, of "Suc i" "length old"] by simp
    ultimately show False using same [of "length old"] last by linarith
  qed
  have shrink: "length old \<le> length bs" if last: "length bs \<le> i * cap + cap"
  proof (rule ccontr)
    assume less: "\<not> length old \<le> length bs"
    have eq: "?n = div_ceil (length old) cap" using sz last div_ceil_page [OF cap, of "Suc i" "length bs"] by simp
    have d: "(length bs - 1) div cap = i" using ib(1) last by (intro div_nat_eqI) (simp_all add: mult.commute)
    obtain r where "r \<in> set ranges" "fst r < length bs" "length bs \<le> snd r" "skip * cap < length bs"
      using cov less eq unfolding dirty_covers_def by auto
    then show False using hit [of "length bs - 1"] ib(1) d by fastforce
  qed
  have len: "min cap (length old - i * cap) = min cap (length bs - i * cap)" using grow shrink by linarith
  show ?thesis
  proof (rule nth_equalityI)
    show "length (take cap (drop (i * cap) old)) = length (take cap (drop (i * cap) bs))" using len by simp
    fix k assume "k < length (take cap (drop (i * cap) old))"
    then have k: "k < cap" "i * cap + k < length bs" "i * cap + k < length old" using len by auto
    then show "take cap (drop (i * cap) old) ! k = take cap (drop (i * cap) bs) ! k"
      using same [of "i * cap + k"] cap by simp
  qed
qed


context page_store
begin

lemma write_new_pages_ok:
  "inv s \<Longrightarrow> distinct (map fst pgs) \<Longrightarrow> \<forall>(p, page) \<in> set pgs. pages s p \<noteq> None \<and>
     length page = unat (ps_page_size ops s) \<Longrightarrow>
   \<exists>s'. write_new_pages ops pgs s = Some (Inr (), s') \<and> inv s' \<and>
     (\<forall>(p, page) \<in> set pgs. pages s' p = Some page) \<and>
     (\<forall>q. q \<notin> fst ` set pgs \<longrightarrow> pages s' q = pages s q) \<and>
     ps_page_size ops s' = ps_page_size ops s \<and> room s' = room s"
proof (induction pgs arbitrary: s)
  case Nil
  then show ?case by (simp add: write_new_pages_def)
next
  case (Cons a pgs)
  obtain p page where a: "a = (p, page)" by (cases a)
  with Cons.prems obtain s1 where s1: "ps_write_page_owned ops p page s = (Inr (), s1)" "inv s1"
    "pages s1 = (pages s)(p \<mapsto> page)" "ps_page_size ops s1 = ps_page_size ops s" "room s1 = room s"
    using page_write [of s p page] page_write_owned [of s p page] by auto
  have "\<forall>(q, pg) \<in> set pgs. pages s1 q \<noteq> None \<and> length pg = unat (ps_page_size ops s1)"
    using Cons.prems(3) s1(3,4) by auto
  with Cons.IH [OF s1(2)] Cons.prems(2) obtain s' where
    s': "write_new_pages ops pgs s1 = Some (Inr (), s')" "inv s'"
      "\<forall>(p, page) \<in> set pgs. pages s' p = Some page"
      "\<forall>q. q \<notin> fst ` set pgs \<longrightarrow> pages s' q = pages s1 q"
      "ps_page_size ops s' = ps_page_size ops s1" "room s' = room s1" by auto
  moreover have "p \<notin> fst ` set pgs" using Cons.prems(2) a by simp
  then have "pages s' p = Some page" using s'(4) s1(3) by simp
  ultimately show ?case
    using a s1 by (intro exI [of _ s']) (simp add: write_new_pages_def)
qed

lemma new_chunk_pages_ok:
  assumes "psz = unat (ps_page_size ops s)" "8 < psz"
  shows "inv s \<Longrightarrow> length cs \<le> room s \<Longrightarrow> \<forall>c \<in> set cs. length c \<le> psz - 8 \<Longrightarrow>
   \<exists>new s'. new_chunk_pages ops psz cs s = Some (Inr new, s') \<and> inv s' \<and> unlinked psz new cs \<and>
     distinct (map fst new) \<and> (\<forall>p \<in> fst ` set new. pages s p = None \<and> pages s' p \<noteq> None) \<and>
     (\<forall>q. q \<notin> fst ` set new \<longrightarrow> pages s' q = pages s q) \<and>
     ps_page_size ops s' = ps_page_size ops s \<and> room s' = room s - length cs"
  using assms(1)
proof (induction cs arbitrary: s)
  case Nil
  then show ?case by (simp add: unlinked_def)
next
  case (Cons c cs)
  then obtain p s1 where a: "ps_allocate_page ops s = (Inr p, s1)" "inv s1" "pages s p = None" "p \<noteq> 0"
    "pages s1 = (pages s)(p \<mapsto> zeroed_page (ps_page_size ops s))"
    "ps_page_size ops s1 = ps_page_size ops s" "room s1 = room s - 1"
    using page_alloc [of s] by auto
  have "psz < 2 ^ 32" using Cons.prems(4) unsigned_less [of "ps_page_size ops s", where ?'a = nat] by simp
  with overflow_page_ok [of psz c 0] assms(2) Cons.prems(3) obtain page where
    pg: "overflow_page psz 0 c = Inr page" "length page = psz" "page_next page = 0"
      "page_chunk_len page = length c" "bslice page 8 (8 + length c) = c" by auto
  then have cp: "chunk_page page c"
    using Cons.prems(3) assms(2) by (auto simp: chunk_page_def)
  have "length cs \<le> room s1" "\<forall>c \<in> set cs. length c \<le> psz - 8" "psz = unat (ps_page_size ops s1)"
    using Cons.prems a(6,7) by auto
  from Cons.IH [OF a(2) this] obtain new s2 where
    n: "new_chunk_pages ops psz cs s1 = Some (Inr new, s2)" "inv s2" "unlinked psz new cs"
      "distinct (map fst new)" "\<forall>p \<in> fst ` set new. pages s1 p = None \<and> pages s2 p \<noteq> None"
      "\<forall>q. q \<notin> fst ` set new \<longrightarrow> pages s2 q = pages s1 q"
      "ps_page_size ops s2 = ps_page_size ops s1" "room s2 = room s1 - length cs" by blast
  have nin: "p \<notin> fst ` set new" using n(5) a(5) by auto
  have old: "\<forall>q \<in> fst ` set new. pages s q = None" using n(5) a(5) by (auto split: if_splits)
  have "pages s2 p \<noteq> None" using n(6) nin a(5) by simp
  with n nin old a pg(1-3) cp show ?case
    by (intro exI [of _ "(p, page) # new"] exI [of _ s2]) (simp add: unlinked_def)
qed


text \<open>
  The state after the tail page has been replaced and the new pages are linked: the
  chain holds its old chunks, the grown tail chunk and the new chunks.
\<close>

lemma append_new_pages_ok:
  assumes "inv s" "is_chain (pages s) h (ps @ [t]) cs" "distinct (ps @ [t])"
    and psz: "psz = unat (ps_page_size ops s)" "8 < psz"
    and page: "length page = psz" "chunk_page page c"
    and ncs: "length ncs \<le> room s" "\<forall>c \<in> set ncs. length c \<le> psz - 8" "ncs \<noteq> []"
  shows "\<exists>new s1 s2 s3. new_chunk_pages ops psz ncs s = Some (Inr new, s1) \<and> new \<noteq> [] \<and>
    ps_write_page_owned ops t (copy_at page 0 (u32_le (fst (hd new)))) s1 = (Inr (), s2) \<and>
    write_new_pages ops (link_pages new) s2 = Some (Inr (), s3) \<and> inv s3 \<and>
    is_chain (pages s3) h (ps @ t # map fst new) (butlast cs @ c # ncs) \<and>
    distinct (ps @ t # map fst new) \<and> (\<forall>p \<in> set (map fst new). pages s p = None) \<and>
    (\<forall>q. q \<notin> set (t # map fst new) \<longrightarrow> pages s3 q = pages s q) \<and>
    (\<exists>pg. pages s3 (fst (last new)) = Some pg \<and> page_chunk_len pg = page_chunk_len (snd (last new)))"
proof -
  from new_chunk_pages_ok [OF psz assms(1) ncs(1,2)] obtain new s1 where
    n: "new_chunk_pages ops psz ncs s = Some (Inr new, s1)" "inv s1" "unlinked psz new ncs"
      "distinct (map fst new)" "\<forall>p \<in> fst ` set new. pages s p = None \<and> pages s1 p \<noteq> None"
      "\<forall>q. q \<notin> fst ` set new \<longrightarrow> pages s1 q = pages s q"
      "ps_page_size ops s1 = ps_page_size ops s" by blast
  have ne: "new \<noteq> []" using n(3) ncs(3) by (auto simp: unlinked_def)
  have live: "p \<noteq> 0 \<and> pages s p \<noteq> None" if "p \<in> set (ps @ [t])" for p
    using is_chain_live [OF assms(2) that] .
  then have dj: "p \<notin> fst ` set new" if "p \<in> set (ps @ [t])" for p
    using n(5) that by blast
  let ?tp = "copy_at page 0 (u32_le (fst (hd new)))"
  note tp = link_page_ok [OF page(2), of "fst (hd new)", unfolded page(1), OF psz(2)]
  have "pages s1 t \<noteq> None" using n(6) dj [of t] live [of t] by simp
  then obtain s2 where w: "ps_write_page_owned ops t ?tp s1 = (Inr (), s2)" "inv s2"
    "pages s2 = (pages s1)(t \<mapsto> ?tp)" "ps_page_size ops s2 = ps_page_size ops s"
    using page_write [of s1 t ?tp] page_write_owned [of s1 t ?tp] n(2,7) tp(3) psz(1) by auto
  have lk: "\<forall>(p, pg) \<in> set (link_pages new). length pg = psz"
    using linked_is_chain [OF n(3) psz(2), of "\<lambda>p. map_of (link_pages new) p"] n(4)
    by (auto simp: map_of_eq_Some_iff)
  have fl: "fst ` set (link_pages new) = fst ` set new"
    by (metis list.set_map map_fst_link_pages)
  have "\<forall>(p, pg) \<in> set (link_pages new). pages s2 p \<noteq> None \<and> length pg = unat (ps_page_size ops s2)"
  proof clarify
    fix p pg assume pp: "(p, pg) \<in> set (link_pages new)"
    then have "p \<in> fst ` set new" using fl by force
    then show "pages s2 p \<noteq> None \<and> length pg = unat (ps_page_size ops s2)"
      using n(5) w(3,4) lk pp psz(1) by auto
  qed
  with write_new_pages_ok [OF w(2), of "link_pages new"] n(4) obtain s3 where
    x: "write_new_pages ops (link_pages new) s2 = Some (Inr (), s3)" "inv s3"
      "\<forall>(p, pg) \<in> set (link_pages new). pages s3 p = Some pg"
      "\<forall>q. q \<notin> fst ` set new \<longrightarrow> pages s3 q = pages s2 q" by (auto simp: fl)
  have nc: "is_chain (pages s3) (page_next ?tp) (map fst new) ncs"
    using linked_is_chain [OF n(3) psz(2) x(3)] ne tp(2) by (cases new) auto
  have "is_chain (pages s3) h (ps @ t # map fst new) (butlast cs @ c # ncs)"
  proof (rule chain_replace_tail [OF assms(2) _ _ tp(1) nc])
    show "pages s3 t = Some ?tp" using x(4) w(3) dj [of t] by simp
    show "pages s3 p = pages s p" if "p \<in> set ps" for p
      using x(4) w(3) n(6) dj [of p] assms(3) that by auto
  qed
  moreover have "distinct (ps @ t # map fst new)" using assms(3) n(4) dj by auto
  moreover have "\<forall>q. q \<notin> set (t # map fst new) \<longrightarrow> pages s3 q = pages s q"
    using x(4) w(3) n(6) by simp
  moreover have "\<exists>pg. pages s3 (fst (last new)) = Some pg \<and> page_chunk_len pg = page_chunk_len (snd (last new))"
    using x(3) ne last_in_set [of "link_pages new"] by (cases "last new") force
  ultimately show ?thesis using n(1,5) ne w(1) x(1,2) by auto
qed


lemma append_with_tail_ok:
  assumes "inv s" and holds: "overflow_holds z (pages s) prev ids old" "\<not> is_compressed prev"
    and tail: "tail_of (pages s) ids tail"
    and psz: "8 < unat (ps_page_size ops s)"
    and "length old + length app < 2 ^ 32"
    and room: "div_ceil (length app) (unat (ps_page_size ops s) - 8) \<le> room s"
  shows "\<exists>ptr tail' new s'. append_uncompressed_with_tail ops prev tail app s = Some (Inr (ptr, tail'), s') \<and>
    inv s' \<and> overflow_holds z (pages s') ptr (ids @ new) (old @ app) \<and> \<not> is_compressed ptr \<and>
    tail_of (pages s') (ids @ new) tail' \<and> (\<forall>p \<in> set new. pages s p = None) \<and>
    (\<forall>q. q \<notin> set (ids @ new) \<longrightarrow> pages s' q = pages s q)"
proof -
  let ?psz = "unat (ps_page_size ops s)" and ?cap = "unat (ps_page_size ops s) - 8"
  obtain ps t where ids: "ids = ps @ [t]" using tail by (cases ids rule: rev_cases) (auto simp: tail_of_def)
  obtain cs where ch: "is_chain (pages s) (op_head_page_id prev) (ps @ [t]) cs" "[] \<notin> set cs"
    "concat cs = old" "distinct (ps @ [t])" "length old = unat (op_logical_len prev)"
    using holds ids unfolding overflow_holds_def by auto
  have csne: "cs \<noteq> []" using is_chain_length [OF ch(1)] by auto
  have hd: "op_head_page_id prev \<noteq> 0" using is_chain_head [OF ch(1)] by blast
  obtain page where pg: "pages s t = Some page" "t \<noteq> 0" "page_next page = 0" "chunk_page page (last cs)"
    using chain_last [OF ch(1)] by blast
  let ?c = "last cs" and ?k = "?cap - length (last cs)"
  have pl: "length page = ?psz" using page_length [OF assms(1) pg(1)] .
  have rd: "read_chain_page ops s t = Inr page"
    using assms(1) pg(1) pl psz by (simp add: read_chain_page_ok)
  have tl: "tail_page_id tail = t" "tail_chunk_len tail = page_chunk_len page"
    "page_chunk_len page = length ?c" "length ?c \<le> ?cap"
    using tail ids pg(1) chunk_page_len [OF pg(4)] pg(4) pl by (auto simp: tail_of_def chunk_page_def)
  have "?psz < 2 ^ 32" using unsigned_less [of "ps_page_size ops s", where ?'a = nat] by simp
  from fill_tail_ok [OF pg(4) pl psz this refl, of app] obtain page' where
    ft: "fill_tail ?cap page (length ?c) app = Inr (page', length (?c @ take ?k app), drop ?k app)"
      "length page' = ?psz" "page_next page' = 0" "chunk_page page' (?c @ take ?k app)"
    using pg(3) by auto
  let ?ptr = "prev\<lparr>op_logical_len := u32_saturating_add (op_logical_len prev) (of_nat (length app))\<rparr>"
  have lens: "length app < 2 ^ 32" "unat (op_logical_len prev) + length app < 2 ^ 32" using assms(6) ch(5) by auto
  then have ap: "appended_pointer prev app = Inr ?ptr" "unat (op_logical_len ?ptr) = length (old @ app)"
    using ch(5) by (simp_all add: appended_pointer_def checked_logical_len_ok u32_saturating_add_def
        unat_of_nat unat_word_ariths)
  have holds': "overflow_holds z m ?ptr (ps @ t # new) (old @ app)" "\<not> is_compressed ?ptr"
    if "is_chain m (op_head_page_id prev) (ps @ t # new) (butlast cs @ (?c @ take ?k app) # ncs)"
      "distinct (ps @ t # new)" "concat ncs = drop ?k app" "[] \<notin> set ncs" for m new ncs
    using that append_chunks_concat [OF csne that(3)] append_chunks_nonempty [OF ch(2) csne that(4)]
      holds(2) ap(2) ch(3)
    by (auto simp: overflow_holds_def is_compressed_def intro!: exI [of _ "butlast cs @ (?c @ take ?k app) # ncs"])
  note run = append_uncompressed_with_tail_def page_size_guard_def OVERFLOW_HEADER_SIZE_def Let_def
  show ?thesis
  proof (cases "drop ?k app = []")
    case True
    obtain s' where w: "ps_write_page_owned ops t page' s = (Inr (), s')" "inv s'"
      "pages s' = (pages s)(t \<mapsto> page')"
      using page_write [OF assms(1), of t page'] page_write_owned [OF assms(1), of t page'] pg(1) ft(2) by auto
    have "is_chain (pages s') (op_head_page_id prev) (ps @ t # []) (butlast cs @ (?c @ take ?k app) # [])"
      by (rule chain_replace_tail [OF ch(1) _ _ ft(4)]) (use w(3) ch(4) ft(3) in auto)
    from holds' [OF this] ch(4) True
    have "overflow_holds z (pages s') ?ptr (ids @ []) (old @ app)" "\<not> is_compressed ?ptr" using ids by auto
    moreover have "append_uncompressed_with_tail ops prev tail app s =
        Some (Inr (?ptr, \<lparr>tail_page_id = t, tail_chunk_len = length (?c @ take ?k app)\<rparr>), s')"
      using hd holds(2) pg(2) psz rd tl ft(1) w(1) ap(1) True by (simp add: run)
    moreover have "tail_of (pages s') (ids @ []) \<lparr>tail_page_id = t, tail_chunk_len = length (?c @ take ?k app)\<rparr>"
      using ids w(3) ft(3) chunk_page_len [OF ft(4)] by (simp add: tail_of_def)
    ultimately show ?thesis using w(2,3) ids by (intro exI [of _ ?ptr] exI conjI) (assumption | simp)+
  next
    case False
    let ?ncs = "chunk_list ?cap (div_ceil (length (drop ?k app)) ?cap) (drop ?k app)"
    have "div_ceil (length (drop ?k app)) ?cap \<le> room s"
      by (rule le_trans [OF div_ceil_mono room]) simp
    then have n1: "length ?ncs \<le> room s" by simp
    note n = chunk_list_full [OF False, of ?cap]
    have cap: "0 < ?cap" using psz by simp
    from append_new_pages_ok [OF assms(1) ch(1,4) refl psz ft(2,4) n1 n(4) [OF cap] n(1) [OF cap]]
    obtain new s1 s2 s3 where w: "new_chunk_pages ops ?psz ?ncs s = Some (Inr new, s1)" "new \<noteq> []"
      "ps_write_page_owned ops t (copy_at page' 0 (u32_le (fst (hd new)))) s1 = (Inr (), s2)"
      "write_new_pages ops (link_pages new) s2 = Some (Inr (), s3)" "inv s3"
      "is_chain (pages s3) (op_head_page_id prev) (ps @ t # map fst new) (butlast cs @ (?c @ take ?k app) # ?ncs)"
      "distinct (ps @ t # map fst new)" "\<forall>p \<in> set (map fst new). pages s p = None"
      "\<forall>q. q \<notin> set (t # map fst new) \<longrightarrow> pages s3 q = pages s q"
      "\<exists>pg. pages s3 (fst (last new)) = Some pg \<and> page_chunk_len pg = page_chunk_len (snd (last new))" by blast
    let ?tl = "\<lparr>tail_page_id = fst (last new), tail_chunk_len = page_chunk_len (snd (last new))\<rparr>"
    have "overflow_holds z (pages s3) ?ptr (ids @ map fst new) (old @ app)" "\<not> is_compressed ?ptr"
      using holds' [OF w(6,7) n(3) [OF cap] n(2) [OF cap]] ids by auto
    moreover have "append_uncompressed_with_tail ops prev tail app s = Some (Inr (?ptr, ?tl), s3)"
      using hd holds(2) pg(2) psz rd tl ft(1) w(1-4) ap(1) False by (simp add: run)
    moreover have "ps @ t # map fst new = (ps @ t # map fst (butlast new)) @ [fst (last new)]"
      using w(2) by (cases new rule: rev_cases) simp_all
    then have "\<exists>pg. pages s3 (fst (last new)) = Some pg \<and> page_next pg = 0" using chain_last w(6) by metis
    then have "tail_of (pages s3) (ids @ map fst new) ?tl" using w(2,10) by (auto simp: tail_of_def last_map)
    ultimately show ?thesis using w(5,8,9) ids by (intro exI [of _ ?ptr] exI [of _ ?tl] exI [of _ "map fst new"] exI [of _ s3]) simp
  qed
qed


lemma write_cached_page_ok:
  assumes "inv s" "psz = unat (ps_page_size ops s)" "8 < psz" "i < length ids" "pages s (ids ! i) \<noteq> None"
  shows "\<exists>s' page. write_cached_overflow_page ops bs ids cached (psz - 8) psz i s = Some (Inr (), s') \<and>
    inv s' \<and> target_page psz ids bs i = Inr page \<and> pages s' = (pages s)(ids ! i \<mapsto> page) \<and>
    ps_page_size ops s' = ps_page_size ops s \<and> room s' = room s"
proof -
  have "psz < 2 ^ 32" using assms(2) unsigned_less [of "ps_page_size ops s", where ?'a = nat] by simp
  from target_page_ok [OF assms(3) this, of ids bs i] obtain page where
    t: "target_page psz ids bs i = Inr page" "length page = psz" by blast
  have nx: "(case get_at ids (i + 1) of Some q \<Rightarrow> q | None \<Rightarrow> 0) = (if Suc i < length ids then ids ! Suc i else 0)"
    by (simp add: get_at_def)
  have run: "write_cached_overflow_page ops bs ids cached (psz - 8) psz i s =
      (if i < length cached \<and> ps_read_page ops (ids ! i) s = Inr page then Some (Inr (), s)
       else Some (ps_write_page ops (ids ! i) page s))"
    by (simp only: write_cached_overflow_page_def Let_def nx bslice_chunk t(1) [unfolded target_page_def]
        pbind_Some(1) prog_basic_simps)
  obtain d where d: "pages s (ids ! i) = Some d" using assms(5) by blast
  have rd: "ps_read_page ops (ids ! i) s = Inr d" using page_read [OF assms(1) d] .
  show ?thesis
  proof (cases "i < length cached \<and> d = page")
    case True
    then show ?thesis using run rd t(1) d assms(1) by (intro exI [of _ s] exI [of _ page]) (simp add: fun_upd_idem)
  next
    case False
    then show ?thesis using page_write [OF assms(1,5), of page] run rd t assms(2) by auto
  qed
qed

lemma write_cached_pages_ok:
  assumes "psz = unat (ps_page_size ops s)" "8 < psz" "distinct ids"
  shows "inv s \<Longrightarrow> \<forall>i \<in> set is. i < length ids \<Longrightarrow> \<forall>p \<in> set ids. pages s p \<noteq> None \<Longrightarrow>
    \<exists>s'. pforeach (write_cached_overflow_page ops bs ids cached (psz - 8) psz) is s = Some (Inr (), s') \<and>
      inv s' \<and> (\<forall>i \<in> set is. \<exists>page. pages s' (ids ! i) = Some page \<and> target_page psz ids bs i = Inr page) \<and>
      (\<forall>q. (\<forall>i \<in> set is. q \<noteq> ids ! i) \<longrightarrow> pages s' q = pages s q) \<and> dom (pages s') = dom (pages s) \<and>
      ps_page_size ops s' = ps_page_size ops s \<and> room s' = room s"
  using assms(1)
proof (induction "is" arbitrary: s)
  case (Cons i is')
  have live: "pages s (ids ! i) \<noteq> None" using Cons.prems(2,3) by simp
  obtain s1 page where w: "write_cached_overflow_page ops bs ids cached (psz - 8) psz i s = Some (Inr (), s1)"
    "inv s1" "target_page psz ids bs i = Inr page" "pages s1 = (pages s)(ids ! i \<mapsto> page)"
    "ps_page_size ops s1 = ps_page_size ops s" "room s1 = room s"
    using write_cached_page_ok [OF Cons.prems(1,4) assms(2) _ live, of bs cached] Cons.prems(2) by auto
  have "\<forall>p \<in> set ids. pages s1 p \<noteq> None" "psz = unat (ps_page_size ops s1)"
    using Cons.prems(3,4) w(4,5) by auto
  with Cons.IH [OF w(2)] Cons.prems(2) obtain s' where
    s': "pforeach (write_cached_overflow_page ops bs ids cached (psz - 8) psz) is' s1 = Some (Inr (), s')" "inv s'"
      "\<forall>i \<in> set is'. \<exists>page. pages s' (ids ! i) = Some page \<and> target_page psz ids bs i = Inr page"
      "\<forall>q. (\<forall>i \<in> set is'. q \<noteq> ids ! i) \<longrightarrow> pages s' q = pages s1 q" "dom (pages s') = dom (pages s1)"
      "ps_page_size ops s' = ps_page_size ops s1" "room s' = room s1" by auto
  have "\<exists>page. pages s' (ids ! i) = Some page \<and> target_page psz ids bs i = Inr page"
  proof (cases "\<exists>j \<in> set is'. ids ! i = ids ! j")
    case True
    then obtain j where "j \<in> set is'" "ids ! i = ids ! j" by blast
    moreover from this have "i = j" using Cons.prems(2) assms(3) by (simp add: nth_eq_iff_index_eq)
    ultimately show ?thesis using s'(3) by blast
  next
    case False
    then show ?thesis using s'(4) w(3,4) by simp
  qed
  moreover have "dom (pages s1) = dom (pages s)" using w(4) live by auto
  ultimately show ?case
    using w s' by (intro exI [of _ s']) simp
qed simp


text \<open>
  A cached rewrite is correct when every page it does not visit already holds its
  chunk of the new payload.
\<close>

lemma rewrite_cached_ok:
  assumes "inv s" and chain: "is_chain (pages s) (op_head_page_id prev) cached cs" "distinct cached"
    and bs: "bs \<noteq> []" "length bs < 2 ^ 32"
    and psz: "psz = unat (ps_page_size ops s)" "8 < psz" "n = div_ceil (length bs) (psz - 8)"
    and room: "n \<le> room s + length cached"
    and idx: "\<forall>i \<in> set (rewrite_indices (length bs) (psz - 8) n (length cached) skip dirty). i < n"
    and kept: "\<And>i fresh. i < n \<Longrightarrow> length fresh = n - length cached \<Longrightarrow>
      i \<notin> set (rewrite_indices (length bs) (psz - 8) n (length cached) skip dirty) \<Longrightarrow>
      i < length cached \<and> holds_page (pages s) (psz - 8) (take n cached @ fresh) bs i"
  shows "\<exists>ptr ids tail s'. rewrite_overflow_cached_with_dirty_byte_ranges ops prev bs cached skip dirty s =
      Some (Inr (ptr, ids, tail), s') \<and> inv s' \<and> overflow_holds z (pages s') ptr ids bs \<and>
    (\<forall>p \<in> set ids. p \<in> set cached \<or> pages s p = None) \<and>
    (\<forall>q \<in> set cached - set ids. pages s' q = None) \<and>
    (\<forall>q. q \<notin> set cached \<union> set ids \<longrightarrow> pages s' q = pages s q)"
proof -
  let ?cap = "psz - 8"
  let ?is = "rewrite_indices (length bs) ?cap n (length cached) skip dirty"
  have n0: "0 < n" using div_ceil_bounds(3) [of ?cap "length bs"] bs(1) psz by simp
  have p32: "psz < 2 ^ 32" using psz(1) unsigned_less [of "ps_page_size ops s", where ?'a = nat] by simp
  have "n - length cached \<le> room s" using room by simp
  from alloc_pages_ok [OF assms(1) this] obtain fresh s1 where
    a: "alloc_pages ops (n - length cached) s = Some (Inr fresh, s1)" "inv s1"
      "length fresh = n - length cached" "distinct fresh"
      "\<forall>p \<in> set fresh. p \<noteq> 0 \<and> pages s p = None \<and> pages s1 p \<noteq> None"
      "\<forall>q. q \<notin> set fresh \<longrightarrow> pages s1 q = pages s q"
      "ps_page_size ops s1 = ps_page_size ops s" by blast
  let ?ids = "take n cached @ fresh"
  have len: "length ?ids = n" using a(3) by simp
  have live: "\<forall>p \<in> set cached. p \<noteq> 0 \<and> pages s p \<noteq> None" using is_chain_live [OF chain(1)] by blast
  then have dj: "set cached \<inter> set fresh = {}" using a(5) by auto
  have dist: "distinct ?ids" using chain(2) a(4) dj by (auto dest: in_set_takeD)
  have live1: "\<forall>p \<in> set ?ids. p \<noteq> 0 \<and> pages s1 p \<noteq> None" "\<forall>p \<in> set cached. pages s1 p = pages s p"
    using live a(5,6) dj by (auto dest!: in_set_takeD)
  have psz1: "psz = unat (ps_page_size ops s1)" using psz(1) a(7) by simp
  from write_cached_pages_ok [OF psz1 psz(2) dist a(2), of ?is bs cached] idx len live1(1) obtain s2 where
    w: "pforeach (write_cached_overflow_page ops bs ?ids cached ?cap psz) ?is s1 = Some (Inr (), s2)" "inv s2"
      "\<forall>i \<in> set ?is. \<exists>page. pages s2 (?ids ! i) = Some page \<and> target_page psz ?ids bs i = Inr page"
      "\<forall>q. (\<forall>i \<in> set ?is. q \<noteq> ?ids ! i) \<longrightarrow> pages s2 q = pages s1 q" "dom (pages s2) = dom (pages s1)"
    by auto
  have "\<forall>p \<in> set (drop n cached). pages s2 p \<noteq> None"
    using live live1(2) w(5) by (metis domIff in_set_dropD)
  from free_pages_each_ok [OF w(2) distinct_drop [OF chain(2)] this] obtain s3 where
    f: "free_pages_each ops (drop n cached) s2 = Some (Inr (), s3)" "inv s3"
      "pages s3 = (\<lambda>q. if q \<in> set (drop n cached) then None else pages s2 q)" by blast
  have djd: "set ?ids \<inter> set (drop n cached) = {}"
    using dj set_take_disj_set_drop_if_distinct [OF chain(2), of n n] by (auto dest: in_set_dropD)
  have holds: "holds_page (pages s3) ?cap ?ids bs i" if i: "i < n" for i
  proof (cases "i \<in> set ?is")
    case True
    then obtain page where "pages s2 (?ids ! i) = Some page" "target_page psz ?ids bs i = Inr page"
      using w(3) by blast
    moreover have "?ids ! i \<in> set ?ids" using i len by (metis nth_mem)
    ultimately show ?thesis using holds_page_target [OF psz(2) p32] f(3) djd by (metis disjoint_iff)
  next
    case False
    then have k: "i < length cached" "holds_page (pages s) ?cap ?ids bs i" using kept [OF i a(3)] by auto
    have m: "?ids ! i \<in> set ?ids" "?ids ! i \<in> set cached"
      using i len k(1) by (metis nth_mem, simp add: nth_append)
    have "\<forall>j \<in> set ?is. ?ids ! i \<noteq> ?ids ! j"
      using False i idx len dist by (metis nth_eq_iff_index_eq)
    then have "pages s3 (?ids ! i) = pages s (?ids ! i)" using w(4) live1(2) m f(3) djd by auto
    with k(2) show ?thesis by (simp add: holds_page_def)
  qed
  have "?ids \<noteq> []" using len n0 by (metis less_irrefl list.size(3))
  then have hd: "hd ?ids = ?ids ! 0" by (rule hd_conv_nth)
  have "is_chain (pages s3) (if 0 < length ?ids then ?ids ! 0 else 0) (drop 0 ?ids)
      (chunk_list ?cap (length ?ids - 0) (drop (0 * ?cap) bs))"
    by (rule chain_of_pages) (use live1(1) holds len in \<open>simp_all del: length_append\<close>)
  then have ch: "is_chain (pages s3) (hd ?ids) ?ids (chunk_list ?cap n bs)"
    unfolding len hd using n0 by simp
  have "overflow_holds z (pages s3)
      \<lparr>op_head_page_id = hd ?ids, op_logical_len = of_nat (length bs), op_flags = 0\<rparr> ?ids bs"
    using ch dist bs psz(2,3) chunk_list_full [OF bs(1), of ?cap]
    by (auto simp: overflow_holds_def unat_of_nat)
  moreover have "rewrite_overflow_cached_with_dirty_byte_ranges ops prev bs cached skip dirty s =
      Some (Inr (\<lparr>op_head_page_id = hd ?ids, op_logical_len = of_nat (length bs), op_flags = 0\<rparr>, ?ids,
        \<lparr>tail_page_id = ?ids ! (n - 1), tail_chunk_len = length bs - (n - 1) * ?cap\<rparr>), s3)"
    using bs psz a(1) w(1) f(1)
    by (simp add: rewrite_overflow_cached_with_dirty_byte_ranges_def checked_logical_len_ok
        page_size_guard_def OVERFLOW_HEADER_SIZE_def Let_def)
  moreover have "pages s3 q = pages s q" if q: "q \<notin> set cached \<union> set ?ids" for q
  proof -
    have "\<forall>i \<in> set ?is. q \<noteq> ?ids ! i" using q idx len by (metis Un_iff nth_mem)
    then show ?thesis using w(4) a(6) f(3) q by (auto dest: in_set_dropD)
  qed
  moreover have "\<forall>q \<in> set cached - set ?ids. pages s3 q = None"
    using f(3) append_take_drop_id [of n cached] by (metis DiffE Un_iff set_append)
  moreover have "\<forall>p \<in> set ?ids. p \<in> set cached \<or> pages s p = None"
    using a(5) by (auto dest: in_set_takeD)
  ultimately show ?thesis using f(2) by blast
qed

end
section \<open>Properties\<close>

text \<open>
  C25: Appending appends: for an uncompressed chain and the record of its last page,
  \<open>append_uncompressed_with_tail\<close> succeeds, the new pointer reads as the old payload
  followed by the appended bytes, and the links from it visit the old pages and then the new ones,
  which were free.  The returned tail record describes the last page of that chain, the one without a
  successor, so that the next append can rely on it; and no page outside the chain changes.
\<close>

theorem overflow_append_appends:
  assumes "inmem_inv s" "overflow_holds z (im_pages s) prev ids old" "\<not> is_compressed prev"
    and "tail_of (im_pages s) ids tail" "8 < unat (im_page_size s)"
    and "length old + length app < 2 ^ 32"
    and "div_ceil (length app) (unat (im_page_size s) - 8) \<le> inmem_room s"
  shows "\<exists>ptr tail' new s'. append_uncompressed_with_tail inmem_ops prev tail app s =
      Some (Inr (ptr, tail'), s') \<and> inmem_inv s' \<and>
    read_overflow z inmem_ops s' ptr = Some (Inr (old @ app)) \<and>
    overflow_holds z (im_pages s') ptr (ids @ new) (old @ app) \<and> \<not> is_compressed ptr \<and>
    tail_of (im_pages s') (ids @ new) tail' \<and> (\<forall>p \<in> set new. im_pages s p = None) \<and>
    (\<forall>q. q \<notin> set (ids @ new) \<longrightarrow> im_pages s' q = im_pages s q)"
proof -
  have psz: "ps_page_size inmem_ops = im_page_size" by (simp add: inmem_ops_def)
  from inmem.append_with_tail_ok [OF assms(1-4), unfolded psz, OF assms(5-7)]
  obtain ptr tail' new s' where
    "append_uncompressed_with_tail inmem_ops prev tail app s = Some (Inr (ptr, tail'), s')" "inmem_inv s'"
    "overflow_holds z (im_pages s') ptr (ids @ new) (old @ app)" "\<not> is_compressed ptr"
    "tail_of (im_pages s') (ids @ new) tail'" "\<forall>p \<in> set new. im_pages s p = None"
    "\<forall>q. q \<notin> set (ids @ new) \<longrightarrow> im_pages s' q = im_pages s q" by blast
  with inmem.read_overflow_ok show ?thesis by blast
qed

text \<open>A store with one overflow page holding three bytes, on 16-byte pages.\<close>

definition one_page_store :: InMemoryPageStore where
  "one_page_store = \<lparr>im_page_size = 16, im_next_page_id = 4, im_free_pages = [],
     im_pages = [3 \<mapsto> [0, 0, 0, 0, 3, 0, 0, 0, 10, 20, 30, 0, 0, 0, 0, 0]]\<rparr>"

lemma one_page_store_inv: "inmem_inv one_page_store"
  by (simp add: inmem_inv_def one_page_store_def)

lemma one_page_store_room: "1 \<le> inmem_room one_page_store" "2 \<le> inmem_room one_page_store"
  by (simp_all add: inmem_room_def one_page_store_def)

lemma one_page_chain:
  "is_chain (im_pages one_page_store) 3 [3] [[10, 20, 30]]"
  by (simp add: one_page_store_def chunk_page_def page_next_def page_chunk_len_def bslice_def u32_of_le_def)

lemma one_page_holds:
  "overflow_holds z (im_pages one_page_store)
     \<lparr>op_head_page_id = 3, op_logical_len = 3, op_flags = 0\<rparr> [3] [10, 20, 30]"
  using one_page_chain unfolding overflow_holds_def
  by (auto simp del: is_chain.simps intro!: exI [of _ "[[10, 20, 30]]"])

lemma one_page_tail:
  "tail_of (im_pages one_page_store) [3] \<lparr>tail_page_id = 3, tail_chunk_len = 3\<rparr>"
  by (simp add: tail_of_def one_page_store_def page_chunk_len_def page_next_def bslice_def u32_of_le_def)

theorem overflow_append_appends_witness:
  "\<exists>ptr tail' s'. append_uncompressed_with_tail inmem_ops
       \<lparr>op_head_page_id = 3, op_logical_len = 3, op_flags = 0\<rparr> \<lparr>tail_page_id = 3, tail_chunk_len = 3\<rparr>
       [1, 2, 3, 4, 5, 6, 7] one_page_store = Some (Inr (ptr, tail'), s') \<and>
     read_overflow stored_zlib inmem_ops s' ptr = Some (Inr [10, 20, 30, 1, 2, 3, 4, 5, 6, 7])"
proof -
  have "div_ceil (length [1, 2, 3, 4, 5, 6, 7 :: u8]) (unat (im_page_size one_page_store) - 8)
      \<le> inmem_room one_page_store"
    using one_page_store_room by (simp add: div_ceil_def one_page_store_def)
  from overflow_append_appends [OF one_page_store_inv one_page_holds [of stored_zlib] _ one_page_tail _ _ this]
  show ?thesis by (simp add: one_page_store_def) blast
qed

text \<open>
  C26: A cached rewrite that only visits the pages of the dirty byte ranges, with the pages before \<open>skip\<close> left out, stores
  the whole new payload, whether it has the length of the old one, grows or shrinks, and whether or not the
  number of pages changes.  What the caller owes: every position that is new or differs lies in a range and behind the
  skipped pages; a payload that shrinks within its last page names its last byte as dirty; and a change of
  the number of pages does not skip the last page that stays.  Then the returned pointer reads as the new payload,
  its chain consists of the returned page ids, and pages of the old chain that are not among them are free.
\<close>

theorem dirty_range_rewrite_complete:
  assumes "inmem_inv s" "is_chain (im_pages s) (op_head_page_id prev) cached
      (chunk_list (unat (im_page_size s) - 8) (length cached) old)" "distinct cached"
    and "8 < unat (im_page_size s)" "bs \<noteq> []" "length bs < 2 ^ 32"
    and "length cached = div_ceil (length old) (unat (im_page_size s) - 8)" "ranges \<noteq> []"
    and "div_ceil (length bs) (unat (im_page_size s) - 8) \<le> inmem_room s + length cached"
    and "dirty_covers (unat (im_page_size s) - 8) skip ranges old bs"
    and "div_ceil (length bs) (unat (im_page_size s) - 8) \<noteq> length cached \<Longrightarrow>
      skip \<le> min (div_ceil (length bs) (unat (im_page_size s) - 8)) (length cached) - 1"
  shows "\<exists>ptr ids tail s'. rewrite_overflow_cached_with_dirty_byte_ranges inmem_ops prev bs cached skip (Some ranges) s =
      Some (Inr (ptr, ids, tail), s') \<and> inmem_inv s' \<and> read_overflow z inmem_ops s' ptr = Some (Inr bs) \<and>
    overflow_holds z (im_pages s') ptr ids bs \<and> (\<forall>q \<in> set cached - set ids. im_pages s' q = None)"
proof -
  let ?psz = "unat (im_page_size s)"
  let ?cap = "?psz - 8" and ?n = "div_ceil (length bs) (?psz - 8)"
  have psz: "ps_page_size inmem_ops = im_page_size" by (simp add: inmem_ops_def)
  have cap: "0 < ?cap" using assms(4) by simp
  let ?is = "rewrite_indices (length bs) ?cap ?n (length cached) skip (Some ranges)"
  note idx = rewrite_indices_dirty [OF assms(8), of "length bs" ?cap ?n "length cached" skip]
  have "\<forall>i \<in> set ?is. i < ?n"
    unfolding idx using dirty_window_bound resize_window_bound by blast
  moreover have "i < length cached \<and> holds_page (im_pages s) ?cap (take ?n cached @ fresh) bs i"
    if i: "i < ?n" "length fresh = ?n - length cached" "i \<notin> set ?is" for i fresh
  proof -
    have "\<not> min ?n (length cached) - 1 \<le> i" if "?n \<noteq> length cached"
      using resize_window_hit [OF that assms(11) [OF that] _ i(1)] i(3) unfolding idx by blast
    then have sz: "?n = length cached \<or> Suc i < ?n \<and> Suc i < length cached" by linarith
    then have ic: "i < length cached" using i(1) by auto
    have "take ?cap (drop (i * ?cap) old) = take ?cap (drop (i * ?cap) bs)"
      using chunk_agree [OF cap assms(10), of i] sz i ic assms(7) unfolding idx by auto
    moreover have "(take ?n cached @ fresh) ! i = cached ! i" using i(1) ic by (simp add: nth_append)
    moreover have "(if Suc i < length (take ?n cached @ fresh) then (take ?n cached @ fresh) ! Suc i else 0) =
        (if Suc i < length cached then cached ! Suc i else 0)" using sz i(2) by (auto simp: nth_append)
    ultimately show ?thesis using pages_of_chain [OF assms(2) ic] ic by (simp add: holds_page_def)
  qed
  ultimately obtain ptr ids tail s' where
    "rewrite_overflow_cached_with_dirty_byte_ranges inmem_ops prev bs cached skip (Some ranges) s =
      Some (Inr (ptr, ids, tail), s')" "inmem_inv s'" "overflow_holds z (im_pages s') ptr ids bs"
    "\<forall>q \<in> set cached - set ids. im_pages s' q = None"
    using inmem.rewrite_cached_ok [OF assms(1-3,5,6), of ?psz ?n skip "Some ranges" z] assms(4,9) psz by auto
  with inmem.read_overflow_ok show ?thesis by blast
qed

theorem dirty_range_rewrite_complete_witness:
  "\<exists>ptr ids tail s'. rewrite_overflow_cached_with_dirty_byte_ranges inmem_ops
       \<lparr>op_head_page_id = 3, op_logical_len = 3, op_flags = 0\<rparr> [10, 99] [3] 0 (Some [(1, 2)]) one_page_store =
       Some (Inr (ptr, ids, tail), s') \<and> inmem_inv s' \<and>
     read_overflow stored_zlib inmem_ops s' ptr = Some (Inr [10, 99]) \<and>
     overflow_holds stored_zlib (im_pages s') ptr ids [10, 99] \<and> (\<forall>q \<in> set [3] - set ids. im_pages s' q = None)"
  by (rule dirty_range_rewrite_complete [OF one_page_store_inv, where old = "[10, 20, 30]"])
     (use one_page_chain in \<open>auto simp: one_page_store_def div_ceil_def dirty_covers_def nth_Cons split: nat.splits\<close>)

end
