(* ===== verification/Vfs.thy ===== *)
theory Vfs
  imports Prelude
begin

text \<open>
  Files as the storage engine sees them, \<open>vfs/mod.rs\<close> and \<open>vfs/mem.rs\<close>.  The trait
  \<open>VfsFile\<close> is a record of operations on a file state; the locale \<open>vfs_file\<close> is what a
  file promises about its bytes when reads and writes may be short, and the
  retry loops \<open>read_exact_at\<close> and \<open>write_all_at\<close> are shown to hide this.  The
  in-memory file satisfies the contract.  Locks cannot be poisoned in the model,
  since no operation panics.
\<close>

section \<open>Definitions\<close>

datatype FileKind = Database | Wal | SyncJournal | Coordination

datatype OpenMode = CreateNew | OpenExisting | OpenOrCreate

text \<open>
  \<open>vf_read_at off len f\<close> returns the bytes that a read into a buffer of length \<open>len\<close>
  fills in; the count the Rust method returns is their number.
\<close>

record 'f vfs_file_ops =
  vf_read_at :: "u64 \<Rightarrow> nat \<Rightarrow> 'f \<Rightarrow> bytes result"
  vf_write_at :: "u64 \<Rightarrow> bytes \<Rightarrow> 'f \<Rightarrow> nat result \<times> 'f"
  vf_sync_data :: "'f \<Rightarrow> unit result \<times> 'f"
  vf_file_size :: "'f \<Rightarrow> u64 result"
  vf_set_len :: "u64 \<Rightarrow> 'f \<Rightarrow> unit result \<times> 'f"

text \<open>The loops keep the bytes obtained so far, whose number is \<open>cursor\<close>.\<close>

function read_exact_loop ::
  "'f vfs_file_ops \<Rightarrow> 'f \<Rightarrow> u64 \<Rightarrow> nat \<Rightarrow> bytes \<Rightarrow> bytes result"
where
  "read_exact_loop ops f off len buf =
     (let cursor = length buf
      in if cursor \<ge> len then Inr buf
         else case vf_read_at ops (off + of_nat cursor) (len - cursor) f of
           Inl e \<Rightarrow> Inl e
         | Inr chunk \<Rightarrow>
             if chunk = [] then Inl (Io ''short read'')
             else if length chunk > len - cursor
             then Inl (Internal ''VFS read returned more bytes than the buffer holds'')
             else read_exact_loop ops f off len (buf @ chunk))"
  by pat_completeness auto
termination
  by (relation "measure (\<lambda>(_, _, _, len, buf). len - length buf)")
     (auto simp: length_greater_0_conv [symmetric] simp del: length_greater_0_conv)

definition read_exact_at :: "'f vfs_file_ops \<Rightarrow> u64 \<Rightarrow> nat \<Rightarrow> 'f \<Rightarrow> bytes result" where
  "read_exact_at ops off len f = read_exact_loop ops f off len []"

function write_all_loop ::
  "'f vfs_file_ops \<Rightarrow> u64 \<Rightarrow> bytes \<Rightarrow> nat \<Rightarrow> 'f \<Rightarrow> unit result \<times> 'f"
where
  "write_all_loop ops off buf cursor f =
     (if cursor \<ge> length buf then (Inr (), f)
      else case vf_write_at ops (off + of_nat cursor) (drop cursor buf) f of
        (Inl e, f') \<Rightarrow> (Inl e, f')
      | (Inr n, f') \<Rightarrow>
          if n = 0 then (Inl (Io ''short write''), f')
          else if n > length buf - cursor
          then (Inl (Internal ''VFS write accepted more bytes than the buffer holds''), f')
          else write_all_loop ops off buf (cursor + n) f')"
  by pat_completeness auto
termination
  by (relation "measure (\<lambda>(_, _, buf, cursor, _). length buf - cursor)") auto

definition write_all_at :: "'f vfs_file_ops \<Rightarrow> u64 \<Rightarrow> bytes \<Rightarrow> 'f \<Rightarrow> unit result \<times> 'f" where
  "write_all_at ops off buf f = write_all_loop ops off buf 0 f"

text \<open>The trait's default \<open>write_all_at_many\<close>: no check against an over-long count.\<close>

function write_many_loop ::
  "'f vfs_file_ops \<Rightarrow> u64 \<Rightarrow> bytes \<Rightarrow> nat \<Rightarrow> 'f \<Rightarrow> unit result \<times> 'f"
where
  "write_many_loop ops off buf cursor f =
     (if cursor \<ge> length buf then (Inr (), f)
      else case vf_write_at ops (off + of_nat cursor) (drop cursor buf) f of
        (Inl e, f') \<Rightarrow> (Inl e, f')
      | (Inr n, f') \<Rightarrow>
          if n = 0 then (Inl (Io ''short write''), f')
          else write_many_loop ops off buf (cursor + n) f')"
  by pat_completeness auto
termination
  by (relation "measure (\<lambda>(_, _, buf, cursor, _). length buf - cursor)") auto

fun write_all_at_many :: "'f vfs_file_ops \<Rightarrow> (u64 \<times> bytes) list \<Rightarrow> 'f \<Rightarrow> unit result \<times> 'f" where
  "write_all_at_many ops [] f = (Inr (), f)"
| "write_all_at_many ops ((off, buf) # writes) f =
     (case write_many_loop ops off buf 0 f of
        (Inl e, f') \<Rightarrow> (Inl e, f')
      | (Inr _, f') \<Rightarrow> write_all_at_many ops writes f')"

subsection \<open>In-memory files\<close>

definition vec_resize :: "bytes \<Rightarrow> nat \<Rightarrow> bytes" where
  "vec_resize data len = take len data @ replicate (len - length data) 0"

definition mem_read_at :: "u64 \<Rightarrow> nat \<Rightarrow> bytes \<Rightarrow> bytes result" where
  "mem_read_at off len data =
     (let offset = unat off
      in if offset \<ge> length data then Inr []
         else
           let available = drop offset data;
               copied = min (length available) len
           in Inr (take copied available))"

definition mem_write_at :: "u64 \<Rightarrow> bytes \<Rightarrow> bytes \<Rightarrow> nat result \<times> bytes" where
  "mem_write_at off buf data =
     (let offset = unat off;
          end' = offset + length buf;
          data' = (if length data < end' then vec_resize data end' else data)
      in (Inr (length buf), copy_at data' offset buf))"

definition mem_sync_data :: "bytes \<Rightarrow> unit result \<times> bytes" where
  "mem_sync_data data = (Inr (), data)"

definition mem_file_size :: "bytes \<Rightarrow> u64 result" where
  "mem_file_size data = Inr (of_nat (length data))"

definition mem_set_len :: "u64 \<Rightarrow> bytes \<Rightarrow> unit result \<times> bytes" where
  "mem_set_len len data = (Inr (), vec_resize data (unat len))"

definition mem_file_ops :: "bytes vfs_file_ops" where
  "mem_file_ops = \<lparr>vf_read_at = mem_read_at, vf_write_at = mem_write_at,
     vf_sync_data = mem_sync_data, vf_file_size = mem_file_size, vf_set_len = mem_set_len\<rparr>"

subsection \<open>Chunked files\<close>

text \<open>A file that transfers at most \<open>max_chunk\<close> bytes at a time, with which the repository tests the retry loops.\<close>

record ChunkedFile =
  ck_data :: bytes
  ck_max_chunk :: nat

definition chunked_read_at :: "u64 \<Rightarrow> nat \<Rightarrow> ChunkedFile \<Rightarrow> bytes result" where
  "chunked_read_at off blen f =
     (let offset = unat off; data = ck_data f
      in if offset \<ge> length data then Inr []
         else
           let len = min (min (ck_max_chunk f) blen) (length data - offset)
           in Inr (bslice data offset (offset + len)))"

definition chunked_write_at :: "u64 \<Rightarrow> bytes \<Rightarrow> ChunkedFile \<Rightarrow> nat result \<times> ChunkedFile" where
  "chunked_write_at off buf f =
     (let offset = unat off; data = ck_data f;
          len = min (ck_max_chunk f) (length buf);
          end' = offset + len;
          data' = (if length data < end' then vec_resize data end' else data)
      in (Inr len, f\<lparr>ck_data := copy_at data' offset (take len buf)\<rparr>))"

definition chunked_file_ops :: "ChunkedFile vfs_file_ops" where
  "chunked_file_ops = \<lparr>vf_read_at = chunked_read_at, vf_write_at = chunked_write_at,
     vf_sync_data = \<lambda>f. (Inr (), f), vf_file_size = \<lambda>f. Inr (of_nat (length (ck_data f))),
     vf_set_len = \<lambda>len f. (Inr (), f\<lparr>ck_data := vec_resize (ck_data f) (unat len)\<rparr>)\<rparr>"

subsection \<open>The in-memory file system\<close>

text \<open>
  \<open>MemVfs\<close>: the directory maps paths to shared file states.  A state stays alive
  while a handle refers to it, also after the path is removed, so states live in
  a heap indexed by handles.
\<close>

record MemVfs =
  mv_files :: "string \<Rightarrow> nat option"
  mv_heap :: "nat \<Rightarrow> (FileKind \<times> bytes) option"
  mv_next :: nat

definition memvfs_create :: "string \<Rightarrow> FileKind \<Rightarrow> MemVfs \<Rightarrow> nat result \<times> MemVfs" where
  "memvfs_create path kind v =
     (Inr (mv_next v),
      v\<lparr>mv_files := (mv_files v)(path \<mapsto> mv_next v),
        mv_heap := (mv_heap v)(mv_next v \<mapsto> (kind, [])), mv_next := Suc (mv_next v)\<rparr>)"

definition memvfs_open :: "string \<Rightarrow> OpenMode \<Rightarrow> FileKind \<Rightarrow> MemVfs \<Rightarrow> nat result \<times> MemVfs" where
  "memvfs_open path mode kind v =
     (case mode of
        CreateNew \<Rightarrow>
          (if mv_files v path \<noteq> None then (Inl (Io ''create in-memory file''), v)
           else memvfs_create path kind v)
      | OpenExisting \<Rightarrow>
          (case mv_files v path of
             Some h \<Rightarrow> (Inr h, v)
           | None \<Rightarrow> (Inl (Io ''open in-memory file''), v))
      | OpenOrCreate \<Rightarrow>
          (case mv_files v path of
             Some h \<Rightarrow> (Inr h, v)
           | None \<Rightarrow> memvfs_create path kind v))"

definition memvfs_file_exists :: "string \<Rightarrow> MemVfs \<Rightarrow> bool result" where
  "memvfs_file_exists path v = Inr (mv_files v path \<noteq> None)"

definition memvfs_remove_file :: "string \<Rightarrow> MemVfs \<Rightarrow> unit result \<times> MemVfs" where
  "memvfs_remove_file path v = (Inr (), v\<lparr>mv_files := (mv_files v)(path := None)\<rparr>)"

declare read_exact_loop.simps [simp del] write_all_loop.simps [simp del] write_many_loop.simps [simp del]

section \<open>The contract of a file\<close>

text \<open>The bytes of a file after \<open>b\<close> is written at \<open>off\<close>, with zeros in a gap.\<close>

definition file_patch :: "bytes \<Rightarrow> nat \<Rightarrow> bytes \<Rightarrow> bytes" where
  "file_patch c off b =
     take off (c @ replicate (off - length c) 0) @ b @ drop (off + length b) c"

lemma length_file_patch [simp]: "length (file_patch c off b) = max (length c) (off + length b)"
  by (auto simp: file_patch_def max_def)

lemma file_patch_join:
  "file_patch (file_patch c off a) (off + length a) b = file_patch c off (a @ b)"
proof -
  have "min (length c) off + (off - length c) = off" by auto
  then show ?thesis by (simp add: file_patch_def ac_simps)
qed

lemma bslice_file_patch: "bslice (file_patch c off b) off (off + length b) = b"
  by (simp add: file_patch_def bslice_def)

lemma bslice_file_patch_other:
  "j \<le> off \<or> off + length b \<le> i \<Longrightarrow> j \<le> length c \<Longrightarrow>
     bslice (file_patch c off b) i j = bslice c i j"
  by (rule nth_equalityI) (auto simp: nth_bslice file_patch_def nth_append)

text \<open>
  Files stay below \<open>2 ^ 63\<close> bytes, the largest size a Rust buffer or a signed file
  offset can have.
\<close>

locale vfs_file =
  fixes ops :: "'f vfs_file_ops" and inv :: "'f \<Rightarrow> bool" and content :: "'f \<Rightarrow> bytes"
  assumes content_len: "inv f \<Longrightarrow> length (content f) < 2 ^ 63"
    and file_read: "inv f \<Longrightarrow> unat off < length (content f) \<Longrightarrow> 0 < len \<Longrightarrow>
      \<exists>n. vf_read_at ops off len f = Inr (bslice (content f) (unat off) (unat off + n)) \<and>
          0 < n \<and> n \<le> len \<and> unat off + n \<le> length (content f)"
    and file_read_end: "inv f \<Longrightarrow> length (content f) \<le> unat off \<Longrightarrow> vf_read_at ops off len f = Inr []"
    and file_write: "inv f \<Longrightarrow> buf \<noteq> [] \<Longrightarrow> unat off + length buf < 2 ^ 63 \<Longrightarrow>
      \<exists>n f'. vf_write_at ops off buf f = (Inr n, f') \<and> inv f' \<and> 0 < n \<and> n \<le> length buf \<and>
        content f' = file_patch (content f) (unat off) (take n buf)"
    and file_sync: "inv f \<Longrightarrow>
      \<exists>f'. vf_sync_data ops f = (Inr (), f') \<and> inv f' \<and> content f' = content f"
    and file_len: "inv f \<Longrightarrow> vf_file_size ops f = Inr (of_nat (length (content f)))"
    and file_set_len: "inv f \<Longrightarrow> unat n < 2 ^ 63 \<Longrightarrow>
      \<exists>f'. vf_set_len ops n f = (Inr (), f') \<and> inv f' \<and> content f' = vec_resize (content f) (unat n)"
begin

lemma unat_off_add: "unat off + n < 2 ^ 63 \<Longrightarrow> unat (off + of_nat n :: u64) = unat off + n"
  by (simp add: unat_word_ariths unat_of_nat)

lemma read_exact_loop_ok:
  assumes "inv f" "unat off + len \<le> length (content f)"
  shows "buf = bslice (content f) (unat off) (unat off + length buf) \<Longrightarrow> length buf \<le> len \<Longrightarrow>
    read_exact_loop ops f off len buf = Inr (bslice (content f) (unat off) (unat off + len))"
proof (induction "len - length buf" arbitrary: buf rule: less_induct)
  case less
  show ?case
  proof (cases "length buf = len")
    case True
    then show ?thesis using less.prems by (subst read_exact_loop.simps) simp
  next
    case False
    let ?o = "off + of_nat (length buf)"
    have o: "unat ?o = unat off + length buf"
      using content_len [OF assms(1)] assms(2) less.prems(2) by (intro unat_off_add) simp
    obtain n where n: "vf_read_at ops ?o (len - length buf) f =
        Inr (bslice (content f) (unat ?o) (unat ?o + n))" "0 < n" "n \<le> len - length buf"
        "unat ?o + n \<le> length (content f)"
      using file_read [OF assms(1), of ?o "len - length buf"] o False less.prems(2) assms(2) by auto
    let ?chunk = "bslice (content f) (unat ?o) (unat ?o + n)"
    have lc: "length ?chunk = n" using n(4) by simp
    have "buf @ ?chunk = bslice (content f) (unat off) (unat off + (length buf + n))"
      using less.prems(1) o bslice_append_bslice [of "unat off" "unat ?o" "unat ?o + n" "content f"]
      by (simp add: add.assoc)
    then have "buf @ ?chunk = bslice (content f) (unat off) (unat off + length (buf @ ?chunk))"
      unfolding length_append lc .
    moreover have "len - length (buf @ ?chunk) < len - length buf" "length (buf @ ?chunk) \<le> len"
      using lc n False less.prems(2) by auto
    ultimately have "read_exact_loop ops f off len (buf @ ?chunk) =
        Inr (bslice (content f) (unat off) (unat off + len))" using less.hyps by blast
    moreover have "?chunk \<noteq> []" using lc n(2) by (metis less_irrefl list.size(3))
    ultimately show ?thesis
      using n(1) lc n(2,3) False less.prems(2) by (subst read_exact_loop.simps) (auto simp: Let_def)
  qed
qed

lemma read_exact_ok:
  "inv f \<Longrightarrow> unat off + len \<le> length (content f) \<Longrightarrow>
     read_exact_at ops off len f = Inr (bslice (content f) (unat off) (unat off + len))"
  unfolding read_exact_at_def by (rule read_exact_loop_ok) simp_all

lemma write_all_loop_ok:
  "inv f \<Longrightarrow> cursor \<le> length buf \<Longrightarrow> unat off + length buf < 2 ^ 63 \<Longrightarrow> buf \<noteq> [] \<Longrightarrow>
   content f = (if cursor = 0 then c else file_patch c (unat off) (take cursor buf)) \<Longrightarrow>
     \<exists>f'. write_all_loop ops off buf cursor f = (Inr (), f') \<and> inv f' \<and>
       content f' = file_patch c (unat off) buf"
proof (induction "length buf - cursor" arbitrary: cursor f rule: less_induct)
  case less
  show ?case
  proof (cases "cursor = length buf")
    case True
    then show ?thesis using less.prems by (subst write_all_loop.simps) simp
  next
    case False
    let ?o = "off + of_nat cursor"
    have o: "unat ?o = unat off + cursor" using less.prems by (intro unat_off_add) simp
    have "drop cursor buf \<noteq> []" "unat ?o + length (drop cursor buf) < 2 ^ 63"
      using False less.prems(2,3) o by auto
    then obtain n f1 where n: "vf_write_at ops ?o (drop cursor buf) f = (Inr n, f1)" "inv f1" "0 < n"
      "n \<le> length (drop cursor buf)" "content f1 = file_patch (content f) (unat ?o) (take n (drop cursor buf))"
      using file_write [OF less.prems(1)] by blast
    have "content f1 = file_patch c (unat off) (take (cursor + n) buf)"
      using n(5) less.prems(2,5) o file_patch_join [of c "unat off" "take cursor buf" "take n (drop cursor buf)"]
      by (cases "cursor = 0") (auto simp: take_add min_absorb2)
    moreover have "length buf - (cursor + n) < length buf - cursor" "cursor + n \<le> length buf"
      using n(3,4) False less.prems(2) by auto
    ultimately obtain f' where "write_all_loop ops off buf (cursor + n) f1 = (Inr (), f')" "inv f'"
      "content f' = file_patch c (unat off) buf"
      using less.hyps [of "cursor + n" f1] n(2,3) less.prems(3,4) by auto
    then show ?thesis using n False less.prems(2) by (subst write_all_loop.simps) auto
  qed
qed

lemma write_all_ok:
  assumes "inv f" "unat off + length buf < 2 ^ 63" "buf \<noteq> []"
  shows "\<exists>f'. write_all_at ops off buf f = (Inr (), f') \<and> inv f' \<and>
    content f' = file_patch (content f) (unat off) buf"
  unfolding write_all_at_def using assms by (intro write_all_loop_ok) simp_all

lemma write_all_then_read:
  assumes "inv f" "unat off + length buf < 2 ^ 63" "buf \<noteq> []"
  shows "\<exists>f'. write_all_at ops off buf f = (Inr (), f') \<and> inv f' \<and>
    read_exact_at ops off (length buf) f' = Inr buf"
  using write_all_ok [OF assms] read_exact_ok bslice_file_patch by fastforce

end

section \<open>In-memory files satisfy it\<close>

definition mem_inv :: "bytes \<Rightarrow> bool" where
  "mem_inv data \<longleftrightarrow> length data < 2 ^ 63"

lemma length_vec_resize [simp]: "length (vec_resize data len) = len"
  by (auto simp: vec_resize_def)

lemma mem_write_patch:
  "mem_write_at off buf data = (Inr (length buf), file_patch data (unat off) buf)"
proof -
  have "min (length data) (unat off) + (unat off - length data) = unat off" by auto
  then show ?thesis
    by (auto simp: mem_write_at_def file_patch_def copy_at_def vec_resize_def Let_def not_less
        take_append min_def)
qed

interpretation memfile: vfs_file mem_file_ops mem_inv "\<lambda>data. data"
proof (unfold_locales, goal_cases)
  case (1 f)
  then show ?case by (simp add: mem_inv_def)
next
  case (2 f off len)
  then show ?case
    by (intro exI [of _ "min (length f - unat off) len"])
       (simp add: mem_file_ops_def mem_read_at_def Let_def bslice_def)
next
  case (3 f off len)
  then show ?case by (simp add: mem_file_ops_def mem_read_at_def)
next
  case (4 f buf off)
  then show ?case
    by (intro exI [of _ "length buf"]) (simp add: mem_file_ops_def mem_write_patch mem_inv_def)
next
  case (5 f)
  then show ?case by (simp add: mem_file_ops_def mem_sync_data_def)
next
  case (6 f)
  then show ?case by (simp add: mem_file_ops_def mem_file_size_def)
next
  case (7 f n)
  then show ?case by (simp add: mem_file_ops_def mem_set_len_def mem_inv_def)
qed

section \<open>Chunked files satisfy it\<close>

definition chunked_inv :: "ChunkedFile \<Rightarrow> bool" where
  "chunked_inv f \<longleftrightarrow> length (ck_data f) < 2 ^ 63 \<and> 0 < ck_max_chunk f"

lemma chunked_write_patch:
  "chunked_write_at off buf f =
     (Inr (min (ck_max_chunk f) (length buf)),
      f\<lparr>ck_data := file_patch (ck_data f) (unat off) (take (min (ck_max_chunk f) (length buf)) buf)\<rparr>)"
  using mem_write_patch [of off "take (min (ck_max_chunk f) (length buf)) buf" "ck_data f"]
  by (simp add: chunked_write_at_def mem_write_at_def Let_def)

interpretation chunkedfile: vfs_file chunked_file_ops chunked_inv ck_data
proof (unfold_locales, goal_cases)
  case (1 f)
  then show ?case by (simp add: chunked_inv_def)
next
  case (2 f off len)
  then show ?case
    by (intro exI [of _ "min (min (ck_max_chunk f) len) (length (ck_data f) - unat off)"])
       (auto simp: chunked_file_ops_def chunked_read_at_def chunked_inv_def Let_def)
next
  case (3 f off len)
  then show ?case by (simp add: chunked_file_ops_def chunked_read_at_def Let_def)
next
  case (4 f buf off)
  then show ?case
    by (intro exI [of _ "min (ck_max_chunk f) (length buf)"]) (simp add: chunked_file_ops_def chunked_write_patch chunked_inv_def)
next
  case (5 f)
  then show ?case by (simp add: chunked_file_ops_def)
next
  case (6 f)
  then show ?case by (simp add: chunked_file_ops_def)
next
  case (7 f n)
  then show ?case by (simp add: chunked_file_ops_def chunked_inv_def)
qed

section \<open>Properties\<close>

text \<open>
  C35: The retry loops hide short transfers: on every file whose reads and writes may stop anywhere but make some
  progress, \<open>write_all_at\<close> writes the whole buffer at its offset, with zeros in a gap in front of it, and leaves every
  other byte alone; \<open>read_exact_at\<close> then returns the written bytes, and every other range that existed
  before reads as before.  The laws assumed of the file are those of \<open>vfs_file\<close>, which in-memory files and
  the test suite's chunked files satisfy.
\<close>

theorem file_write_read:
  assumes "vfs_file ops ok content" "ok f" "unat off + length buf < 2 ^ 63" "buf \<noteq> []"
  shows "\<exists>f'. write_all_at ops off buf f = (Inr (), f') \<and> ok f' \<and>
    read_exact_at ops off (length buf) f' = Inr buf \<and>
    content f' = file_patch (content f) (unat off) buf \<and>
    (\<forall>o' len. unat o' + len \<le> length (content f) \<longrightarrow>
       unat o' + len \<le> unat off \<or> unat off + length buf \<le> unat o' \<longrightarrow>
       read_exact_at ops o' len f' = read_exact_at ops o' len f)"
proof -
  obtain f' where w: "write_all_at ops off buf f = (Inr (), f')" "ok f'"
    "content f' = file_patch (content f) (unat off) buf" "read_exact_at ops off (length buf) f' = Inr buf"
    using vfs_file.write_all_ok [OF assms] vfs_file.write_all_then_read [OF assms] by auto
  have "read_exact_at ops o' len f' = read_exact_at ops o' len f"
    if "unat o' + len \<le> length (content f)" "unat o' + len \<le> unat off \<or> unat off + length buf \<le> unat o'" for o' len
    using that w(2,3) assms(2) by (simp add: vfs_file.read_exact_ok [OF assms(1)] bslice_file_patch_other)
  with w show ?thesis by blast
qed

text \<open>On a chunked file that moves one byte at a time.\<close>

theorem file_write_read_witness:
  "\<exists>f'. write_all_at chunked_file_ops 2 [7, 8] \<lparr>ck_data = [1, 2, 3], ck_max_chunk = 1\<rparr> = (Inr (), f') \<and>
     read_exact_at chunked_file_ops 2 2 f' = Inr [7, 8] \<and> ck_data f' = [1, 2, 7, 8]"
proof -
  have i: "chunked_inv \<lparr>ck_data = [1, 2, 3], ck_max_chunk = 1\<rparr>" and two: "Suc (Suc 0) = 2" by (simp_all add: chunked_inv_def)
  from file_write_read [OF chunkedfile.vfs_file_axioms i, of 2 "[7, 8]"] show ?thesis
    by (auto simp: file_patch_def two)
qed

end
