(* ===== verification/DbHeader.thy ===== *)
theory DbHeader
  imports Pages Checksum Vfs
begin

text \<open>
  The fixed database header on page 1, \<open>storage/header.rs\<close>: 128 bytes with a magic
  string, the format version and the CRC-32C of everything but the checksum field
  itself.  Random bytes come from the operating system and are a parameter: the
  outcome of the n-th call of \<open>getrandom::fill\<close>, whether it succeeded and the buffer
  it left.
\<close>

section \<open>Definitions\<close>

definition DB_HEADER_SIZE :: nat where "DB_HEADER_SIZE = 128"
definition DB_FORMAT_VERSION :: u32 where "DB_FORMAT_VERSION = 14"

definition DB_MAGIC :: bytes where
  "DB_MAGIC = [0x44, 0x45, 0x43, 0x45, 0x4E, 0x54, 0x44, 0x42, 0, 0, 0, 0, 0, 0, 0, 0]"

definition TDE_MAGIC :: bytes where
  "TDE_MAGIC = [0x44, 0x44, 0x42, 0x54, 0x44, 0x45, 0x31, 0]"

record DatabaseHeader =
  h_magic :: bytes
  h_format_version :: u32
  h_page_size :: u32
  h_header_checksum :: u32
  h_schema_cookie :: u32
  h_catalog_root_page_id :: u32
  h_freelist :: FreelistState
  h_last_checkpoint_lsn :: u64
  h_database_id :: bytes
  h_reserved :: bytes

definition read_u32 :: "bytes \<Rightarrow> nat \<Rightarrow> u32" where
  "read_u32 bs offset = u32_of_le (bslice bs offset (offset + 4))"

definition read_u64 :: "bytes \<Rightarrow> nat \<Rightarrow> u64" where
  "read_u64 bs offset = u64_of_le (bslice bs offset (offset + 8))"

definition write_u32 :: "bytes \<Rightarrow> nat \<Rightarrow> u32 \<Rightarrow> bytes" where
  "write_u32 bs offset v = copy_at bs offset (u32_le v)"

definition write_u64 :: "bytes \<Rightarrow> nat \<Rightarrow> u64 \<Rightarrow> bytes" where
  "write_u64 bs offset v = copy_at bs offset (u64_le v)"

definition encode_with_checksum :: "DatabaseHeader \<Rightarrow> u32 \<Rightarrow> bytes" where
  "encode_with_checksum h header_checksum =
     (let bs = replicate DB_HEADER_SIZE 0;
          bs = copy_at bs 0 (h_magic h);
          bs = write_u32 bs 16 (h_format_version h);
          bs = write_u32 bs 20 (h_page_size h);
          bs = write_u32 bs 24 header_checksum;
          bs = write_u32 bs 28 (h_schema_cookie h);
          bs = write_u32 bs 32 (h_catalog_root_page_id h);
          bs = write_u32 bs 36 (fl_root_page_id (h_freelist h));
          bs = write_u32 bs 40 (fl_head_page_id (h_freelist h));
          bs = write_u32 bs 44 (fl_page_count (h_freelist h));
          bs = write_u64 bs 48 (h_last_checkpoint_lsn h);
          bs = copy_at bs 56 (h_database_id h)
      in copy_at bs 72 (h_reserved h))"

definition header_crc :: "crc_cpu \<Rightarrow> bytes \<Rightarrow> u32" where
  "header_crc cpu bs = crc32c_parts cpu [bslice bs 0 24, drop 28 bs]"

definition compute_checksum :: "crc_cpu \<Rightarrow> DatabaseHeader \<Rightarrow> u32" where
  "compute_checksum cpu h = header_crc cpu (encode_with_checksum h 0)"

definition header_encode :: "crc_cpu \<Rightarrow> DatabaseHeader \<Rightarrow> bytes" where
  "header_encode cpu h =
     (let bs = encode_with_checksum h 0;
          checksum = header_crc cpu bs
      in write_u32 bs 24 checksum)"

definition decode_loose :: "bytes \<Rightarrow> DatabaseHeader result" where
  "decode_loose bs =
     (let magic = bslice bs 0 16
      in if magic \<noteq> DB_MAGIC then
           (if take (length TDE_MAGIC) magic = TDE_MAGIC
            then Inl (Corruption ''database is encrypted; supply DbConfig::encryption with the correct key'')
            else Inl (Corruption ''invalid database header magic on page 1''))
         else if \<not> is_supported_page_size (read_u32 bs 20)
         then Inl (Corruption ''invalid database page size on page 1'')
         else Inr
           \<lparr>h_magic = magic, h_format_version = read_u32 bs 16, h_page_size = read_u32 bs 20,
            h_header_checksum = read_u32 bs 24, h_schema_cookie = read_u32 bs 28,
            h_catalog_root_page_id = read_u32 bs 32,
            h_freelist = \<lparr>fl_root_page_id = read_u32 bs 36, fl_head_page_id = read_u32 bs 40,
                          fl_page_count = read_u32 bs 44\<rparr>,
            h_last_checkpoint_lsn = read_u64 bs 48, h_database_id = bslice bs 56 72,
            h_reserved = bslice bs 72 128\<rparr>)"

definition header_decode :: "crc_cpu \<Rightarrow> bytes \<Rightarrow> DatabaseHeader result" where
  "header_decode cpu bs =
     rbind (decode_loose bs) (\<lambda>header.
       if h_format_version header \<noteq> DB_FORMAT_VERSION
       then Inl (UnsupportedFormatVersion (h_format_version header))
       else if read_u32 bs 24 \<noteq> header_crc cpu bs
       then Inl (Corruption ''database header checksum mismatch on page 1'')
       else Inr header)"

type_synonym getrandom = "nat \<Rightarrow> bool \<times> bytes"

partial_function (option) random_database_id :: "getrandom \<Rightarrow> nat \<Rightarrow> (bytes \<times> nat) option" where
  "random_database_id rnd n =
     (let (ok, database_id) = rnd n
      in if ok then
           if database_id \<noteq> replicate 16 0 then Some (database_id, Suc n)
           else random_database_id rnd (Suc n)
         else Some (database_id[0 := 1], Suc n))"

definition header_new :: "crc_cpu \<Rightarrow> getrandom \<Rightarrow> nat \<Rightarrow> u32 \<Rightarrow> (DatabaseHeader \<times> nat) option" where
  "header_new cpu rnd n page_size =
     map_option (\<lambda>(database_id, n').
       let header = \<lparr>h_magic = DB_MAGIC, h_format_version = DB_FORMAT_VERSION, h_page_size = page_size,
              h_header_checksum = 0, h_schema_cookie = 0, h_catalog_root_page_id = CATALOG_ROOT_PAGE_ID,
              h_freelist = \<lparr>fl_root_page_id = 0, fl_head_page_id = 0, fl_page_count = 0\<rparr>,
              h_last_checkpoint_lsn = 0, h_database_id = database_id, h_reserved = replicate 56 0\<rparr>
       in (header\<lparr>h_header_checksum := compute_checksum cpu header\<rparr>, n'))
     (random_database_id rnd n)"

definition has_empty_database_id :: "DatabaseHeader \<Rightarrow> bool" where
  "has_empty_database_id h = (h_database_id h = replicate 16 0)"

definition ensure_database_id ::
  "crc_cpu \<Rightarrow> getrandom \<Rightarrow> nat \<Rightarrow> DatabaseHeader \<Rightarrow> (bool \<times> DatabaseHeader \<times> nat) option"
where
  "ensure_database_id cpu rnd n h =
     (if \<not> has_empty_database_id h then Some (False, h, n)
      else map_option (\<lambda>(database_id, n').
        let h' = h\<lparr>h_database_id := database_id\<rparr>
        in (True, h'\<lparr>h_header_checksum := compute_checksum cpu h'\<rparr>, n')) (random_database_id rnd n))"

definition write_database_bootstrap_vfs ::
  "crc_cpu \<Rightarrow> 'f vfs_file_ops \<Rightarrow> DatabaseHeader \<Rightarrow> 'f \<Rightarrow> unit result \<times> 'f"
where
  "write_database_bootstrap_vfs cpu ops header file =
     (let page_size = unat (h_page_size header);
          first_page = copy_at (zeroed_page (h_page_size header)) 0 (header_encode cpu header);
          second_page = zeroed_page (h_page_size header)
      in case write_all_at ops 0 first_page file of
           (Inl e, f1) \<Rightarrow> (Inl e, f1)
         | (Inr _, f1) \<Rightarrow>
             (case write_all_at ops (of_nat page_size) second_page f1 of
                (Inl e, f2) \<Rightarrow> (Inl e, f2)
              | (Inr _, f2) \<Rightarrow> vf_set_len ops (of_nat (page_size * 2)) f2))"

definition read_database_header_vfs :: "crc_cpu \<Rightarrow> 'f vfs_file_ops \<Rightarrow> 'f \<Rightarrow> DatabaseHeader result" where
  "read_database_header_vfs cpu ops file =
     rbind (read_exact_at ops 0 DB_HEADER_SIZE file) (header_decode cpu)"

definition read_database_header_vfs_loose :: "'f vfs_file_ops \<Rightarrow> 'f \<Rightarrow> DatabaseHeader result" where
  "read_database_header_vfs_loose ops file =
     rbind (read_exact_at ops 0 DB_HEADER_SIZE file) decode_loose"

definition repair_empty_database_id_vfs ::
  "crc_cpu \<Rightarrow> getrandom \<Rightarrow> nat \<Rightarrow> 'f vfs_file_ops \<Rightarrow> DatabaseHeader \<Rightarrow> 'f
    \<Rightarrow> (bool result \<times> DatabaseHeader \<times> 'f) option"
where
  "repair_empty_database_id_vfs cpu rnd n ops header file =
     (case ensure_database_id cpu rnd n header of
        None \<Rightarrow> None
      | Some (changed, header', n') \<Rightarrow>
          Some (if \<not> changed then (Inr False, header', file)
            else case write_all_at ops 0 (header_encode cpu header') file of
              (Inl e, f1) \<Rightarrow> (Inl e, header', f1)
            | (Inr _, f1) \<Rightarrow>
                (case vf_sync_data ops f1 of
                   (Inl e, f2) \<Rightarrow> (Inl e, header', f2)
                 | (Inr _, f2) \<Rightarrow> (Inr True, header', f2))))"

section \<open>The layout\<close>

definition header_wf :: "DatabaseHeader \<Rightarrow> bool" where
  "header_wf h \<longleftrightarrow> h_magic h = DB_MAGIC \<and> h_format_version h = DB_FORMAT_VERSION \<and>
     is_supported_page_size (h_page_size h) \<and> length (h_database_id h) = 16 \<and>
     length (h_reserved h) = 56"

lemma copy_at_zeroes:
  "length acc = off \<Longrightarrow> length ys \<le> n \<Longrightarrow>
     copy_at (acc @ replicate n 0) off ys = (acc @ ys) @ replicate (n - length ys) 0"
  by (simp add: copy_at_def)

definition header_fields :: "DatabaseHeader \<Rightarrow> u32 \<Rightarrow> bytes" where
  "header_fields h c =
     h_magic h @ u32_le (h_format_version h) @ u32_le (h_page_size h) @ u32_le c @
     u32_le (h_schema_cookie h) @ u32_le (h_catalog_root_page_id h) @
     u32_le (fl_root_page_id (h_freelist h)) @ u32_le (fl_head_page_id (h_freelist h)) @
     u32_le (fl_page_count (h_freelist h)) @ u64_le (h_last_checkpoint_lsn h) @
     h_database_id h @ h_reserved h"

lemma length_DB_MAGIC [simp]: "length DB_MAGIC = 16"
  by (simp add: DB_MAGIC_def)

lemma encode_with_checksum_fields:
  assumes "header_wf h"
  shows "encode_with_checksum h c = header_fields h c"
proof -
  have "replicate DB_HEADER_SIZE (0 :: u8) = [] @ replicate 128 0" by (simp add: DB_HEADER_SIZE_def)
  then show ?thesis
    using assms unfolding encode_with_checksum_def write_u32_def write_u64_def header_wf_def header_fields_def
    by (simp add: copy_at_zeroes del: append_Nil append_assoc)
qed

lemma length_header_fields: "header_wf h \<Longrightarrow> length (header_fields h c) = 128"
  by (simp add: header_fields_def header_wf_def)

lemma header_encode_fields:
  assumes "header_wf h"
  shows "header_encode cpu h = header_fields h (compute_checksum cpu h)"
proof -
  let ?a = "h_magic h @ u32_le (h_format_version h) @ u32_le (h_page_size h)"
  obtain rest where f: "header_fields h c = ?a @ u32_le c @ rest" for c
    by (simp add: header_fields_def)
  have "length ?a = 24" using assms by (simp add: header_wf_def)
  then have "copy_at (?a @ u32_le 0 @ rest) 24 (u32_le c) = ?a @ u32_le c @ rest" for c
    by (simp add: copy_at_def)
  then show ?thesis
    using assms f by (simp add: header_encode_def compute_checksum_def Let_def write_u32_def
        encode_with_checksum_fields)
qed

lemma header_crc_fields: "header_wf h \<Longrightarrow> header_crc cpu (header_fields h c) = compute_checksum cpu h"
  by (simp add: header_crc_def compute_checksum_def encode_with_checksum_fields header_fields_def
      header_wf_def)

lemma decode_loose_fields:
  assumes "header_wf h"
  shows "decode_loose (header_fields h c) = Inr (h\<lparr>h_header_checksum := c\<rparr>)"
  using assms
  by (simp add: decode_loose_def header_fields_def header_wf_def Let_def read_u32_def read_u64_def
      bslice_append2)

lemma header_decode_encode:
  assumes "header_wf h"
  shows "header_decode cpu (header_encode cpu h) = Inr (h\<lparr>h_header_checksum := compute_checksum cpu h\<rparr>)"
proof -
  have "read_u32 (header_fields h c) 24 = c" for c
    using assms by (simp add: header_fields_def header_wf_def read_u32_def bslice_append2)
  then show ?thesis
    using assms by (simp add: header_decode_def header_encode_fields decode_loose_fields header_crc_fields)
       (simp add: header_wf_def)
qed

lemma random_database_id_some:
  assumes "random_database_id rnd n = Some r"
  shows "(\<forall>k. length (snd (rnd k)) = 16) \<longrightarrow> length (fst r) = 16 \<and> fst r \<noteq> replicate 16 0"
proof (rule random_database_id.raw_induct [OF _ assms], intro impI)
  fix f and rnd :: getrandom and n r
  assume IH: "\<And>rnd n r. f rnd n = Some r \<Longrightarrow>
      (\<forall>k. length (snd (rnd k)) = 16) \<longrightarrow> length (fst r) = 16 \<and> fst r \<noteq> replicate 16 0"
    and run: "(let (ok, database_id) = rnd n
      in if ok then if database_id \<noteq> replicate 16 0 then Some (database_id, Suc n) else f rnd (Suc n)
         else Some (database_id[0 := 1], Suc n)) = Some r"
    and len: "\<forall>k. length (snd (rnd k)) = 16"
  obtain ok b where b: "rnd n = (ok, b)" by (cases "rnd n")
  then have "length b = 16" using len by (metis snd_conv)
  moreover have "b[0 := 1] \<noteq> replicate 16 0" if "length b = 16"
  proof
    assume "b[0 := 1] = replicate 16 0"
    then have "b[0 := 1] ! 0 = replicate 16 0 ! 0" by simp
    then show False using that by simp
  qed
  ultimately show "length (fst r) = 16 \<and> fst r \<noteq> replicate 16 0"
    using run IH b len by (auto split: if_splits)
qed

lemma random_database_id_returns:
  "rnd k \<noteq> (True, replicate 16 0) \<Longrightarrow> n \<le> k \<Longrightarrow> \<exists>r. random_database_id rnd n = Some r"
proof (induction "k - n" arbitrary: n)
  case 0
  then have "n = k" by simp
  then show ?case using 0 by (subst random_database_id.simps) (auto split: prod.splits)
next
  case (Suc d)
  then have "\<exists>r. random_database_id rnd (Suc n) = Some r" by simp
  then show ?case by (subst random_database_id.simps) (auto split: prod.splits)
qed

section \<open>Properties\<close>

text \<open>
  C37: A database header decodes to the header that was encoded, with the checksum
  field filled in, for every well-formed header; the encoding is 128 bytes long.
\<close>

theorem header_roundtrip:
  assumes "header_wf h"
  shows "header_decode cpu (header_encode cpu h) = Inr (h\<lparr>h_header_checksum := compute_checksum cpu h\<rparr>) \<and>
    length (header_encode cpu h) = 128"
  using header_decode_encode [OF assms] length_header_fields [OF assms]
  by (simp add: header_encode_fields [OF assms])

definition sample_header :: DatabaseHeader where
  "sample_header = \<lparr>h_magic = DB_MAGIC, h_format_version = 14, h_page_size = 4096, h_header_checksum = 0,
     h_schema_cookie = 5, h_catalog_root_page_id = 2,
     h_freelist = \<lparr>fl_root_page_id = 0, fl_head_page_id = 9, fl_page_count = 1\<rparr>,
     h_last_checkpoint_lsn = 77, h_database_id = replicate 16 3, h_reserved = replicate 56 0\<rparr>"

lemma sample_header_wf: "header_wf sample_header"
  by (simp add: header_wf_def sample_header_def DB_FORMAT_VERSION_def is_supported_page_size_def
      SUPPORTED_PAGE_SIZES_def)

theorem header_roundtrip_witness:
  "header_decode sse42_cpu (header_encode sse42_cpu sample_header) =
     Inr (sample_header\<lparr>h_header_checksum := compute_checksum sse42_cpu sample_header\<rparr>)"
  using header_roundtrip [OF sample_header_wf] by blast

text \<open>
  C30: A header with a single corrupted byte is never accepted: whichever of the 128
  bytes of an encoded header is replaced by a different value, decoding returns
  an error.
\<close>

theorem header_rejects_corruption:
  assumes "crc_cpu_ok cpu" "header_wf h" "i < 128" "x \<noteq> header_encode cpu h ! i"
  shows "\<exists>e. header_decode cpu ((header_encode cpu h)[i := x]) = Inl e"
proof (rule ccontr)
  let ?b = "header_encode cpu h" and ?b' = "(header_encode cpu h)[i := x]"
  assume "\<nexists>e. header_decode cpu ?b' = Inl e"
  then have ok': "read_u32 ?b' 24 = header_crc cpu ?b'"
    by (auto simp: header_decode_def rbind_def split: sum.splits if_splits)
  have ok: "read_u32 ?b 24 = header_crc cpu ?b"
    using header_decode_encode [OF assms(2), of cpu]
    by (auto simp: header_decode_def rbind_def split: sum.splits if_splits)
  have len: "length ?b = 128"
    using length_header_fields [OF assms(2)] by (simp add: header_encode_fields [OF assms(2)])
  have crc: "header_crc cpu b = crc32c_parts cpu [take 24 b @ drop 28 b]" for b
    using crc32c_parts_concat [OF assms(1), of "[take 24 b, drop 28 b]"] by (simp add: header_crc_def)
  show False
  proof (cases "24 \<le> i \<and> i < 28")
    case True
    then have "header_crc cpu ?b' = header_crc cpu ?b" by (simp add: header_crc_def)
    moreover have "bslice ?b' 24 28 \<noteq> bslice ?b 24 28"
    proof
      assume "bslice ?b' 24 28 = bslice ?b 24 28"
      then have "bslice ?b' 24 28 ! (i - 24) = bslice ?b 24 28 ! (i - 24)" by simp
      then show False using True len assms(4) by (simp add: nth_bslice)
    qed
    then have "read_u32 ?b' 24 \<noteq> read_u32 ?b 24"
      using u32_le_of_le [of "bslice ?b' 24 28"] u32_le_of_le [of "bslice ?b 24 28"] len
      by (auto simp: read_u32_def)
    ultimately show ?thesis using ok ok' by simp
  next
    case False
    let ?m = "take 24 ?b @ drop 28 ?b" and ?j = "if i < 24 then i else i - 4"
    have m': "take 24 ?b' @ drop 28 ?b' = ?m[?j := x]"
      using False len by (auto simp: take_update_swap drop_update_swap list_update_append list_update_beyond)
    have j: "?j < length ?m" "?m ! ?j = ?b ! i" using False len assms(3) by (auto simp: nth_append)
    have "header_crc cpu ?b' \<noteq> header_crc cpu ?b"
      unfolding crc m' by (rule crc32c_byte_change [OF assms(1) j(1)]) (use assms(4) j(2) in simp)
    moreover have "read_u32 ?b' 24 = read_u32 ?b 24"
      using False by (auto simp: read_u32_def bslice_def take_update_swap drop_update_swap list_update_beyond)
    ultimately show ?thesis using ok ok' by simp
  qed
qed

theorem header_rejects_corruption_witness:
  "\<exists>e. header_decode sse42_cpu
     ((header_encode sse42_cpu sample_header)[40 := header_encode sse42_cpu sample_header ! 40 + 1]) = Inl e"
  by (rule header_rejects_corruption [OF sse42_cpu_ok sample_header_wf]) simp_all

text \<open>
  C39: A new header is usable and identified: as soon as one of the random draws
  fails or is non-zero the loop ends, and the header is well-formed, has a
  non-zero database id and carries its own checksum.
\<close>

theorem header_new_identified:
  assumes "\<And>k. length (snd (rnd k)) = 16" "rnd j \<noteq> (True, replicate 16 0)" "n \<le> j"
    and "is_supported_page_size page_size"
  shows "\<exists>h n'. header_new cpu rnd n page_size = Some (h, n') \<and> header_wf h \<and>
    \<not> has_empty_database_id h \<and> h_header_checksum h = compute_checksum cpu h"
proof -
  obtain did m where r: "random_database_id rnd n = Some (did, m)"
    using random_database_id_returns [of rnd j n] assms(2,3) by auto
  then have "length did = 16" "did \<noteq> replicate 16 0"
    using random_database_id_some [OF r] assms(1) by auto
  with r assms(4) show ?thesis
    by (simp add: header_new_def Let_def header_wf_def has_empty_database_id_def compute_checksum_def
        encode_with_checksum_def)
qed

theorem header_new_identified_witness:
  "\<exists>h n'. header_new sse42_cpu (\<lambda>k. (True, replicate 16 (of_nat k))) 0 4096 = Some (h, n') \<and> header_wf h \<and>
     \<not> has_empty_database_id h \<and> h_header_checksum h = compute_checksum sse42_cpu h"
  by (rule header_new_identified [where j = 1])
     (simp_all add: is_supported_page_size_def SUPPORTED_PAGE_SIZES_def numeral_eq_Suc)

text \<open>
  C31: Creating a database makes it openable: after the bootstrap of an in-memory file
  the file is exactly two pages long and reading its header returns the header
  that was written.
\<close>

theorem bootstrap_then_open:
  assumes "header_wf h" "h_header_checksum h = compute_checksum cpu h" "mem_inv f"
  shows "\<exists>f'. write_database_bootstrap_vfs cpu mem_file_ops h f = (Inr (), f') \<and>
    length f' = 2 * unat (h_page_size h) \<and> read_database_header_vfs cpu mem_file_ops f' = Inr h"
proof -
  let ?n = "unat (h_page_size h)"
  let ?p1 = "copy_at (zeroed_page (h_page_size h)) 0 (header_encode cpu h)"
  have n: "128 \<le> ?n" "?n \<le> 16384"
    using assms(1) by (auto simp: header_wf_def is_supported_page_size_def SUPPORTED_PAGE_SIZES_def)
  have len: "length (header_encode cpu h) = 128"
    using length_header_fields [OF assms(1)] by (simp add: header_encode_fields [OF assms(1)])
  have p1: "length ?p1 = ?n" "take 128 ?p1 = header_encode cpu h" using len n(1) by (simp, simp add: copy_at_def)
  then have ne: "?p1 \<noteq> []" using n(1) by (metis length_greater_0_conv less_le_trans zero_less_numeral)
  obtain f1 where f1: "write_all_at mem_file_ops 0 ?p1 f = (Inr (), f1)" "mem_inv f1" "f1 = file_patch f 0 ?p1"
    using memfile.write_all_ok [OF assms(3) _ ne, of 0] p1 n by auto
  have off: "unat (of_nat ?n :: u64) = ?n" "unat (of_nat (?n * 2) :: u64) = ?n * 2"
    by (rule unat_of_nat_small, use n in simp)+
  have z: "zeroed_page (h_page_size h) \<noteq> []" using n by (simp add: zeroed_page_def)
  obtain f2 where f2: "write_all_at mem_file_ops (of_nat ?n) (zeroed_page (h_page_size h)) f1 = (Inr (), f2)"
    "mem_inv f2" "f2 = file_patch f1 ?n (zeroed_page (h_page_size h))"
    using memfile.write_all_ok [OF f1(2) _ z, of "of_nat ?n"] off n by auto
  let ?f3 = "vec_resize f2 (?n * 2)"
  have "vf_set_len mem_file_ops (of_nat (?n * 2)) f2 = (Inr (), ?f3)"
    using off(2) by (simp add: mem_file_ops_def mem_set_len_def)
  with f1(1) f2(1) have run: "write_database_bootstrap_vfs cpu mem_file_ops h f = (Inr (), ?f3)"
    by (simp add: write_database_bootstrap_vfs_def Let_def)
  have "take 128 ?f3 = take 128 f2" using n f2(3) by (simp add: vec_resize_def min_def)
  also have "\<dots> = header_encode cpu h"
    using n p1 f1(3) f2(3) by (simp add: file_patch_def min_def)
  finally have hd: "take 128 ?f3 = header_encode cpu h" .
  have "mem_inv ?f3" using n by (simp add: mem_inv_def)
  then have "read_exact_at mem_file_ops 0 128 ?f3 = Inr (header_encode cpu h)"
    using memfile.read_exact_ok [of ?f3 0 128] hd n by simp
  then have "read_database_header_vfs cpu mem_file_ops ?f3 = Inr h"
    using header_decode_encode [OF assms(1), of cpu] assms(2)
    by (simp add: read_database_header_vfs_def DB_HEADER_SIZE_def)
  with run show ?thesis by simp
qed

theorem bootstrap_then_open_witness:
  "\<exists>f'. write_database_bootstrap_vfs sse42_cpu mem_file_ops
      (sample_header\<lparr>h_header_checksum := compute_checksum sse42_cpu sample_header\<rparr>) [] = (Inr (), f') \<and>
     length f' = 8192"
proof -
  let ?h = "sample_header\<lparr>h_header_checksum := compute_checksum sse42_cpu sample_header\<rparr>"
  have "header_wf ?h" "h_header_checksum ?h = compute_checksum sse42_cpu ?h" "mem_inv []"
    using sample_header_wf
    by (simp_all add: header_wf_def mem_inv_def compute_checksum_def encode_with_checksum_def)
  from bootstrap_then_open [OF this] show ?thesis by (auto simp: sample_header_def)
qed

end
