(* ===== verification/BtreePage.thy ===== *)
theory BtreePage
  imports Varint Pages
begin

text \<open>
  The page format of the B+tree, \<open>btree/page.rs\<close>: leaf and internal pages, their
  encoded length, the two encoders and the decoder.  The loops over cells are
  recursions with the code's cursor and previous key.  Writing the header of a page
  shorter than eight bytes panics in the code; the lemmas assume at least eight.
\<close>

section \<open>Definitions\<close>

definition PAGE_TYPE_INTERNAL :: u8 where "PAGE_TYPE_INTERNAL = 1"
definition PAGE_TYPE_LEAF :: u8 where "PAGE_TYPE_LEAF = 2"
definition PAGE_FLAG_DELTA_KEYS :: u8 where "PAGE_FLAG_DELTA_KEYS = 0x01"
definition PAGE_HEADER_SIZE :: nat where "PAGE_HEADER_SIZE = 8"

record LeafCell =
  lc_key :: u64
  lc_value :: bytes
  lc_overflow_page_id :: "page_id option"

definition leaf_cell_inline :: "u64 \<Rightarrow> bytes \<Rightarrow> LeafCell" where
  "leaf_cell_inline key v = \<lparr>lc_key = key, lc_value = v, lc_overflow_page_id = None\<rparr>"

definition leaf_cell_overflow :: "u64 \<Rightarrow> page_id \<Rightarrow> LeafCell" where
  "leaf_cell_overflow key p = \<lparr>lc_key = key, lc_value = [], lc_overflow_page_id = Some p\<rparr>"

record LeafPage =
  lp_next_leaf :: page_id
  lp_delta_keys :: bool
  lp_cells :: "LeafCell list"

record InternalCell =
  ic_key :: u64
  ic_child :: page_id

record InternalPage =
  ip_right_child :: page_id
  ip_delta_keys :: bool
  ip_cells :: "InternalCell list"

datatype BtreePage = LeafNode LeafPage | InternalNode InternalPage

definition encoded_key :: "bool \<Rightarrow> u64 \<Rightarrow> u64 \<Rightarrow> u64" where
  "encoded_key delta_keys previous_key key =
     (if delta_keys then u64_saturating_sub key previous_key else key)"

definition leaf_control :: "LeafCell \<Rightarrow> u64" where
  "leaf_control cell =
     (case lc_overflow_page_id cell of
        Some page_id \<Rightarrow> push_bit 1 (ucast page_id) OR 1
      | None \<Rightarrow> push_bit 1 (of_nat (length (lc_value cell))))"

fun leaf_cells_len :: "bool \<Rightarrow> u64 \<Rightarrow> LeafCell list \<Rightarrow> nat" where
  "leaf_cells_len delta_keys previous_key [] = 0"
| "leaf_cells_len delta_keys previous_key (cell # cells) =
     length (encode_varint_u64 (encoded_key delta_keys previous_key (lc_key cell)))
     + length (encode_varint_u64 (leaf_control cell)) + length (lc_value cell)
     + leaf_cells_len delta_keys (lc_key cell) cells"

definition leaf_encoded_len :: "LeafPage \<Rightarrow> nat" where
  "leaf_encoded_len p = PAGE_HEADER_SIZE + leaf_cells_len (lp_delta_keys p) 0 (lp_cells p)"

fun leaf_encode_loop :: "bool \<Rightarrow> LeafCell list \<Rightarrow> bytes \<Rightarrow> nat \<Rightarrow> u64 \<Rightarrow> bytes result" where
  "leaf_encode_loop delta_keys [] output cursor previous_key = Inr output"
| "leaf_encode_loop delta_keys (cell # cells) output cursor previous_key =
     (let key_bytes = encode_varint_u64 (encoded_key delta_keys previous_key (lc_key cell));
          control_bytes = encode_varint_u64 (leaf_control cell);
          needed = length key_bytes + length control_bytes + length (lc_value cell)
      in if cursor + needed > length output
         then Inl (Constraint ''leaf page exceeds configured page size'')
         else
           let output = copy_at output cursor key_bytes;
               cursor = cursor + length key_bytes;
               output = copy_at output cursor control_bytes;
               cursor = cursor + length control_bytes
           in if lc_overflow_page_id cell = None
              then leaf_encode_loop delta_keys cells (copy_at output cursor (lc_value cell))
                     (cursor + length (lc_value cell)) (lc_key cell)
              else leaf_encode_loop delta_keys cells output cursor (lc_key cell))"

definition page_header :: "u8 \<Rightarrow> bool \<Rightarrow> u16 \<Rightarrow> page_id \<Rightarrow> nat \<Rightarrow> bytes" where
  "page_header page_type delta_keys cell_count link page_size =
     (let output = (replicate page_size 0)[0 := page_type,
                      1 := (if delta_keys then PAGE_FLAG_DELTA_KEYS else 0)]
      in copy_at (copy_at output 2 (u16_le cell_count)) 4 (u32_le link))"

definition leaf_encode :: "LeafPage \<Rightarrow> nat \<Rightarrow> bytes result" where
  "leaf_encode p page_size =
     rbind (ok_or (Constraint ''leaf cell count exceeds u16'') (u16_try_from (length (lp_cells p))))
       (\<lambda>cell_count.
          leaf_encode_loop (lp_delta_keys p) (lp_cells p)
            (page_header PAGE_TYPE_LEAF (lp_delta_keys p) cell_count (lp_next_leaf p) page_size)
            PAGE_HEADER_SIZE 0)"

fun internal_cells_len :: "bool \<Rightarrow> u64 \<Rightarrow> InternalCell list \<Rightarrow> nat" where
  "internal_cells_len delta_keys previous_key [] = 0"
| "internal_cells_len delta_keys previous_key (cell # cells) =
     length (encode_varint_u64 (encoded_key delta_keys previous_key (ic_key cell)))
     + length (encode_varint_u64 (ucast (ic_child cell)))
     + internal_cells_len delta_keys (ic_key cell) cells"

definition internal_encoded_len :: "InternalPage \<Rightarrow> nat" where
  "internal_encoded_len p = PAGE_HEADER_SIZE + internal_cells_len (ip_delta_keys p) 0 (ip_cells p)"

fun internal_encode_loop :: "bool \<Rightarrow> InternalCell list \<Rightarrow> bytes \<Rightarrow> nat \<Rightarrow> u64 \<Rightarrow> bytes result" where
  "internal_encode_loop delta_keys [] output cursor previous_key = Inr output"
| "internal_encode_loop delta_keys (cell # cells) output cursor previous_key =
     (let key_bytes = encode_varint_u64 (encoded_key delta_keys previous_key (ic_key cell));
          child_bytes = encode_varint_u64 (ucast (ic_child cell));
          needed = length key_bytes + length child_bytes
      in if cursor + needed > length output
         then Inl (Constraint ''internal page exceeds configured page size'')
         else internal_encode_loop delta_keys cells
                (copy_at (copy_at output cursor key_bytes) (cursor + length key_bytes) child_bytes)
                (cursor + length key_bytes + length child_bytes) (ic_key cell))"

definition internal_encode :: "InternalPage \<Rightarrow> nat \<Rightarrow> bytes result" where
  "internal_encode p page_size =
     rbind (ok_or (Constraint ''internal cell count exceeds u16'') (u16_try_from (length (ip_cells p))))
       (\<lambda>cell_count.
          internal_encode_loop (ip_delta_keys p) (ip_cells p)
            (page_header PAGE_TYPE_INTERNAL (ip_delta_keys p) cell_count (ip_right_child p) page_size)
            PAGE_HEADER_SIZE 0)"

definition decoded_key :: "string \<Rightarrow> bool \<Rightarrow> u64 \<Rightarrow> u64 \<Rightarrow> u64 result" where
  "decoded_key message delta_keys previous_key encoded =
     (if delta_keys then ok_or (Corruption message) (u64_checked_add previous_key encoded)
      else Inr encoded)"

fun leaf_decode_loop ::
  "bool \<Rightarrow> bytes \<Rightarrow> nat \<Rightarrow> nat \<Rightarrow> u64 \<Rightarrow> LeafCell list \<Rightarrow> LeafCell list result"
where
  "leaf_decode_loop delta_keys bs 0 offset previous_key cells = Inr cells"
| "leaf_decode_loop delta_keys bs (Suc n) offset previous_key cells =
     rbind (decode_varint_u64 (drop offset bs)) (\<lambda>(encoded, key_bytes).
     rbind (decoded_key ''delta-encoded leaf key overflow'' delta_keys previous_key encoded) (\<lambda>key.
     rbind (decode_varint_u64 (drop (offset + key_bytes) bs)) (\<lambda>(control, control_bytes).
       let offset = offset + key_bytes + control_bytes
       in if control AND 1 = 1 then
            rbind (ok_or (Corruption ''overflow page id exceeds u32'')
                     (u32_try_from (unat (drop_bit 1 control)))) (\<lambda>page_id.
              leaf_decode_loop delta_keys bs n offset key (cells @ [leaf_cell_overflow key page_id]))
          else
            let end_offset = offset + unat (drop_bit 1 control)
            in rbind (ok_or (Corruption ''truncated leaf payload'') (get_range bs offset end_offset))
                 (\<lambda>payload.
                   leaf_decode_loop delta_keys bs n end_offset key
                     (cells @ [leaf_cell_inline key payload])))))"

fun internal_decode_loop ::
  "bool \<Rightarrow> bytes \<Rightarrow> nat \<Rightarrow> nat \<Rightarrow> u64 \<Rightarrow> InternalCell list \<Rightarrow> InternalCell list result"
where
  "internal_decode_loop delta_keys bs 0 offset previous_key cells = Inr cells"
| "internal_decode_loop delta_keys bs (Suc n) offset previous_key cells =
     rbind (decode_varint_u64 (drop offset bs)) (\<lambda>(encoded, key_bytes).
     rbind (decoded_key ''delta-encoded internal key overflow'' delta_keys previous_key encoded) (\<lambda>key.
     rbind (decode_varint_u64 (drop (offset + key_bytes) bs)) (\<lambda>(child, child_bytes).
     rbind (ok_or (Corruption ''child page id exceeds u32'') (u32_try_from (unat child))) (\<lambda>child.
       internal_decode_loop delta_keys bs n (offset + key_bytes + child_bytes) key
         (cells @ [\<lparr>ic_key = key, ic_child = child\<rparr>])))))"

definition decode_page :: "bytes \<Rightarrow> BtreePage result" where
  "decode_page bs =
     (if length bs < PAGE_HEADER_SIZE then Inl (Corruption ''B+Tree page shorter than header'')
      else
        let delta_keys = (bs ! 1 AND PAGE_FLAG_DELTA_KEYS \<noteq> 0);
            cell_count = unat (u16_of_le (bslice bs 2 4));
            link = u32_of_le (bslice bs 4 8)
        in if bs ! 0 = PAGE_TYPE_LEAF then
             rbind (leaf_decode_loop delta_keys bs cell_count PAGE_HEADER_SIZE 0 []) (\<lambda>cells.
               Inr (LeafNode \<lparr>lp_next_leaf = link, lp_delta_keys = delta_keys, lp_cells = cells\<rparr>))
           else if bs ! 0 = PAGE_TYPE_INTERNAL then
             rbind (internal_decode_loop delta_keys bs cell_count PAGE_HEADER_SIZE 0 []) (\<lambda>cells.
               Inr (InternalNode
                 \<lparr>ip_right_child = link, ip_delta_keys = delta_keys, ip_cells = cells\<rparr>))
           else Inl (Corruption ''unknown B+Tree page type''))"

section \<open>Well-formed cells and the bytes they are written as\<close>

text \<open>
  \<open>leaf_cell_ok\<close>: an overflow cell carries no inline bytes (the only ones the
  constructors build) and an inline value is shorter than \<open>2 ^ 63\<close>.  \<open>keys_ok\<close>: with
  delta keys, keys do not decrease.
\<close>

definition leaf_cell_ok :: "LeafCell \<Rightarrow> bool" where
  "leaf_cell_ok cell \<longleftrightarrow>
     (lc_overflow_page_id cell \<noteq> None \<longrightarrow> lc_value cell = []) \<and> length (lc_value cell) < 2 ^ 63"

definition keys_ok :: "bool \<Rightarrow> u64 \<Rightarrow> u64 list \<Rightarrow> bool" where
  "keys_ok delta_keys previous_key keys \<longleftrightarrow> (delta_keys \<longrightarrow> sorted (previous_key # keys))"

definition leaf_cell_bytes :: "bool \<Rightarrow> u64 \<Rightarrow> LeafCell \<Rightarrow> bytes" where
  "leaf_cell_bytes delta_keys previous_key cell =
     encode_varint_u64 (encoded_key delta_keys previous_key (lc_key cell)) @
     encode_varint_u64 (leaf_control cell) @ lc_value cell"

fun leaf_body :: "bool \<Rightarrow> u64 \<Rightarrow> LeafCell list \<Rightarrow> bytes" where
  "leaf_body delta_keys previous_key [] = []"
| "leaf_body delta_keys previous_key (cell # cells) =
     leaf_cell_bytes delta_keys previous_key cell @ leaf_body delta_keys (lc_key cell) cells"

fun internal_body :: "bool \<Rightarrow> u64 \<Rightarrow> InternalCell list \<Rightarrow> bytes" where
  "internal_body delta_keys previous_key [] = []"
| "internal_body delta_keys previous_key (cell # cells) =
     encode_varint_u64 (encoded_key delta_keys previous_key (ic_key cell)) @
     encode_varint_u64 (ucast (ic_child cell)) @ internal_body delta_keys (ic_key cell) cells"

lemma length_leaf_body: "length (leaf_body delta prev cells) = leaf_cells_len delta prev cells"
  by (induction cells arbitrary: prev) (simp_all add: leaf_cell_bytes_def)

lemma length_internal_body:
  "length (internal_body delta prev cells) = internal_cells_len delta prev cells"
  by (induction cells arbitrary: prev) simp_all

section \<open>The encoders write the body behind the header\<close>

lemma copy_at_append:
  "j = off + length ys \<Longrightarrow> off + length ys + length zs \<le> length xs \<Longrightarrow>
     copy_at (copy_at xs off ys) j zs = copy_at xs off (ys @ zs)"
  by (simp add: copy_at_def add.assoc add.commute [of "length zs"])

lemma leaf_encode_loop_eq:
  "\<forall>c \<in> set cells. leaf_cell_ok c \<Longrightarrow> cursor \<le> length out \<Longrightarrow>
     leaf_encode_loop delta cells out cursor prev =
       (if cursor + leaf_cells_len delta prev cells \<le> length out
        then Inr (copy_at out cursor (leaf_body delta prev cells))
        else Inl (Constraint ''leaf page exceeds configured page size''))"
proof (induction cells arbitrary: out cursor prev)
  case (Cons c cells)
  let ?k = "encode_varint_u64 (encoded_key delta prev (lc_key c))"
  let ?t = "encode_varint_u64 (leaf_control c)"
  show ?case
  proof (cases "cursor + (length ?k + length ?t + length (lc_value c)) \<le> length out")
    case True
    have "leaf_encode_loop delta (c # cells) out cursor prev =
        leaf_encode_loop delta cells (copy_at out cursor (leaf_cell_bytes delta prev c))
          (cursor + length (leaf_cell_bytes delta prev c)) (lc_key c)"
      using True Cons.prems(1)
      by (auto simp: Let_def leaf_cell_bytes_def leaf_cell_ok_def copy_at_append add.assoc)
    also have "\<dots> = (if cursor + leaf_cells_len delta prev (c # cells) \<le> length out
        then Inr (copy_at out cursor (leaf_body delta prev (c # cells)))
        else Inl (Constraint ''leaf page exceeds configured page size''))"
      using True Cons.prems
      by (subst Cons.IH) (auto simp: leaf_cell_bytes_def add.assoc length_leaf_body copy_at_append)
    finally show ?thesis .
  qed simp
qed simp

lemma internal_encode_loop_eq:
  "cursor \<le> length out \<Longrightarrow>
     internal_encode_loop delta cells out cursor prev =
       (if cursor + internal_cells_len delta prev cells \<le> length out
        then Inr (copy_at out cursor (internal_body delta prev cells))
        else Inl (Constraint ''internal page exceeds configured page size''))"
proof (induction cells arbitrary: out cursor prev)
  case (Cons c cells)
  let ?k = "encode_varint_u64 (encoded_key delta prev (ic_key c))"
  let ?t = "encode_varint_u64 (ucast (ic_child c))"
  show ?case
  proof (cases "cursor + (length ?k + length ?t) \<le> length out")
    case True
    have "internal_encode_loop delta (c # cells) out cursor prev =
        internal_encode_loop delta cells (copy_at out cursor (?k @ ?t))
          (cursor + length (?k @ ?t)) (ic_key c)"
      using True by (simp add: Let_def copy_at_append add.assoc)
    also have "\<dots> = (if cursor + internal_cells_len delta prev (c # cells) \<le> length out
        then Inr (copy_at out cursor (internal_body delta prev (c # cells)))
        else Inl (Constraint ''internal page exceeds configured page size''))"
      using True by (subst Cons.IH)
        (auto simp: add.assoc length_internal_body copy_at_append)
    finally show ?thesis .
  qed simp
qed simp

section \<open>The decoder reads it back\<close>

lemma decoded_encoded_key:
  "keys_ok delta prev (key # keys) \<Longrightarrow>
     decoded_key msg delta prev (encoded_key delta prev key) = Inr key \<and> keys_ok delta key keys"
proof (cases delta)
  case True
  assume "keys_ok delta prev (key # keys)"
  with True have le: "prev \<le> key" "keys_ok delta key keys" by (auto simp: keys_ok_def)
  then have "unat prev + unat (key - prev) = unat key"
    by (simp add: unat_sub word_le_nat_alt)
  then have "unat prev + unat (key - prev) < 2 ^ 64"
    using unsigned_less [of key, where ?'a = nat] by simp
  with le True show ?thesis
    by (simp add: decoded_key_def encoded_key_def u64_saturating_sub_def u64_checked_add_def)
qed (simp add: decoded_key_def encoded_key_def keys_ok_def)

lemma control_overflow:
  fixes p :: page_id
  shows "(push_bit 1 (ucast p) OR 1 :: u64) AND 1 = 1"
    and "drop_bit 1 (push_bit 1 (ucast p) OR 1 :: u64) = ucast p"
  by (rule bit_eqI, auto simp: bit_simps simp del: push_bit_Suc dest: bit_imp_le_length)+

lemma control_inline:
  fixes n :: nat
  assumes "n < 2 ^ 63"
  shows "(push_bit 1 (of_nat n) :: u64) AND 1 \<noteq> 1"
    and "unat (drop_bit 1 (push_bit 1 (of_nat n) :: u64)) = n"
proof -
  show "(push_bit 1 (of_nat n) :: u64) AND 1 \<noteq> 1" by (simp add: and_one_eq mod_2_eq_odd)
  have u: "unat (of_nat n :: u64) = n" using assms by (intro unat_of_nat_small(3)) simp
  then have "unat (push_bit 1 (of_nat n) :: u64) = 2 * n"
    using assms by (simp add: push_bit_eq_mult unat_word_ariths)
  then show "unat (drop_bit 1 (push_bit 1 (of_nat n) :: u64)) = n"
    by (simp add: drop_bit_eq_div unat_div_distrib del: push_bit_of_nat)
qed

lemma leaf_decode_loop_body:
  "drop offset bs = leaf_body delta prev cells @ rest \<Longrightarrow> offset \<le> length bs \<Longrightarrow>
     keys_ok delta prev (map lc_key cells) \<Longrightarrow> \<forall>c \<in> set cells. leaf_cell_ok c \<Longrightarrow>
     leaf_decode_loop delta bs (length cells) offset prev acc = Inr (acc @ cells)"
proof (induction cells arbitrary: offset prev acc)
  case (Cons c cells)
  let ?k = "encode_varint_u64 (encoded_key delta prev (lc_key c))"
  let ?t = "encode_varint_u64 (leaf_control c)"
  let ?off = "offset + length ?k + length ?t"
  let ?tail = "leaf_body delta (lc_key c) cells @ rest"
  have d0: "drop offset bs = ?k @ ?t @ lc_value c @ ?tail"
    using Cons.prems(1) by (simp add: leaf_cell_bytes_def)
  have d1: "drop (offset + length ?k) bs = ?t @ lc_value c @ ?tail"
    using arg_cong [OF d0, of "drop (length ?k)"] by (simp add: add.commute)
  have d2: "drop ?off bs = lc_value c @ ?tail"
    using arg_cong [OF d1, of "drop (length ?t)"] by (simp add: add.commute add.left_commute)
  have d3: "drop (?off + length (lc_value c)) bs = ?tail"
    using arg_cong [OF d2, of "drop (length (lc_value c))"] by (simp add: add.commute add.left_commute)
  have len: "length bs = ?off + length (lc_value c) + length ?tail"
    using arg_cong [OF d0, of length] Cons.prems(2) by simp
  have key: "decoded_key msg delta prev (encoded_key delta prev (lc_key c)) = Inr (lc_key c)"
    "keys_ok delta (lc_key c) (map lc_key cells)" for msg
    using decoded_encoded_key Cons.prems(3) by auto
  have ok: "leaf_cell_ok c" "\<forall>c \<in> set cells. leaf_cell_ok c" using Cons.prems(4) by auto
  show ?case
  proof (cases "lc_overflow_page_id c")
    case None
    with ok have n: "length (lc_value c) < 2 ^ 63" by (simp add: leaf_cell_ok_def)
    have ctl: "leaf_control c AND 1 \<noteq> 1" "unat (drop_bit 1 (leaf_control c)) = length (lc_value c)"
      using control_inline [OF n] None unfolding leaf_control_def by (simp_all del: push_bit_of_nat)
    have "get_range bs ?off (?off + length (lc_value c)) = Some (lc_value c)"
      using len d2 by (simp add: bslice_def)
    moreover have "leaf_cell_inline (lc_key c) (lc_value c) = c"
      using None by (simp add: leaf_cell_inline_def)
    ultimately show ?thesis
      using Cons.IH [of "?off + length (lc_value c)" "lc_key c" "acc @ [c]"] d0 d1 d3 key ok len ctl
      by (simp add: Let_def del: get_range_Some)
  next
    case (Some p)
    with ok have n: "lc_value c = []" by (simp add: leaf_cell_ok_def)
    have ctl: "leaf_control c AND 1 = 1" "drop_bit 1 (leaf_control c) = ucast p"
      using control_overflow [of p] Some by (simp_all add: leaf_control_def)
    have "u32_try_from (unat p) = Some p"
      using unsigned_less [of p, where ?'a = nat] by (simp add: u32_try_from_def)
    moreover have "leaf_cell_overflow (lc_key c) p = c"
      using Some n by (simp add: leaf_cell_overflow_def)
    ultimately show ?thesis
      using Cons.IH [of ?off "lc_key c" "acc @ [c]"] d0 d1 d3 key ok len ctl n
      by (simp add: Let_def del: u32_try_from_Some)
  qed
qed simp

lemma internal_decode_loop_body:
  "drop offset bs = internal_body delta prev cells @ rest \<Longrightarrow> offset \<le> length bs \<Longrightarrow>
     keys_ok delta prev (map ic_key cells) \<Longrightarrow>
     internal_decode_loop delta bs (length cells) offset prev acc = Inr (acc @ cells)"
proof (induction cells arbitrary: offset prev acc)
  case (Cons c cells)
  let ?k = "encode_varint_u64 (encoded_key delta prev (ic_key c))"
  let ?t = "encode_varint_u64 (ucast (ic_child c))"
  let ?off = "offset + length ?k + length ?t"
  let ?tail = "internal_body delta (ic_key c) cells @ rest"
  have d0: "drop offset bs = ?k @ ?t @ ?tail" using Cons.prems(1) by simp
  have d1: "drop (offset + length ?k) bs = ?t @ ?tail"
    using arg_cong [OF d0, of "drop (length ?k)"] by (simp add: add.commute)
  have d2: "drop ?off bs = ?tail"
    using arg_cong [OF d1, of "drop (length ?t)"] by (simp add: add.commute add.left_commute)
  have len: "length bs = ?off + length ?tail"
    using arg_cong [OF d0, of length] Cons.prems(2) by simp
  have key: "decoded_key msg delta prev (encoded_key delta prev (ic_key c)) = Inr (ic_key c)"
    "keys_ok delta (ic_key c) (map ic_key cells)" for msg
    using decoded_encoded_key Cons.prems(3) by auto
  have "u32_try_from (unat (ic_child c)) = Some (ic_child c)"
    using unsigned_less [of "ic_child c", where ?'a = nat] by (simp add: u32_try_from_def)
  then show ?case
    using Cons.IH [of ?off "ic_key c" "acc @ [\<lparr>ic_key = ic_key c, ic_child = ic_child c\<rparr>]"] d0 d1 d2 key len
    by (simp del: u32_try_from_Some)
qed simp

lemma length_page_header [simp]: "8 \<le> n \<Longrightarrow> length (page_header t d c l n) = n"
  by (simp add: page_header_def Let_def)

lemma page_header_fields:
  assumes "8 \<le> n"
  shows "page_header t d c l n ! 0 = t"
    "page_header t d c l n ! 1 = (if d then PAGE_FLAG_DELTA_KEYS else 0)"
    "bslice (page_header t d c l n) 2 4 = u16_le c" "bslice (page_header t d c l n) 4 8 = u32_le l"
  using assms
  by (simp_all add: page_header_def Let_def nth_copy_at bslice_copy_at_same bslice_copy_at_before)

lemma encoded_page_fields:
  assumes "8 \<le> n" "8 + length body \<le> n"
    and page_def: "page = copy_at (page_header t d c l n) 8 body"
  shows "length page = n" "page ! 0 = t" "page ! 1 = (if d then PAGE_FLAG_DELTA_KEYS else 0)"
    "u16_of_le (bslice page 2 4) = c" "u32_of_le (bslice page 4 8) = l"
    "drop 8 page = body @ replicate (n - 8 - length body) 0"
proof -
  note h = page_header_fields [OF assms(1)] length_page_header [OF assms(1)]
  show "length page = n" "page ! 0 = t" "page ! 1 = (if d then PAGE_FLAG_DELTA_KEYS else 0)"
    "u16_of_le (bslice page 2 4) = c" "u32_of_le (bslice page 4 8) = l"
    using assms(1,2) h by (simp_all add: page_def nth_copy_at bslice_copy_at_before)
  show "drop 8 page = body @ replicate (n - 8 - length body) 0"
    using assms(1,2) by (simp add: page_def page_header_def Let_def copy_at_def)
qed

text \<open>Pages the format can represent: see \<open>leaf_cell_ok\<close> and \<open>keys_ok\<close>; the count is 16 bits wide.\<close>

definition leaf_page_ok :: "LeafPage \<Rightarrow> bool" where
  "leaf_page_ok p \<longleftrightarrow> keys_ok (lp_delta_keys p) 0 (map lc_key (lp_cells p)) \<and>
     (\<forall>c \<in> set (lp_cells p). leaf_cell_ok c) \<and> length (lp_cells p) < 2 ^ 16"

definition internal_page_ok :: "InternalPage \<Rightarrow> bool" where
  "internal_page_ok p \<longleftrightarrow> keys_ok (ip_delta_keys p) 0 (map ic_key (ip_cells p)) \<and>
     length (ip_cells p) < 2 ^ 16"

lemma page_flag_nonzero [simp]: "((if d then PAGE_FLAG_DELTA_KEYS else 0) AND PAGE_FLAG_DELTA_KEYS \<noteq> 0) = d"
  by (simp add: PAGE_FLAG_DELTA_KEYS_def)

lemma leaf_encode_ok:
  assumes "leaf_page_ok p" "leaf_encoded_len p \<le> n"
  shows "\<exists>bs. leaf_encode p n = Inr bs \<and> length bs = n \<and> decode_page bs = Inr (LeafNode p)"
proof -
  let ?cells = "lp_cells p" and ?d = "lp_delta_keys p"
  let ?hdr = "page_header PAGE_TYPE_LEAF ?d (of_nat (length ?cells)) (lp_next_leaf p) n"
  let ?body = "leaf_body ?d 0 ?cells"
  have ok: "\<forall>c \<in> set ?cells. leaf_cell_ok c" "keys_ok ?d 0 (map lc_key ?cells)"
    "length ?cells < 65536" using assms(1) by (auto simp: leaf_page_ok_def)
  have n: "8 \<le> n" "8 + length ?body \<le> n"
    using assms(2) by (simp_all add: leaf_encoded_len_def PAGE_HEADER_SIZE_def length_leaf_body)
  note f = encoded_page_fields [OF n refl, of PAGE_TYPE_LEAF ?d "of_nat (length ?cells)" "lp_next_leaf p"]
  have "leaf_encode p n = Inr (copy_at ?hdr 8 ?body)"
    using n ok by (simp add: leaf_encode_def ok_or_def u16_try_from_def PAGE_HEADER_SIZE_def
        leaf_encode_loop_eq length_leaf_body)
  moreover have "leaf_decode_loop ?d (copy_at ?hdr 8 ?body) (length ?cells) 8 0 [] = Inr ([] @ ?cells)"
    by (rule leaf_decode_loop_body [OF f(6) _ ok(2,1)]) (use n in simp)
  ultimately show ?thesis
    using f n ok by (simp add: decode_page_def PAGE_HEADER_SIZE_def Let_def unat_of_nat_small)
qed

lemma internal_encode_ok:
  assumes "internal_page_ok p" "internal_encoded_len p \<le> n"
  shows "\<exists>bs. internal_encode p n = Inr bs \<and> length bs = n \<and> decode_page bs = Inr (InternalNode p)"
proof -
  let ?cells = "ip_cells p" and ?d = "ip_delta_keys p"
  let ?hdr = "page_header PAGE_TYPE_INTERNAL ?d (of_nat (length ?cells)) (ip_right_child p) n"
  let ?body = "internal_body ?d 0 ?cells"
  have ok: "keys_ok ?d 0 (map ic_key ?cells)" "length ?cells < 65536"
    using assms(1) by (auto simp: internal_page_ok_def)
  have n: "8 \<le> n" "8 + length ?body \<le> n"
    using assms(2) by (simp_all add: internal_encoded_len_def PAGE_HEADER_SIZE_def length_internal_body)
  note f = encoded_page_fields [OF n refl, of PAGE_TYPE_INTERNAL ?d "of_nat (length ?cells)" "ip_right_child p"]
  have "internal_encode p n = Inr (copy_at ?hdr 8 ?body)"
    using n ok by (simp add: internal_encode_def ok_or_def u16_try_from_def PAGE_HEADER_SIZE_def
        internal_encode_loop_eq length_internal_body)
  moreover have "internal_decode_loop ?d (copy_at ?hdr 8 ?body) (length ?cells) 8 0 [] = Inr ([] @ ?cells)"
    by (rule internal_decode_loop_body [OF f(6) _ ok(1)]) (use n in simp)
  ultimately show ?thesis
    using f n ok by (simp add: decode_page_def PAGE_HEADER_SIZE_def Let_def unat_of_nat_small
        PAGE_TYPE_INTERNAL_def PAGE_TYPE_LEAF_def)
qed

section \<open>Properties\<close>

text \<open>
  C23: B+tree pages round trip and are refused exactly when they are too big: a
  representable leaf or internal page whose encoded length is at most the page
  size encodes to one full page that decodes to the same page, and one whose
  encoded length is larger is rejected with the constraint error.
\<close>

theorem btree_page_roundtrip:
  assumes "8 \<le> n" "leaf_page_ok lp" "internal_page_ok ip"
  shows "(if leaf_encoded_len lp \<le> n
      then \<exists>bs. leaf_encode lp n = Inr bs \<and> length bs = n \<and> decode_page bs = Inr (LeafNode lp)
      else leaf_encode lp n = Inl (Constraint ''leaf page exceeds configured page size'')) \<and>
    (if internal_encoded_len ip \<le> n
      then \<exists>bs. internal_encode ip n = Inr bs \<and> length bs = n \<and> decode_page bs = Inr (InternalNode ip)
      else internal_encode ip n = Inl (Constraint ''internal page exceeds configured page size''))"
proof -
  have "leaf_encode lp n = Inl (Constraint ''leaf page exceeds configured page size'')"
    if "\<not> leaf_encoded_len lp \<le> n"
    using that assms(1,2)
    by (simp add: leaf_encode_def leaf_page_ok_def ok_or_def u16_try_from_def PAGE_HEADER_SIZE_def
        leaf_encode_loop_eq leaf_encoded_len_def)
  moreover have "internal_encode ip n = Inl (Constraint ''internal page exceeds configured page size'')"
    if "\<not> internal_encoded_len ip \<le> n"
    using that assms(1,3)
    by (simp add: internal_encode_def internal_page_ok_def ok_or_def u16_try_from_def
        PAGE_HEADER_SIZE_def internal_encode_loop_eq internal_encoded_len_def)
  ultimately show ?thesis using leaf_encode_ok [OF assms(2)] internal_encode_ok [OF assms(3)] by simp
qed

theorem btree_page_roundtrip_witness:
  "\<exists>bs. leaf_encode \<lparr>lp_next_leaf = 9, lp_delta_keys = True,
      lp_cells = [leaf_cell_inline 3 [7, 8], leaf_cell_overflow 300 12]\<rparr> 32 = Inr bs \<and>
    decode_page bs = Inr (LeafNode \<lparr>lp_next_leaf = 9, lp_delta_keys = True,
      lp_cells = [leaf_cell_inline 3 [7, 8], leaf_cell_overflow 300 12]\<rparr>)"
proof -
  let ?lp = "\<lparr>lp_next_leaf = 9, lp_delta_keys = True,
      lp_cells = [leaf_cell_inline 3 [7, 8], leaf_cell_overflow 300 12]\<rparr>"
  let ?ip = "\<lparr>ip_right_child = 4, ip_delta_keys = False, ip_cells = [\<lparr>ic_key = 5, ic_child = 6\<rparr>]\<rparr>"
  have "leaf_page_ok ?lp" "internal_page_ok ?ip"
    by (simp_all add: leaf_page_ok_def internal_page_ok_def keys_ok_def leaf_cell_ok_def
        leaf_cell_inline_def leaf_cell_overflow_def)
  moreover have "leaf_encoded_len ?lp \<le> 32" by code_simp
  ultimately show ?thesis using btree_page_roundtrip [of 32 ?lp ?ip] by auto
qed

end
