(* ===== verification/Btree.thy ===== *)
theory Btree
  imports BtreePage Overflow "HOL-Library.RBT"
begin

text \<open>
  The B+tree over a page store: searching (\<open>btree/read.rs\<close>), cursors
  (\<open>btree/cursor.rs\<close>) and the in-memory entry map that is written out as pages by
  every mutation (\<open>btree/write.rs\<close>).  \<open>BTreeMap\<close> is the library's red-black tree.  A
  walk along page ids need not end on arbitrary pages, so each is a partial
  function; on the trees the writer builds it is shown to return.
  \<open>PageStore::advise_sequential\<close>, a hint without an effect on the store, is left out.

  This theory has the definitions; \<open>BtreeSearch\<close> shows searching and cursors correct
  against the list of entries a tree represents, and \<open>BtreeBuild\<close> that the writer
  builds a tree that represents the entry map.
\<close>

section \<open>Searching\<close>

record CursorPosition =
  pos_leaf :: LeafPage
  pos_index :: nat

definition decode_page_at :: "'s page_store_ops \<Rightarrow> 's \<Rightarrow> page_id \<Rightarrow> BtreePage result" where
  "decode_page_at ops s page_id =
     rbind (ps_read_page ops page_id s) (\<lambda>page.
       case decode_page page of
         Inl e \<Rightarrow> Inl (Corruption ''B+Tree page could not be decoded'')
       | Inr p \<Rightarrow> Inr p)"

definition load_leaf_page :: "'s page_store_ops \<Rightarrow> 's \<Rightarrow> page_id \<Rightarrow> LeafPage result" where
  "load_leaf_page ops s page_id =
     rbind (decode_page_at ops s page_id) (\<lambda>page.
       case page of
         LeafNode leaf \<Rightarrow> Inr leaf
       | InternalNode internal \<Rightarrow> Inl (Corruption ''expected leaf page, found internal page''))"

definition materialize_leaf_value ::
  "'s page_store_ops \<Rightarrow> 's \<Rightarrow> LeafCell \<Rightarrow> bytes result option"
where
  "materialize_leaf_value ops s cell =
     (case lc_overflow_page_id cell of
        Some page_id \<Rightarrow> read_chain ops s page_id
      | None \<Rightarrow> Some (Inr (lc_value cell)))"

partial_function (option) descend_to_leaf ::
  "'s page_store_ops \<Rightarrow> 's \<Rightarrow> page_id \<Rightarrow> u64 \<Rightarrow> (page_id \<times> LeafPage) result option"
where
  "descend_to_leaf ops s page_id key =
     (case decode_page_at ops s page_id of
        Inl e \<Rightarrow> Some (Inl e)
      | Inr page \<Rightarrow>
          (case page of
             LeafNode leaf \<Rightarrow> Some (Inr (page_id, leaf))
           | InternalNode internal \<Rightarrow>
               let idx = partition_point (\<lambda>cell. ic_key cell \<le> key) (ip_cells internal)
               in descend_to_leaf ops s
                    (if idx < length (ip_cells internal) then ic_child (ip_cells internal ! idx)
                     else ip_right_child internal) key))"

partial_function (option) first_leaf ::
  "'s page_store_ops \<Rightarrow> 's \<Rightarrow> page_id \<Rightarrow> (page_id \<times> LeafPage) result option"
where
  "first_leaf ops s page_id =
     (case decode_page_at ops s page_id of
        Inl e \<Rightarrow> Some (Inl e)
      | Inr page \<Rightarrow>
          (case page of
             LeafNode leaf \<Rightarrow> Some (Inr (page_id, leaf))
           | InternalNode internal \<Rightarrow>
               first_leaf ops s
                 (case ip_cells internal of [] \<Rightarrow> ip_right_child internal | cell # _ \<Rightarrow> ic_child cell)))"

partial_function (option) last_leaf ::
  "'s page_store_ops \<Rightarrow> 's \<Rightarrow> page_id \<Rightarrow> (page_id \<times> LeafPage) result option"
where
  "last_leaf ops s page_id =
     (case decode_page_at ops s page_id of
        Inl e \<Rightarrow> Some (Inl e)
      | Inr page \<Rightarrow>
          (case page of
             LeafNode leaf \<Rightarrow> Some (Inr (page_id, leaf))
           | InternalNode internal \<Rightarrow> last_leaf ops s (ip_right_child internal)))"

partial_function (option) seek_forward_loop ::
  "'s page_store_ops \<Rightarrow> 's \<Rightarrow> u64 \<Rightarrow> LeafPage \<Rightarrow> CursorPosition option result option"
where
  "seek_forward_loop ops s key leaf =
     (let index = partition_point (\<lambda>cell. lc_key cell < key) (lp_cells leaf)
      in if index < length (lp_cells leaf)
         then Some (Inr (Some \<lparr>pos_leaf = leaf, pos_index = index\<rparr>))
         else if lp_next_leaf leaf = 0 then Some (Inr None)
         else case load_leaf_page ops s (lp_next_leaf leaf) of
           Inl e \<Rightarrow> Some (Inl e)
         | Inr leaf' \<Rightarrow> seek_forward_loop ops s key leaf')"

definition seek_forward ::
  "'s page_store_ops \<Rightarrow> 's \<Rightarrow> page_id option \<Rightarrow> u64 \<Rightarrow> CursorPosition option result option"
where
  "seek_forward ops s root_page_id key =
     (case root_page_id of
        None \<Rightarrow> Some (Inr None)
      | Some root_page_id \<Rightarrow>
          (case descend_to_leaf ops s root_page_id key of
             None \<Rightarrow> None
           | Some (Inl e) \<Rightarrow> Some (Inl e)
           | Some (Inr (_, leaf)) \<Rightarrow> seek_forward_loop ops s key leaf))"

definition find_exact ::
  "'s page_store_ops \<Rightarrow> 's \<Rightarrow> page_id option \<Rightarrow> u64 \<Rightarrow> bytes option result option"
where
  "find_exact ops s root_page_id key =
     (case seek_forward ops s root_page_id key of
        None \<Rightarrow> None
      | Some (Inl e) \<Rightarrow> Some (Inl e)
      | Some (Inr None) \<Rightarrow> Some (Inr None)
      | Some (Inr (Some position)) \<Rightarrow>
          (case get_at (lp_cells (pos_leaf position)) (pos_index position) of
             None \<Rightarrow> Some (Inl (Internal ''cursor position points outside leaf''))
           | Some cell \<Rightarrow>
               if lc_key cell \<noteq> key then Some (Inr None)
               else map_option (rmap Some) (materialize_leaf_value ops s cell)))"

text \<open>The inner loop of the scan: the last match and whether the scan stopped in this leaf.\<close>

fun scan_cells ::
  "(u64 \<Rightarrow> bool) \<Rightarrow> LeafPage \<Rightarrow> nat \<Rightarrow> LeafCell list \<Rightarrow> CursorPosition option
    \<Rightarrow> CursorPosition option \<times> bool"
where
  "scan_cells predicate leaf index [] last_match = (last_match, False)"
| "scan_cells predicate leaf index (cell # cells) last_match =
     (if predicate (lc_key cell)
      then scan_cells predicate leaf (index + 1) cells
             (Some \<lparr>pos_leaf = leaf, pos_index = index\<rparr>)
      else (last_match, True))"

partial_function (option) scan_loop ::
  "'s page_store_ops \<Rightarrow> 's \<Rightarrow> (u64 \<Rightarrow> bool) \<Rightarrow> LeafPage \<Rightarrow> CursorPosition option
    \<Rightarrow> CursorPosition option result option"
where
  "scan_loop ops s predicate leaf last_match =
     (case scan_cells predicate leaf 0 (lp_cells leaf) last_match of
        (last_match', stopped) \<Rightarrow>
          if stopped \<or> lp_next_leaf leaf = 0 then Some (Inr last_match')
          else case load_leaf_page ops s (lp_next_leaf leaf) of
            Inl e \<Rightarrow> Some (Inl e)
          | Inr leaf' \<Rightarrow> scan_loop ops s predicate leaf' last_match')"

definition scan_for_predicate ::
  "'s page_store_ops \<Rightarrow> 's \<Rightarrow> page_id option \<Rightarrow> (u64 \<Rightarrow> bool) \<Rightarrow> CursorPosition option result option"
where
  "scan_for_predicate ops s root_page_id predicate =
     (case root_page_id of
        None \<Rightarrow> Some (Inr None)
      | Some root_page_id \<Rightarrow>
          (case first_leaf ops s root_page_id of
             None \<Rightarrow> None
           | Some (Inl e) \<Rightarrow> Some (Inl e)
           | Some (Inr (_, leaf)) \<Rightarrow> scan_loop ops s predicate leaf None))"

definition seek_backward ::
  "'s page_store_ops \<Rightarrow> 's \<Rightarrow> page_id option \<Rightarrow> u64 \<Rightarrow> CursorPosition option result option"
where
  "seek_backward ops s root_page_id key =
     scan_for_predicate ops s root_page_id (\<lambda>candidate. candidate \<le> key)"

definition greatest_less_than ::
  "'s page_store_ops \<Rightarrow> 's \<Rightarrow> page_id option \<Rightarrow> u64 \<Rightarrow> CursorPosition option result option"
where
  "greatest_less_than ops s root_page_id bound =
     scan_for_predicate ops s root_page_id (\<lambda>candidate. candidate < bound)"

definition first_position ::
  "'s page_store_ops \<Rightarrow> 's \<Rightarrow> page_id option \<Rightarrow> CursorPosition option result option"
where
  "first_position ops s root_page_id =
     (case root_page_id of
        None \<Rightarrow> Some (Inr None)
      | Some root_page_id \<Rightarrow>
          map_option (rmap (\<lambda>(_, leaf).
              if lp_cells leaf = [] then None else Some \<lparr>pos_leaf = leaf, pos_index = 0\<rparr>))
            (first_leaf ops s root_page_id))"

definition last_position ::
  "'s page_store_ops \<Rightarrow> 's \<Rightarrow> page_id option \<Rightarrow> CursorPosition option result option"
where
  "last_position ops s root_page_id =
     (case root_page_id of
        None \<Rightarrow> Some (Inr None)
      | Some root_page_id \<Rightarrow>
          map_option (rmap (\<lambda>(_, leaf).
              if lp_cells leaf = [] then None
              else Some \<lparr>pos_leaf = leaf, pos_index = length (lp_cells leaf) - 1\<rparr>))
            (last_leaf ops s root_page_id))"

definition materialize_current ::
  "'s page_store_ops \<Rightarrow> 's \<Rightarrow> CursorPosition \<Rightarrow> (u64 \<times> bytes) result option"
where
  "materialize_current ops s position =
     (case get_at (lp_cells (pos_leaf position)) (pos_index position) of
        None \<Rightarrow> Some (Inl (Internal ''cursor position points outside leaf''))
      | Some cell \<Rightarrow> map_option (rmap (\<lambda>v. (lc_key cell, v))) (materialize_leaf_value ops s cell))"

section \<open>Cursors\<close>

record BtreeCursor =
  cur_root_page_id :: "page_id option"
  cur_position :: "CursorPosition option"

definition cursor_at ::
  "page_id option \<Rightarrow> CursorPosition option result option \<Rightarrow> BtreeCursor result option"
where
  "cursor_at root_page_id =
     map_option (rmap (\<lambda>position. \<lparr>cur_root_page_id = root_page_id, cur_position = position\<rparr>))"

definition cursor_from_start ::
  "'s page_store_ops \<Rightarrow> 's \<Rightarrow> page_id option \<Rightarrow> BtreeCursor result option"
where
  "cursor_from_start ops s root_page_id = cursor_at root_page_id (first_position ops s root_page_id)"

definition cursor_from_end ::
  "'s page_store_ops \<Rightarrow> 's \<Rightarrow> page_id option \<Rightarrow> BtreeCursor result option"
where
  "cursor_from_end ops s root_page_id = cursor_at root_page_id (last_position ops s root_page_id)"

definition cursor_seek_forward ::
  "'s page_store_ops \<Rightarrow> 's \<Rightarrow> page_id option \<Rightarrow> u64 \<Rightarrow> BtreeCursor result option"
where
  "cursor_seek_forward ops s root_page_id key =
     cursor_at root_page_id (seek_forward ops s root_page_id key)"

definition cursor_seek_backward ::
  "'s page_store_ops \<Rightarrow> 's \<Rightarrow> page_id option \<Rightarrow> u64 \<Rightarrow> BtreeCursor result option"
where
  "cursor_seek_backward ops s root_page_id key =
     cursor_at root_page_id (seek_backward ops s root_page_id key)"

text \<open>Moving the cursor: an error leaves it where it is.\<close>

definition cursor_move ::
  "BtreeCursor \<Rightarrow> (u64 \<times> bytes) \<Rightarrow> CursorPosition option result option
    \<Rightarrow> ((u64 \<times> bytes) option result \<times> BtreeCursor) option"
where
  "cursor_move c item =
     map_option (\<lambda>r. case r of
         Inl e \<Rightarrow> (Inl e, c)
       | Inr position \<Rightarrow> (Inr (Some item), c\<lparr>cur_position := position\<rparr>))"

definition cursor_next ::
  "'s page_store_ops \<Rightarrow> 's \<Rightarrow> BtreeCursor \<Rightarrow> ((u64 \<times> bytes) option result \<times> BtreeCursor) option"
where
  "cursor_next ops s c =
     (case cur_position c of
        None \<Rightarrow> Some (Inr None, c)
      | Some current \<Rightarrow>
          (case materialize_current ops s current of
             None \<Rightarrow> None
           | Some (Inl e) \<Rightarrow> Some (Inl e, c)
           | Some (Inr item) \<Rightarrow>
               cursor_move c item
                 (if pos_index current + 1 < length (lp_cells (pos_leaf current))
                  then Some (Inr (Some (current\<lparr>pos_index := pos_index current + 1\<rparr>)))
                  else if lp_next_leaf (pos_leaf current) \<noteq> 0
                  then first_position ops s (Some (lp_next_leaf (pos_leaf current)))
                  else Some (Inr None))))"

definition cursor_prev ::
  "'s page_store_ops \<Rightarrow> 's \<Rightarrow> BtreeCursor \<Rightarrow> ((u64 \<times> bytes) option result \<times> BtreeCursor) option"
where
  "cursor_prev ops s c =
     (case cur_position c of
        None \<Rightarrow> Some (Inr None, c)
      | Some current \<Rightarrow>
          (case materialize_current ops s current of
             None \<Rightarrow> None
           | Some (Inl e) \<Rightarrow> Some (Inl e, c)
           | Some (Inr item) \<Rightarrow>
               cursor_move c item
                 (if 0 < pos_index current
                  then Some (Inr (Some (current\<lparr>pos_index := pos_index current - 1\<rparr>)))
                  else greatest_less_than ops s (cur_root_page_id c) (fst item))))"

section \<open>Mutation\<close>

record ChildRef =
  cr_first_key :: u64
  cr_page_id :: page_id

record 's Btree =
  bt_store :: 's
  bt_root_page_id :: "page_id option"
  bt_entries :: "(u64, bytes) RBT.rbt"
  bt_btree_pages :: "page_id list"
  bt_overflow_heads :: "page_id list"
  bt_inline_value_limit :: nat

definition btree_new :: "'s page_store_ops \<Rightarrow> 's \<Rightarrow> 's Btree" where
  "btree_new ops store =
     \<lparr>bt_store = store, bt_root_page_id = None, bt_entries = RBT.empty, bt_btree_pages = [],
      bt_overflow_heads = [],
      bt_inline_value_limit = min 512 (unat (ps_page_size ops store) div 4)\<rparr>"

definition btree_with_page_size :: "u32 \<Rightarrow> InMemoryPageStore Btree" where
  "btree_with_page_size page_size = btree_new inmem_ops (inmem_new page_size)"

text \<open>A step on the store, or on the other fields, of a tree.\<close>

definition with_store :: "('s, 'a) prog \<Rightarrow> ('s Btree, 'a) prog" where
  "with_store m b = map_option (\<lambda>(r, s). (r, b\<lparr>bt_store := s\<rparr>)) (m (bt_store b))"

definition btree_upd :: "('s Btree \<Rightarrow> 's Btree) \<Rightarrow> ('s Btree, unit) prog" where
  "btree_upd f b = Some (Inr (), f b)"

definition build_internal_page :: "ChildRef list \<Rightarrow> InternalPage result" where
  "build_internal_page children =
     (if length children < 2
      then Inl (Internal ''internal page construction requires at least two children'')
      else Inr \<lparr>ip_right_child = cr_page_id (last children), ip_delta_keys = False,
                ip_cells = map (\<lambda>(left, right). \<lparr>ic_key = cr_first_key right, ic_child = cr_page_id left\<rparr>)
                             (zip (butlast children) (tl children))\<rparr>)"

fun group_loop ::
  "nat \<Rightarrow> ChildRef list \<Rightarrow> ChildRef list list \<Rightarrow> ChildRef list
    \<Rightarrow> (ChildRef list list \<times> ChildRef list) result"
where
  "group_loop page_size [] groups current = Inr (groups, current)"
| "group_loop page_size (child # children) groups current =
     rbind (build_internal_page (current @ [child])) (\<lambda>candidate.
       if internal_encoded_len candidate \<le> page_size
       then group_loop page_size children groups (current @ [child])
       else group_loop page_size children (groups @ [current]) [child])"

definition group_children_for_internal_pages ::
  "ChildRef list \<Rightarrow> nat \<Rightarrow> ChildRef list list result"
where
  "group_children_for_internal_pages children page_size =
     (if length children < 2 then Inr [children]
      else rbind (group_loop page_size (drop 2 children) [] [children ! 0, children ! 1])
        (\<lambda>(groups, current).
          if length current = 1 then
            (if groups = [] then Inl (Internal ''cannot balance a singleton internal-page group'')
             else if last groups = [] then Inl (Internal ''previous internal-page group is empty'')
             else Inr (butlast groups @ [butlast (last groups), last (last groups) # current]))
          else Inr (groups @ [current])))"

definition leaf_spec :: "LeafCell list \<Rightarrow> LeafPage" where
  "leaf_spec cells = \<lparr>lp_next_leaf = 0, lp_delta_keys = False, lp_cells = cells\<rparr>"

definition bt_page_bytes :: "'s page_store_ops \<Rightarrow> 's Btree \<Rightarrow> nat" where
  "bt_page_bytes ops b = unat (ps_page_size ops (bt_store b))"

definition drain_overflow_heads :: "'s page_store_ops \<Rightarrow> ('s Btree, unit) prog" where
  "drain_overflow_heads ops b =
     with_store (pforeach (\<lambda>head. pbind (free_overflow ops head) (\<lambda>_. pret ())) (bt_overflow_heads b))
       (b\<lparr>bt_overflow_heads := []\<rparr>)"

definition drain_btree_pages :: "'s page_store_ops \<Rightarrow> ('s Btree, unit) prog" where
  "drain_btree_pages ops b =
     with_store (pforeach (\<lambda>page_id. pstep (ps_free_page ops page_id)) (bt_btree_pages b))
       (b\<lparr>bt_btree_pages := []\<rparr>)"

definition build_cell :: "zlib \<Rightarrow> 's page_store_ops \<Rightarrow> u64 \<Rightarrow> bytes \<Rightarrow> ('s Btree, LeafCell) prog" where
  "build_cell z ops key v b =
     (if length v > bt_inline_value_limit b then
        pbind (with_store (write_overflow z ops v Never)) (\<lambda>pointer.
        pbind (btree_upd (bt_overflow_heads_update (\<lambda>heads. heads @ [op_head_page_id pointer]))) (\<lambda>_.
          pret (leaf_cell_overflow key (op_head_page_id pointer)))) b
      else pret (leaf_cell_inline key v) b)"

fun pack_leaves ::
  "zlib \<Rightarrow> 's page_store_ops \<Rightarrow> (u64 \<times> bytes) list \<Rightarrow> LeafPage list \<Rightarrow> LeafCell list
    \<Rightarrow> ('s Btree, LeafPage list \<times> LeafCell list) prog"
where
  "pack_leaves z ops [] leaf_specs current_cells = pret (leaf_specs, current_cells)"
| "pack_leaves z ops ((key, v) # entries) leaf_specs current_cells =
     pbind (build_cell z ops key v) (\<lambda>cell b.
       if leaf_encoded_len (leaf_spec (current_cells @ [cell])) > bt_page_bytes ops b then
         (if current_cells = []
          then pfail (Constraint ''leaf cell exceeds configured page size'') b
          else pack_leaves z ops entries (leaf_specs @ [leaf_spec current_cells]) [cell] b)
       else pack_leaves z ops entries leaf_specs (current_cells @ [cell]) b)"

fun write_leaves ::
  "'s page_store_ops \<Rightarrow> page_id list \<Rightarrow> nat \<Rightarrow> LeafPage list \<Rightarrow> ChildRef list
    \<Rightarrow> ('s Btree, ChildRef list) prog"
where
  "write_leaves ops leaf_page_ids index [] children = pret children"
| "write_leaves ops leaf_page_ids index (leaf # leaves) children =
     (let leaf = leaf\<lparr>lp_next_leaf :=
            (case get_at leaf_page_ids (index + 1) of None \<Rightarrow> 0 | Some next \<Rightarrow> next)\<rparr>;
          page_id = leaf_page_ids ! index
      in if lp_cells leaf = [] then pfail (Internal ''leaf page must contain at least one cell'')
         else pbind (\<lambda>b. Some (leaf_encode leaf (bt_page_bytes ops b), b)) (\<lambda>bs.
              pbind (with_store (pstep (ps_write_page ops page_id bs))) (\<lambda>_.
                write_leaves ops leaf_page_ids (index + 1) leaves
                  (children @ [\<lparr>cr_first_key = lc_key (hd (lp_cells leaf)), cr_page_id = page_id\<rparr>]))))"

definition write_internal :: "'s page_store_ops \<Rightarrow> ChildRef list \<Rightarrow> ('s Btree, ChildRef) prog" where
  "write_internal ops grp =
     pbind (plift (build_internal_page grp)) (\<lambda>page.
     pbind (with_store (pstep (ps_allocate_page ops))) (\<lambda>page_id.
     pbind (\<lambda>b. Some (internal_encode page (bt_page_bytes ops b), b)) (\<lambda>bs.
     pbind (with_store (pstep (ps_write_page ops page_id bs))) (\<lambda>_.
     pbind (btree_upd (bt_btree_pages_update (\<lambda>ps. ps @ [page_id]))) (\<lambda>_.
       pret \<lparr>cr_first_key = cr_first_key (hd grp), cr_page_id = page_id\<rparr>)))))"

partial_function (option) build_levels ::
  "'s page_store_ops \<Rightarrow> ChildRef list \<Rightarrow> 's Btree \<Rightarrow> (ChildRef list result \<times> 's Btree) option"
where
  "build_levels ops children b =
     (if 1 < length children then
        (case group_children_for_internal_pages children (bt_page_bytes ops b) of
           Inl e \<Rightarrow> Some (Inl e, b)
         | Inr groups \<Rightarrow>
             (case pmapM (write_internal ops) groups b of
                None \<Rightarrow> None
              | Some r \<Rightarrow>
                  (case fst r of
                     Inl e \<Rightarrow> Some (Inl e, snd r)
                   | Inr children' \<Rightarrow> build_levels ops children' (snd r))))
      else Some (Inr children, b))"

definition rebuild_pages :: "zlib \<Rightarrow> 's page_store_ops \<Rightarrow> ('s Btree, unit) prog" where
  "rebuild_pages z ops =
     pbind (drain_overflow_heads ops) (\<lambda>_.
     pbind (drain_btree_pages ops) (\<lambda>_.
     pbind (btree_upd (bt_root_page_id_update (\<lambda>_. None))) (\<lambda>_ b.
       if RBT.is_empty (bt_entries b) then pret () b
       else
         pbind (pack_leaves z ops (RBT.entries (bt_entries b)) [] []) (\<lambda>(specs, current).
           let leaf_specs = (if current \<noteq> [] then specs @ [leaf_spec current] else specs)
           in pbind (with_store (alloc_pages ops (length leaf_specs))) (\<lambda>leaf_page_ids.
              pbind (btree_upd (bt_btree_pages_update (\<lambda>ps. ps @ leaf_page_ids))) (\<lambda>_.
              pbind (write_leaves ops leaf_page_ids 0 leaf_specs []) (\<lambda>children.
              pbind (build_levels ops children) (\<lambda>children.
                btree_upd (bt_root_page_id_update (\<lambda>_. Some (cr_page_id (hd children))))))))) b)))"

definition btree_get :: "'s page_store_ops \<Rightarrow> 's Btree \<Rightarrow> u64 \<Rightarrow> bytes option result option" where
  "btree_get ops b key = find_exact ops (bt_store b) (bt_root_page_id b) key"

definition btree_insert ::
  "zlib \<Rightarrow> 's page_store_ops \<Rightarrow> u64 \<Rightarrow> bytes \<Rightarrow> ('s Btree, bytes option) prog"
where
  "btree_insert z ops key v b =
     (let previous = RBT.lookup (bt_entries b) key
      in pbind (rebuild_pages z ops) (\<lambda>_. pret previous)
           (b\<lparr>bt_entries := RBT.insert key v (bt_entries b)\<rparr>))"

definition btree_replace_entries ::
  "zlib \<Rightarrow> 's page_store_ops \<Rightarrow> (u64, bytes) RBT.rbt \<Rightarrow> ('s Btree, unit) prog"
where
  "btree_replace_entries z ops entries b = rebuild_pages z ops (b\<lparr>bt_entries := entries\<rparr>)"

definition btree_update ::
  "zlib \<Rightarrow> 's page_store_ops \<Rightarrow> u64 \<Rightarrow> bytes \<Rightarrow> ('s Btree, bytes option) prog"
where
  "btree_update z ops key v = btree_insert z ops key v"

definition btree_delete :: "zlib \<Rightarrow> 's page_store_ops \<Rightarrow> u64 \<Rightarrow> ('s Btree, bytes option) prog" where
  "btree_delete z ops key b =
     (let previous = RBT.lookup (bt_entries b) key
      in pbind (rebuild_pages z ops) (\<lambda>_. pret previous)
           (b\<lparr>bt_entries := RBT.delete key (bt_entries b)\<rparr>))"

definition btree_clear :: "zlib \<Rightarrow> 's page_store_ops \<Rightarrow> ('s Btree, unit) prog" where
  "btree_clear z ops b = rebuild_pages z ops (b\<lparr>bt_entries := RBT.empty\<rparr>)"

definition btree_entry_count :: "'s Btree \<Rightarrow> nat" where
  "btree_entry_count b = length (RBT.entries (bt_entries b))"

end
