(* ===== verification/BtreeSearch.thy ===== *)
theory BtreeSearch
  imports Btree
begin

text \<open>
  What a B+tree represents and that searching and cursors compute on it what they
  compute on the sorted list of its entries: the walk from the root to a leaf, the
  walk along the leaves, exact lookups, and both cursor directions.
\<close>

section \<open>The entries a tree represents\<close>

text \<open>
  \<open>subtree h m p ls\<close>: in the page map \<open>m\<close> the page \<open>p\<close> is the root of a tree of height \<open>h\<close>
  whose leaves are \<open>ls\<close>, from left to right, each with its page id; a separator is
  the first key of the subtree to its right.  \<open>linked\<close>: the leaves' next pointers.
\<close>

abbreviation flat :: "(page_id \<times> LeafPage) list \<Rightarrow> LeafCell list" where
  "flat ls \<equiv> concat (map (\<lambda>x. lp_cells (snd x)) ls)"

definition holds_page :: "(page_id \<Rightarrow> bytes option) \<Rightarrow> page_id \<Rightarrow> BtreePage \<Rightarrow> bool" where
  "holds_page m p page \<longleftrightarrow> (\<exists>bs. m p = Some bs \<and> decode_page bs = Inr page)"

primrec subtree ::
  "nat \<Rightarrow> (page_id \<Rightarrow> bytes option) \<Rightarrow> page_id \<Rightarrow> (page_id \<times> LeafPage) list \<Rightarrow> bool"
where
  "subtree 0 = (\<lambda>m p ls. \<exists>l. ls = [(p, l)] \<and> lp_cells l \<noteq> [] \<and> holds_page m p (LeafNode l))"
| "subtree (Suc h) = (\<lambda>m p ls. \<exists>ip lss. holds_page m p (InternalNode ip) \<and>
     list_all2 (subtree h m) (map ic_child (ip_cells ip) @ [ip_right_child ip]) lss \<and>
     ls = concat lss \<and> map ic_key (ip_cells ip) = map (\<lambda>xs. lc_key (hd (flat xs))) (tl lss))"

fun linked :: "(page_id \<times> LeafPage) list \<Rightarrow> bool" where
  "linked [] \<longleftrightarrow> True"
| "linked [x] \<longleftrightarrow> lp_next_leaf (snd x) = 0"
| "linked (x # y # ls) \<longleftrightarrow> lp_next_leaf (snd x) = fst y \<and> fst y \<noteq> 0 \<and> linked (y # ls)"

definition cell_holds :: "(page_id \<Rightarrow> bytes option) \<Rightarrow> LeafCell \<Rightarrow> u64 \<times> bytes \<Rightarrow> bool" where
  "cell_holds m cell e \<longleftrightarrow> lc_key cell = fst e \<and>
     (case lc_overflow_page_id cell of
        None \<Rightarrow> lc_value cell = snd e
      | Some p \<Rightarrow> \<exists>ids cs. is_chain m p ids cs \<and> [] \<notin> set cs \<and> concat cs = snd e)"

definition tree_of ::
  "(page_id \<Rightarrow> bytes option) \<Rightarrow> page_id \<Rightarrow> (page_id \<times> LeafPage) list \<Rightarrow> (u64 \<times> bytes) list \<Rightarrow> bool"
where
  "tree_of m p ls es \<longleftrightarrow> (\<exists>h. subtree h m p ls) \<and> linked ls \<and>
     list_all2 (cell_holds m) (flat ls) es \<and> sorted_wrt (<) (map fst es)"

definition represents ::
  "(page_id \<Rightarrow> bytes option) \<Rightarrow> page_id option \<Rightarrow> (u64 \<times> bytes) list \<Rightarrow> bool"
where
  "represents m root es \<longleftrightarrow>
     (case root of None \<Rightarrow> es = [] | Some p \<Rightarrow> \<exists>ls. tree_of m p ls es)"

text \<open>A cursor position as an index into the entries.\<close>

definition pos_at :: "(page_id \<times> LeafPage) list \<Rightarrow> CursorPosition \<Rightarrow> nat \<Rightarrow> bool" where
  "pos_at ls pos i \<longleftrightarrow> (\<exists>pre p post. ls = pre @ (p, pos_leaf pos) # post \<and>
     pos_index pos < length (lp_cells (pos_leaf pos)) \<and> i = length (flat pre) + pos_index pos)"

text \<open>Every search ends at the index that the same search on the entries gives.\<close>

definition pos_opt :: "(page_id \<times> LeafPage) list \<Rightarrow> CursorPosition option \<Rightarrow> nat option \<Rightarrow> bool" where
  "pos_opt ls r i \<longleftrightarrow> (case i of None \<Rightarrow> r = None | Some i \<Rightarrow> \<exists>pos. r = Some pos \<and> pos_at ls pos i)"

definition cursor_on ::
  "(page_id \<Rightarrow> bytes option) \<Rightarrow> (u64 \<times> bytes) list \<Rightarrow> BtreeCursor \<Rightarrow> nat option \<Rightarrow> bool"
where
  "cursor_on m es c i \<longleftrightarrow>
     (case cur_root_page_id c of
        None \<Rightarrow> es = [] \<and> cur_position c = None \<and> i = None
      | Some p \<Rightarrow> \<exists>ls. tree_of m p ls es \<and> pos_opt ls (cur_position c) i)"

lemma list_all2_keys: "list_all2 (cell_holds m) cells es \<Longrightarrow> map lc_key cells = map fst es"
  by (induction rule: list_all2_induct) (auto simp: cell_holds_def)

lemma subtree_leaves:
  "subtree h m p ls \<Longrightarrow> ls \<noteq> [] \<and> (\<forall>(q, l) \<in> set ls. lp_cells l \<noteq> [] \<and> holds_page m q (LeafNode l))"
proof (induction h arbitrary: p ls)
  case (Suc h)
  from Suc.prems obtain ip :: InternalPage and lss where
    l: "list_all2 (subtree h m) (map ic_child (ip_cells ip) @ [ip_right_child ip]) lss" "ls = concat lss"
    unfolding subtree.simps by blast
  then have all: "\<forall>xs \<in> set lss. xs \<noteq> [] \<and> (\<forall>(q, l) \<in> set xs. lp_cells l \<noteq> [] \<and> holds_page m q (LeafNode l))"
    using Suc.IH by (metis (no_types, lifting) in_set_conv_nth list_all2_conv_all_nth)
  moreover have "lss \<noteq> []" using l(1) by auto
  ultimately show ?case using l(2) by (cases lss) auto
qed auto

lemma flat_nonempty: "subtree h m p ls \<Longrightarrow> flat ls \<noteq> []"
  using subtree_leaves [of h m p ls] by (cases ls) auto

lemma flat_concat: "flat (concat lss) = concat (map flat lss)"
  by (induction lss) auto

lemma linked_append: "linked (xs @ ys) \<Longrightarrow> linked ys"
proof (induction xs rule: linked.induct)
  case (2 x)
  then show ?case by (cases ys) auto
qed auto

lemma pos_at_append: "pos_at ls pos i \<Longrightarrow> pos_at (pre @ ls) pos (length (flat pre) + i)"
  unfolding pos_at_def by (metis (no_types, lifting) add.assoc append.assoc concat_append length_append map_append)

lemma pos_at_Cons: "pos_at ls pos i \<Longrightarrow> pos_at (x # ls) pos (length (lp_cells (snd x)) + i)"
  using pos_at_append [of ls pos i "[x]"] by simp

lemma pos_at_here: "i < length (lp_cells l) \<Longrightarrow> pos_at ((q, l) # ls) \<lparr>pos_leaf = l, pos_index = i\<rparr> i"
  unfolding pos_at_def by (intro exI [of _ "[]"]) auto

lemma pos_at_cell:
  "pos_at ls pos i \<Longrightarrow> i < length (flat ls) \<and> pos_index pos < length (lp_cells (pos_leaf pos)) \<and>
     lp_cells (pos_leaf pos) ! pos_index pos = flat ls ! i"
  by (auto simp: pos_at_def nth_append)

lemma takeWhile_length_less: "\<not> (\<forall>x \<in> set xs. P x) \<Longrightarrow> length (takeWhile P xs) < length xs"
  by (induction xs) auto

lemma takeWhile_length_append:
  "length (takeWhile P (xs @ ys)) =
     (if \<forall>x \<in> set xs. P x then length xs + length (takeWhile P ys) else length (takeWhile P xs))"
  by (induction xs) auto

context page_store
begin

lemma decode_page_at_ok: "inv s \<Longrightarrow> holds_page (pages s) p page \<Longrightarrow> decode_page_at ops s p = Inr page"
  by (auto simp: decode_page_at_def holds_page_def page_read)

lemma load_leaf_page_ok:
  "inv s \<Longrightarrow> holds_page (pages s) p (LeafNode l) \<Longrightarrow> load_leaf_page ops s p = Inr l"
  by (simp add: load_leaf_page_def decode_page_at_ok)

lemma first_leaf_ok:
  "inv s \<Longrightarrow> subtree h (pages s) p ls \<Longrightarrow> first_leaf ops s p = Some (Inr (hd ls))"
proof (induction h arbitrary: p ls)
  case 0
  then show ?case by (subst first_leaf.simps) (auto simp: decode_page_at_ok)
next
  case (Suc h)
  then obtain ip lss where l: "holds_page (pages s) p (InternalNode ip)"
    "list_all2 (subtree h (pages s)) (map ic_child (ip_cells ip) @ [ip_right_child ip]) lss"
    "ls = concat lss" by auto
  let ?c = "case ip_cells ip of [] \<Rightarrow> ip_right_child ip | cell # _ \<Rightarrow> ic_child cell"
  obtain xs lss' where c: "lss = xs # lss'" "subtree h (pages s) ?c xs"
    using l(2) by (cases "ip_cells ip"; cases lss) auto
  then have "hd ls = hd xs" using l(3) subtree_leaves by auto
  with Suc.IH [OF Suc.prems(1) c(2)] l(1) show ?case
    by (subst first_leaf.simps) (simp add: decode_page_at_ok Suc.prems(1))
qed

lemma last_leaf_ok:
  "inv s \<Longrightarrow> subtree h (pages s) p ls \<Longrightarrow> last_leaf ops s p = Some (Inr (last ls))"
proof (induction h arbitrary: p ls)
  case 0
  then show ?case by (subst last_leaf.simps) (auto simp: decode_page_at_ok)
next
  case (Suc h)
  then obtain ip lss where l: "holds_page (pages s) p (InternalNode ip)"
    "list_all2 (subtree h (pages s)) (map ic_child (ip_cells ip) @ [ip_right_child ip]) lss"
    "ls = concat lss" by auto
  then obtain lss' xs where c: "lss = lss' @ [xs]" "subtree h (pages s) (ip_right_child ip) xs"
    by (auto simp: list_all2_append1 list_all2_Cons1)
  then have "last ls = last xs" using l(3) subtree_leaves by auto
  with Suc.IH [OF Suc.prems(1) c(2)] l(1) show ?case
    by (subst last_leaf.simps) (simp add: decode_page_at_ok Suc.prems(1))
qed

lemma seek_forward_loop_ok:
  assumes "inv s"
  shows "linked ((q, l) # post) \<Longrightarrow>
    \<forall>(q, l) \<in> set post. holds_page (pages s) q (LeafNode l) \<Longrightarrow>
    n = length (takeWhile (\<lambda>c. lc_key c < key) (flat ((q, l) # post))) \<Longrightarrow>
    \<exists>r. seek_forward_loop ops s key l = Some (Inr r) \<and>
      (if n < length (flat ((q, l) # post)) then \<exists>pos. r = Some pos \<and> pos_at ((q, l) # post) pos n
       else r = None)"
proof (induction post arbitrary: q l n)
  case Nil
  then show ?case
    by (subst seek_forward_loop.simps) (auto simp: partition_point_def Let_def intro: pos_at_here)
next
  case (Cons x post)
  obtain q' l' where x: "x = (q', l')" by (cases x)
  let ?P = "\<lambda>c. lc_key c < key"
  show ?case
  proof (cases "\<forall>c \<in> set (lp_cells l). ?P c")
    case False
    then have lt: "length (takeWhile ?P (lp_cells l)) < length (lp_cells l)"
      by (rule takeWhile_length_less)
    moreover have "n = length (takeWhile ?P (lp_cells l))"
      using Cons.prems(3) False by (simp add: takeWhile_length_append del: takeWhile_append)
    ultimately show ?thesis
      by (subst seek_forward_loop.simps) (auto simp: partition_point_def Let_def intro: pos_at_here)
  next
    case True
    then have len: "length (takeWhile ?P (lp_cells l)) = length (lp_cells l)" by (metis takeWhile_eq_all_conv)
    let ?n = "length (takeWhile ?P (flat (x # post)))"
    have n: "n = length (lp_cells l) + ?n"
      using Cons.prems(3) True by (simp add: takeWhile_length_append)
    have step: "seek_forward_loop ops s key l = seek_forward_loop ops s key l'"
      using Cons.prems(1,2) x len load_leaf_page_ok [OF assms, of q' l']
      by (subst seek_forward_loop.simps) (simp add: partition_point_def Let_def)
    from Cons.IH [of q' l' ?n] Cons.prems x
    obtain r where "seek_forward_loop ops s key l' = Some (Inr r)"
      "if ?n < length (flat (x # post)) then \<exists>pos. r = Some pos \<and> pos_at (x # post) pos ?n
       else r = None" by auto
    with step n pos_at_Cons [of "x # post" _ ?n "(q, l)"] show ?thesis by (auto split: if_splits)
  qed
qed

lemma scan_cells_eq:
  "scan_cells P l i cells lm =
     (let n = length (takeWhile (\<lambda>c. P (lc_key c)) cells)
      in (if n = 0 then lm else Some \<lparr>pos_leaf = l, pos_index = i + n - 1\<rparr>, n < length cells))"
  by (induction cells arbitrary: i lm) (auto simp: Let_def)

lemma scan_loop_ok:
  assumes "inv s"
  shows "linked ((q, l) # post) \<Longrightarrow>
    \<forall>(q, l) \<in> set post. holds_page (pages s) q (LeafNode l) \<Longrightarrow>
    n = length (takeWhile (\<lambda>c. P (lc_key c)) (flat ((q, l) # post))) \<Longrightarrow>
    \<exists>r. scan_loop ops s P l lm = Some (Inr r) \<and>
      (if n = 0 then r = lm else \<exists>pos. r = Some pos \<and> pos_at ((q, l) # post) pos (n - 1))"
proof (induction post arbitrary: q l n lm)
  case Nil
  let ?n = "length (takeWhile (\<lambda>c. P (lc_key c)) (lp_cells l))"
  have "?n - 1 < length (lp_cells l)" if "?n \<noteq> 0"
    using length_takeWhile_le [of "\<lambda>c. P (lc_key c)" "lp_cells l"] that by linarith
  with Nil show ?case
    by (subst scan_loop.simps) (auto simp: scan_cells_eq Let_def intro!: pos_at_here)
next
  case (Cons x post)
  obtain q' l' where x: "x = (q', l')" by (cases x)
  let ?P = "\<lambda>c. P (lc_key c)"
  show ?case
  proof (cases "\<forall>c \<in> set (lp_cells l). ?P c")
    case False
    then have lt: "length (takeWhile ?P (lp_cells l)) < length (lp_cells l)"
      by (rule takeWhile_length_less)
    moreover have "n = length (takeWhile ?P (lp_cells l))"
      using Cons.prems(3) False by (simp add: takeWhile_length_append del: takeWhile_append)
    ultimately show ?thesis
      by (subst scan_loop.simps) (auto simp: scan_cells_eq Let_def intro!: pos_at_here)
  next
    case True
    then have len: "length (takeWhile ?P (lp_cells l)) = length (lp_cells l)"
      by (metis takeWhile_eq_all_conv)
    let ?n = "length (takeWhile ?P (flat (x # post)))"
    let ?lm = "if lp_cells l = [] then lm else Some \<lparr>pos_leaf = l, pos_index = length (lp_cells l) - 1\<rparr>"
    have n: "n = length (lp_cells l) + ?n"
      using Cons.prems(3) True by (simp add: takeWhile_length_append)
    have step: "scan_loop ops s P l lm = scan_loop ops s P l' ?lm"
      using Cons.prems(1,2) x len load_leaf_page_ok [OF assms, of q' l']
      by (subst scan_loop.simps) (simp add: scan_cells_eq Let_def)
    from Cons.IH [of q' l' ?n ?lm] Cons.prems x
    obtain r where r: "scan_loop ops s P l' ?lm = Some (Inr r)"
      "if ?n = 0 then r = ?lm else \<exists>pos. r = Some pos \<and> pos_at (x # post) pos (?n - 1)" by auto
    show ?thesis
    proof (cases "?n = 0")
      case True
      with r step n pos_at_here [of "length (lp_cells l) - 1" l q "x # post"] show ?thesis
        by (auto split: if_splits)
    next
      case False
      with r(2) obtain pos where "r = Some pos" "pos_at (x # post) pos (?n - 1)" by auto
      moreover have "length (lp_cells l) + (?n - 1) = n - 1" "n \<noteq> 0" using False n by linarith+
      ultimately show ?thesis
        using r(1) step pos_at_Cons [of "x # post" pos "?n - 1" "(q, l)"] by auto
    qed
  qed
qed

text \<open>The walk from the root: everything left of the leaf it reaches is below the key.\<close>

lemma descend_ok:
  assumes "inv s"
  shows "subtree h (pages s) p ls \<Longrightarrow> sorted_wrt (<) (map lc_key (flat ls)) \<Longrightarrow>
    \<exists>pre q l post. ls = pre @ (q, l) # post \<and> descend_to_leaf ops s p key = Some (Inr (q, l)) \<and>
      (\<forall>c \<in> set (flat pre). lc_key c < key)"
proof (induction h arbitrary: p ls)
  case 0
  then obtain l where "ls = [(p, l)]" "holds_page (pages s) p (LeafNode l)" by auto
  then show ?case
    by (intro exI [of _ "[]"] exI [of _ p] exI [of _ l] exI [of _ "[]"], subst descend_to_leaf.simps)
       (simp add: decode_page_at_ok assms)
next
  case (Suc h)
  from Suc.prems(1) obtain ip lss where l: "holds_page (pages s) p (InternalNode ip)"
    "list_all2 (subtree h (pages s)) (map ic_child (ip_cells ip) @ [ip_right_child ip]) lss"
    "ls = concat lss" "map ic_key (ip_cells ip) = map (\<lambda>xs. lc_key (hd (flat xs))) (tl lss)"
    unfolding subtree.simps by blast
  let ?cs = "map ic_child (ip_cells ip) @ [ip_right_child ip]"
  define idx where "idx = partition_point (\<lambda>c. ic_key c \<le> key) (ip_cells ip)"
  have le: "idx \<le> length (ip_cells ip)" by (simp add: idx_def partition_point_def length_takeWhile_le)
  have len: "length lss = Suc (length (ip_cells ip))" using list_all2_lengthD [OF l(2)] by simp
  let ?t = "lss ! idx"
  have child: "(if idx < length (ip_cells ip) then ic_child (ip_cells ip ! idx) else ip_right_child ip)
      = ?cs ! idx" using le by (simp add: nth_append)
  have sub: "subtree h (pages s) (?cs ! idx) ?t"
    using l(2) le len by (simp add: list_all2_conv_all_nth)
  have lss: "lss = take idx lss @ ?t # drop (Suc idx) lss" using le len by (simp add: id_take_nth_drop)
  have fl: "flat ls = concat (map flat (take idx lss)) @ flat ?t @ concat (map flat (drop (Suc idx) lss))"
    unfolding l(3) flat_concat by (subst lss) simp
  have below: "\<forall>c \<in> set (flat (concat (take idx lss))). lc_key c < key"
  proof (cases idx)
    case (Suc i)
    have "ic_key (ip_cells ip ! i) \<le> key"
      using Suc le takeWhile_nth [of i "\<lambda>c. ic_key c \<le> key" "ip_cells ip"]
        nth_mem [of i "takeWhile (\<lambda>c. ic_key c \<le> key) (ip_cells ip)"]
      unfolding idx_def partition_point_def by (metis (no_types, lifting) lessI set_takeWhileD)
    moreover have "ic_key (ip_cells ip ! i) = lc_key (hd (flat ?t))"
      using arg_cong [OF l(4), of "\<lambda>xs. xs ! i"] Suc le len by (simp add: nth_tl)
    ultimately have "lc_key (hd (flat ?t)) \<le> key" by simp
    moreover have "lc_key c < lc_key (hd (flat ?t))" if "c \<in> set (flat (concat (take idx lss)))" for c
      using Suc.prems(2) that flat_nonempty [OF sub] unfolding fl flat_concat
      by (cases "flat ?t") (auto simp: sorted_wrt_append)
    ultimately show ?thesis by fastforce
  qed simp
  from Suc.prems(2) have "sorted_wrt (<) (map lc_key (flat ?t))" unfolding fl by (simp add: sorted_wrt_append)
  from Suc.IH [OF sub this] obtain pre q lf post where
    d: "?t = pre @ (q, lf) # post" "descend_to_leaf ops s (?cs ! idx) key = Some (Inr (q, lf))"
      "\<forall>c \<in> set (flat pre). lc_key c < key" by blast
  have "descend_to_leaf ops s p key = Some (Inr (q, lf))"
    by (subst descend_to_leaf.simps)
       (simp add: decode_page_at_ok [OF assms l(1)] Let_def idx_def [symmetric] child d(2))
  moreover have "ls = (concat (take idx lss) @ pre) @ (q, lf) # (post @ concat (drop (Suc idx) lss))"
    unfolding l(3) by (subst lss) (simp add: d(1))
  moreover have "\<forall>c \<in> set (flat (concat (take idx lss) @ pre)). lc_key c < key"
    using below d(3) by (simp only: map_append concat_append set_append) blast
  ultimately show ?case by blast
qed

lemma materialize_leaf_value_ok:
  "inv s \<Longrightarrow> cell_holds (pages s) cell e \<Longrightarrow> materialize_leaf_value ops s cell = Some (Inr (snd e))"
  by (auto simp: materialize_leaf_value_def cell_holds_def read_chain_def read_chain_into_def
      read_chain_loop_ok split: option.splits)

lemma materialize_current_ok:
  assumes "inv s" "tree_of (pages s) p ls es" "pos_at ls pos i"
  shows "i < length es \<and> materialize_current ops s pos = Some (Inr (es ! i))"
proof -
  have "list_all2 (cell_holds (pages s)) (flat ls) es" using assms(2) by (simp add: tree_of_def)
  with pos_at_cell [OF assms(3)] have i: "i < length es"
    and c: "cell_holds (pages s) (flat ls ! i) (es ! i)"
    by (auto simp: list_all2_conv_all_nth)
  then have "lc_key (flat ls ! i) = fst (es ! i)" by (simp add: cell_holds_def)
  with i pos_at_cell [OF assms(3)] materialize_leaf_value_ok [OF assms(1) c] show ?thesis
    by (simp add: materialize_current_def get_at_def)
qed

lemma tree_of_takeWhile:
  assumes "tree_of m p ls es"
  shows "length (flat ls) = length es"
    "length (takeWhile (\<lambda>c. P (lc_key c)) (flat ls)) = length (takeWhile (\<lambda>e. P (fst e)) es)"
proof -
  have l: "list_all2 (cell_holds m) (flat ls) es" using assms by (simp add: tree_of_def)
  show "length (flat ls) = length es" using list_all2_lengthD [OF l] .
  have "length (takeWhile P (map lc_key (flat ls))) = length (takeWhile P (map fst es))"
    using list_all2_keys [OF l] by (rule arg_cong)
  then show "length (takeWhile (\<lambda>c. P (lc_key c)) (flat ls)) = length (takeWhile (\<lambda>e. P (fst e)) es)"
    by (simp add: takeWhile_map comp_def)
qed

lemma seek_forward_ok:
  assumes "inv s" "tree_of (pages s) p ls es"
    and n_def: "n = length (takeWhile (\<lambda>e. fst e < key) es)"
  shows "\<exists>r. seek_forward ops s (Some p) key = Some (Inr r) \<and>
    pos_opt ls r (if n < length es then Some n else None)"
proof -
  obtain h where h: "subtree h (pages s) p ls" and lk: "linked ls"
    and so: "sorted_wrt (<) (map lc_key (flat ls))"
    using assms(2) list_all2_keys unfolding tree_of_def by metis
  from descend_ok [OF assms(1) h so] obtain pre q l post where
    d: "ls = pre @ (q, l) # post" "descend_to_leaf ops s p key = Some (Inr (q, l))"
      "\<forall>c \<in> set (flat pre). lc_key c < key" by blast
  let ?k = "length (takeWhile (\<lambda>c. lc_key c < key) (flat ((q, l) # post)))"
  have n: "n = length (flat pre) + ?k"
    unfolding n_def tree_of_takeWhile(2) [OF assms(2), symmetric, of "\<lambda>k. k < key"] d(1)
    by (simp only: map_append concat_append takeWhile_length_append if_P [OF d(3)])
  have len: "length es = length (flat pre) + length (flat ((q, l) # post))"
    using tree_of_takeWhile(1) [OF assms(2)] d(1) by simp
  have "\<forall>(q, l) \<in> set post. holds_page (pages s) q (LeafNode l)"
    using subtree_leaves [OF h] d(1) by auto
  from seek_forward_loop_ok [OF assms(1) _ this refl, of q l key] linked_append [of pre] lk d(1)
  obtain r where "seek_forward_loop ops s key l = Some (Inr r)"
    "if ?k < length (flat ((q, l) # post)) then \<exists>pos. r = Some pos \<and> pos_at ((q, l) # post) pos ?k
     else r = None" by auto
  with d(1,2) n len pos_at_append [of "(q, l) # post" _ ?k pre] show ?thesis
    by (auto simp: seek_forward_def pos_opt_def split: if_splits)
qed

lemma scan_for_predicate_ok:
  assumes "inv s" "tree_of (pages s) p ls es"
    and n_def: "n = length (takeWhile (\<lambda>e. P (fst e)) es)"
  shows "\<exists>r. scan_for_predicate ops s (Some p) P = Some (Inr r) \<and>
    pos_opt ls r (if n = 0 then None else Some (n - 1))"
proof -
  obtain h where h: "subtree h (pages s) p ls" and lk: "linked ls"
    using assms(2) unfolding tree_of_def by blast
  obtain q l post where ls: "ls = (q, l) # post" using subtree_leaves [OF h] by (cases ls) auto
  have "\<forall>(q, l) \<in> set post. holds_page (pages s) q (LeafNode l)"
    using subtree_leaves [OF h] ls by auto
  moreover have "n = length (takeWhile (\<lambda>c. P (lc_key c)) (flat ((q, l) # post)))"
    unfolding n_def ls [symmetric] by (rule tree_of_takeWhile(2) [OF assms(2), symmetric])
  ultimately obtain r where "scan_loop ops s P l None = Some (Inr r)"
    "if n = 0 then r = None else \<exists>pos. r = Some pos \<and> pos_at ls pos (n - 1)"
    using scan_loop_ok [OF assms(1), of q l post n P None] lk unfolding ls by blast
  with first_leaf_ok [OF assms(1) h] ls show ?thesis
    by (auto simp: scan_for_predicate_def pos_opt_def)
qed

lemma find_exact_ok:
  assumes "inv s" "represents (pages s) root es"
  shows "find_exact ops s root key = Some (Inr (map_of es key))"
proof (cases root)
  case None
  with assms(2) show ?thesis by (simp add: represents_def find_exact_def seek_forward_def)
next
  case (Some p)
  with assms(2) obtain ls where t: "tree_of (pages s) p ls es" by (auto simp: represents_def)
  then have so: "sorted_wrt (<) (map fst es)" by (simp add: tree_of_def)
  let ?n = "length (takeWhile (\<lambda>e. fst e < key) es)"
  from seek_forward_ok [OF assms(1) t refl, of key] obtain r where
    r: "seek_forward ops s (Some p) key = Some (Inr r)"
      "pos_opt ls r (if ?n < length es then Some ?n else None)" by blast
  show ?thesis
  proof (cases "?n < length es")
    case False
    then have "\<forall>e \<in> set es. fst e < key" using takeWhile_length_less [of es "\<lambda>e. fst e < key"] by blast
    then have "map_of es key = None" by (auto simp: map_of_eq_None_iff)
    with False r Some show ?thesis by (simp add: find_exact_def pos_opt_def)
  next
    case True
    with r(2) obtain pos where pos: "r = Some pos" "pos_at ls pos ?n" by (auto simp: pos_opt_def)
    have ch: "cell_holds (pages s) (flat ls ! ?n) (es ! ?n)"
      using t True by (auto simp: tree_of_def list_all2_conv_all_nth)
    have k: "lc_key (flat ls ! ?n) = fst (es ! ?n)" using ch by (simp add: cell_holds_def)
    have ge: "\<not> fst (es ! ?n) < key" by (rule nth_length_takeWhile [OF True])
    have "map_of es key = (if fst (es ! ?n) = key then Some (snd (es ! ?n)) else None)"
    proof (cases "fst (es ! ?n) = key")
      case True
      have "(key, snd (es ! ?n)) \<in> set es" using True nth_mem [OF \<open>?n < length es\<close>] by (metis prod.collapse)
      with so True show ?thesis by (simp add: map_of_eq_Some_iff strict_sorted_iff)
    next
      case False
      have "fst e \<noteq> key" if e: "e \<in> set es" for e
      proof -
        obtain j where j: "j < length es" "e = es ! j" using e by (auto simp: in_set_conv_nth)
        show ?thesis
        proof (cases "j < ?n")
          case True
          then show ?thesis using j nth_mem [OF True] takeWhile_nth [OF True]
            by (metis (mono_tags, lifting) order_less_irrefl set_takeWhileD)
        next
          case f: False
          then have "fst (es ! ?n) \<le> fst e"
            using so j by (cases "j = ?n") (auto simp: sorted_wrt_iff_nth_less intro: less_imp_le)
          with ge False show ?thesis by auto
        qed
      qed
      with False show ?thesis by (auto simp: map_of_eq_None_iff)
    qed
    with r(1) Some pos k pos_at_cell [OF pos(2)] materialize_leaf_value_ok [OF assms(1) ch] show ?thesis
      by (simp add: find_exact_def get_at_def)
  qed
qed

lemma cursor_from_start_ok:
  assumes "inv s" "represents (pages s) root es"
  shows "\<exists>c. cursor_from_start ops s root = Some (Inr c) \<and>
    cursor_on (pages s) es c (if es = [] then None else Some 0)"
proof (cases root)
  case (Some p)
  with assms(2) obtain ls h where t: "tree_of (pages s) p ls es" "subtree h (pages s) p ls"
    by (auto simp: represents_def tree_of_def)
  obtain q l post where ls: "ls = (q, l) # post" "lp_cells l \<noteq> []"
    using subtree_leaves [OF t(2)] by (cases ls) auto
  have "es \<noteq> []" using flat_nonempty [OF t(2)] tree_of_takeWhile(1) [OF t(1)] by (metis length_0_conv)
  with ls t first_leaf_ok [OF assms(1) t(2)] Some pos_at_here [of 0 l q post] show ?thesis
    by (auto simp: cursor_from_start_def cursor_at_def first_position_def cursor_on_def pos_opt_def)
qed (use assms in \<open>auto simp: represents_def cursor_from_start_def cursor_at_def first_position_def cursor_on_def\<close>)

lemma cursor_from_end_ok:
  assumes "inv s" "represents (pages s) root es"
  shows "\<exists>c. cursor_from_end ops s root = Some (Inr c) \<and>
    cursor_on (pages s) es c (if es = [] then None else Some (length es - 1))"
proof (cases root)
  case (Some p)
  with assms(2) obtain ls h where t: "tree_of (pages s) p ls es" "subtree h (pages s) p ls"
    by (auto simp: represents_def tree_of_def)
  obtain q l pre where ls: "ls = pre @ [(q, l)]" "lp_cells l \<noteq> []"
    using subtree_leaves [OF t(2)] by (cases ls rule: rev_cases) auto
  have "es \<noteq> []" using flat_nonempty [OF t(2)] tree_of_takeWhile(1) [OF t(1)] by (metis length_0_conv)
  moreover have "pos_at ls \<lparr>pos_leaf = l, pos_index = length (lp_cells l) - 1\<rparr> (length es - 1)"
    unfolding tree_of_takeWhile(1) [OF t(1), symmetric] pos_at_def using ls
    by (intro exI [of _ pre] exI [of _ q] exI [of _ "[]"]) (simp add: Suc_le_eq)
  ultimately show ?thesis
    using ls t last_leaf_ok [OF assms(1) t(2)] Some
    by (auto simp: cursor_from_end_def cursor_at_def last_position_def cursor_on_def pos_opt_def)
qed (use assms in \<open>auto simp: represents_def cursor_from_end_def cursor_at_def last_position_def cursor_on_def\<close>)

lemma cursor_seek_forward_ok:
  assumes "inv s" "represents (pages s) root es"
    and "n = length (takeWhile (\<lambda>e. fst e < key) es)"
  shows "\<exists>c. cursor_seek_forward ops s root key = Some (Inr c) \<and>
    cursor_on (pages s) es c (if n < length es then Some n else None)"
proof (cases root)
  case (Some p)
  with assms(2) obtain ls where t: "tree_of (pages s) p ls es" by (auto simp: represents_def)
  from seek_forward_ok [OF assms(1) t assms(3)] t Some show ?thesis
    by (auto simp: cursor_seek_forward_def cursor_at_def cursor_on_def)
qed (use assms in \<open>auto simp: represents_def cursor_seek_forward_def cursor_at_def seek_forward_def cursor_on_def\<close>)

lemma cursor_seek_backward_ok:
  assumes "inv s" "represents (pages s) root es"
    and "n = length (takeWhile (\<lambda>e. fst e \<le> key) es)"
  shows "\<exists>c. cursor_seek_backward ops s root key = Some (Inr c) \<and>
    cursor_on (pages s) es c (if n = 0 then None else Some (n - 1))"
proof (cases root)
  case (Some p)
  with assms(2) obtain ls where t: "tree_of (pages s) p ls es" by (auto simp: represents_def)
  from scan_for_predicate_ok [OF assms(1) t assms(3)] obtain r where
    "scan_for_predicate ops s (Some p) (\<lambda>k. k \<le> key) = Some (Inr r)"
    "pos_opt ls r (if n = 0 then None else Some (n - 1))" by blast
  with t Some show ?thesis
    by (auto simp: cursor_seek_backward_def cursor_at_def cursor_on_def seek_backward_def)
qed (use assms in \<open>auto simp: represents_def cursor_seek_backward_def cursor_at_def seek_backward_def
      scan_for_predicate_def cursor_on_def\<close>)

text \<open>One step forward from an index that has a cell: in the leaf, or to the next leaf.\<close>

lemma next_position_ok:
  assumes "inv s" "tree_of (pages s) p ls es" "pos_at ls pos i"
  shows "\<exists>r. (if pos_index pos + 1 < length (lp_cells (pos_leaf pos))
        then Some (Inr (Some (pos\<lparr>pos_index := pos_index pos + 1\<rparr>)))
        else if lp_next_leaf (pos_leaf pos) \<noteq> 0
        then first_position ops s (Some (lp_next_leaf (pos_leaf pos))) else Some (Inr None)) =
      Some (Inr r) \<and> pos_opt ls r (if i + 1 < length es then Some (i + 1) else None)"
proof -
  from assms(3) obtain pre q post where
    ls: "ls = pre @ (q, pos_leaf pos) # post" and ix: "pos_index pos < length (lp_cells (pos_leaf pos))"
    and i: "i = length (flat pre) + pos_index pos" unfolding pos_at_def by blast
  obtain h where h: "subtree h (pages s) p ls" and lk: "linked ls"
    using assms(2) unfolding tree_of_def by blast
  have len: "length es = length (flat ls)" using tree_of_takeWhile(1) [OF assms(2)] by simp
  have lk': "linked ((q, pos_leaf pos) # post)" using linked_append lk ls by blast
  consider (here) "pos_index pos + 1 < length (lp_cells (pos_leaf pos))"
    | (last) "pos_index pos + 1 = length (lp_cells (pos_leaf pos))" "post = []"
    | (next_leaf) q' l' post' where "pos_index pos + 1 = length (lp_cells (pos_leaf pos))"
        "post = (q', l') # post'"
    using ix by (cases post) fastforce+
  then show ?thesis
  proof cases
    case here
    then have "pos_at ls (pos\<lparr>pos_index := pos_index pos + 1\<rparr>) (i + 1)"
      using ls i by (auto simp: pos_at_def)
    then have "pos_opt ls (Some (pos\<lparr>pos_index := pos_index pos + 1\<rparr>)) (if i + 1 < length es then Some (i + 1) else None)"
      using pos_at_cell len by (fastforce simp: pos_opt_def)
    with here show ?thesis by simp
  next
    case last
    then have "\<not> i + 1 < length es" using ls i len by simp
    with last lk' show ?thesis by (simp add: pos_opt_def)
  next
    case next_leaf
    have nx: "lp_next_leaf (pos_leaf pos) = q'" "q' \<noteq> 0" using lk' next_leaf by auto
    have l': "lp_cells l' \<noteq> []" "holds_page (pages s) q' (LeafNode l')"
      using subtree_leaves [OF h] ls next_leaf by auto
    then have "subtree 0 (pages s) q' [(q', l')]" by simp
    from first_leaf_ok [OF assms(1) this] l'(1)
    have "first_position ops s (Some q') = Some (Inr (Some \<lparr>pos_leaf = l', pos_index = 0\<rparr>))"
      by (simp add: first_position_def)
    moreover have "pos_at ls \<lparr>pos_leaf = l', pos_index = 0\<rparr> (i + 1)"
      unfolding pos_at_def using ls i next_leaf l'(1)
      by (intro exI [of _ "pre @ [(q, pos_leaf pos)]"] exI [of _ q'] exI [of _ post']) auto
    ultimately show ?thesis
      using nx next_leaf(1) pos_at_cell [of ls _ "i + 1"] len by (auto simp: pos_opt_def)
  qed
qed

lemma takeWhile_below_nth:
  fixes es :: "(u64 \<times> bytes) list"
  assumes "sorted_wrt (<) (map fst es)" "i < length es"
  shows "length (takeWhile (\<lambda>e. fst e < fst (es ! i)) es) = i"
proof -
  have "takeWhile (\<lambda>e. fst e < fst (es ! i)) es = take i es"
    by (rule takeWhile_eq_take_P_nth) (use assms in \<open>auto simp: sorted_wrt_iff_nth_less\<close>)
  with assms(2) show ?thesis by simp
qed

lemma cursor_next_ok:
  assumes "inv s" "cursor_on (pages s) es c i"
  shows "\<exists>c'. cursor_next ops s c = Some (Inr (map_option ((!) es) i), c') \<and>
    cursor_on (pages s) es c'
      (case i of None \<Rightarrow> None | Some i \<Rightarrow> if i + 1 < length es then Some (i + 1) else None)"
proof (cases i)
  case None
  with assms(2) have "cur_position c = None" by (auto simp: cursor_on_def pos_opt_def split: option.splits)
  with None assms(2) show ?thesis by (simp add: cursor_next_def)
next
  case (Some k)
  with assms(2) obtain p ls pos where c: "cur_root_page_id c = Some p" "tree_of (pages s) p ls es"
    "cur_position c = Some pos" "pos_at ls pos k"
    by (auto simp: cursor_on_def pos_opt_def split: option.splits)
  from next_position_ok [OF assms(1) c(2,4)] obtain r where
    "(if pos_index pos + 1 < length (lp_cells (pos_leaf pos))
        then Some (Inr (Some (pos\<lparr>pos_index := pos_index pos + 1\<rparr>)))
        else if lp_next_leaf (pos_leaf pos) \<noteq> 0
        then first_position ops s (Some (lp_next_leaf (pos_leaf pos))) else Some (Inr None)) =
      Some (Inr r)" "pos_opt ls r (if k + 1 < length es then Some (k + 1) else None)" by blast
  with c Some materialize_current_ok [OF assms(1) c(2,4)] show ?thesis
    by (auto simp: cursor_next_def cursor_move_def cursor_on_def)
qed

lemma cursor_prev_ok:
  assumes "inv s" "cursor_on (pages s) es c i"
  shows "\<exists>c'. cursor_prev ops s c = Some (Inr (map_option ((!) es) i), c') \<and>
    cursor_on (pages s) es c' (case i of None \<Rightarrow> None | Some i \<Rightarrow> if i = 0 then None else Some (i - 1))"
proof (cases i)
  case None
  with assms(2) have "cur_position c = None" by (auto simp: cursor_on_def pos_opt_def split: option.splits)
  with None assms(2) show ?thesis by (simp add: cursor_prev_def)
next
  case (Some k)
  with assms(2) obtain p ls pos where c: "cur_root_page_id c = Some p" "tree_of (pages s) p ls es"
    "cur_position c = Some pos" "pos_at ls pos k"
    by (auto simp: cursor_on_def pos_opt_def split: option.splits)
  note m = materialize_current_ok [OF assms(1) c(2,4)]
  have so: "sorted_wrt (<) (map fst es)" using c(2) by (simp add: tree_of_def)
  show ?thesis
  proof (cases "0 < pos_index pos")
    case True
    then have "pos_at ls (pos\<lparr>pos_index := pos_index pos - 1\<rparr>) (k - 1)" "k \<noteq> 0"
      using c(4) by (fastforce simp: pos_at_def)+
    with True c Some m show ?thesis
      by (auto simp: cursor_prev_def cursor_move_def cursor_on_def pos_opt_def)
  next
    case False
    have "k = length (takeWhile (\<lambda>e. fst e < fst (es ! k)) es)"
      using takeWhile_below_nth [OF so] m by simp
    from scan_for_predicate_ok [OF assms(1) c(2) this] obtain r where
      "scan_for_predicate ops s (Some p) (\<lambda>k'. k' < fst (es ! k)) = Some (Inr r)"
      "pos_opt ls r (if k = 0 then None else Some (k - 1))" by blast
    with False c Some m show ?thesis
      by (auto simp: cursor_prev_def cursor_move_def cursor_on_def greatest_less_than_def)
  qed
qed

end

end
