(* ===== verification/BtreeBuild.thy ===== *)
theory BtreeBuild
  imports BtreeSearch
begin

text \<open>
  The writer of the B+tree builds a tree that represents the entry map: children
  are grouped into internal pages that fit, entries are packed into leaves that fit,
  levels are built until one root is left, and the pages of the previous tree are
  freed.  The writer returns, for every supported page size, when the store has
  room for the pages it needs; on the way the theory bounds how many these are.
\<close>

section \<open>Grouping children\<close>

definition ref_bytes :: "InternalCell \<Rightarrow> nat" where
  "ref_bytes c = length (encode_varint_u64 (ic_key c)) + length (encode_varint_u64 (ucast (ic_child c)))"

lemma internal_cells_len_plain: "internal_cells_len False prev cells = sum_list (map ref_bytes cells)"
  by (induction cells arbitrary: prev) (auto simp: ref_bytes_def encoded_key_def)

lemma ref_bytes_bounds: "2 \<le> ref_bytes c" "ref_bytes c \<le> 15"
proof -
  show "2 \<le> ref_bytes c"
    unfolding ref_bytes_def using encode_varint_length(1) add_mono by (metis one_add_one)
  have "unat (ucast (ic_child c) :: u64) < 2 ^ 32"
    using unsigned_less [of "ic_child c", where ?'a = nat] by simp
  also have "(2 :: nat) ^ 32 \<le> 2 ^ (7 * 5)" by (intro power_increasing) auto
  finally have "length (encode_varint_u64 (ucast (ic_child c))) \<le> 5"
    by (rule encode_varint_length_le) simp
  then show "ref_bytes c \<le> 15" unfolding ref_bytes_def using encode_varint_length(2) [of "ic_key c"] by linarith
qed

lemma sum_ref_bytes: "2 * length cells \<le> sum_list (map ref_bytes cells)"
  "sum_list (map ref_bytes cells) \<le> 15 * length cells"
proof (induction cells)
  case (Cons c cells)
  { case 1 show ?case using Cons.IH(1) ref_bytes_bounds(1) [of c] by simp }
  { case 2 show ?case using Cons.IH(2) ref_bytes_bounds(2) [of c] by simp }
qed simp_all

definition ref_cells :: "ChildRef list \<Rightarrow> InternalCell list" where
  "ref_cells g = map (\<lambda>(left, right). \<lparr>ic_key = cr_first_key right, ic_child = cr_page_id left\<rparr>)
     (zip (butlast g) (tl g))"

definition ref_page :: "ChildRef list \<Rightarrow> InternalPage" where
  "ref_page g = \<lparr>ip_right_child = cr_page_id (last g), ip_delta_keys = False, ip_cells = ref_cells g\<rparr>"

definition fits :: "nat \<Rightarrow> ChildRef list \<Rightarrow> bool" where
  "fits n g \<longleftrightarrow> 2 \<le> length g \<and> PAGE_HEADER_SIZE + sum_list (map ref_bytes (ref_cells g)) \<le> n"

lemma build_internal_page_eq: "2 \<le> length g \<Longrightarrow> build_internal_page g = Inr (ref_page g)"
  by (simp add: build_internal_page_def ref_page_def ref_cells_def)

lemma internal_encoded_len_ref_page:
  "internal_encoded_len (ref_page g) = PAGE_HEADER_SIZE + sum_list (map ref_bytes (ref_cells g))"
  by (simp add: internal_encoded_len_def ref_page_def internal_cells_len_plain)

lemma length_ref_cells [simp]: "length (ref_cells g) = length g - 1"
  by (simp add: ref_cells_def)

lemma fits_small: "2 \<le> length g \<Longrightarrow> length g \<le> 3 \<Longrightarrow> 38 \<le> n \<Longrightarrow> fits n g"
  using sum_ref_bytes(2) [of "ref_cells g"] by (simp add: fits_def PAGE_HEADER_SIZE_def)

lemma ref_cells_snoc: "xs \<noteq> [] \<Longrightarrow> ref_cells (xs @ [y]) =
  ref_cells xs @ [\<lparr>ic_key = cr_first_key y, ic_child = cr_page_id (last xs)\<rparr>]"
proof -
  assume "xs \<noteq> []"
  then have "zip xs (tl xs @ [y]) = zip (butlast xs @ [last xs]) (tl xs @ [y])" by simp
  also have "\<dots> = zip (butlast xs) (tl xs) @ [(last xs, y)]" by (subst zip_append) simp_all
  finally show ?thesis using \<open>xs \<noteq> []\<close> by (simp add: ref_cells_def)
qed

lemma fits_butlast: "fits n g \<Longrightarrow> 3 \<le> length g \<Longrightarrow> fits n (butlast g)"
proof -
  assume g: "fits n g" "3 \<le> length g"
  then obtain xs y where "g = xs @ [y]" by (cases g rule: rev_cases) auto
  with g(2) have "g = butlast g @ [last g]" "butlast g \<noteq> []" by auto
  with ref_cells_snoc [of "butlast g" "last g"] g show ?thesis by (simp add: fits_def)
qed

lemma group_loop_ok:
  assumes "38 \<le> n"
  shows "current \<noteq> [] \<Longrightarrow> (2 \<le> length current \<longrightarrow> fits n current) \<Longrightarrow>
    \<forall>g \<in> set groups. fits n g \<and> 3 \<le> length g \<Longrightarrow>
    \<exists>groups' current'. group_loop n children groups current = Inr (groups', current') \<and>
      concat groups' @ current' = concat groups @ current @ children \<and> current' \<noteq> [] \<and>
      (2 \<le> length current' \<longrightarrow> fits n current') \<and> (\<forall>g \<in> set groups'. fits n g \<and> 3 \<le> length g)"
proof (induction children arbitrary: groups current)
  case (Cons c children)
  have b: "build_internal_page (current @ [c]) = Inr (ref_page (current @ [c]))"
    using Cons.prems(1) by (intro build_internal_page_eq) (simp add: Suc_le_eq)
  show ?case
  proof (cases "fits n (current @ [c])")
    case True
    with b Cons.IH [of "current @ [c]" groups] Cons.prems show ?thesis
      by (simp add: internal_encoded_len_ref_page fits_def)
  next
    case False
    then have "3 \<le> length current"
      using fits_small [of "current @ [c]" n] assms Cons.prems(1) by (cases current) fastforce+
    then have "fits n current" "\<forall>g \<in> set (groups @ [current]). fits n g \<and> 3 \<le> length g"
      using Cons.prems(2,3) by auto
    moreover have "\<not> internal_encoded_len (ref_page (current @ [c])) \<le> n"
      using False Cons.prems(1) by (simp add: internal_encoded_len_ref_page fits_def Suc_le_eq)
    ultimately show ?thesis using b Cons.IH [of "[c]" "groups @ [current]"] by simp
  qed
qed auto

lemma group_children_ok:
  assumes "38 \<le> n" "2 \<le> length children"
  shows "\<exists>groups. group_children_for_internal_pages children n = Inr groups \<and>
    concat groups = children \<and> (\<forall>g \<in> set groups. fits n g)"
proof -
  obtain a b rest where ch: "children = a # b # rest"
    using assms(2) by (cases children; cases "tl children") auto
  have "fits n [a, b]" by (rule fits_small) (use assms in auto)
  then obtain gs cur where g: "group_loop n rest [] [a, b] = Inr (gs, cur)"
    "concat gs @ cur = children" "cur \<noteq> []" "2 \<le> length cur \<longrightarrow> fits n cur"
    "\<forall>g \<in> set gs. fits n g \<and> 3 \<le> length g"
    using group_loop_ok [OF assms(1), of "[a, b]" "[]" rest] ch by auto
  show ?thesis
  proof (cases "length cur = 1")
    case False
    with g(3) have "2 \<le> length cur" by (cases cur) (auto simp: Suc_le_eq)
    with False g ch show ?thesis by (auto simp: group_children_for_internal_pages_def)
  next
    case True
    with g(2) assms(2) have ne: "gs \<noteq> []" by auto
    then obtain pre lst where gs: "gs = pre @ [lst]" by (metis rev_exhaust)
    then have l: "fits n lst" "3 \<le> length lst" using g(5) by auto
    then have ln: "lst \<noteq> []" by auto
    have "fits n (last lst # cur)" by (rule fits_small) (use True assms in auto)
    moreover have "concat pre @ butlast lst @ last lst # cur = children"
      using g(2) gs ln by (metis append.assoc append_butlast_last_id append_Cons append_Nil concat.simps concat_append append_Nil2)
    ultimately show ?thesis
      using True g ch gs ln l fits_butlast [OF l]
      by (auto simp: group_children_for_internal_pages_def)
  qed
qed

lemma concat_length_ge: "\<forall>g \<in> set gs. k \<le> length g \<Longrightarrow> k * length gs \<le> length (concat gs)"
  by (induction gs) auto

lemma concat_map_concat: "concat (map concat xsss) = concat (concat xsss)"
  by (induction xsss) auto

section \<open>Trees survive the growth of the store\<close>

lemma holds_page_mono: "holds_page m p page \<Longrightarrow> m \<subseteq>\<^sub>m m' \<Longrightarrow> holds_page m' p page"
  unfolding holds_page_def map_le_def by (metis domI)

lemma is_chain_mono: "is_chain m h ids cs \<Longrightarrow> m \<subseteq>\<^sub>m m' \<Longrightarrow> is_chain m' h ids cs"
proof (rule is_chain_cong [of m])
  fix p
  assume "is_chain m h ids cs" "m \<subseteq>\<^sub>m m'" "p \<in> set ids"
  then show "m' p = m p" using is_chain_live [of m h ids cs p] by (metis domIff map_le_def)
qed

lemma subtree_mono: "subtree h m p ls \<Longrightarrow> m \<subseteq>\<^sub>m m' \<Longrightarrow> subtree h m' p ls"
proof (induction h arbitrary: p ls)
  case 0
  then show ?case by (auto intro: holds_page_mono)
next
  case (Suc h)
  from Suc.prems(1) obtain ip lss where l: "holds_page m p (InternalNode ip)"
    "list_all2 (subtree h m) (map ic_child (ip_cells ip) @ [ip_right_child ip]) lss"
    "ls = concat lss" "map ic_key (ip_cells ip) = map (\<lambda>xs. lc_key (hd (flat xs))) (tl lss)"
    unfolding subtree.simps by blast
  have "list_all2 (subtree h m') (map ic_child (ip_cells ip) @ [ip_right_child ip]) lss"
    using l(2) by (rule list_all2_mono) (use Suc in blast)
  with l holds_page_mono [OF l(1) Suc.prems(2)] show ?case unfolding subtree.simps by blast
qed

lemma cell_holds_mono: "cell_holds m c e \<Longrightarrow> m \<subseteq>\<^sub>m m' \<Longrightarrow> cell_holds m' c e"
  unfolding cell_holds_def by (auto split: option.splits dest: is_chain_mono)

text \<open>References to subtrees of one height, and a level of internal pages over them.\<close>

definition refs_ok ::
  "nat \<Rightarrow> (page_id \<Rightarrow> bytes option) \<Rightarrow> ChildRef list \<Rightarrow> (page_id \<times> LeafPage) list list \<Rightarrow> bool"
where
  "refs_ok h m refs lss \<longleftrightarrow>
     list_all2 (\<lambda>r ls. subtree h m (cr_page_id r) ls \<and> cr_first_key r = lc_key (hd (flat ls))) refs lss"

lemma refs_ok_mono: "refs_ok h m refs lss \<Longrightarrow> m \<subseteq>\<^sub>m m' \<Longrightarrow> refs_ok h m' refs lss"
  unfolding refs_ok_def by (erule list_all2_mono) (auto intro: subtree_mono)

lemma refs_ok_concat:
  "refs_ok h m (concat gs) lss \<Longrightarrow> \<exists>lsss. list_all2 (refs_ok h m) gs lsss \<and> concat lsss = lss"
proof (induction gs arbitrary: lss)
  case (Cons g gs)
  then obtain a b where "lss = a @ b" "refs_ok h m g a" "refs_ok h m (concat gs) b"
    by (auto simp: refs_ok_def list_all2_append1)
  with Cons.IH show ?case by (metis concat.simps(2) list_all2_Cons)
qed (simp add: refs_ok_def)

lemma ref_cells_children: "2 \<le> length g \<Longrightarrow> map ic_child (ref_cells g) @ [cr_page_id (last g)] = map cr_page_id g"
proof -
  assume "2 \<le> length g"
  then have g: "g = butlast g @ [last g]" by (cases g rule: rev_cases) auto
  have "map ic_child (ref_cells g) = map cr_page_id (map fst (zip (butlast g) (tl g)))"
    unfolding ref_cells_def by (simp add: comp_def case_prod_unfold del: map_fst_zip map_snd_zip)
  also have "\<dots> = map cr_page_id (butlast g)" by (subst map_fst_zip) simp_all
  finally show ?thesis by (subst (3) g) (simp only: map_append list.map)
qed

lemma ref_cells_keys: "map ic_key (ref_cells g) = map cr_first_key (tl g)"
proof -
  have "map ic_key (ref_cells g) = map cr_first_key (map snd (zip (butlast g) (tl g)))"
    unfolding ref_cells_def by (simp add: comp_def case_prod_unfold del: map_fst_zip map_snd_zip)
  also have "\<dots> = map cr_first_key (tl g)" by (subst map_snd_zip) simp_all
  finally show ?thesis .
qed

lemma list_all2_map_eq: "list_all2 (\<lambda>x y. f x = k y) xs ys \<Longrightarrow> map f xs = map k ys"
  by (induction rule: list_all2_induct) auto

lemma ref_page_subtree:
  assumes "2 \<le> length g" "refs_ok h m g lss" "m \<subseteq>\<^sub>m m'" "holds_page m' p (InternalNode (ref_page g))"
  shows "subtree (Suc h) m' p (concat lss) \<and> cr_first_key (hd g) = lc_key (hd (flat (concat lss)))"
proof -
  have r: "refs_ok h m' g lss" by (rule refs_ok_mono [OF assms(2,3)])
  then have "list_all2 (subtree h m') (map cr_page_id g) lss"
    unfolding refs_ok_def list_all2_map1 by (rule list_all2_mono) blast
  moreover have "map cr_first_key (tl g) = map (\<lambda>xs. lc_key (hd (flat xs))) (tl lss)"
  proof (rule list_all2_map_eq)
    show "list_all2 (\<lambda>x ls. cr_first_key x = lc_key (hd (flat ls))) (tl g) (tl lss)"
      using r unfolding refs_ok_def by (cases g; cases lss) (auto elim: list_all2_mono)
  qed
  ultimately have "subtree (Suc h) m' p (concat lss)"
    using assms(1,4) unfolding subtree.simps
    by (intro exI [of _ "ref_page g"] exI [of _ lss])
       (simp add: ref_page_def ref_cells_children ref_cells_keys)
  moreover have "cr_first_key (hd g) = lc_key (hd (flat (concat lss)))"
  proof -
    obtain x g' where "g = x # g'" using assms(1) by (cases g) auto
    with r obtain ls lss' where "lss = ls # lss'" "subtree h m' (cr_page_id x) ls"
      "cr_first_key x = lc_key (hd (flat ls))" by (auto simp: refs_ok_def list_all2_Cons1)
    with flat_nonempty [of h m' "cr_page_id x" ls] \<open>g = x # g'\<close> show ?thesis by simp
  qed
  ultimately show ?thesis ..
qed

lemma with_store_Some [simp]:
  "m (bt_store b) = Some (r, s') \<Longrightarrow> with_store m b = Some (r, b\<lparr>bt_store := s'\<rparr>)"
  by (simp add: with_store_def)

lemma bt_btree_pages_append: "bt_btree_pages_update (\<lambda>ps. ps @ ids) b = b\<lparr>bt_btree_pages := bt_btree_pages b @ ids\<rparr>"
  by (cases b) simp

lemma btree_upd_simp [simp]: "btree_upd f b = Some (Inr (), f b)"
  by (simp add: btree_upd_def)

text \<open>The written leaves: each specification with the id of the next page as its link.\<close>

definition link_leaves :: "page_id list \<Rightarrow> LeafPage list \<Rightarrow> (page_id \<times> LeafPage) list" where
  "link_leaves ids leaves = map (\<lambda>i. (ids ! i, (leaves ! i)\<lparr>lp_next_leaf :=
     (case get_at ids (i + 1) of None \<Rightarrow> 0 | Some q \<Rightarrow> q)\<rparr>)) [0..<length leaves]"

lemma length_link_leaves [simp]: "length (link_leaves ids leaves) = length leaves"
  by (simp add: link_leaves_def)

lemma linkedI:
  "\<forall>i. i + 1 < length ls \<longrightarrow> lp_next_leaf (snd (ls ! i)) = fst (ls ! (i + 1)) \<and> fst (ls ! (i + 1)) \<noteq> 0 \<Longrightarrow>
     ls \<noteq> [] \<longrightarrow> lp_next_leaf (snd (last ls)) = 0 \<Longrightarrow> linked ls"
proof (induction ls rule: linked.induct)
  case (3 x y ls)
  have "\<forall>i. i + 1 < length (y # ls) \<longrightarrow> lp_next_leaf (snd ((y # ls) ! i)) = fst ((y # ls) ! (i + 1)) \<and>
      fst ((y # ls) ! (i + 1)) \<noteq> 0"
  proof (intro allI impI)
    fix i
    assume "i + 1 < length (y # ls)"
    with 3(2) [rule_format, of "Suc i"]
    show "lp_next_leaf (snd ((y # ls) ! i)) = fst ((y # ls) ! (i + 1)) \<and> fst ((y # ls) ! (i + 1)) \<noteq> 0"
      by simp
  qed
  moreover have "lp_next_leaf (snd x) = fst y \<and> fst y \<noteq> 0" using 3(2) [rule_format, of 0] by simp
  ultimately show ?case using 3 by simp
qed auto

lemma link_leaves_linked:
  "length ids = length leaves \<Longrightarrow> \<forall>p \<in> set ids. p \<noteq> 0 \<Longrightarrow> linked (link_leaves ids leaves)"
  by (rule linkedI) (auto simp: link_leaves_def last_map get_at_def nth_append)

lemma flat_link_leaves: "flat (link_leaves ids leaves) = concat (map lp_cells leaves)"
proof -
  have "map (\<lambda>x. lp_cells (snd x)) (link_leaves ids leaves) = map (\<lambda>i. lp_cells (leaves ! i)) [0..<length leaves]"
    by (simp add: link_leaves_def comp_def)
  also have "\<dots> = map lp_cells leaves" by (rule nth_equalityI) simp_all
  finally show ?thesis by simp
qed

lemma link_leaves_refs:
  assumes "length ids = length leaves" "\<forall>l \<in> set leaves. lp_cells l \<noteq> []"
    and "\<forall>i < length leaves. holds_page m (ids ! i) (LeafNode ((leaves ! i)\<lparr>lp_next_leaf :=
       (case get_at ids (i + 1) of None \<Rightarrow> 0 | Some q \<Rightarrow> q)\<rparr>))"
  shows "refs_ok 0 m (map (\<lambda>(l, p). \<lparr>cr_first_key = lc_key (hd (lp_cells l)), cr_page_id = p\<rparr>) (zip leaves ids))
    (map (\<lambda>x. [x]) (link_leaves ids leaves))"
  unfolding refs_ok_def list_all2_conv_all_nth using assms by (simp add: link_leaves_def)

text \<open>Leaves the packer may emit, and the chains its overflow cells point to.\<close>

definition good_leaf :: "nat \<Rightarrow> LeafPage \<Rightarrow> bool" where
  "good_leaf n l \<longleftrightarrow> lp_cells l \<noteq> [] \<and> leaf_page_ok l \<and> leaf_encoded_len l \<le> n"

definition ovf_chains :: "(page_id \<Rightarrow> bytes option) \<Rightarrow> page_id list \<Rightarrow> page_id list list \<Rightarrow> bool" where
  "ovf_chains m heads idss \<longleftrightarrow> list_all2 (\<lambda>h ids. \<exists>cs. is_chain m h ids cs) heads idss"

definition value_pages :: "nat \<Rightarrow> nat \<Rightarrow> bytes \<Rightarrow> nat" where
  "value_pages n limit v = (if length v > limit then div_ceil (length v) (n - 8) else 0)"

lemma ovf_chains_mono: "ovf_chains m hs idss \<Longrightarrow> m \<subseteq>\<^sub>m m' \<Longrightarrow> ovf_chains m' hs idss"
  unfolding ovf_chains_def by (erule list_all2_mono) (auto dest: is_chain_mono)

lemma ovf_chains_append: "ovf_chains m hs xss \<Longrightarrow> ovf_chains m gs yss \<Longrightarrow> ovf_chains m (hs @ gs) (xss @ yss)"
  unfolding ovf_chains_def by (rule list_all2_appendI)

lemma leaf_cells_len_ge: "2 * length cells \<le> leaf_cells_len delta prev cells"
proof (induction cells arbitrary: prev)
  case (Cons c cells)
  show ?case
    using Cons.IH [of "lc_key c"] encode_varint_length(1) [of "encoded_key delta prev (lc_key c)"]
      encode_varint_length(1) [of "leaf_control c"] by simp
qed simp

lemma good_leafI:
  assumes "cells \<noteq> []" "\<forall>c \<in> set cells. leaf_cell_ok c" "leaf_encoded_len (leaf_spec cells) \<le> n" "n \<le> 16384"
  shows "good_leaf n (leaf_spec cells)"
  using assms leaf_cells_len_ge [of cells False 0]
  by (simp add: good_leaf_def leaf_page_ok_def keys_ok_def leaf_spec_def leaf_encoded_len_def)

lemma single_leaf_len: "leaf_encoded_len (leaf_spec [c]) \<le> 28 + length (lc_value c)"
  using encode_varint_length(2) [of "encoded_key False 0 (lc_key c)"]
    encode_varint_length(2) [of "leaf_control c"]
  by (simp add: leaf_encoded_len_def leaf_spec_def PAGE_HEADER_SIZE_def)

text \<open>
  The pages a tree owns: those it lists and the chains its overflow heads lead to,
  all distinct.  A tree is in order when it owns its pages and represents its entry
  map, of values the overflow format can hold, on a supported page size.
\<close>

definition btree_owns ::
  "('s \<Rightarrow> bool) \<Rightarrow> ('s \<Rightarrow> page_id \<Rightarrow> bytes option) \<Rightarrow> 's Btree \<Rightarrow> page_id list list \<Rightarrow> bool"
where
  "btree_owns ok pages b idss \<longleftrightarrow> ok (bt_store b) \<and>
     ovf_chains (pages (bt_store b)) (bt_overflow_heads b) idss \<and>
     distinct (bt_btree_pages b @ concat idss) \<and>
     (\<forall>p \<in> set (bt_btree_pages b). pages (bt_store b) p \<noteq> None)"

definition btree_conf :: "'s page_store_ops \<Rightarrow> 's Btree \<Rightarrow> bool" where
  "btree_conf ops b \<longleftrightarrow> is_supported_page_size (ps_page_size ops (bt_store b)) \<and>
     bt_inline_value_limit b = min 512 (bt_page_bytes ops b div 4) \<and>
     (\<forall>v \<in> snd ` set (RBT.entries (bt_entries b)). length v < 2 ^ 32)"

definition btree_inv ::
  "'s page_store_ops \<Rightarrow> ('s \<Rightarrow> bool) \<Rightarrow> ('s \<Rightarrow> page_id \<Rightarrow> bytes option) \<Rightarrow> 's Btree \<Rightarrow> bool"
where
  "btree_inv ops ok pages b \<longleftrightarrow> (\<exists>idss. btree_owns ok pages b idss) \<and> btree_conf ops b \<and>
     represents (pages (bt_store b)) (bt_root_page_id b) (RBT.entries (bt_entries b))"

text \<open>A bound on the pages a rebuild takes: leaves, internal pages and overflow pages.\<close>

definition pages_needed :: "'s page_store_ops \<Rightarrow> 's Btree \<Rightarrow> (u64 \<times> bytes) list \<Rightarrow> nat" where
  "pages_needed ops b es = 2 * length es +
     sum_list (map (\<lambda>(k, v). value_pages (bt_page_bytes ops b) (bt_inline_value_limit b) v) es)"

section \<open>Building the levels\<close>

context page_store
begin

text \<open>\<open>grows s s' ps\<close>: the store gained exactly the pages \<open>ps\<close> and lost or changed none.\<close>

definition grows :: "'s \<Rightarrow> 's \<Rightarrow> page_id list \<Rightarrow> bool" where
  "grows s s' ps \<longleftrightarrow> inv s' \<and> pages s \<subseteq>\<^sub>m pages s' \<and> dom (pages s') = dom (pages s) \<union> set ps \<and>
     set ps \<inter> dom (pages s) = {} \<and> distinct ps \<and> ps_page_size ops s' = ps_page_size ops s \<and>
     room s = room s' + length ps"

lemma grows_refl: "inv s \<Longrightarrow> grows s s []"
  by (simp add: grows_def)

lemma grows_trans: "grows s s' ps \<Longrightarrow> grows s' s'' qs \<Longrightarrow> grows s s'' (ps @ qs)"
  unfolding grows_def by (auto intro: map_le_trans)

lemma growsI:
  assumes "inv s'" "\<And>p. p \<in> set ids \<Longrightarrow> pages s p = None \<and> pages s' p \<noteq> None"
    and "\<And>q. q \<notin> set ids \<Longrightarrow> pages s' q = pages s q" "distinct ids"
    and "ps_page_size ops s' = ps_page_size ops s" "room s = room s' + length ids"
  shows "grows s s' ids"
  unfolding grows_def
proof (intro conjI)
  have d: "a \<notin> set ids" if "a \<in> dom (pages s)" for a using assms(2) that by auto
  then show "pages s \<subseteq>\<^sub>m pages s'" unfolding map_le_def using assms(3) by metis
  show "dom (pages s') = dom (pages s) \<union> set ids"
  proof (intro set_eqI)
    fix q
    show "q \<in> dom (pages s') \<longleftrightarrow> q \<in> dom (pages s) \<union> set ids"
      using assms(2,3) [of q] by (cases "q \<in> set ids") (simp_all add: domIff)
  qed
  show "set ids \<inter> dom (pages s) = {}" using d by blast
qed (use assms in simp_all)

lemma write_internal_ok:
  assumes "inv (bt_store b)" "0 < room (bt_store b)" "fits (bt_page_bytes ops b) g"
    and "bt_page_bytes ops b \<le> 16384"
  shows "\<exists>p s'. write_internal ops g b =
      Some (Inr \<lparr>cr_first_key = cr_first_key (hd g), cr_page_id = p\<rparr>,
        b\<lparr>bt_store := s', bt_btree_pages := bt_btree_pages b @ [p]\<rparr>) \<and>
    grows (bt_store b) s' [p] \<and> holds_page (pages s') p (InternalNode (ref_page g))"
proof -
  let ?s = "bt_store b" and ?n = "bt_page_bytes ops b"
  have len: "2 \<le> length g" "internal_encoded_len (ref_page g) \<le> ?n"
    using assms(3) by (simp_all add: fits_def internal_encoded_len_ref_page)
  have "2 * length (ref_cells g) \<le> 16384"
    using sum_ref_bytes(1) [of "ref_cells g"] assms(3,4) by (simp add: fits_def)
  then have "internal_page_ok (ref_page g)"
    by (simp add: internal_page_ok_def keys_ok_def ref_page_def)
  from internal_encode_ok [OF this len(2)] obtain bs where
    bs: "internal_encode (ref_page g) ?n = Inr bs" "length bs = ?n"
      "decode_page bs = Inr (InternalNode (ref_page g))" by blast
  from page_alloc [OF assms(1,2)] obtain p s1 where
    a: "ps_allocate_page ops ?s = (Inr p, s1)" "inv s1" "pages ?s p = None"
      "pages s1 = (pages ?s)(p \<mapsto> zeroed_page (ps_page_size ops ?s))"
      "ps_page_size ops s1 = ps_page_size ops ?s" "room s1 = room ?s - 1" by blast
  then have "pages s1 p \<noteq> None" "length bs = unat (ps_page_size ops s1)"
    using bs(2) by (simp_all add: bt_page_bytes_def)
  from page_write [OF a(2) this] obtain s' where
    w: "ps_write_page ops p bs s1 = (Inr (), s')" "inv s'" "pages s' = (pages s1)(p \<mapsto> bs)"
      "ps_page_size ops s' = ps_page_size ops s1" "room s' = room s1" by blast
  have pages: "pages s' = (pages ?s)(p \<mapsto> bs)" using w(3) a(4) by (auto simp: fun_eq_iff)
  have "grows ?s s' [p]"
    using a w(2,4,5) assms(2) by (auto simp: grows_def pages map_le_def)
  moreover have "holds_page (pages s') p (InternalNode (ref_page g))"
    using bs(3) by (simp add: holds_page_def pages)
  moreover have "write_internal ops g b =
      Some (Inr \<lparr>cr_first_key = cr_first_key (hd g), cr_page_id = p\<rparr>,
        b\<lparr>bt_store := s', bt_btree_pages := bt_btree_pages b @ [p]\<rparr>)"
    using bs(1) len(1) a(1,5) w(1)
    by (simp add: write_internal_def build_internal_page_eq bt_page_bytes_def)
  ultimately show ?thesis by blast
qed

lemma write_level_ok:
  "inv (bt_store b) \<Longrightarrow> length groups \<le> room (bt_store b) \<Longrightarrow> bt_page_bytes ops b \<le> 16384 \<Longrightarrow>
     \<forall>g \<in> set groups. fits (bt_page_bytes ops b) g \<Longrightarrow>
     list_all2 (refs_ok h (pages (bt_store b))) groups lsss \<Longrightarrow>
     \<exists>refs s' ps. pmapM (write_internal ops) groups b =
         Some (Inr refs, b\<lparr>bt_store := s', bt_btree_pages := bt_btree_pages b @ ps\<rparr>) \<and>
       grows (bt_store b) s' ps \<and> refs_ok (Suc h) (pages s') refs (map concat lsss) \<and>
       length ps = length groups"
proof (induction groups arbitrary: b lsss)
  case Nil
  then show ?case
    by (intro exI [of _ "[]"] exI [of _ "bt_store b"]) (simp add: refs_ok_def grows_refl)
next
  case (Cons g groups)
  let ?m = "pages (bt_store b)"
  obtain lss lsss' where l: "lsss = lss # lsss'" "refs_ok h ?m g lss" "list_all2 (refs_ok h ?m) groups lsss'"
    using Cons.prems(5) by (auto simp: list_all2_Cons1)
  have g: "fits (bt_page_bytes ops b) g" and rm: "0 < room (bt_store b)" using Cons.prems by auto
  from write_internal_ok [OF Cons.prems(1) rm g Cons.prems(3)] obtain p s1 where
    w: "write_internal ops g b = Some (Inr \<lparr>cr_first_key = cr_first_key (hd g), cr_page_id = p\<rparr>,
        b\<lparr>bt_store := s1, bt_btree_pages := bt_btree_pages b @ [p]\<rparr>)"
      "grows (bt_store b) s1 [p]" "holds_page (pages s1) p (InternalNode (ref_page g))" by blast
  let ?b = "b\<lparr>bt_store := s1, bt_btree_pages := bt_btree_pages b @ [p]\<rparr>"
  have le: "?m \<subseteq>\<^sub>m pages s1" and inv1: "inv s1" and rm1: "length groups \<le> room s1"
    and sz: "bt_page_bytes ops ?b = bt_page_bytes ops b"
    using w(2) Cons.prems(2) by (auto simp: grows_def bt_page_bytes_def)
  have l1: "list_all2 (refs_ok h (pages s1)) groups lsss'"
    using l(3) by (rule list_all2_mono) (rule refs_ok_mono [OF _ le])
  have "2 \<le> length g" using g by (simp add: fits_def)
  note st = ref_page_subtree [OF this l(2) le w(3)]
  from Cons.IH [of ?b lsss'] inv1 rm1 sz l1 Cons.prems(3,4) obtain refs s' ps where
    r: "pmapM (write_internal ops) groups ?b =
         Some (Inr refs, ?b\<lparr>bt_store := s', bt_btree_pages := bt_btree_pages ?b @ ps\<rparr>)"
      "grows s1 s' ps" "refs_ok (Suc h) (pages s') refs (map concat lsss')" "length ps = length groups"
    by auto
  have "subtree (Suc h) (pages s') p (concat lss)"
    by (rule subtree_mono [of _ "pages s1"]) (use st r(2) in \<open>auto simp: grows_def\<close>)
  with st r l(1) w(1) grows_trans [OF w(2) r(2)] show ?case
    by (intro exI [of _ "\<lparr>cr_first_key = cr_first_key (hd g), cr_page_id = p\<rparr> # refs"]
        exI [of _ s'] exI [of _ "p # ps"]) (simp add: refs_ok_def del: subtree.simps)
qed

lemma build_levels_ok:
  "inv (bt_store b) \<Longrightarrow> refs \<noteq> [] \<Longrightarrow> length refs \<le> Suc (room (bt_store b)) \<Longrightarrow>
     38 \<le> bt_page_bytes ops b \<Longrightarrow> bt_page_bytes ops b \<le> 16384 \<Longrightarrow>
     refs_ok h (pages (bt_store b)) refs lss \<Longrightarrow>
     \<exists>r s' ps h'. build_levels ops refs b =
         Some (Inr [r], b\<lparr>bt_store := s', bt_btree_pages := bt_btree_pages b @ ps\<rparr>) \<and>
       grows (bt_store b) s' ps \<and> subtree h' (pages s') (cr_page_id r) (concat lss)"
proof (induction "length refs" arbitrary: refs b h lss rule: less_induct)
  case less
  show ?case
  proof (cases "length refs = 1")
    case True
    then obtain r where "refs = [r]" by (cases refs) auto
    moreover from this less.prems(6) obtain ls where "lss = [ls]" "subtree h (pages (bt_store b)) (cr_page_id r) ls"
      by (auto simp: refs_ok_def list_all2_Cons1)
    ultimately show ?thesis
      using grows_refl [OF less.prems(1)]
      by (intro exI [of _ r] exI [of _ "bt_store b"] exI [of _ "[]"] exI [of _ h])
         (simp add: build_levels.simps del: subtree.simps)
  next
    case False
    then have two: "2 \<le> length refs" using less.prems(2) by (cases refs) (auto simp: Suc_le_eq)
    let ?n = "bt_page_bytes ops b"
    from group_children_ok [OF less.prems(4) two] obtain groups where
      g: "group_children_for_internal_pages refs ?n = Inr groups" "concat groups = refs"
        "\<forall>g \<in> set groups. fits ?n g" by blast
    have half: "2 * length groups \<le> length refs"
      using concat_length_ge [of groups 2] g(2,3) by (simp add: fits_def)
    have gne: "groups \<noteq> []" using g(2) less.prems(2) by auto
    obtain lsss where ls: "list_all2 (refs_ok h (pages (bt_store b))) groups lsss" "concat lsss = lss"
      using refs_ok_concat [of h _ groups lss] less.prems(6) g(2) by blast
    have "length groups \<le> room (bt_store b)" using half gne less.prems(3) two by linarith
    from write_level_ok [OF less.prems(1) this less.prems(5) g(3) ls(1)] obtain refs' s1 ps where
      w: "pmapM (write_internal ops) groups b =
         Some (Inr refs', b\<lparr>bt_store := s1, bt_btree_pages := bt_btree_pages b @ ps\<rparr>)"
        "grows (bt_store b) s1 ps" "refs_ok (Suc h) (pages s1) refs' (map concat lsss)"
        "length ps = length groups" by blast
    let ?b = "b\<lparr>bt_store := s1, bt_btree_pages := bt_btree_pages b @ ps\<rparr>"
    have len': "length refs' = length groups"
      using w(3) ls(1) by (auto simp: refs_ok_def dest!: list_all2_lengthD)
    have sz: "bt_page_bytes ops ?b = ?n" and inv1: "inv s1" and rm: "room (bt_store b) = room s1 + length groups"
      using w(2,4) by (auto simp: grows_def bt_page_bytes_def)
    have lt: "length refs' < length refs" "length refs' \<le> Suc (room (bt_store ?b))"
      using half len' two less.prems(3) rm by simp_all
    have ne: "refs' \<noteq> []" using gne len' by auto
    have pre: "inv (bt_store ?b)" "38 \<le> bt_page_bytes ops ?b" "bt_page_bytes ops ?b \<le> 16384"
      "refs_ok (Suc h) (pages (bt_store ?b)) refs' (map concat lsss)"
      using inv1 sz less.prems(4,5) w(3) by simp_all
    from less.hyps [OF lt(1) pre(1) ne lt(2) pre(2-4)] obtain r s' qs h' where
      r: "build_levels ops refs' ?b = Some (Inr [r], ?b\<lparr>bt_store := s', bt_btree_pages := bt_btree_pages ?b @ qs\<rparr>)"
        "grows (bt_store ?b) s' qs" "subtree h' (pages s') (cr_page_id r) (concat (map concat lsss))" by blast
    have "build_levels ops refs b = build_levels ops refs' ?b"
      using two g(1) w(1) by (subst build_levels.simps) simp
    moreover have "concat (map concat lsss) = concat lss" using ls(2) concat_map_concat by metis
    ultimately show ?thesis
      using r grows_trans [OF w(2), of s' qs]
      by (intro exI [of _ r] exI [of _ s'] exI [of _ "ps @ qs"] exI [of _ h']) simp
  qed
qed

section \<open>Leaves\<close>

text \<open>A leaf that fits is written over a live page and read back.\<close>

lemma write_leaves_ok:
  "inv (bt_store b) \<Longrightarrow> distinct ids \<Longrightarrow> \<forall>p \<in> set ids. pages (bt_store b) p \<noteq> None \<Longrightarrow>
     index + length leaves = length ids \<Longrightarrow>
     \<forall>l \<in> set leaves. lp_cells l \<noteq> [] \<and> leaf_page_ok l \<and> leaf_encoded_len l \<le> bt_page_bytes ops b \<Longrightarrow>
     \<exists>s'. write_leaves ops ids index leaves children b =
         Some (Inr (children @ map (\<lambda>(l, p). \<lparr>cr_first_key = lc_key (hd (lp_cells l)), cr_page_id = p\<rparr>)
                  (zip leaves (drop index ids))), b\<lparr>bt_store := s'\<rparr>) \<and>
       inv s' \<and> (\<forall>q. q \<notin> set (drop index ids) \<longrightarrow> pages s' q = pages (bt_store b) q) \<and>
       dom (pages s') = dom (pages (bt_store b)) \<and>
       ps_page_size ops s' = ps_page_size ops (bt_store b) \<and> room s' = room (bt_store b) \<and>
       (\<forall>i < length leaves. holds_page (pages s') (ids ! (index + i))
          (LeafNode ((leaves ! i)\<lparr>lp_next_leaf :=
             (case get_at ids (index + i + 1) of None \<Rightarrow> 0 | Some q \<Rightarrow> q)\<rparr>)))"
proof (induction leaves arbitrary: b index children)
  case Nil
  then show ?case by (intro exI [of _ "bt_store b"]) simp
next
  case (Cons l leaves)
  let ?s = "bt_store b"
  let ?next = "case get_at ids (index + 1) of None \<Rightarrow> 0 | Some q \<Rightarrow> q"
  let ?l = "l\<lparr>lp_next_leaf := ?next\<rparr>"
  let ?p = "ids ! index"
  let ?ref = "\<lparr>cr_first_key = lc_key (hd (lp_cells l)), cr_page_id = ?p\<rparr>"
  have dr: "drop index ids = ?p # drop (Suc index) ids"
    using Cons.prems(4) by (simp add: Cons_nth_drop_Suc)
  have nin: "?p \<notin> set (drop (Suc index) ids)"
    using Cons.prems(2) dr distinct_drop [of ids index] by simp
  have "leaf_page_ok ?l" "leaf_encoded_len ?l \<le> bt_page_bytes ops b"
    using Cons.prems(5) by (auto simp: leaf_page_ok_def leaf_encoded_len_def)
  from leaf_encode_ok [OF this] obtain bs where
    bs: "leaf_encode ?l (bt_page_bytes ops b) = Inr bs" "length bs = bt_page_bytes ops b"
      "decode_page bs = Inr (LeafNode ?l)" by blast
  have "pages ?s ?p \<noteq> None" using Cons.prems(3,4) by (simp add: nth_mem)
  from page_write [OF Cons.prems(1) this] bs(2) obtain s1 where
    w: "ps_write_page ops ?p bs ?s = (Inr (), s1)" "inv s1" "pages s1 = (pages ?s)(?p \<mapsto> bs)"
      "ps_page_size ops s1 = ps_page_size ops ?s" "room s1 = room ?s"
    unfolding bt_page_bytes_def by blast
  let ?b = "b\<lparr>bt_store := s1\<rparr>"
  have pre: "inv (bt_store ?b)" "\<forall>p \<in> set ids. pages (bt_store ?b) p \<noteq> None"
    "(index + 1) + length leaves = length ids"
    "\<forall>l \<in> set leaves. lp_cells l \<noteq> [] \<and> leaf_page_ok l \<and> leaf_encoded_len l \<le> bt_page_bytes ops ?b"
    using w Cons.prems by (auto simp: bt_page_bytes_def)
  from Cons.IH [OF pre(1) Cons.prems(2) pre(2-4), of "children @ [?ref]"] obtain s' where
    r: "write_leaves ops ids (index + 1) leaves (children @ [?ref]) ?b =
         Some (Inr ((children @ [?ref]) @ map (\<lambda>(l, p). \<lparr>cr_first_key = lc_key (hd (lp_cells l)), cr_page_id = p\<rparr>)
                  (zip leaves (drop (index + 1) ids))), ?b\<lparr>bt_store := s'\<rparr>)"
      "inv s'" "\<forall>q. q \<notin> set (drop (index + 1) ids) \<longrightarrow> pages s' q = pages s1 q"
      "dom (pages s') = dom (pages s1)"
      "ps_page_size ops s' = ps_page_size ops s1" "room s' = room s1"
      "\<forall>i < length leaves. holds_page (pages s') (ids ! (index + 1 + i))
          (LeafNode ((leaves ! i)\<lparr>lp_next_leaf :=
             (case get_at ids (index + 1 + i + 1) of None \<Rightarrow> 0 | Some q \<Rightarrow> q)\<rparr>))"
    by auto
  have here: "holds_page (pages s') ?p (LeafNode ?l)"
    using r(3) nin w(3) bs(3) by (simp add: holds_page_def)
  have "write_leaves ops ids index (l # leaves) children b =
      write_leaves ops ids (index + 1) leaves (children @ [?ref]) ?b"
    using Cons.prems(5) bs(1) w(1) by (simp add: Let_def)
  moreover have "dom (pages s1) = dom (pages ?s)" using w(3) \<open>pages ?s ?p \<noteq> None\<close> by auto
  moreover have "holds_page (pages s') (ids ! (index + i)) (LeafNode (((l # leaves) ! i)\<lparr>lp_next_leaf :=
             (case get_at ids (index + i + 1) of None \<Rightarrow> 0 | Some q \<Rightarrow> q)\<rparr>))" if "i < length (l # leaves)" for i
    using that here r(7) by (cases i) auto
  ultimately show ?case
    using r(1-6) w(3-5) dr by (intro exI [of _ s']) auto
qed

section \<open>Packing the entries\<close>

lemma build_cell_ok:
  assumes "inv (bt_store b)" "8 < bt_page_bytes ops b" "length v < 2 ^ 32" "bt_inline_value_limit b \<le> 512"
    and "value_pages (bt_page_bytes ops b) (bt_inline_value_limit b) v \<le> room (bt_store b)"
  shows "\<exists>cell s' hs idss. build_cell z ops key v b =
      Some (Inr cell, b\<lparr>bt_store := s', bt_overflow_heads := bt_overflow_heads b @ hs\<rparr>) \<and>
    grows (bt_store b) s' (concat idss) \<and> ovf_chains (pages s') hs idss \<and>
    length (concat idss) = value_pages (bt_page_bytes ops b) (bt_inline_value_limit b) v \<and>
    cell_holds (pages s') cell (key, v) \<and> leaf_cell_ok cell \<and> length (lc_value cell) \<le> 512"
proof (cases "length v > bt_inline_value_limit b")
  case False
  then show ?thesis
    using assms grows_refl [OF assms(1)]
    by (intro exI [of _ "leaf_cell_inline key v"] exI [of _ "bt_store b"] exI [of _ "[]"])
       (auto simp: build_cell_def ovf_chains_def value_pages_def cell_holds_def leaf_cell_ok_def leaf_cell_inline_def)
next
  case True
  let ?s = "bt_store b"
  have "8 < unat (ps_page_size ops ?s)" "div_ceil (length v) (unat (ps_page_size ops ?s) - 8) \<le> room ?s"
    using assms(2,5) True by (simp_all add: value_pages_def bt_page_bytes_def)
  from write_stored_ok [OF assms(1) this] obtain h ids cs s' where
    w: "write_chain ops v ?s = Some (Inr h, s')" "inv s'" "distinct ids" "is_chain (pages s') h ids cs"
      "[] \<notin> set cs" "concat cs = v" "\<forall>p \<in> set ids. pages ?s p = None"
      "\<forall>q. q \<notin> set ids \<longrightarrow> pages s' q = pages ?s q" "ps_page_size ops s' = ps_page_size ops ?s"
      "room ?s = room s' + length ids" "length ids = div_ceil (length v) (unat (ps_page_size ops ?s) - 8)"
    by blast
  have "grows ?s s' ids"
    by (rule growsI) (use w is_chain_live [OF w(4)] in auto)
  then have "grows ?s s' (concat [ids])" by simp
  moreover have "build_cell z ops key v b = Some (Inr (leaf_cell_overflow key h),
      b\<lparr>bt_store := s', bt_overflow_heads := bt_overflow_heads b @ [h]\<rparr>)"
    using True w(1) assms(3)
    by (simp add: build_cell_def write_overflow_def maybe_compress_def Let_def checked_logical_len_def
        ok_or_def u32_try_from_def)
  ultimately show ?thesis
    using w(4-6,11) True
    by (intro exI [of _ "leaf_cell_overflow key h"] exI [of _ s'] exI [of _ "[h]"] exI [of _ "[ids]"])
       (auto simp: ovf_chains_def value_pages_def cell_holds_def leaf_cell_ok_def leaf_cell_overflow_def bt_page_bytes_def)
qed

lemma pack_leaves_ok:
  "inv (bt_store b) \<Longrightarrow> 540 \<le> bt_page_bytes ops b \<Longrightarrow> bt_page_bytes ops b \<le> 16384 \<Longrightarrow>
   bt_inline_value_limit b \<le> 512 \<Longrightarrow> \<forall>(k, v) \<in> set es. length v < 2 ^ 32 \<Longrightarrow>
   sum_list (map (\<lambda>(k, v). value_pages (bt_page_bytes ops b) (bt_inline_value_limit b) v) es) \<le> room (bt_store b) \<Longrightarrow>
   \<forall>c \<in> set current. leaf_cell_ok c \<Longrightarrow> leaf_encoded_len (leaf_spec current) \<le> bt_page_bytes ops b \<Longrightarrow>
   \<exists>specs' current' cells s' hs idss. pack_leaves z ops es specs current b =
       Some (Inr (specs @ specs', current'), b\<lparr>bt_store := s', bt_overflow_heads := bt_overflow_heads b @ hs\<rparr>) \<and>
     grows (bt_store b) s' (concat idss) \<and> ovf_chains (pages s') hs idss \<and>
     length (concat idss) = sum_list (map (\<lambda>(k, v). value_pages (bt_page_bytes ops b) (bt_inline_value_limit b) v) es) \<and>
     list_all2 (cell_holds (pages s')) cells es \<and>
     concat (map lp_cells specs') @ current' = current @ cells \<and>
     (\<forall>l \<in> set specs'. good_leaf (bt_page_bytes ops b) l) \<and> (\<forall>c \<in> set current'. leaf_cell_ok c) \<and>
     leaf_encoded_len (leaf_spec current') \<le> bt_page_bytes ops b"
proof (induction es arbitrary: b specs current)
  case Nil
  then show ?case
    by (intro exI [of _ "[]"] exI [of _ current] exI [of _ "bt_store b"])
       (simp add: grows_refl ovf_chains_def)
next
  case (Cons e es)
  obtain k v where e: "e = (k, v)" by (cases e)
  let ?s = "bt_store b" and ?n = "bt_page_bytes ops b" and ?lim = "bt_inline_value_limit b"
  let ?vp = "\<lambda>es. sum_list (map (\<lambda>(k, v). value_pages ?n ?lim v) es)"
  have "8 < ?n" "length v < 2 ^ 32" "value_pages ?n ?lim v \<le> room ?s" using Cons.prems e by auto
  from build_cell_ok [OF Cons.prems(1) this(1,2) Cons.prems(4) this(3), of z k] obtain cell s1 hs1 idss1 where
    c: "build_cell z ops k v b = Some (Inr cell, b\<lparr>bt_store := s1, bt_overflow_heads := bt_overflow_heads b @ hs1\<rparr>)"
      "grows ?s s1 (concat idss1)" "ovf_chains (pages s1) hs1 idss1" "length (concat idss1) = value_pages ?n ?lim v"
      "cell_holds (pages s1) cell (k, v)" "leaf_cell_ok cell" "length (lc_value cell) \<le> 512" by blast
  let ?b = "b\<lparr>bt_store := s1, bt_overflow_heads := bt_overflow_heads b @ hs1\<rparr>"
  have n1: "bt_page_bytes ops ?b = ?n" and inv1: "inv s1" and rm: "room ?s = room s1 + value_pages ?n ?lim v"
    using c(2,4) by (auto simp: grows_def bt_page_bytes_def)
  define full where "full \<longleftrightarrow> leaf_encoded_len (leaf_spec (current @ [cell])) > ?n"
  define specs1 where "specs1 = (if full then [leaf_spec current] else [])"
  define cur1 where "cur1 = (if full then [cell] else current @ [cell])"
  have one: "leaf_encoded_len (leaf_spec [cell]) \<le> ?n"
    using single_leaf_len [of cell] c(7) Cons.prems(2) by linarith
  then have ne: "full \<Longrightarrow> current \<noteq> []" by (auto simp: full_def)
  have step: "pack_leaves z ops (e # es) specs current b = pack_leaves z ops es (specs @ specs1) cur1 ?b"
    using c(1) n1 ne by (auto simp: e full_def specs1_def cur1_def)
  have good1: "\<forall>l \<in> set specs1. good_leaf ?n l"
    using good_leafI [OF ne Cons.prems(7,8,3)] by (simp add: specs1_def)
  have cells1: "concat (map lp_cells specs1) @ cur1 = current @ [cell]"
    by (simp add: specs1_def cur1_def leaf_spec_def)
  have ok1: "\<forall>c \<in> set cur1. leaf_cell_ok c" using Cons.prems(7) c(6) by (auto simp: cur1_def)
  have fit1: "leaf_encoded_len (leaf_spec cur1) \<le> bt_page_bytes ops ?b"
    using one n1 by (simp add: cur1_def full_def)
  have "inv (bt_store ?b)" "540 \<le> bt_page_bytes ops ?b" "bt_page_bytes ops ?b \<le> 16384"
    "bt_inline_value_limit ?b \<le> 512" "\<forall>(k, v) \<in> set es. length v < 2 ^ 32"
    "sum_list (map (\<lambda>(k, v). value_pages (bt_page_bytes ops ?b) (bt_inline_value_limit ?b) v) es) \<le> room (bt_store ?b)"
    using inv1 n1 rm Cons.prems e by simp_all
  from Cons.IH [OF this ok1 fit1, of "specs @ specs1"] obtain specs' cur' cells s' hs idss where
    r: "pack_leaves z ops es (specs @ specs1) cur1 ?b = Some (Inr ((specs @ specs1) @ specs', cur'),
         ?b\<lparr>bt_store := s', bt_overflow_heads := bt_overflow_heads ?b @ hs\<rparr>)"
      "grows s1 s' (concat idss)" "ovf_chains (pages s') hs idss" "length (concat idss) = ?vp es"
      "list_all2 (cell_holds (pages s')) cells es" "concat (map lp_cells specs') @ cur' = cur1 @ cells"
      "\<forall>l \<in> set specs'. good_leaf ?n l" "\<forall>c \<in> set cur'. leaf_cell_ok c" "leaf_encoded_len (leaf_spec cur') \<le> ?n"
    unfolding n1 by auto
  have le: "pages s1 \<subseteq>\<^sub>m pages s'" using r(2) by (simp add: grows_def)
  have "list_all2 (cell_holds (pages s')) (cell # cells) (e # es)"
    using r(5) cell_holds_mono [OF c(5) le] e by simp
  moreover have "concat (map lp_cells (specs1 @ specs')) @ cur' = current @ cell # cells"
  proof -
    have "concat (map lp_cells (specs1 @ specs')) @ cur' = (concat (map lp_cells specs1) @ cur1) @ cells"
      using r(6) by simp
    then show ?thesis unfolding cells1 by simp
  qed
  moreover have "grows ?s s' (concat (idss1 @ idss))" using grows_trans [OF c(2) r(2)] by simp
  moreover have "ovf_chains (pages s') (hs1 @ hs) (idss1 @ idss)"
    using ovf_chains_append [OF ovf_chains_mono [OF c(3) le] r(3)] .
  moreover have "length (concat (idss1 @ idss)) = ?vp (e # es)" using c(4) r(4) e by simp
  moreover have "\<forall>l \<in> set (specs1 @ specs'). good_leaf ?n l" using good1 r(7) by auto
  moreover have "pack_leaves z ops (e # es) specs current b = Some (Inr (specs @ (specs1 @ specs'), cur'),
      b\<lparr>bt_store := s', bt_overflow_heads := bt_overflow_heads b @ (hs1 @ hs)\<rparr>)"
    using step r(1) by simp
  ultimately show ?case using r(8,9) by blast
qed

section \<open>Freeing the previous tree\<close>

lemma free_heads_ok:
  "inv s \<Longrightarrow> ovf_chains (pages s) heads idss \<Longrightarrow> distinct (concat idss) \<Longrightarrow>
     \<exists>s'. pforeach (\<lambda>head. pbind (free_overflow ops head) (\<lambda>_. pret ())) heads s = Some (Inr (), s') \<and>
       inv s' \<and> pages s' = (\<lambda>q. if q \<in> set (concat idss) then None else pages s q) \<and>
       ps_page_size ops s' = ps_page_size ops s \<and> room s' = room s + length (concat idss)"
proof (induction heads arbitrary: s idss)
  case Nil
  then show ?case by (simp add: ovf_chains_def)
next
  case (Cons h heads)
  then obtain ids idss' cs where i: "idss = ids # idss'" "is_chain (pages s) h ids cs" "ovf_chains (pages s) heads idss'"
    by (auto simp: ovf_chains_def list_all2_Cons1)
  have dist: "distinct ids" "set ids \<inter> set (concat idss') = {}" "distinct (concat idss')"
    using Cons.prems(3) i(1) by auto
  from free_overflow_loop_ok [OF Cons.prems(1) i(2) dist(1), of "[]"] obtain s1 where
    f: "free_overflow ops h s = Some (Inr ids, s1)" "inv s1" "pages s1 = (\<lambda>q. if q \<in> set ids then None else pages s q)"
      "ps_page_size ops s1 = ps_page_size ops s" "room s1 = room s + length ids"
    by (auto simp: free_overflow_def)
  have "ovf_chains (pages s1) heads idss'"
    unfolding ovf_chains_def list_all2_conv_all_nth
  proof (intro conjI allI impI)
    show "length heads = length idss'" using i(3) by (auto simp: ovf_chains_def dest: list_all2_lengthD)
    fix j assume j: "j < length heads"
    then obtain cs' where "is_chain (pages s) (heads ! j) (idss' ! j) cs'" and j': "j < length idss'"
      using i(3) by (auto simp: ovf_chains_def list_all2_conv_all_nth)
    moreover have "pages s1 p = pages s p" if "p \<in> set (idss' ! j)" for p
    proof -
      have "p \<in> set (concat idss')" using that nth_mem [OF j'] by auto
      then have "p \<notin> set ids" using dist(2) by blast
      then show ?thesis by (simp add: f(3))
    qed
    ultimately show "\<exists>cs. is_chain (pages s1) (heads ! j) (idss' ! j) cs" using is_chain_cong by blast
  qed
  from Cons.IH [OF f(2) this dist(3)] obtain s' where
    r: "pforeach (\<lambda>head. pbind (free_overflow ops head) (\<lambda>_. pret ())) heads s1 = Some (Inr (), s')"
    "inv s'" "pages s' = (\<lambda>q. if q \<in> set (concat idss') then None else pages s1 q)"
    "ps_page_size ops s' = ps_page_size ops s1" "room s' = room s1 + length (concat idss')" by blast
  have one: "pbind (free_overflow ops h) (\<lambda>_. pret ()) s = Some (Inr (), s1)" using f(1) by simp
  have "pforeach (\<lambda>head. pbind (free_overflow ops head) (\<lambda>_. pret ())) (h # heads) s = Some (Inr (), s')"
    unfolding pforeach.simps
    by (subst pbind_Some(1) [of "pbind (free_overflow ops h) (\<lambda>_. pret ())"]) (rule one, rule r(1))
  moreover have "pages s' = (\<lambda>q. if q \<in> set (concat idss) then None else pages s q)"
    using r(3) f(3) i(1) by (auto simp: fun_eq_iff)
  moreover have "ps_page_size ops s' = ps_page_size ops s" "room s' = room s + length (concat idss)"
    using r(4,5) f(4,5) i(1) by simp_all
  ultimately show ?case using r(2) by blast
qed

lemma drain_ok:
  assumes "btree_owns inv pages b idss"
  shows "\<exists>s'. pbind (drain_overflow_heads ops) (\<lambda>_. drain_btree_pages ops) b =
      Some (Inr (), b\<lparr>bt_store := s', bt_overflow_heads := [], bt_btree_pages := []\<rparr>) \<and> inv s' \<and>
    pages s' = (\<lambda>q. if q \<in> set (bt_btree_pages b @ concat idss) then None else pages (bt_store b) q) \<and>
    ps_page_size ops s' = ps_page_size ops (bt_store b) \<and>
    room s' = room (bt_store b) + length (bt_btree_pages b @ concat idss)"
proof -
  have o: "inv (bt_store b)" "ovf_chains (pages (bt_store b)) (bt_overflow_heads b) idss"
    "distinct (concat idss)" "distinct (bt_btree_pages b)"
    "set (bt_btree_pages b) \<inter> set (concat idss) = {}"
    "\<forall>p \<in> set (bt_btree_pages b). pages (bt_store b) p \<noteq> None"
    using assms by (auto simp: btree_owns_def)
  from free_heads_ok [OF o(1-3)] obtain s1 where
    a: "pforeach (\<lambda>head. pbind (free_overflow ops head) (\<lambda>_. pret ())) (bt_overflow_heads b) (bt_store b) =
         Some (Inr (), s1)" "inv s1"
      "pages s1 = (\<lambda>q. if q \<in> set (concat idss) then None else pages (bt_store b) q)"
      "ps_page_size ops s1 = ps_page_size ops (bt_store b)" "room s1 = room (bt_store b) + length (concat idss)"
    by blast
  have "\<forall>p \<in> set (bt_btree_pages b). pages s1 p \<noteq> None" using o(5,6) unfolding a(3) by auto
  from free_pages_each_ok [OF a(2) o(4) this] obtain s2 where
    c: "pforeach (\<lambda>page_id. pstep (ps_free_page ops page_id)) (bt_btree_pages b) s1 = Some (Inr (), s2)" "inv s2"
      "pages s2 = (\<lambda>q. if q \<in> set (bt_btree_pages b) then None else pages s1 q)"
      "ps_page_size ops s2 = ps_page_size ops s1" "room s2 = room s1 + length (bt_btree_pages b)"
    unfolding free_pages_each_def by blast
  let ?b = "b\<lparr>bt_store := s1, bt_overflow_heads := []\<rparr>"
  have "drain_overflow_heads ops b = Some (Inr (), ?b)"
    unfolding drain_overflow_heads_def by (subst with_store_Some [of _ _ "Inr ()" s1]) (use a(1) in simp_all)
  moreover have "drain_btree_pages ops ?b = Some (Inr (), ?b\<lparr>bt_store := s2, bt_btree_pages := []\<rparr>)"
    unfolding drain_btree_pages_def by (subst with_store_Some [of _ _ "Inr ()" s2]) (use c(1) in simp_all)
  ultimately have "pbind (drain_overflow_heads ops) (\<lambda>_. drain_btree_pages ops) b =
      Some (Inr (), ?b\<lparr>bt_store := s2, bt_btree_pages := []\<rparr>)" by simp
  moreover have "pages s2 = (\<lambda>q. if q \<in> set (bt_btree_pages b @ concat idss) then None else pages (bt_store b) q)"
    unfolding c(3) a(3) by (auto simp: fun_eq_iff)
  ultimately show ?thesis using c(2,4,5) a(4,5) by (intro exI [of _ s2]) simp
qed

section \<open>Rebuilding\<close>

lemma write_leaf_level_ok:
  assumes "inv (bt_store b)" "length leaves \<le> room (bt_store b)"
    and "\<forall>l \<in> set leaves. good_leaf (bt_page_bytes ops b) l"
  shows "\<exists>ids refs s'. pbind (with_store (alloc_pages ops (length leaves))) (\<lambda>ids.
        pbind (btree_upd (bt_btree_pages_update (\<lambda>ps. ps @ ids))) (\<lambda>_.
          write_leaves ops ids 0 leaves [])) b =
      Some (Inr refs, b\<lparr>bt_store := s', bt_btree_pages := bt_btree_pages b @ ids\<rparr>) \<and>
    grows (bt_store b) s' ids \<and> length ids = length leaves \<and>
    linked (link_leaves ids leaves) \<and> length refs = length leaves \<and>
    refs_ok 0 (pages s') refs (map (\<lambda>x. [x]) (link_leaves ids leaves))"
proof -
  let ?s = "bt_store b"
  from alloc_pages_ok [OF assms(1,2)] obtain ids s1 where
    a: "alloc_pages ops (length leaves) ?s = Some (Inr ids, s1)" "inv s1" "length ids = length leaves"
      "distinct ids" "\<forall>p \<in> set ids. p \<noteq> 0 \<and> pages ?s p = None \<and> pages s1 p \<noteq> None"
      "\<forall>q. q \<notin> set ids \<longrightarrow> pages s1 q = pages ?s q" "ps_page_size ops s1 = ps_page_size ops ?s"
      "room s1 = room ?s - length leaves" by blast
  let ?b = "b\<lparr>bt_store := s1, bt_btree_pages := bt_btree_pages b @ ids\<rparr>"
  have pre: "inv (bt_store ?b)" "\<forall>p \<in> set ids. pages (bt_store ?b) p \<noteq> None" "0 + length leaves = length ids"
    "\<forall>l \<in> set leaves. lp_cells l \<noteq> [] \<and> leaf_page_ok l \<and> leaf_encoded_len l \<le> bt_page_bytes ops ?b"
    using a assms(3) by (auto simp: good_leaf_def bt_page_bytes_def)
  define refs where "refs = map (\<lambda>(l, p). \<lparr>cr_first_key = lc_key (hd (lp_cells l)), cr_page_id = p\<rparr>) (zip leaves ids)"
  from write_leaves_ok [OF pre(1) a(4) pre(2-4), of "[]"] obtain s' where
    w: "write_leaves ops ids 0 leaves [] ?b = Some (Inr refs, ?b\<lparr>bt_store := s'\<rparr>)" "inv s'"
      "\<forall>q. q \<notin> set ids \<longrightarrow> pages s' q = pages s1 q" "dom (pages s') = dom (pages s1)"
      "ps_page_size ops s' = ps_page_size ops s1" "room s' = room s1"
      "\<forall>i < length leaves. holds_page (pages s') (ids ! i) (LeafNode ((leaves ! i)\<lparr>lp_next_leaf :=
             (case get_at ids (i + 1) of None \<Rightarrow> 0 | Some q \<Rightarrow> q)\<rparr>))"
    by (auto simp: refs_def)
  have "grows ?s s' ids"
  proof (rule growsI)
    fix p assume "p \<in> set ids"
    then show "pages ?s p = None \<and> pages s' p \<noteq> None" using a(5) w(4) by (auto simp: dom_def set_eq_iff)
  qed (use a w assms(2) in auto)
  moreover have "linked (link_leaves ids leaves)" by (rule link_leaves_linked) (use a in auto)
  moreover have "refs_ok 0 (pages s') refs (map (\<lambda>x. [x]) (link_leaves ids leaves))"
    unfolding refs_def by (rule link_leaves_refs) (use a(3) w(7) pre(4) in auto)
  moreover have "length refs = length leaves" using a(3) by (simp add: refs_def)
  ultimately show ?thesis
    using a(1,3) w(1) by (intro exI [of _ ids] exI [of _ refs] exI [of _ s']) (simp add: bt_btree_pages_append)
qed

definition build_tree :: "zlib \<Rightarrow> (u64 \<times> bytes) list \<Rightarrow> ('s Btree, unit) prog" where
  "build_tree z es =
     pbind (pack_leaves z ops es [] []) (\<lambda>(specs, current).
       let leaf_specs = (if current \<noteq> [] then specs @ [leaf_spec current] else specs)
       in pbind (with_store (alloc_pages ops (length leaf_specs))) (\<lambda>leaf_page_ids.
          pbind (btree_upd (bt_btree_pages_update (\<lambda>ps. ps @ leaf_page_ids))) (\<lambda>_.
          pbind (write_leaves ops leaf_page_ids 0 leaf_specs []) (\<lambda>children.
          pbind (build_levels ops children) (\<lambda>children.
            btree_upd (bt_root_page_id_update (\<lambda>_. Some (cr_page_id (hd children)))))))))"

lemma build_tree_ok:
  assumes "inv (bt_store b)" "540 \<le> bt_page_bytes ops b" "bt_page_bytes ops b \<le> 16384"
    and "bt_inline_value_limit b \<le> 512" "\<forall>(k, v) \<in> set es. length v < 2 ^ 32" "es \<noteq> []"
    and "sorted_wrt (<) (map fst es)" "pages_needed ops b es \<le> room (bt_store b)"
  shows "\<exists>s' hs idss ps p ls. build_tree z es b =
      Some (Inr (), b\<lparr>bt_store := s', bt_root_page_id := Some p, bt_btree_pages := bt_btree_pages b @ ps,
        bt_overflow_heads := bt_overflow_heads b @ hs\<rparr>) \<and>
    grows (bt_store b) s' (concat idss @ ps) \<and> ovf_chains (pages s') hs idss \<and> tree_of (pages s') p ls es"
proof -
  let ?s = "bt_store b" and ?n = "bt_page_bytes ops b"
  let ?vp = "sum_list (map (\<lambda>(k, v). value_pages ?n (bt_inline_value_limit b) v) es)"
  have "?vp \<le> room ?s" "leaf_encoded_len (leaf_spec []) \<le> ?n"
    using assms(2,8) by (simp_all add: pages_needed_def leaf_encoded_len_def leaf_spec_def PAGE_HEADER_SIZE_def)
  from pack_leaves_ok [OF assms(1-5) this(1) _ this(2), of z "[]"]
  obtain specs cur cells s1 hs idss where
    k: "pack_leaves z ops es [] [] b = Some (Inr (specs, cur), b\<lparr>bt_store := s1, bt_overflow_heads := bt_overflow_heads b @ hs\<rparr>)"
      "grows ?s s1 (concat idss)" "ovf_chains (pages s1) hs idss" "length (concat idss) = ?vp"
      "list_all2 (cell_holds (pages s1)) cells es" "concat (map lp_cells specs) @ cur = cells"
      "\<forall>l \<in> set specs. good_leaf ?n l" "\<forall>c \<in> set cur. leaf_cell_ok c" "leaf_encoded_len (leaf_spec cur) \<le> ?n"
    by auto
  let ?b1 = "b\<lparr>bt_store := s1, bt_overflow_heads := bt_overflow_heads b @ hs\<rparr>"
  define leaves where "leaves = (if cur \<noteq> [] then specs @ [leaf_spec cur] else specs)"
  have n1: "bt_page_bytes ops ?b1 = ?n" and inv1: "inv s1" and rm1: "2 * length es \<le> room s1"
    using k(2,4) assms(8) by (auto simp: grows_def bt_page_bytes_def pages_needed_def)
  have cells: "concat (map lp_cells leaves) = cells" using k(6) by (auto simp: leaves_def leaf_spec_def)
  have good: "\<forall>l \<in> set leaves. good_leaf (bt_page_bytes ops ?b1) l"
    using k(7) good_leafI [OF _ k(8,9) assms(3)] n1 by (auto simp: leaves_def)
  have "length cells = length es" using list_all2_lengthD [OF k(5)] .
  then have nl: "length leaves \<le> length es"
    using concat_length_ge [of "map lp_cells leaves" 1] good cells by (auto simp: good_leaf_def Suc_le_eq)
  have lne: "leaves \<noteq> []" using cells \<open>length cells = length es\<close> assms(6) by auto
  have "length leaves \<le> room (bt_store ?b1)" using nl rm1 by simp
  from write_leaf_level_ok [of ?b1, OF _ this good] inv1 obtain ids refs s2 where
    l: "pbind (with_store (alloc_pages ops (length leaves))) (\<lambda>ids.
        pbind (btree_upd (bt_btree_pages_update (\<lambda>ps. ps @ ids))) (\<lambda>_. write_leaves ops ids 0 leaves [])) ?b1 =
      Some (Inr refs, ?b1\<lparr>bt_store := s2, bt_btree_pages := bt_btree_pages b @ ids\<rparr>)"
      "grows s1 s2 ids" "length ids = length leaves" "linked (link_leaves ids leaves)"
      "length refs = length leaves" "refs_ok 0 (pages s2) refs (map (\<lambda>x. [x]) (link_leaves ids leaves))" by auto
  let ?b2 = "?b1\<lparr>bt_store := s2, bt_btree_pages := bt_btree_pages b @ ids\<rparr>"
  have pre2: "inv (bt_store ?b2)" "refs \<noteq> []" "length refs \<le> Suc (room (bt_store ?b2))"
    "38 \<le> bt_page_bytes ops ?b2" "bt_page_bytes ops ?b2 \<le> 16384"
    "refs_ok 0 (pages (bt_store ?b2)) refs (map (\<lambda>x. [x]) (link_leaves ids leaves))"
    using l(2,3,5,6) lne nl rm1 k(2) assms(2,3) by (auto simp: grows_def bt_page_bytes_def)
  from build_levels_ok [OF this] obtain r s3 qs h where
    v: "build_levels ops refs ?b2 = Some (Inr [r], ?b2\<lparr>bt_store := s3, bt_btree_pages := bt_btree_pages ?b2 @ qs\<rparr>)"
      "grows s2 s3 qs" "subtree h (pages s3) (cr_page_id r) (link_leaves ids leaves)" by auto
  have g13: "grows s1 s3 (ids @ qs)" using l(2) v(2) grows_trans by auto
  then have le: "pages s1 \<subseteq>\<^sub>m pages s3" by (simp add: grows_def)
  have "list_all2 (cell_holds (pages s3)) (flat (link_leaves ids leaves)) es"
    unfolding flat_link_leaves cells using k(5) by (rule list_all2_mono) (rule cell_holds_mono [OF _ le])
  with v(3) l(4) assms(7) have "tree_of (pages s3) (cr_page_id r) (link_leaves ids leaves) es"
    unfolding tree_of_def by blast
  moreover have "build_tree z es b = Some (Inr (), b\<lparr>bt_store := s3, bt_root_page_id := Some (cr_page_id r),
      bt_btree_pages := bt_btree_pages b @ (ids @ qs), bt_overflow_heads := bt_overflow_heads b @ hs\<rparr>)"
    using k(1) l(1) v(1)
    by (auto simp: build_tree_def leaves_def [symmetric] Let_def pbind_eq_Ok)
  ultimately show ?thesis
    using grows_trans [OF k(2) g13] ovf_chains_mono [OF k(3) le] by blast
qed

lemma conf_bounds:
  assumes "btree_conf ops b"
  shows "540 \<le> bt_page_bytes ops b" "bt_page_bytes ops b \<le> 16384" "bt_inline_value_limit b \<le> 512"
    "\<forall>(k, v) \<in> set (RBT.entries (bt_entries b)). length v < 2 ^ 32"
  using assms
  by (auto simp: btree_conf_def bt_page_bytes_def is_supported_page_size_def SUPPORTED_PAGE_SIZES_def)

lemma entries_sorted: "sorted_wrt (<) (map fst (RBT.entries t))"
  by (simp add: strict_sorted_iff RBT.sorted_entries RBT.distinct_entries)

lemma entries_Nil: "RBT.entries t = [] \<longleftrightarrow> RBT.is_empty t"
proof -
  have "RBT.entries t = [] \<longleftrightarrow> map_of (RBT.entries t) = Map.empty"
    by (cases "RBT.entries t") (auto simp: fun_eq_iff)
  also have "\<dots> \<longleftrightarrow> t = RBT.empty" by (metis RBT.lookup_empty_empty RBT.map_of_entries)
  finally show ?thesis by simp
qed

lemma rebuild_pages_alt:
  "rebuild_pages z ops =
     pbind (pbind (drain_overflow_heads ops) (\<lambda>_. drain_btree_pages ops)) (\<lambda>_ b.
       if RBT.is_empty (bt_entries b) then Some (Inr (), b\<lparr>bt_root_page_id := None\<rparr>)
       else build_tree z (RBT.entries (bt_entries b)) (b\<lparr>bt_root_page_id := None\<rparr>))"
  unfolding rebuild_pages_def build_tree_def
  by (rule ext) (auto simp: pbind_def pret_def split: option.splits sum.splits)

lemma rebuild_pages_ok:
  assumes "btree_owns inv pages b idss" "btree_conf ops b"
    and "pages_needed ops b (RBT.entries (bt_entries b)) \<le> room (bt_store b)"
  shows "\<exists>b' idss'. rebuild_pages z ops b = Some (Inr (), b') \<and> bt_entries b' = bt_entries b \<and>
    btree_inv ops inv pages b' \<and> btree_owns inv pages b' idss' \<and>
    (\<forall>q. pages (bt_store b') q \<noteq> None \<longleftrightarrow> q \<in> set (bt_btree_pages b' @ concat idss') \<or>
       q \<notin> set (bt_btree_pages b @ concat idss) \<and> pages (bt_store b) q \<noteq> None) \<and>
    (\<forall>q. q \<notin> set (bt_btree_pages b @ concat idss) \<longrightarrow> pages (bt_store b) q \<noteq> None \<longrightarrow>
       pages (bt_store b') q = pages (bt_store b) q \<and> q \<notin> set (bt_btree_pages b' @ concat idss'))"
proof -
  let ?es = "RBT.entries (bt_entries b)" and ?old = "set (bt_btree_pages b @ concat idss)"
  from drain_ok [OF assms(1)] obtain s1 where
    d: "pbind (drain_overflow_heads ops) (\<lambda>_. drain_btree_pages ops) b =
         Some (Inr (), b\<lparr>bt_store := s1, bt_overflow_heads := [], bt_btree_pages := []\<rparr>)" "inv s1"
      "pages s1 = (\<lambda>q. if q \<in> ?old then None else pages (bt_store b) q)"
      "ps_page_size ops s1 = ps_page_size ops (bt_store b)"
      "room s1 = room (bt_store b) + length (bt_btree_pages b @ concat idss)" by blast
  let ?b = "b\<lparr>bt_store := s1, bt_overflow_heads := [], bt_btree_pages := [], bt_root_page_id := None\<rparr>"
  have conf: "btree_conf ops ?b" using assms(2) d(4) by (simp add: btree_conf_def bt_page_bytes_def)
  show ?thesis
  proof (cases "RBT.is_empty (bt_entries b)")
    case True
    then have "rebuild_pages z ops b = Some (Inr (), ?b)" unfolding rebuild_pages_alt using d(1) by simp
    moreover have "?es = []" using True by (simp only: entries_Nil)
    ultimately show ?thesis
      using conf d(2,3)
      by (intro exI [of _ ?b] exI [of _ "[]"])
         (auto simp: btree_inv_def btree_owns_def ovf_chains_def represents_def intro!: exI [of _ "[]"])
  next
    case False
    then have ne: "?es \<noteq> []" using entries_Nil by blast
    have rm: "pages_needed ops ?b ?es \<le> room (bt_store ?b)"
      using assms(3) d(4,5) by (simp add: pages_needed_def bt_page_bytes_def)
    note c = conf_bounds [OF conf]
    have "\<forall>(k, v) \<in> set ?es. length v < 2 ^ 32" using c(4) by simp
    from build_tree_ok [OF _ c(1-3) this ne entries_sorted rm, of z] d(2) obtain s2 hs idss' ps p ls where
      t: "build_tree z ?es ?b = Some (Inr (), ?b\<lparr>bt_store := s2, bt_root_page_id := Some p,
           bt_btree_pages := ps, bt_overflow_heads := hs\<rparr>)"
        "grows s1 s2 (concat idss' @ ps)" "ovf_chains (pages s2) hs idss'" "tree_of (pages s2) p ls ?es" by auto
    let ?b' = "?b\<lparr>bt_store := s2, bt_root_page_id := Some p, bt_btree_pages := ps, bt_overflow_heads := hs\<rparr>"
    have g: "inv s2" "pages s1 \<subseteq>\<^sub>m pages s2" "dom (pages s2) = dom (pages s1) \<union> set (concat idss' @ ps)"
      "set (concat idss' @ ps) \<inter> dom (pages s1) = {}" "distinct (concat idss' @ ps)"
      "ps_page_size ops s2 = ps_page_size ops s1" using t(2) unfolding grows_def by blast+
    have "rebuild_pages z ops b = Some (Inr (), ?b')"
      unfolding rebuild_pages_alt using d(1) False t(1) by simp
    moreover have own: "btree_owns inv pages ?b' idss'"
      using g(1,3,5) t(3) by (auto simp: btree_owns_def dom_def set_eq_iff)
    moreover have "btree_inv ops inv pages ?b'"
      using own conf g(6) t(4) by (auto simp: btree_inv_def represents_def btree_conf_def bt_page_bytes_def)
    moreover have "bt_entries ?b' = bt_entries b" by simp
    moreover have "\<forall>q. pages (bt_store ?b') q \<noteq> None \<longleftrightarrow> q \<in> set (bt_btree_pages ?b' @ concat idss') \<or>
        q \<notin> ?old \<and> pages (bt_store b) q \<noteq> None"
    proof
      fix q
      have "q \<in> dom (pages s2) \<longleftrightarrow> q \<in> dom (pages s1) \<or> q \<in> set (concat idss' @ ps)" using g(3) by blast
      moreover have "q \<in> dom (pages s1) \<longleftrightarrow> q \<notin> ?old \<and> pages (bt_store b) q \<noteq> None" by (simp add: d(3) domIff)
      ultimately show "pages (bt_store ?b') q \<noteq> None \<longleftrightarrow> q \<in> set (bt_btree_pages ?b' @ concat idss') \<or>
        q \<notin> ?old \<and> pages (bt_store b) q \<noteq> None" by (simp add: domIff) blast
    qed
    moreover have "\<forall>q. q \<notin> ?old \<longrightarrow> pages (bt_store b) q \<noteq> None \<longrightarrow>
        pages (bt_store ?b') q = pages (bt_store b) q \<and> q \<notin> set (bt_btree_pages ?b' @ concat idss')"
    proof (intro allI impI)
      fix q
      assume "q \<notin> ?old" "pages (bt_store b) q \<noteq> None"
      then have q: "pages s1 q = pages (bt_store b) q" "q \<in> dom (pages s1)" using d(3) by auto
      then have "q \<notin> set (concat idss' @ ps)" "pages s2 q = pages s1 q"
        using g(2,4) unfolding map_le_def by (blast, metis)
      with q show "pages (bt_store ?b') q = pages (bt_store b) q \<and> q \<notin> set (bt_btree_pages ?b' @ concat idss')"
        by simp
    qed
    ultimately show ?thesis by blast
  qed
qed

end

end
