(* ===== verification/BtreeMap.thy ===== *)
theory BtreeMap
  imports BtreeBuild
begin

text \<open>
  What a client of the B+tree sees: a sorted map.  Lookups read the pages and agree
  with the entry map, mutations update it, cursors enumerate it in both directions,
  and a mutation touches no page but those of the tree.
\<close>

section \<open>Running a cursor\<close>

text \<open>Step a cursor until it is exhausted; \<^const>\<open>None\<close> on an error or when the fuel runs out.\<close>

fun drain_cursor ::
  "(BtreeCursor \<Rightarrow> ((u64 \<times> bytes) option result \<times> BtreeCursor) option) \<Rightarrow> nat \<Rightarrow> BtreeCursor
    \<Rightarrow> (u64 \<times> bytes) list option"
where
  "drain_cursor step 0 c = None"
| "drain_cursor step (Suc n) c =
     (case step c of
        None \<Rightarrow> None
      | Some (Inl e, c') \<Rightarrow> None
      | Some (Inr None, c') \<Rightarrow> Some []
      | Some (Inr (Some x), c') \<Rightarrow> map_option ((#) x) (drain_cursor step n c'))"

definition open_and_drain ::
  "(BtreeCursor \<Rightarrow> ((u64 \<times> bytes) option result \<times> BtreeCursor) option) \<Rightarrow> nat
    \<Rightarrow> BtreeCursor result option \<Rightarrow> (u64 \<times> bytes) list option"
where
  "open_and_drain step n c =
     (case c of Some (Inr c) \<Rightarrow> drain_cursor step n c | _ \<Rightarrow> None)"

lemma open_and_drain_Some [simp]: "open_and_drain step n (Some (Inr c)) = drain_cursor step n c"
  by (simp add: open_and_drain_def)

context page_store
begin

lemma drain_forward:
  assumes "inv s"
  shows "cursor_on (pages s) es c i \<Longrightarrow> length es < n + (case i of None \<Rightarrow> length es | Some k \<Rightarrow> k) \<Longrightarrow>
    drain_cursor (cursor_next ops s) n c = Some (case i of None \<Rightarrow> [] | Some k \<Rightarrow> drop k es)"
proof (induction n arbitrary: c i)
  case 0
  then show ?case
    by (auto simp: cursor_on_def pos_opt_def tree_of_def split: option.splits
        dest!: pos_at_cell list_all2_lengthD)
next
  case (Suc n)
  from cursor_next_ok [OF assms Suc.prems(1)] obtain c' where
    c': "cursor_next ops s c = Some (Inr (map_option ((!) es) i), c')"
      "cursor_on (pages s) es c' (case i of None \<Rightarrow> None | Some i \<Rightarrow> if i + 1 < length es then Some (i + 1) else None)"
    by blast
  show ?case
  proof (cases i)
    case (Some k)
    have k: "k < length es"
      using Suc.prems(1) Some by (auto simp: cursor_on_def pos_opt_def tree_of_def split: option.splits
          dest!: pos_at_cell list_all2_lengthD)
    let ?i = "if k + 1 < length es then Some (k + 1) else None"
    have "drain_cursor (cursor_next ops s) n c' = Some (case ?i of None \<Rightarrow> [] | Some k \<Rightarrow> drop k es)"
      by (rule Suc.IH) (use c'(2) Some Suc.prems(2) k in auto)
    moreover have "drop k es = es ! k # (case ?i of None \<Rightarrow> [] | Some k \<Rightarrow> drop k es)"
      using k by (simp add: Cons_nth_drop_Suc [symmetric])
    ultimately show ?thesis using c'(1) Some by simp
  qed (use c'(1) in simp)
qed

lemma drain_backward:
  assumes "inv s"
  shows "cursor_on (pages s) es c i \<Longrightarrow> (case i of None \<Rightarrow> 0 | Some k \<Rightarrow> Suc k) < n \<Longrightarrow>
    drain_cursor (cursor_prev ops s) n c = Some (case i of None \<Rightarrow> [] | Some k \<Rightarrow> rev (take (Suc k) es))"
proof (induction n arbitrary: c i)
  case (Suc n)
  from cursor_prev_ok [OF assms Suc.prems(1)] obtain c' where
    c': "cursor_prev ops s c = Some (Inr (map_option ((!) es) i), c')"
      "cursor_on (pages s) es c' (case i of None \<Rightarrow> None | Some i \<Rightarrow> if i = 0 then None else Some (i - 1))"
    by blast
  show ?case
  proof (cases i)
    case (Some k)
    have k: "k < length es"
      using Suc.prems(1) Some by (auto simp: cursor_on_def pos_opt_def tree_of_def split: option.splits
          dest!: pos_at_cell list_all2_lengthD)
    let ?i = "if k = 0 then None else Some (k - 1)"
    have "drain_cursor (cursor_prev ops s) n c' = Some (case ?i of None \<Rightarrow> [] | Some k \<Rightarrow> rev (take (Suc k) es))"
      by (rule Suc.IH) (use c'(2) Some Suc.prems(2) in auto)
    moreover have "rev (take (Suc k) es) = es ! k # (case ?i of None \<Rightarrow> [] | Some k \<Rightarrow> rev (take (Suc k) es))"
      using k by (cases k) (simp_all add: take_Suc_conv_app_nth)
    ultimately show ?thesis using c'(1) Some by simp
  qed (use c'(1) in simp)
qed simp

lemma scan_forward_ok:
  assumes "inv s" "represents (pages s) root es" "length es < n"
  shows "open_and_drain (cursor_next ops s) n (cursor_seek_forward ops s root key) =
      Some (dropWhile (\<lambda>e. fst e < key) es)"
    "open_and_drain (cursor_next ops s) n (cursor_from_start ops s root) = Some es"
proof -
  let ?m = "length (takeWhile (\<lambda>e. fst e < key) es)"
  from cursor_seek_forward_ok [OF assms(1,2) refl] obtain c where
    c: "cursor_seek_forward ops s root key = Some (Inr c)"
      "cursor_on (pages s) es c (if ?m < length es then Some ?m else None)" by blast
  have "dropWhile (\<lambda>e. fst e < key) es = (if ?m < length es then drop ?m es else [])"
    by (simp add: dropWhile_eq_drop)
  with c drain_forward [OF assms(1) c(2), of n] assms(3)
  show "open_and_drain (cursor_next ops s) n (cursor_seek_forward ops s root key) =
      Some (dropWhile (\<lambda>e. fst e < key) es)"
    by (simp split: if_splits)
  from cursor_from_start_ok [OF assms(1,2)] obtain c' where
    "cursor_from_start ops s root = Some (Inr c')"
    "cursor_on (pages s) es c' (if es = [] then None else Some 0)" by blast
  with drain_forward [OF assms(1), of es c' _ n] assms(3)
  show "open_and_drain (cursor_next ops s) n (cursor_from_start ops s root) = Some es"
    by (cases "es = []") auto
qed

lemma scan_backward_ok:
  assumes "inv s" "represents (pages s) root es" "length es < n"
  shows "open_and_drain (cursor_prev ops s) n (cursor_seek_backward ops s root key) =
      Some (rev (takeWhile (\<lambda>e. fst e \<le> key) es))"
    "open_and_drain (cursor_prev ops s) n (cursor_from_end ops s root) = Some (rev es)"
proof -
  let ?m = "length (takeWhile (\<lambda>e. fst e \<le> key) es)"
  have le: "?m \<le> length es" by (rule length_takeWhile_le)
  from cursor_seek_backward_ok [OF assms(1,2) refl] obtain c where
    c: "cursor_seek_backward ops s root key = Some (Inr c)"
      "cursor_on (pages s) es c (if ?m = 0 then None else Some (?m - 1))" by blast
  have "takeWhile (\<lambda>e. fst e \<le> key) es = take ?m es" by (rule takeWhile_eq_take)
  moreover have "(case if ?m = 0 then None else Some (?m - 1) of None \<Rightarrow> 0 | Some k \<Rightarrow> Suc k) < n"
    using le assms(3) by (cases ?m) auto
  from drain_backward [OF assms(1) c(2) this]
  have "drain_cursor (cursor_prev ops s) n c = Some (rev (take ?m es))" by (cases ?m) auto
  ultimately show "open_and_drain (cursor_prev ops s) n (cursor_seek_backward ops s root key) =
      Some (rev (takeWhile (\<lambda>e. fst e \<le> key) es))" using c(1) by simp
  from cursor_from_end_ok [OF assms(1,2)] obtain c' where
    "cursor_from_end ops s root = Some (Inr c')"
    "cursor_on (pages s) es c' (if es = [] then None else Some (length es - 1))" by blast
  with drain_backward [OF assms(1), of es c' _ n] assms(3)
  show "open_and_drain (cursor_prev ops s) n (cursor_from_end ops s root) = Some (rev es)"
    by (cases "es = []") auto
qed

lemma btree_get_ok: "btree_inv ops inv pages b \<Longrightarrow> btree_get ops b key = Some (Inr (RBT.lookup (bt_entries b) key))"
  unfolding btree_get_def btree_inv_def btree_owns_def
  by (simp add: find_exact_ok [of "bt_store b" _ "RBT.entries (bt_entries b)"] RBT.map_of_entries)

lemma btree_set_entries_ok:
  assumes "btree_inv ops inv pages b" "\<forall>v \<in> snd ` set (RBT.entries t). length v < 2 ^ 32"
    and "pages_needed ops b (RBT.entries t) \<le> room (bt_store b)"
  shows "\<exists>b'. rebuild_pages z ops (b\<lparr>bt_entries := t\<rparr>) = Some (Inr (), b') \<and>
    btree_inv ops inv pages b' \<and> bt_entries b' = t"
proof -
  obtain idss where "btree_owns inv pages b idss" using assms(1) by (auto simp: btree_inv_def)
  then have own: "btree_owns inv pages (b\<lparr>bt_entries := t\<rparr>) idss" by (simp add: btree_owns_def)
  have conf: "btree_conf ops (b\<lparr>bt_entries := t\<rparr>)"
    using assms(1,2) by (simp add: btree_inv_def btree_conf_def bt_page_bytes_def)
  have "pages_needed ops (b\<lparr>bt_entries := t\<rparr>) (RBT.entries (bt_entries (b\<lparr>bt_entries := t\<rparr>)))
      \<le> room (bt_store (b\<lparr>bt_entries := t\<rparr>))"
    using assms(3) by (simp add: pages_needed_def bt_page_bytes_def)
  from rebuild_pages_ok [OF own conf this, of z] obtain b' where
    "rebuild_pages z ops (b\<lparr>bt_entries := t\<rparr>) = Some (Inr (), b')"
    "bt_entries b' = bt_entries (b\<lparr>bt_entries := t\<rparr>)" "btree_inv ops inv pages b'" by blast
  then show ?thesis by simp
qed

lemma entries_empty [simp]: "RBT.entries RBT.empty = []"
  by (simp add: entries_Nil)

lemma btree_new_inv:
  "inv s \<Longrightarrow> is_supported_page_size (ps_page_size ops s) \<Longrightarrow> btree_inv ops inv pages (btree_new ops s)"
  by (auto simp: btree_inv_def btree_new_def btree_owns_def ovf_chains_def btree_conf_def
      bt_page_bytes_def represents_def)

end

section \<open>Properties\<close>

text \<open>
  C7: The B+tree implements a map.  From a tree in order, with room for the pages
  of the new tree: a lookup through the pages returns what the entry map holds;
  inserting returns the previous value and leaves a tree in order on which every
  lookup sees exactly that key changed; deleting likewise removes exactly that key.
  All of these return, for every supported page size and values of any size that
  the overflow format can hold.
\<close>

theorem btree_refines_map:
  assumes "btree_inv inmem_ops inmem_inv im_pages b" "length v < 2 ^ 32"
    and "pages_needed inmem_ops b (RBT.entries (RBT.insert key v (bt_entries b))) \<le> inmem_room (bt_store b)"
    and "pages_needed inmem_ops b (RBT.entries (RBT.delete key (bt_entries b))) \<le> inmem_room (bt_store b)"
  shows "btree_get inmem_ops b k = Some (Inr (RBT.lookup (bt_entries b) k)) \<and>
    (\<exists>b'. btree_insert z inmem_ops key v b = Some (Inr (RBT.lookup (bt_entries b) key), b') \<and>
       btree_inv inmem_ops inmem_inv im_pages b' \<and>
       (\<forall>k. btree_get inmem_ops b' k = Some (Inr (((RBT.lookup (bt_entries b))(key \<mapsto> v)) k)))) \<and>
    (\<exists>b'. btree_delete z inmem_ops key b = Some (Inr (RBT.lookup (bt_entries b) key), b') \<and>
       btree_inv inmem_ops inmem_inv im_pages b' \<and>
       (\<forall>k. btree_get inmem_ops b' k = Some (Inr (((RBT.lookup (bt_entries b))(key := None)) k))))"
proof (intro conjI)
  show "btree_get inmem_ops b k = Some (Inr (RBT.lookup (bt_entries b) k))"
    by (rule inmem.btree_get_ok [OF assms(1)])
  have old: "length w < 2 ^ 32" if "(j, w) \<in> set (RBT.entries (bt_entries b))" for j w
    using assms(1) that by (force simp: btree_inv_def btree_conf_def)
  have mem: "(j, w) \<in> set (RBT.entries t) \<longleftrightarrow> RBT.lookup t j = Some w" for j w and t :: "(u64, bytes) RBT.rbt"
    by (metis RBT.distinct_entries RBT.map_of_entries map_of_eq_Some_iff)
  have "\<forall>w \<in> snd ` set (RBT.entries (RBT.insert key v (bt_entries b))). length w < 2 ^ 32"
    using old assms(2) by (auto simp: mem split: if_splits)
  from inmem.btree_set_entries_ok [OF assms(1) this assms(3), of z] obtain b' where
    "rebuild_pages z inmem_ops (b\<lparr>bt_entries := RBT.insert key v (bt_entries b)\<rparr>) = Some (Inr (), b')"
    "btree_inv inmem_ops inmem_inv im_pages b'" "bt_entries b' = RBT.insert key v (bt_entries b)" by blast
  then show "\<exists>b'. btree_insert z inmem_ops key v b = Some (Inr (RBT.lookup (bt_entries b) key), b') \<and>
       btree_inv inmem_ops inmem_inv im_pages b' \<and>
       (\<forall>k. btree_get inmem_ops b' k = Some (Inr (((RBT.lookup (bt_entries b))(key \<mapsto> v)) k)))"
    by (auto simp: btree_insert_def Let_def inmem.btree_get_ok)
  have "\<forall>w \<in> snd ` set (RBT.entries (RBT.delete key (bt_entries b))). length w < 2 ^ 32"
    using old by (auto simp: mem restrict_map_def split: if_splits)
  from inmem.btree_set_entries_ok [OF assms(1) this assms(4), of z] obtain b' where
    "rebuild_pages z inmem_ops (b\<lparr>bt_entries := RBT.delete key (bt_entries b)\<rparr>) = Some (Inr (), b')"
    "btree_inv inmem_ops inmem_inv im_pages b'" "bt_entries b' = RBT.delete key (bt_entries b)" by blast
  then show "\<exists>b'. btree_delete z inmem_ops key b = Some (Inr (RBT.lookup (bt_entries b) key), b') \<and>
       btree_inv inmem_ops inmem_inv im_pages b' \<and>
       (\<forall>k. btree_get inmem_ops b' k = Some (Inr (((RBT.lookup (bt_entries b))(key := None)) k)))"
    by (auto simp: btree_delete_def Let_def inmem.btree_get_ok)
qed

lemma btree_4096_inv: "btree_inv inmem_ops inmem_inv im_pages (btree_with_page_size 4096)"
  unfolding btree_with_page_size_def
  by (rule inmem.btree_new_inv [OF inmem_new_inv])
     (simp add: inmem_ops_def inmem_new_def is_supported_page_size_def SUPPORTED_PAGE_SIZES_def)

lemma btree_4096_room: "2 * n + k \<le> 1000 \<Longrightarrow> 2 * n + k \<le> inmem_room (bt_store (btree_with_page_size 4096))"
  by (simp add: btree_with_page_size_def btree_new_def inmem_room_def inmem_new_def CATALOG_ROOT_PAGE_ID_def)

theorem btree_refines_map_witness:
  "\<exists>b'. btree_insert stored_zlib inmem_ops 5 [1, 2, 3] (btree_with_page_size 4096) = Some (Inr None, b') \<and>
     btree_get inmem_ops b' 5 = Some (Inr (Some [1, 2, 3])) \<and> btree_get inmem_ops b' 6 = Some (Inr None)"
proof -
  let ?b = "btree_with_page_size 4096"
  have e: "bt_entries ?b = RBT.empty" "bt_inline_value_limit ?b = 512"
    by (simp_all add: btree_with_page_size_def btree_new_def inmem_ops_def inmem_new_def)
  have ins: "RBT.entries (RBT.insert 5 [1, 2, 3 :: u8] RBT.empty) = [(5 :: u64, [1, 2, 3])]" by code_simp
  have del: "RBT.entries (RBT.delete 5 RBT.empty) = ([] :: (u64 \<times> bytes) list)" by code_simp
  have "pages_needed inmem_ops ?b (RBT.entries (RBT.insert 5 [1, 2, 3] (bt_entries ?b))) \<le> inmem_room (bt_store ?b)"
    "pages_needed inmem_ops ?b (RBT.entries (RBT.delete 5 (bt_entries ?b))) \<le> inmem_room (bt_store ?b)"
    using btree_4096_room [of 1 0] by (simp_all add: e ins del pages_needed_def value_pages_def)
  from btree_refines_map [OF btree_4096_inv _ this, of 0 stored_zlib] show ?thesis by (auto simp: e)
qed

text \<open>
  C12: Cursors enumerate the tree in key order.  Stepping forward from a seek
  yields exactly the entries with keys at least the sought key, ascending, and from
  the start all of them; stepping backward from a seek yields exactly the entries
  with keys at most the sought key, descending, and from the end all of them; then
  the cursor reports the end.
\<close>

theorem btree_cursors_enumerate:
  assumes "btree_inv inmem_ops inmem_inv im_pages b"
    and "es = RBT.entries (bt_entries b)" "length es < n" "s = bt_store b" "root = bt_root_page_id b"
  shows "open_and_drain (cursor_next inmem_ops s) n (cursor_seek_forward inmem_ops s root key) =
      Some (dropWhile (\<lambda>e. fst e < key) es) \<and>
    open_and_drain (cursor_next inmem_ops s) n (cursor_from_start inmem_ops s root) = Some es \<and>
    open_and_drain (cursor_prev inmem_ops s) n (cursor_seek_backward inmem_ops s root key) =
      Some (rev (takeWhile (\<lambda>e. fst e \<le> key) es)) \<and>
    open_and_drain (cursor_prev inmem_ops s) n (cursor_from_end inmem_ops s root) = Some (rev es) \<and>
    sorted_wrt (<) (map fst es) \<and> map_of es = RBT.lookup (bt_entries b)"
proof -
  have "inmem_inv s" "represents (im_pages s) root es"
    using assms by (auto simp: btree_inv_def btree_owns_def)
  from inmem.scan_forward_ok [OF this assms(3)] inmem.scan_backward_ok [OF this assms(3)]
  show ?thesis using assms(2) by (simp add: inmem.entries_sorted RBT.map_of_entries)
qed

theorem btree_cursors_enumerate_witness:
  "\<exists>b :: InMemoryPageStore Btree. bt_entries b = RBT.insert 9 [4] (RBT.insert 5 [1, 2, 3] RBT.empty) \<and>
     open_and_drain (cursor_next inmem_ops (bt_store b)) 3
       (cursor_seek_forward inmem_ops (bt_store b) (bt_root_page_id b) 6) = Some [(9, [4])] \<and>
     open_and_drain (cursor_prev inmem_ops (bt_store b)) 3
       (cursor_from_end inmem_ops (bt_store b) (bt_root_page_id b)) = Some [(9, [4]), (5, [1, 2, 3])]"
proof -
  let ?t = "RBT.insert 9 [4] (RBT.insert 5 [1, 2, 3] RBT.empty) :: (u64, bytes) RBT.rbt"
  have es: "RBT.entries ?t = [(5, [1, 2, 3]), (9, [4])]" by code_simp
  have "bt_inline_value_limit (btree_with_page_size 4096) = 512"
    by (simp add: btree_with_page_size_def btree_new_def inmem_ops_def inmem_new_def)
  then have "pages_needed inmem_ops (btree_with_page_size 4096) (RBT.entries ?t)
      \<le> inmem_room (bt_store (btree_with_page_size 4096))"
    using btree_4096_room [of 2 0] by (simp add: es pages_needed_def value_pages_def)
  moreover have "\<forall>v \<in> snd ` set (RBT.entries ?t). length v < 2 ^ 32" by (simp add: es)
  ultimately obtain b where b: "btree_inv inmem_ops inmem_inv im_pages b" "bt_entries b = ?t"
    using inmem.btree_set_entries_ok [OF btree_4096_inv, of ?t stored_zlib] by blast
  with btree_cursors_enumerate [OF b(1) refl _ refl refl, of 3 6] show ?thesis
    by (intro exI [of _ b]) (simp add: es)
qed

text \<open>
  C13: A rebuild keeps to its own pages: it succeeds, every page the tree did not
  own keeps its content, the pages of the old tree that the new one does not use are
  freed, and the pages in the store afterwards are exactly the foreign ones and the
  new tree's, which are disjoint.  The new tree is in order.
\<close>

theorem btree_rebuild_frame:
  assumes "btree_owns inmem_inv im_pages b idss" "btree_conf inmem_ops b"
    and "pages_needed inmem_ops b (RBT.entries (bt_entries b)) \<le> inmem_room (bt_store b)"
  shows "\<exists>b' idss'. rebuild_pages z inmem_ops b = Some (Inr (), b') \<and> bt_entries b' = bt_entries b \<and>
    btree_inv inmem_ops inmem_inv im_pages b' \<and> btree_owns inmem_inv im_pages b' idss' \<and>
    (\<forall>q. im_pages (bt_store b') q \<noteq> None \<longleftrightarrow> q \<in> set (bt_btree_pages b' @ concat idss') \<or>
       q \<notin> set (bt_btree_pages b @ concat idss) \<and> im_pages (bt_store b) q \<noteq> None) \<and>
    (\<forall>q. q \<notin> set (bt_btree_pages b @ concat idss) \<longrightarrow> im_pages (bt_store b) q \<noteq> None \<longrightarrow>
       im_pages (bt_store b') q = im_pages (bt_store b) q \<and> q \<notin> set (bt_btree_pages b' @ concat idss'))"
  by (rule inmem.rebuild_pages_ok [OF assms])

theorem btree_rebuild_frame_witness:
  "\<exists>b'. rebuild_pages stored_zlib inmem_ops (btree_with_page_size 4096) = Some (Inr (), b') \<and>
     btree_inv inmem_ops inmem_inv im_pages b'"
proof -
  let ?b = "btree_with_page_size 4096"
  have e: "bt_entries ?b = RBT.empty" "bt_overflow_heads ?b = []" "bt_btree_pages ?b = []"
    by (simp_all add: btree_with_page_size_def btree_new_def)
  have "btree_owns inmem_inv im_pages ?b []" "btree_conf inmem_ops ?b"
    using btree_4096_inv e by (auto simp: btree_inv_def btree_owns_def ovf_chains_def)
  moreover have "pages_needed inmem_ops ?b (RBT.entries (bt_entries ?b)) \<le> inmem_room (bt_store ?b)"
    by (simp add: e pages_needed_def)
  ultimately show ?thesis using btree_rebuild_frame [of ?b "[]" stored_zlib] by blast
qed

end
