(* ===== verification/WalDelta.thy ===== *)
theory WalDelta
  imports Vfs
begin

text \<open>
  Page deltas of the write-ahead log, \<open>wal/delta.rs\<close>: a page edit is stored as a
  fixed-size list of patches when it is small enough.  \<open>encode_page_delta_into\<close>
  returns \<^const>\<open>None\<close> where the code returns \<open>false\<close> and leaves the buffer empty.
\<close>

section \<open>Definitions\<close>

definition DELTA_FRAME_PAYLOAD_SIZE :: nat where "DELTA_FRAME_PAYLOAD_SIZE = 512"
definition DELTA_PATCH_COUNT_SIZE :: nat where "DELTA_PATCH_COUNT_SIZE = 2"
definition DELTA_PATCH_HEADER_SIZE :: nat where "DELTA_PATCH_HEADER_SIZE = 4"

definition u16_checked_add :: "u16 \<Rightarrow> u16 \<Rightarrow> u16 option" where
  "u16_checked_add a b = (if unat a + unat b < 2 ^ 16 then Some (a + b) else None)"

text \<open>The end of a run of differing bytes.\<close>

function delta_run_end :: "bytes \<Rightarrow> bytes \<Rightarrow> nat \<Rightarrow> nat" where
  "delta_run_end base updated index =
     (if index < length updated \<and> base ! index \<noteq> updated ! index
      then delta_run_end base updated (index + 1) else index)"
  by pat_completeness auto
termination
  by (relation "measure (\<lambda>(_, updated, index). length updated - index)") auto

declare delta_run_end.simps [simp del]

lemma delta_run_end_ge: "index \<le> delta_run_end base updated index"
proof (induction base updated index rule: delta_run_end.induct)
  case (1 base updated index)
  then show ?case by (subst delta_run_end.simps) auto
qed

function delta_loop :: "bytes \<Rightarrow> bytes \<Rightarrow> nat \<Rightarrow> bytes \<Rightarrow> u16 \<Rightarrow> (bytes \<times> u16) option" where
  "delta_loop base updated index payload patch_count =
     (if index < length updated then
        if base ! index = updated ! index
        then delta_loop base updated (index + 1) payload patch_count
        else
          let start = index;
              index' = delta_run_end base updated (index + 1);
              len = index' - start
          in if length payload + DELTA_PATCH_HEADER_SIZE + len > DELTA_FRAME_PAYLOAD_SIZE then None
             else case u16_try_from start of
               None \<Rightarrow> None
             | Some offset \<Rightarrow>
                 (case u16_try_from len of
                    None \<Rightarrow> None
                  | Some patch_len \<Rightarrow>
                      (case u16_checked_add patch_count 1 of
                         None \<Rightarrow> None
                       | Some next \<Rightarrow>
                           delta_loop base updated index'
                             (payload @ u16_le offset @ u16_le patch_len @ bslice updated start index')
                             next))
      else Some (payload, patch_count))"
  by pat_completeness auto
termination
proof (relation "measure (\<lambda>(_, updated, index, _, _). length updated - index)", goal_cases)
  case (3 base updated index payload patch_count start index' len)
  then show ?case using delta_run_end_ge [of "index + 1" base updated] by simp
qed auto

declare delta_loop.simps [simp del]

definition encode_page_delta_into :: "bytes \<Rightarrow> bytes \<Rightarrow> bytes option" where
  "encode_page_delta_into base updated =
     (if length base \<noteq> length updated then None
      else case delta_loop base updated 0 (u16_le 0) 0 of
        None \<Rightarrow> None
      | Some (payload, patch_count) \<Rightarrow>
          if patch_count = 0 \<or> length payload \<ge> length updated then None
          else Some (vec_resize (copy_at payload 0 (u16_le patch_count)) DELTA_FRAME_PAYLOAD_SIZE))"

definition encode_page_delta :: "bytes \<Rightarrow> bytes \<Rightarrow> bytes option" where
  "encode_page_delta base updated = encode_page_delta_into base updated"

definition decode_delta_patch_header :: "bytes \<Rightarrow> nat \<Rightarrow> (nat \<times> nat \<times> nat) result" where
  "decode_delta_patch_header payload cursor =
     (if cursor + DELTA_PATCH_HEADER_SIZE > length payload
      then Inl (Corruption ''WAL delta patch header overruns payload'')
      else Inr (unat (u16_of_le (bslice payload cursor (cursor + 2))),
                unat (u16_of_le (bslice payload (cursor + 2) (cursor + 4))),
                cursor + DELTA_PATCH_HEADER_SIZE))"

fun delta_check_loop :: "bytes \<Rightarrow> nat \<Rightarrow> nat \<Rightarrow> nat \<Rightarrow> unit result" where
  "delta_check_loop payload page_len 0 cursor = Inr ()"
| "delta_check_loop payload page_len (Suc n) cursor =
     rbind (decode_delta_patch_header payload cursor) (\<lambda>(offset, len, next_cursor).
       if next_cursor + len > length payload
       then Inl (Corruption ''WAL delta patch bytes overrun payload'')
       else if offset + len > page_len
       then Inl (Corruption ''WAL delta patch writes past page end'')
       else delta_check_loop payload page_len n (next_cursor + len))"

fun delta_apply_loop :: "bytes \<Rightarrow> nat \<Rightarrow> nat \<Rightarrow> bytes \<Rightarrow> unit result \<times> bytes" where
  "delta_apply_loop payload 0 cursor page = (Inr (), page)"
| "delta_apply_loop payload (Suc n) cursor page =
     (case decode_delta_patch_header payload cursor of
        Inl e \<Rightarrow> (Inl e, page)
      | Inr (offset, len, next_cursor) \<Rightarrow>
          let bytes_end = next_cursor + len
          in delta_apply_loop payload n bytes_end
               (copy_at page offset (bslice payload next_cursor bytes_end)))"

definition apply_page_delta_in_place :: "bytes \<Rightarrow> bytes \<Rightarrow> unit result \<times> bytes" where
  "apply_page_delta_in_place page payload =
     (if length payload \<noteq> DELTA_FRAME_PAYLOAD_SIZE
      then (Inl (Corruption ''invalid WAL delta payload length''), page)
      else
        let patch_count = unat (u16_of_le (bslice payload 0 DELTA_PATCH_COUNT_SIZE))
        in case delta_check_loop payload (length page) patch_count DELTA_PATCH_COUNT_SIZE of
             Inl e \<Rightarrow> (Inl e, page)
           | Inr _ \<Rightarrow> delta_apply_loop payload patch_count DELTA_PATCH_COUNT_SIZE page)"

section \<open>Patches\<close>

fun patch_bytes :: "(nat \<times> bytes) list \<Rightarrow> bytes" where
  "patch_bytes [] = []"
| "patch_bytes ((off, b) # ps) = u16_le (of_nat off) @ u16_le (of_nat (length b)) @ b @ patch_bytes ps"

definition apply_patches :: "(nat \<times> bytes) list \<Rightarrow> bytes \<Rightarrow> bytes" where
  "apply_patches ps page = fold (\<lambda>(off, b) page. copy_at page off b) ps page"

definition patch_ok :: "nat \<Rightarrow> nat \<times> bytes \<Rightarrow> bool" where
  "patch_ok n p \<longleftrightarrow> fst p + length (snd p) \<le> n \<and> fst p < 2 ^ 16 \<and> length (snd p) < 2 ^ 16"

lemma patch_bytes_append: "patch_bytes (ps @ qs) = patch_bytes ps @ patch_bytes qs"
  by (induction ps rule: patch_bytes.induct) auto

lemma length_patch_bytes: "4 * length ps \<le> length (patch_bytes ps)"
  by (induction ps rule: patch_bytes.induct) auto

lemma delta_header_read:
  assumes "drop cursor payload = u16_le a @ u16_le b @ rest" "cursor \<le> length payload"
  shows "decode_delta_patch_header payload cursor = Inr (unat a, unat b, cursor + 4)"
proof -
  have "length payload = cursor + 4 + length rest"
    using arg_cong [OF assms(1), of length] assms(2) by simp
  moreover have "bslice payload cursor (cursor + 2) = u16_le a"
    using assms(1) by (simp add: bslice_def)
  moreover have "bslice payload (cursor + 2) (cursor + 4) = u16_le b"
    using arg_cong [OF assms(1), of "drop 2"] by (simp add: bslice_def add.commute)
  ultimately show ?thesis by (simp add: decode_delta_patch_header_def DELTA_PATCH_HEADER_SIZE_def)
qed

lemma delta_loops_ok:
  "drop cursor payload = patch_bytes ps @ rest \<Longrightarrow> cursor \<le> length payload \<Longrightarrow>
     \<forall>p \<in> set ps. patch_ok (length page) p \<Longrightarrow>
     delta_check_loop payload (length page) (length ps) cursor = Inr () \<and>
     delta_apply_loop payload (length ps) cursor page = (Inr (), apply_patches ps page)"
proof (induction ps arbitrary: cursor page)
  case Nil
  then show ?case by (simp add: apply_patches_def)
next
  case (Cons p ps)
  obtain off b where p: "p = (off, b)" by (cases p)
  have ok: "off + length b \<le> length page" "off < 65536" "length b < 65536"
    using Cons.prems(3) p by (auto simp: patch_ok_def)
  have d: "drop cursor payload = u16_le (of_nat off) @ u16_le (of_nat (length b)) @ (b @ patch_bytes ps @ rest)"
    using Cons.prems(1) p by simp
  from delta_header_read [OF this Cons.prems(2)] ok
  have hd: "decode_delta_patch_header payload cursor = Inr (off, length b, cursor + 4)"
    by (simp add: unat_of_nat_small)
  have d4: "drop (cursor + 4) payload = b @ patch_bytes ps @ rest"
    using arg_cong [OF d, of "drop 4"] by (simp add: add.commute)
  have len: "length payload = cursor + 4 + length b + length (patch_bytes ps @ rest)"
    using arg_cong [OF d, of length] Cons.prems(2) by simp
  have "drop (cursor + 4 + length b) payload = patch_bytes ps @ rest"
    using arg_cong [OF d4, of "drop (length b)"] by (simp add: add.commute add.left_commute)
  moreover have "bslice payload (cursor + 4) (cursor + 4 + length b) = b"
    using d4 by (simp add: bslice_def)
  moreover have lc: "length (copy_at page off b) = length page" using ok(1) by simp
  ultimately show ?case
    using Cons.IH [of "cursor + 4 + length b" "copy_at page off b"] Cons.prems(3) hd len ok(1) p
    by (simp add: apply_patches_def Let_def)
qed

section \<open>The encoder's patches turn the base into the update\<close>

lemma delta_run_end_le: "index \<le> length updated \<Longrightarrow> delta_run_end base updated index \<le> length updated"
proof (induction base updated index rule: delta_run_end.induct)
  case (1 base updated index)
  then show ?case by (subst delta_run_end.simps) auto
qed

lemma u16_count_step:
  "u16_checked_add (of_nat n) 1 = Some c \<Longrightarrow> n < 2 ^ 16 \<Longrightarrow> c = of_nat (Suc n) \<and> Suc n < 2 ^ 16"
  by (auto simp: u16_checked_add_def unat_of_nat_small add.commute split: if_splits)

lemma patched_prefix:
  assumes "length base = length updated" "i \<le> j" "j \<le> length updated"
    and "page = take i updated @ drop i base"
  shows "copy_at page i (bslice updated i j) = take j updated @ drop j base"
proof -
  have "take j updated = take i updated @ bslice updated i j"
    using bslice_append_bslice [of 0 i j updated] assms(2) by simp
  with assms show ?thesis by (simp add: copy_at_def)
qed

lemma delta_loop_ok:
  "delta_loop base updated index payload count = Some (payload', count') \<Longrightarrow>
     length base = length updated \<Longrightarrow> index \<le> length updated \<Longrightarrow>
     payload = h @ patch_bytes ps \<Longrightarrow> length h = 2 \<Longrightarrow> length payload \<le> 512 \<Longrightarrow>
     count = of_nat (length ps) \<Longrightarrow> length ps < 2 ^ 16 \<Longrightarrow>
     \<forall>p \<in> set ps. patch_ok (length base) p \<Longrightarrow>
     apply_patches ps base = take index updated @ drop index base \<Longrightarrow>
     \<exists>ps'. payload' = h @ patch_bytes ps' \<and> length payload' \<le> 512 \<and> count' = of_nat (length ps') \<and>
       length ps' < 2 ^ 16 \<and> (\<forall>p \<in> set ps'. patch_ok (length base) p) \<and> apply_patches ps' base = updated"
proof (induction base updated index payload count arbitrary: ps rule: delta_loop.induct)
  case (1 base updated index payload count)
  show ?case
  proof (cases "index < length updated")
    case False
    then have "payload' = payload" "count' = count" using "1.prems"(1)
      by (auto simp: delta_loop.simps [of base updated index payload count])
    with False "1.prems" show ?thesis by (intro exI [of _ ps]) auto
  next
    case True
    show ?thesis
    proof (cases "base ! index = updated ! index")
      case eq: True
      have rec: "delta_loop base updated (index + 1) payload count = Some (payload', count')"
        using "1.prems"(1) True eq by (simp add: delta_loop.simps [of base updated index payload count])
      have "apply_patches ps base = take (index + 1) updated @ drop (index + 1) base"
        using "1.prems"(2,10) True eq
        by (simp add: take_Suc_conv_app_nth Cons_nth_drop_Suc [symmetric])
      with "1.IH"(1) [OF True eq rec] "1.prems" True show ?thesis by simp
    next
      case ne: False
      define j where "j = delta_run_end base updated (index + 1)"
      define b where "b = bslice updated index j"
      have j: "index < j" "j \<le> length updated"
        using delta_run_end_ge [of "index + 1" base updated] delta_run_end_le [of "index + 1" updated base] True
        by (auto simp: j_def)
      have lb: "length b = j - index" using j by (simp add: b_def)
      from "1.prems"(1) True ne have
        fit: "length payload + 4 + (j - index) \<le> 512" and i16: "index < 65536" and l16: "j - index < 65536"
        and "\<exists>c. u16_checked_add count 1 = Some c \<and>
          delta_loop base updated j (payload @ u16_le (of_nat index) @ u16_le (of_nat (j - index)) @ b) c =
            Some (payload', count')"
        by (auto simp: delta_loop.simps [of base updated index payload count] Let_def j_def b_def
            DELTA_PATCH_HEADER_SIZE_def DELTA_FRAME_PAYLOAD_SIZE_def split: if_splits option.splits)
      then obtain c where c: "u16_checked_add count 1 = Some c"
        and rec: "delta_loop base updated j (payload @ u16_le (of_nat index) @ u16_le (of_nat (j - index)) @ b) c =
            Some (payload', count')" by blast
      let ?ps = "ps @ [(index, b)]"
      have cnt: "c = of_nat (length ?ps)" "length ?ps < 2 ^ 16"
        using u16_count_step [of "length ps" c] c "1.prems"(7,8) by auto
      have pay: "payload @ u16_le (of_nat index) @ u16_le (of_nat (j - index)) @ b = h @ patch_bytes ?ps"
        using "1.prems"(4) lb by (simp add: patch_bytes_append)
      have ap: "apply_patches ?ps base = take j updated @ drop j base"
        using patched_prefix [OF "1.prems"(2) _ j(2) "1.prems"(10)] j(1)
        by (simp add: apply_patches_def b_def)
      have ok: "\<forall>p \<in> set ?ps. patch_ok (length base) p"
        using "1.prems"(2,9) i16 l16 j lb by (auto simp: patch_ok_def)
      have f2: "\<not> length payload + DELTA_PATCH_HEADER_SIZE + (j - index) > DELTA_FRAME_PAYLOAD_SIZE"
        using fit by (simp add: DELTA_PATCH_HEADER_SIZE_def DELTA_FRAME_PAYLOAD_SIZE_def)
      have t1: "u16_try_from index = Some (of_nat index)" "u16_try_from (j - index) = Some (of_nat (j - index))"
        using i16 l16 by simp_all
      have lp: "length (payload @ u16_le (of_nat index) @ u16_le (of_nat (j - index)) @ b) \<le> 512"
        using fit lb by simp
      show ?thesis
        by (rule "1.IH"(2) [OF True ne refl j_def refl f2 t1 c rec [unfolded b_def] "1.prems"(2) j(2)
              pay [unfolded b_def] "1.prems"(5) lp [unfolded b_def] cnt [unfolded b_def]
              ok [unfolded b_def] ap [unfolded b_def]])
    qed
  qed
qed

lemma encode_page_delta_ok:
  assumes "encode_page_delta base updated = Some payload"
  shows "length payload = 512 \<and> apply_page_delta_in_place base payload = (Inr (), updated)"
proof -
  from assms obtain p c where len: "length base = length updated"
    and loop: "delta_loop base updated 0 (u16_le 0) 0 = Some (p, c)"
    and payload: "payload = vec_resize (copy_at p 0 (u16_le c)) 512"
    by (auto simp: encode_page_delta_def encode_page_delta_into_def DELTA_FRAME_PAYLOAD_SIZE_def
        split: if_splits option.splits)
  from delta_loop_ok [OF loop len, of "u16_le 0" "[]"] obtain ps where
    ps: "p = u16_le 0 @ patch_bytes ps" "length p \<le> 512" "c = of_nat (length ps)" "length ps < 2 ^ 16"
      "\<forall>q \<in> set ps. patch_ok (length base) q" "apply_patches ps base = updated"
    by (auto simp: apply_patches_def)
  have pay: "payload = u16_le c @ patch_bytes ps @ replicate (512 - length p) 0"
    using ps(1,2) by (simp add: payload vec_resize_def copy_at_def)
  have cnt: "unat (u16_of_le (take 2 payload)) = length ps"
    using ps(3,4) by (simp add: pay unat_of_nat_small)
  have "drop 2 payload = patch_bytes ps @ replicate (512 - length p) 0" by (simp add: pay)
  from delta_loops_ok [OF this _ ps(5)] ps(1,2,6)
  have "delta_check_loop payload (length base) (length ps) 2 = Inr ()"
    "delta_apply_loop payload (length ps) 2 base = (Inr (), updated)" by (simp_all add: pay)
  moreover have "length payload = 512" by (simp add: payload)
  ultimately show ?thesis
    using cnt by (simp add: apply_page_delta_in_place_def Let_def DELTA_FRAME_PAYLOAD_SIZE_def DELTA_PATCH_COUNT_SIZE_def)
qed

text \<open>Once the patches are checked, applying them cannot fail.\<close>

lemma delta_apply_after_check:
  "delta_check_loop payload (length page) n cursor = Inr () \<Longrightarrow>
     \<exists>page'. delta_apply_loop payload n cursor page = (Inr (), page') \<and> length page' = length page"
proof (induction n arbitrary: cursor page)
  case (Suc n)
  from Suc.prems obtain off len nc where
    h: "decode_delta_patch_header payload cursor = Inr (off, len, nc)" "nc + len \<le> length payload"
      "off + len \<le> length page" "delta_check_loop payload (length page) n (nc + len) = Inr ()"
    by (auto simp: rbind_eq_Inr split: if_splits)
  let ?page = "copy_at page off (bslice payload nc (nc + len))"
  have "length ?page = length page" using h(2,3) by simp
  with Suc.IH [of ?page "nc + len"] h show ?case by (simp add: Let_def)
qed simp

section \<open>Properties\<close>

text \<open>
  C19: A page delta reproduces the edit: whenever the encoder produces a delta for
  a base page and an updated page, the delta is exactly one fixed-size payload, and
  applying it to the base succeeds and yields the updated page.
\<close>

theorem delta_encode_apply:
  assumes "encode_page_delta base updated = Some payload"
  shows "length payload = DELTA_FRAME_PAYLOAD_SIZE \<and>
    apply_page_delta_in_place base payload = (Inr (), updated)"
  using encode_page_delta_ok [OF assms] by (simp add: DELTA_FRAME_PAYLOAD_SIZE_def)

theorem delta_encode_apply_witness:
  "\<exists>payload. encode_page_delta [0, 0, 0, 0, 0, 0, 0, 0] [0, 0, 9, 0, 0, 0, 0, 0] = Some payload \<and>
     apply_page_delta_in_place [0, 0, 0, 0, 0, 0, 0, 0] payload = (Inr (), [0, 0, 9, 0, 0, 0, 0, 0])"
proof -
  let ?a = "[0, 0, 0, 0, 0, 0, 0, 0] :: bytes" and ?b = "[0, 0, 9, 0, 0, 0, 0, 0] :: bytes"
  have r: "delta_run_end ?a ?b 3 = 3" by (simp add: delta_run_end.simps)
  have s3: "delta_loop ?a ?b 3 p 1 = Some (p, 1)" for p by (simp add: delta_loop.simps)
  have s2: "delta_loop ?a ?b 2 p 0 = delta_loop ?a ?b 3 (p @ u16_le 2 @ u16_le 1 @ [9]) 1" if "length p = 2" for p
    using that
    by (subst delta_loop.simps) (simp add: Let_def r DELTA_PATCH_HEADER_SIZE_def DELTA_FRAME_PAYLOAD_SIZE_def
        u16_try_from_def u16_checked_add_def bslice_def)
  have "delta_loop ?a ?b 0 p 0 = delta_loop ?a ?b 2 p 0" for p
    by (subst delta_loop.simps, simp, subst delta_loop.simps, simp add: numeral_2_eq_2)
  then have "delta_loop ?a ?b 0 (u16_le 0) 0 = Some (u16_le 0 @ u16_le 2 @ u16_le 1 @ [9], 1)"
    by (simp add: s2 s3)
  then obtain payload where p: "encode_page_delta ?a ?b = Some payload"
    by (simp add: encode_page_delta_def encode_page_delta_into_def)
  with delta_encode_apply [OF p] show ?thesis by blast
qed

text \<open>
  C27: Applying a delta is all or nothing, for any payload: it either succeeds and
  keeps the length of the page, or reports corruption and leaves the page as it
  was; it never writes outside the page.
\<close>

theorem delta_apply_atomic:
  "\<exists>r page'. apply_page_delta_in_place page payload = (r, page') \<and> length page' = length page \<and>
     (r = Inr () \<or> (\<exists>message. r = Inl (Corruption message)) \<and> page' = page)"
proof -
  let ?n = "unat (u16_of_le (bslice payload 0 DELTA_PATCH_COUNT_SIZE))"
  have err: "\<exists>message. e = Corruption message"
    if "delta_check_loop payload m n cursor = Inl e" for m n cursor e
    using that by (induction n arbitrary: cursor)
      (auto simp: decode_delta_patch_header_def rbind_def split: if_splits)
  show ?thesis
  proof (cases "delta_check_loop payload (length page) ?n DELTA_PATCH_COUNT_SIZE")
    case (Inl e)
    with err [OF Inl] show ?thesis by (auto simp: apply_page_delta_in_place_def Let_def)
  next
    case (Inr u)
    with delta_apply_after_check [of payload page ?n DELTA_PATCH_COUNT_SIZE] show ?thesis
      by (auto simp: apply_page_delta_in_place_def Let_def)
  qed
qed

end
