(* ===== verification/WalFormat.thy ===== *)
theory WalFormat
  imports WalDelta Pages
begin

text \<open>
  The write-ahead log on disk, \<open>wal/format.rs\<close>: the file header, the four frame types
  and the three ways a frame is read back: header first and body second, in one read
  of a known length, and in place out of a buffer.  Additions to file offsets are
  64-bit and wrap; reads are shown correct for files below \<open>2 ^ 63\<close> bytes.
\<close>

section \<open>Definitions\<close>

definition WAL_HEADER_SIZE :: u64 where "WAL_HEADER_SIZE = 32"
definition WAL_HEADER_VERSION :: u32 where "WAL_HEADER_VERSION = 2"
definition WAL_MAGIC :: bytes where
  "WAL_MAGIC = [0x44, 0x44, 0x42, 0x57, 0x41, 0x4C, 0x30, 0x31]"
definition FRAME_HEADER_SIZE :: nat where "FRAME_HEADER_SIZE = 5"
definition FRAME_TRAILER_SIZE :: nat where "FRAME_TRAILER_SIZE = 8"

datatype FrameType = Page | Commit | Checkpoint | PageDelta

datatype FrameEncoding = EncPage | EncPageDelta

fun encoding_frame_type :: "FrameEncoding \<Rightarrow> FrameType" where
  "encoding_frame_type EncPage = Page"
| "encoding_frame_type EncPageDelta = PageDelta"

fun payload_size :: "FrameType \<Rightarrow> u32 \<Rightarrow> nat" where
  "payload_size Page page_size = unat page_size"
| "payload_size Commit page_size = 0"
| "payload_size Checkpoint page_size = 8"
| "payload_size PageDelta page_size = DELTA_FRAME_PAYLOAD_SIZE"

text \<open>The discriminants of the enum, as the cast \<open>as u8\<close> writes them, and the reverse.\<close>

fun frame_type_byte :: "FrameType \<Rightarrow> u8" where
  "frame_type_byte Page = 0"
| "frame_type_byte Commit = 1"
| "frame_type_byte Checkpoint = 2"
| "frame_type_byte PageDelta = 3"

definition frame_type_try_from :: "u8 \<Rightarrow> FrameType result" where
  "frame_type_try_from v =
     (if v = 0 then Inr Page else if v = 1 then Inr Commit else if v = 2 then Inr Checkpoint
      else if v = 3 then Inr PageDelta else Inl (Corruption ''unknown WAL frame type''))"

record WalHeader =
  wh_page_size :: u32
  wh_wal_end_offset :: u64

definition wal_header_encode :: "WalHeader \<Rightarrow> bytes" where
  "wal_header_encode h =
     (let bs = copy_at (replicate 32 0) 0 WAL_MAGIC;
          bs = copy_at bs 8 (u32_le WAL_HEADER_VERSION);
          bs = copy_at bs 12 (u32_le (wh_page_size h))
      in copy_at bs 16 (u64_le (wh_wal_end_offset h)))"

definition wal_header_decode :: "bytes \<Rightarrow> WalHeader result" where
  "wal_header_decode bs =
     (if bslice bs 0 (length WAL_MAGIC) \<noteq> WAL_MAGIC then Inl (Corruption ''invalid WAL header magic'')
      else
        let header_version = u32_of_le (bslice bs 8 12)
        in if header_version \<noteq> 1 \<and> header_version \<noteq> WAL_HEADER_VERSION
           then Inl (Corruption ''unsupported WAL header version'')
           else
             let page_size = u32_of_le (bslice bs 12 16);
                 wal_end_offset = u64_of_le (bslice bs 16 24)
             in if wal_end_offset \<noteq> 0 \<and> wal_end_offset < WAL_HEADER_SIZE
                then Inl (Corruption ''invalid WAL logical end offset'')
                else Inr \<lparr>wh_page_size = page_size, wh_wal_end_offset = wal_end_offset\<rparr>)"

record WalFrame =
  wf_frame_type :: FrameType
  wf_page_id :: page_id
  wf_payload :: bytes

definition is_page_frame :: "FrameType \<Rightarrow> bool" where
  "is_page_frame t = (t = Page \<or> t = PageDelta)"

definition frame_encoded_len :: "WalFrame \<Rightarrow> u32 \<Rightarrow> nat" where
  "frame_encoded_len fr page_size =
     FRAME_HEADER_SIZE + payload_size (wf_frame_type fr) page_size + FRAME_TRAILER_SIZE"

definition frame_encode :: "WalFrame \<Rightarrow> u32 \<Rightarrow> bytes result" where
  "frame_encode fr page_size =
     (if length (wf_payload fr) \<noteq> payload_size (wf_frame_type fr) page_size
      then Inl (Internal ''WAL frame payload length does not match expected payload length'')
      else if is_page_frame (wf_frame_type fr) \<and> wf_page_id fr = 0
      then Inl (Corruption ''page WAL frames must have a non-zero page id'')
      else if \<not> is_page_frame (wf_frame_type fr) \<and> wf_page_id fr \<noteq> 0
      then Inl (Corruption ''non-page WAL frames must use page id 0'')
      else Inr ([frame_type_byte (wf_frame_type fr)] @ u32_le (wf_page_id fr) @ wf_payload fr @ u64_le 0))"

definition check_frame_page_id :: "FrameType \<Rightarrow> page_id \<Rightarrow> unit result" where
  "check_frame_page_id t page_id =
     (if is_page_frame t \<and> page_id = 0 then Inl (Corruption ''page WAL frame used page id 0'')
      else if \<not> is_page_frame t \<and> page_id \<noteq> 0
      then Inl (Corruption ''non-page WAL frame used a non-zero page id'')
      else Inr ())"

definition decode_from_file ::
  "'f vfs_file_ops \<Rightarrow> 'f \<Rightarrow> u64 \<Rightarrow> u32 \<Rightarrow> u64 \<Rightarrow> WalFrame option result"
where
  "decode_from_file ops f offset page_size logical_end =
     (if offset \<ge> logical_end then Inr None
      else if offset + of_nat FRAME_HEADER_SIZE > logical_end then Inr None
      else
        rbind (read_exact_at ops offset FRAME_HEADER_SIZE f) (\<lambda>header.
        rbind (frame_type_try_from (header ! 0)) (\<lambda>frame_type.
          let page_id = u32_of_le (bslice header 1 5);
              payload_len = payload_size frame_type page_size;
              total_len = FRAME_HEADER_SIZE + payload_len + FRAME_TRAILER_SIZE
          in if offset + of_nat total_len > logical_end then Inr None
             else
               rbind (read_exact_at ops (offset + of_nat FRAME_HEADER_SIZE) (payload_len + FRAME_TRAILER_SIZE) f)
                 (\<lambda>body.
               rbind (check_frame_page_id frame_type page_id) (\<lambda>_.
                 Inr (Some \<lparr>wf_frame_type = frame_type, wf_page_id = page_id,
                            wf_payload = take payload_len body\<rparr>))))))"

definition decode_from_file_with_len ::
  "'f vfs_file_ops \<Rightarrow> 'f \<Rightarrow> u64 \<Rightarrow> u32 \<Rightarrow> u32 \<Rightarrow> u64 \<Rightarrow> WalFrame option result"
where
  "decode_from_file_with_len ops f offset frame_len page_size logical_end =
     (if offset \<ge> logical_end then Inr None
      else
        let total_len = unat frame_len;
            minimum_len = FRAME_HEADER_SIZE + FRAME_TRAILER_SIZE
        in if total_len < minimum_len then Inl (Corruption ''WAL frame length too small'')
           else if \<not> is_supported_page_size page_size then Inl (Corruption ''unsupported WAL page size'')
           else
             let maximum_len = FRAME_HEADER_SIZE + max (max (unat page_size) DELTA_FRAME_PAYLOAD_SIZE) 8
                   + FRAME_TRAILER_SIZE
             in if total_len > maximum_len then Inl (Corruption ''WAL frame length exceeds maximum'')
                else case u64_checked_add offset (of_nat total_len) of
                  None \<Rightarrow> Inl (Corruption ''WAL frame end offset overflows'')
                | Some frame_end \<Rightarrow>
                    if frame_end > logical_end then Inr None
                    else
                      rbind (read_exact_at ops offset total_len f) (\<lambda>bs.
                      rbind (frame_type_try_from (bs ! 0)) (\<lambda>frame_type.
                        let page_id = u32_of_le (bslice bs 1 5);
                            payload_len = payload_size frame_type page_size
                        in if FRAME_HEADER_SIZE + payload_len + FRAME_TRAILER_SIZE \<noteq> total_len
                           then Inl (Corruption ''WAL frame length mismatch'')
                           else rbind (check_frame_page_id frame_type page_id) (\<lambda>_.
                             Inr (Some \<lparr>wf_frame_type = frame_type, wf_page_id = page_id,
                               wf_payload = bslice bs FRAME_HEADER_SIZE (FRAME_HEADER_SIZE + payload_len)\<rparr>)))))"

definition page_payload_from_encoded_with_len ::
  "bytes \<Rightarrow> page_id \<Rightarrow> u32 \<Rightarrow> u32 \<Rightarrow> bytes result"
where
  "page_payload_from_encoded_with_len bs expected_page_id frame_len page_size =
     (if \<not> is_supported_page_size page_size then Inl (Corruption ''unsupported WAL page size'')
      else
        let payload_len = unat page_size;
            expected_len = FRAME_HEADER_SIZE + payload_len + FRAME_TRAILER_SIZE;
            indexed_len = unat frame_len
        in if indexed_len \<noteq> expected_len then Inl (Corruption ''WAL full-page frame length mismatch'')
           else if length bs \<noteq> indexed_len then Inl (Corruption ''WAL full-page frame slice length mismatch'')
           else rbind (frame_type_try_from (bs ! 0)) (\<lambda>frame_type.
             if frame_type \<noteq> Page
             then Inl (Corruption ''WAL checkpoint index expected a full Page frame'')
             else
               let page_id = u32_of_le (bslice bs 1 5)
               in if page_id = 0 then Inl (Corruption ''page WAL frame used page id 0'')
                  else if page_id \<noteq> expected_page_id then Inl (Corruption ''WAL frame belongs to another page'')
                  else Inr (bslice bs FRAME_HEADER_SIZE (FRAME_HEADER_SIZE + payload_len))))"

section \<open>Frames as bytes\<close>

definition frame_ok :: "u32 \<Rightarrow> WalFrame \<Rightarrow> bool" where
  "frame_ok page_size fr \<longleftrightarrow> length (wf_payload fr) = payload_size (wf_frame_type fr) page_size \<and>
     (is_page_frame (wf_frame_type fr) \<longleftrightarrow> wf_page_id fr \<noteq> 0)"

definition frame_bytes :: "WalFrame \<Rightarrow> bytes" where
  "frame_bytes fr = [frame_type_byte (wf_frame_type fr)] @ u32_le (wf_page_id fr) @ wf_payload fr @ u64_le 0"

lemma frame_type_roundtrip [simp]: "frame_type_try_from (frame_type_byte t) = Inr t"
  by (cases t) (simp_all add: frame_type_try_from_def)

lemma frame_type_byte_of: "frame_type_try_from v = Inr t \<Longrightarrow> frame_type_byte t = v"
  by (auto simp: frame_type_try_from_def split: if_splits)

lemma frame_encode_eq: "frame_ok page_size fr \<Longrightarrow> frame_encode fr page_size = Inr (frame_bytes fr)"
  by (auto simp: frame_encode_def frame_ok_def frame_bytes_def)

lemma length_frame_bytes: "frame_ok page_size fr \<Longrightarrow> length (frame_bytes fr) = frame_encoded_len fr page_size"
  by (simp add: frame_bytes_def frame_ok_def frame_encoded_len_def FRAME_HEADER_SIZE_def FRAME_TRAILER_SIZE_def)

lemma frame_bytes_fields:
  "frame_bytes fr ! 0 = frame_type_byte (wf_frame_type fr)"
  "u32_of_le (bslice (frame_bytes fr) 1 5) = wf_page_id fr"
  "bslice (frame_bytes fr) 5 (5 + length (wf_payload fr)) = wf_payload fr"
  by (simp_all add: frame_bytes_def bslice_def)

lemma check_frame_page_id_ok: "check_frame_page_id t p = Inr u \<longleftrightarrow> (is_page_frame t \<longleftrightarrow> p \<noteq> 0)"
  by (auto simp: check_frame_page_id_def)

lemma payload_size_bound: "payload_size t page_size \<le> max (max (unat page_size) DELTA_FRAME_PAYLOAD_SIZE) 8"
  by (cases t) auto

lemma bslice_take: "j \<le> n \<Longrightarrow> bslice (take n xs) i j = bslice xs i j"
  by (simp add: bslice_def drop_take min_def)

text \<open>\<open>frame_at c o page_size fr\<close>: the bytes \<open>c\<close> hold the complete frame \<open>fr\<close> at position \<open>o\<close>.\<close>

definition frame_at :: "bytes \<Rightarrow> nat \<Rightarrow> u32 \<Rightarrow> WalFrame \<Rightarrow> bool" where
  "frame_at c o' page_size fr \<longleftrightarrow> o' + frame_encoded_len fr page_size \<le> length c \<and>
     frame_type_try_from (c ! o') = Inr (wf_frame_type fr) \<and>
     wf_page_id fr = u32_of_le (bslice c (o' + 1) (o' + 5)) \<and>
     wf_payload fr = bslice c (o' + 5) (o' + 5 + payload_size (wf_frame_type fr) page_size) \<and>
     (is_page_frame (wf_frame_type fr) \<longleftrightarrow> wf_page_id fr \<noteq> 0)"

lemma frame_at_ok: "frame_at c o' page_size fr \<Longrightarrow> frame_ok page_size fr"
  by (auto simp: frame_at_def frame_ok_def frame_encoded_len_def FRAME_HEADER_SIZE_def)

lemma frame_at_bytes:
  assumes "frame_ok page_size fr" "bslice c o' (o' + length (frame_bytes fr)) = frame_bytes fr"
    and "o' + length (frame_bytes fr) \<le> length c"
  shows "frame_at c o' page_size fr"
proof -
  let ?n = "length (frame_bytes fr)" and ?p = "length (wf_payload fr)"
  have n: "?n = 13 + ?p" by (simp add: frame_bytes_def)
  have b: "bslice c (o' + i) (o' + j) = bslice (frame_bytes fr) i j" if "j \<le> ?n" for i j
    using that assms(2) bslice_bslice [of j "o' + ?n" o' c i] by simp
  have "c ! o' = frame_bytes fr ! 0"
    using nth_bslice [of o' 0 "o' + ?n" c] assms(2,3) n by simp
  with b [of 5 1] b [of "5 + ?p" 5] n assms(1,3) length_frame_bytes [OF assms(1)] show ?thesis
    by (simp add: frame_at_def frame_bytes_fields frame_ok_def add.assoc del: One_nat_def)
qed

lemma frame_at_unique: "frame_at c o' page_size fr \<Longrightarrow> frame_at c o' page_size fr' \<Longrightarrow> fr = fr'"
  by (cases fr; cases fr') (auto simp: frame_at_def)

context vfs_file
begin

lemma unat_offset: "unat off + n < 2 ^ 64 \<Longrightarrow> unat (off + of_nat n :: u64) = unat off + n"
  by (simp add: unat_word_ariths unat_of_nat)

lemma decode_from_file_iff:
  assumes "inv f" "unat logical_end \<le> length (content f)"
  shows "decode_from_file ops f off page_size logical_end = Inr (Some fr) \<longleftrightarrow>
    frame_at (take (unat logical_end) (content f)) (unat off) page_size fr"
proof (cases "unat off + 5 \<le> unat logical_end")
  case False
  have "\<not> frame_at (take (unat logical_end) (content f)) (unat off) page_size fr"
    using False assms(2) by (simp add: frame_at_def frame_encoded_len_def FRAME_HEADER_SIZE_def)
  moreover have "decode_from_file ops f off page_size logical_end = Inr None"
  proof (cases "off \<ge> logical_end")
    case o: False
    then have "unat off < unat logical_end" by (simp add: word_le_nat_alt)
    then have "unat (off + of_nat 5) = unat off + 5"
      using assms content_len [OF assms(1)] by (intro unat_offset) simp
    with False o show ?thesis by (simp add: decode_from_file_def FRAME_HEADER_SIZE_def word_less_nat_alt)
  qed (simp add: decode_from_file_def)
  ultimately show ?thesis by simp
next
  case True
  let ?c = "take (unat logical_end) (content f)"
  have L: "unat logical_end < 2 ^ 63" using assms content_len by fastforce
  have o: "\<not> off \<ge> logical_end" using True by (simp add: word_le_nat_alt)
  have add: "unat (off + of_nat n) = unat off + n" if "n \<le> 2 ^ 32 + 13" for n
    using that True L by (intro unat_offset) simp
  have rd: "read_exact_at ops off' n f = Inr (bslice ?c (unat off') (unat off' + n))"
    if "unat off' + n \<le> unat logical_end" for off' n
    using that assms by (simp add: read_exact_ok bslice_take)
  have h5: "\<not> off + of_nat 5 > logical_end" using True add [of 5] by (simp add: word_less_nat_alt)
  have c0: "bslice ?c (unat off) (unat off + 5) ! 0 = ?c ! unat off"
    using True assms(2) by (simp add: nth_bslice)
  have c1: "bslice (bslice ?c (unat off) (unat off + 5)) 1 5 = bslice ?c (unat off + 1) (unat off + 5)"
    using bslice_bslice [of 5 "unat off + 5" "unat off" ?c 1] by simp
  show ?thesis
  proof (cases "frame_type_try_from (?c ! unat off)")
    case (Inl e)
    with o h5 rd [of off 5] True c0 show ?thesis
      by (simp add: decode_from_file_def FRAME_HEADER_SIZE_def frame_at_def)
  next
    case (Inr t)
    let ?n = "payload_size t page_size"
    have n: "?n \<le> 2 ^ 32" using payload_size_bound [of t page_size] unsigned_less [of page_size, where ?'a = nat]
      by (simp add: DELTA_FRAME_PAYLOAD_SIZE_def)
    have tot: "unat (off + of_nat (5 + ?n + 8)) = unat off + (5 + ?n + 8)" using add [of "5 + ?n + 8"] n by simp
    have o5: "unat (off + 5) = unat off + 5" using add [of 5] by simp
    have cmp: "off + of_nat (5 + ?n + 8) > logical_end \<longleftrightarrow> unat off + (13 + ?n) > unat logical_end"
      using tot by (simp add: word_less_nat_alt add.commute add.left_commute)
    show ?thesis
    proof (cases "unat off + (13 + ?n) > unat logical_end")
      case True
      with cmp have "off + of_nat (5 + ?n + 8) > logical_end" by simp
      with Inr o h5 rd [of off 5] \<open>unat off + 5 \<le> _\<close> c0 have
        "decode_from_file ops f off page_size logical_end = Inr None"
        by (simp add: decode_from_file_def FRAME_HEADER_SIZE_def FRAME_TRAILER_SIZE_def Let_def)
      moreover have "\<not> frame_at ?c (unat off) page_size fr"
        using True Inr assms(2) by (auto simp: frame_at_def frame_encoded_len_def FRAME_HEADER_SIZE_def FRAME_TRAILER_SIZE_def)
      ultimately show ?thesis by simp
    next
      case False
      with cmp have nle: "\<not> off + of_nat (5 + ?n + 8) > logical_end" by simp
      have body: "read_exact_at ops (off + 5) (?n + 8) f = Inr (bslice ?c (unat off + 5) (unat off + 5 + (?n + 8)))"
        using rd [of "off + 5" "?n + 8"] o5 False by simp
      have tk: "take ?n (bslice ?c (unat off + 5) (unat off + 5 + (?n + 8))) = bslice ?c (unat off + 5) (unat off + 5 + ?n)"
        using bslice_bslice [of ?n "unat off + 5 + (?n + 8)" "unat off + 5" ?c 0] by simp
      let ?pid = "u32_of_le (bslice ?c (unat off + 1) (unat off + 5))"
      have "decode_from_file ops f off page_size logical_end =
          rbind (check_frame_page_id t ?pid) (\<lambda>_. Inr (Some \<lparr>wf_frame_type = t, wf_page_id = ?pid,
            wf_payload = bslice ?c (unat off + 5) (unat off + 5 + ?n)\<rparr>))"
        using Inr o h5 rd [of off 5] True c0 c1 nle body tk
        by (simp add: decode_from_file_def FRAME_HEADER_SIZE_def FRAME_TRAILER_SIZE_def Let_def)
      with Inr False assms(2) show ?thesis
        by (cases fr) (auto simp: frame_at_def frame_encoded_len_def FRAME_HEADER_SIZE_def FRAME_TRAILER_SIZE_def
            rbind_eq_Inr check_frame_page_id_ok)
    qed
  qed
qed

lemma decode_with_len_iff:
  assumes "inv f" "unat logical_end \<le> length (content f)" "is_supported_page_size page_size"
  shows "decode_from_file_with_len ops f off frame_len page_size logical_end = Inr (Some fr) \<longleftrightarrow>
    frame_at (take (unat logical_end) (content f)) (unat off) page_size fr \<and>
    unat frame_len = frame_encoded_len fr page_size"
proof -
  let ?c = "take (unat logical_end) (content f)" and ?n = "unat frame_len"
  let ?max = "5 + max (max (unat page_size) DELTA_FRAME_PAYLOAD_SIZE) 8 + 8"
  have L: "unat logical_end < 2 ^ 63" using assms content_len by fastforce
  have n32: "?n < 2 ^ 32" using unsigned_less [of frame_len, where ?'a = nat] by simp
  have un: "unat (of_nat ?n :: u64) = ?n" using n32 by (simp add: unat_of_nat)
  have len: "13 \<le> frame_encoded_len fr page_size \<and> frame_encoded_len fr page_size \<le> ?max"
    using payload_size_bound [of "wf_frame_type fr" page_size]
    by (simp add: frame_encoded_len_def FRAME_HEADER_SIZE_def FRAME_TRAILER_SIZE_def)
  show ?thesis
  proof (cases "unat off + ?n \<le> unat logical_end \<and> 13 \<le> ?n \<and> ?n \<le> ?max")
    case False
    have "\<not> (frame_at ?c (unat off) page_size fr \<and> ?n = frame_encoded_len fr page_size)"
      using False assms(2) len by (auto simp: frame_at_def)
    moreover have "decode_from_file_with_len ops f off frame_len page_size logical_end \<noteq> Inr (Some fr)"
    proof
      assume d: "decode_from_file_with_len ops f off frame_len page_size logical_end = Inr (Some fr)"
      then have g: "\<not> off \<ge> logical_end" "13 \<le> ?n" "?n \<le> ?max"
        by (auto simp: decode_from_file_with_len_def Let_def FRAME_HEADER_SIZE_def FRAME_TRAILER_SIZE_def
            split: if_splits)
      then have lt: "unat off < unat logical_end" by (simp add: word_le_nat_alt)
      with n32 L have "u64_checked_add off (of_nat ?n) = Some (off + of_nat ?n)"
        by (simp add: u64_checked_add_def un)
      moreover have "unat (off + of_nat ?n) = unat off + ?n" using lt n32 L by (intro unat_offset) simp
      ultimately have "unat off + ?n \<le> unat logical_end"
        using d g assms(3) by (auto simp: decode_from_file_with_len_def Let_def FRAME_HEADER_SIZE_def
            FRAME_TRAILER_SIZE_def word_less_nat_alt split: if_splits)
      with False g show False by simp
    qed
    ultimately show ?thesis by simp
  next
    case True
    then have o: "\<not> off \<ge> logical_end" by (simp add: word_le_nat_alt)
    have a: "u64_checked_add off (of_nat ?n) = Some (off + of_nat ?n)" "unat (off + of_nat ?n) = unat off + ?n"
      using True L n32 unat_offset [of off ?n] by (simp_all add: u64_checked_add_def un)
    have rd: "read_exact_at ops off ?n f = Inr (bslice ?c (unat off) (unat off + ?n))"
      using True assms(1,2) by (simp add: read_exact_ok bslice_take)
    have c0: "bslice ?c (unat off) (unat off + ?n) ! 0 = ?c ! unat off"
      using True assms(2) by (simp add: nth_bslice)
    have c1: "bslice (bslice ?c (unat off) (unat off + ?n)) i j = bslice ?c (unat off + i) (unat off + j)"
      if "j \<le> ?n" for i j using bslice_bslice [of j "unat off + ?n" "unat off" ?c i] that by simp
    have le: "\<not> off + of_nat ?n > logical_end" using a(2) True by (simp add: word_less_nat_alt)
    let ?pid = "u32_of_le (bslice ?c (unat off + 1) (unat off + 5))"
    have step: "decode_from_file_with_len ops f off frame_len page_size logical_end =
        rbind (frame_type_try_from (?c ! unat off)) (\<lambda>t.
          if 5 + payload_size t page_size + 8 \<noteq> ?n then Inl (Corruption ''WAL frame length mismatch'')
          else rbind (check_frame_page_id t ?pid) (\<lambda>_. Inr (Some \<lparr>wf_frame_type = t, wf_page_id = ?pid,
            wf_payload = bslice ?c (unat off + 5) (unat off + (5 + payload_size t page_size))\<rparr>)))"
      using o True assms(3) a rd c0 c1 [of 5 1] le
      by (auto simp: decode_from_file_with_len_def Let_def FRAME_HEADER_SIZE_def FRAME_TRAILER_SIZE_def c1
          intro!: rbind_cong)
    show ?thesis
      unfolding step using True assms(2)
      by (cases fr) (auto simp: frame_at_def frame_encoded_len_def FRAME_HEADER_SIZE_def FRAME_TRAILER_SIZE_def
          rbind_eq_Inr check_frame_page_id_ok add.assoc split: if_splits)
  qed
qed

lemma decode_torn:
  assumes "inv f" "frame_at (content f) (unat off) page_size fr"
    and "unat logical_end < unat off + frame_encoded_len fr page_size"
  shows "decode_from_file ops f off page_size logical_end = Inr None"
proof (cases "unat off + 5 \<le> unat logical_end")
  case False
  show ?thesis
  proof (cases "off \<ge> logical_end")
    case o: False
    then have "unat off < unat logical_end" by (simp add: word_le_nat_alt)
    then have "unat (off + of_nat 5) = unat off + 5"
      using assms(2) content_len [OF assms(1)]
      by (intro unat_offset) (simp add: frame_at_def)
    with False o show ?thesis by (simp add: decode_from_file_def FRAME_HEADER_SIZE_def word_less_nat_alt)
  qed (simp add: decode_from_file_def)
next
  case True
  let ?c = "content f" and ?t = "wf_frame_type fr" and ?n = "frame_encoded_len fr page_size"
  have at: "unat off + ?n \<le> length ?c" "frame_type_try_from (?c ! unat off) = Inr ?t"
    using assms(2) by (simp_all add: frame_at_def)
  have n: "?n = 5 + payload_size ?t page_size + 8"
    by (simp add: frame_encoded_len_def FRAME_HEADER_SIZE_def FRAME_TRAILER_SIZE_def)
  have o: "\<not> off \<ge> logical_end" using True by (simp add: word_le_nat_alt)
  have add: "unat (off + of_nat k) = unat off + k" if "k \<le> ?n" for k
    using that at(1) content_len [OF assms(1)] by (intro unat_offset) simp
  have rd: "read_exact_at ops off 5 f = Inr (bslice ?c (unat off) (unat off + 5))"
    using at(1) n assms(1) by (simp add: read_exact_ok)
  have c0: "bslice ?c (unat off) (unat off + 5) ! 0 = ?c ! unat off"
    using at(1) n by (simp add: nth_bslice)
  have "\<not> off + of_nat 5 > logical_end" "off + of_nat (5 + payload_size ?t page_size + 8) > logical_end"
    using True assms(3) add [of 5] add [of ?n] n by (simp_all add: word_less_nat_alt)
  with o rd c0 at(2) show ?thesis
    by (simp add: decode_from_file_def FRAME_HEADER_SIZE_def FRAME_TRAILER_SIZE_def Let_def)
qed

end

section \<open>Properties\<close>

lemma wal_magic_len [simp]: "length WAL_MAGIC = 8"
  by (simp add: WAL_MAGIC_def)

lemma length_wal_header_encode [simp]: "length (wal_header_encode h) = 32"
  by (simp add: wal_header_encode_def Let_def)

lemma wal_header_fields:
  "take 8 (wal_header_encode h) = WAL_MAGIC"
  "bslice (wal_header_encode h) 8 12 = u32_le WAL_HEADER_VERSION"
  "bslice (wal_header_encode h) 12 16 = u32_le (wh_page_size h)"
  "bslice (wal_header_encode h) 16 24 = u64_le (wh_wal_end_offset h)"
  by (simp_all add: wal_header_encode_def Let_def bslice_copy_at_same bslice_copy_at_before bslice_copy_at_after
      flip: bslice_0)

text \<open>C38: the WAL header round trip. Decoding the 32 bytes of an encoded header gives the header
  back exactly when its logical end is zero or lies behind the header itself; any other end offset is
  rejected as corruption.\<close>

theorem wal_header_roundtrip:
  "wal_header_decode (wal_header_encode h) =
     (if wh_wal_end_offset h \<noteq> 0 \<and> unat (wh_wal_end_offset h) < 32
      then Inl (Corruption ''invalid WAL logical end offset'') else Inr h)"
  by (cases h) (simp add: wal_header_decode_def wal_header_fields Let_def WAL_HEADER_SIZE_def word_less_nat_alt)

lemma frame_encode_ok: "frame_encode fr page_size = Inr bs \<longleftrightarrow> frame_ok page_size fr \<and> bs = frame_bytes fr"
  by (auto simp: frame_encode_def frame_ok_def frame_bytes_def)

lemma frame_at_append:
  assumes "frame_ok page_size fr"
  shows "frame_at (pre @ frame_bytes fr @ post) (length pre) page_size fr"
  using frame_at_bytes [OF assms, of "pre @ frame_bytes fr @ post" "length pre"]
  by (simp add: bslice_append2 bslice_append1)

lemma frame_at_take:
  "frame_at c o' page_size fr \<Longrightarrow> o' + frame_encoded_len fr page_size \<le> n \<Longrightarrow> frame_at (take n c) o' page_size fr"
  by (simp add: frame_at_def frame_encoded_len_def FRAME_HEADER_SIZE_def FRAME_TRAILER_SIZE_def bslice_take)

text \<open>C18: the frame round trip. A frame that \<open>encode\<close> accepts, wherever it lies in the log, is
  read back by the sequential decoder as soon as the logical end of the log covers it; while the logical
  end still cuts through the frame, the decoder reports the end of the log and not an error.\<close>

theorem wal_frame_roundtrip:
  assumes "frame_encode fr page_size = Inr bs" "length (pre @ bs @ post) < 2 ^ 63"
  shows "unat logical_end \<le> length (pre @ bs @ post) \<Longrightarrow>
    decode_from_file mem_file_ops (pre @ bs @ post) (of_nat (length pre)) page_size logical_end =
      Inr (if length pre + length bs \<le> unat logical_end then Some fr else None)"
proof -
  let ?c = "pre @ bs @ post" and ?off = "of_nat (length pre) :: u64"
  assume le: "unat logical_end \<le> length ?c"
  have ok: "frame_ok page_size fr" "bs = frame_bytes fr" using assms(1) by (simp_all add: frame_encode_ok)
  have o: "unat ?off = length pre" using assms(2) by (simp add: unat_of_nat)
  have i: "mem_inv ?c" using assms(2) by (simp add: mem_inv_def)
  have at: "frame_at ?c (unat ?off) page_size fr" using frame_at_append [OF ok(1)] ok(2) o by simp
  have n: "length bs = frame_encoded_len fr page_size" using length_frame_bytes ok by simp
  show ?thesis
  proof (cases "length pre + length bs \<le> unat logical_end")
    case True
    with at n o have "frame_at (take (unat logical_end) ?c) (unat ?off) page_size fr"
      by (intro frame_at_take) simp_all
    with memfile.decode_from_file_iff [OF i le] True show ?thesis by simp
  next
    case False
    with memfile.decode_torn [OF i at, of logical_end] n o show ?thesis by simp
  qed
qed

theorem wal_frame_roundtrip_witness:
  "decode_from_file mem_file_ops ([9, 9] @ [1, 0, 0, 0, 0, 0, 0, 0, 0, 0, 0, 0, 0] @ []) (of_nat (length [9, 9 :: u8])) 512 15
     = Inr (Some \<lparr>wf_frame_type = Commit, wf_page_id = 0, wf_payload = []\<rparr>)"
proof -
  have e: "frame_encode \<lparr>wf_frame_type = Commit, wf_page_id = 0, wf_payload = []\<rparr> 512 =
      Inr [1, 0, 0, 0, 0, 0, 0, 0, 0, 0, 0, 0, 0]"
    by code_simp
  show ?thesis using wal_frame_roundtrip [OF e, of "[9, 9]" "[]" 15] by simp
qed

text \<open>C28: the decoder that trusts the length kept in the WAL index (one read) accepts exactly what the
  sequential decoder (two reads) accepts, provided the indexed length is the length of the frame found;
  a wrong length never yields a frame.\<close>

theorem wal_decoders_agree:
  assumes "mem_inv f" "unat logical_end \<le> length f" "is_supported_page_size page_size"
  shows "decode_from_file_with_len mem_file_ops f off frame_len page_size logical_end = Inr (Some fr) \<longleftrightarrow>
    decode_from_file mem_file_ops f off page_size logical_end = Inr (Some fr) \<and>
    unat frame_len = frame_encoded_len fr page_size"
  using memfile.decode_with_len_iff [OF assms(1,2,3)] memfile.decode_from_file_iff [OF assms(1,2)] by simp

theorem wal_decoders_agree_witness:
  "decode_from_file_with_len mem_file_ops [1, 0, 0, 0, 0, 0, 0, 0, 0, 0, 0, 0, 0] 0 13 4096 13 =
     Inr (Some \<lparr>wf_frame_type = Commit, wf_page_id = 0, wf_payload = []\<rparr>)"
proof -
  let ?f = "[1, 0, 0, 0, 0, 0, 0, 0, 0, 0, 0, 0, 0] :: bytes"
  have "decode_from_file mem_file_ops ?f 0 4096 13 = Inr (Some \<lparr>wf_frame_type = Commit, wf_page_id = 0, wf_payload = []\<rparr>)"
    by code_simp
  moreover have "mem_inv ?f" "is_supported_page_size 4096" by (simp add: mem_inv_def) code_simp
  ultimately show ?thesis
    using wal_decoders_agree [of ?f 13 4096 0 13 "\<lparr>wf_frame_type = Commit, wf_page_id = 0, wf_payload = []\<rparr>"]
    by (simp add: frame_encoded_len_def FRAME_HEADER_SIZE_def FRAME_TRAILER_SIZE_def)
qed

text \<open>C29: the checkpoint's shortcut, which takes the page image straight out of the bytes of a full-page
  frame, returns an image exactly when the decoder finds there a \<open>Page\<close> frame of the expected page that
  fills the slice, and then it is the payload of that frame.\<close>

theorem wal_page_payload_shortcut:
  assumes "length bs < 2 ^ 32" "is_supported_page_size page_size"
  shows "page_payload_from_encoded_with_len bs page_id (of_nat (length bs)) page_size = Inr payload \<longleftrightarrow>
    decode_from_file mem_file_ops bs 0 page_size (of_nat (length bs)) =
      Inr (Some \<lparr>wf_frame_type = Page, wf_page_id = page_id, wf_payload = payload\<rparr>) \<and>
    length bs = unat page_size + 13"
proof -
  have n: "unat (of_nat (length bs) :: u32) = length bs" "unat (of_nat (length bs) :: u64) = length bs"
    using assms(1) by (simp_all add: unat_of_nat)
  have p: "frame_type_try_from v = Inr Page \<longleftrightarrow> v = 0" for v by (simp add: frame_type_try_from_def)
  have i: "mem_inv bs" using assms(1) by (simp add: mem_inv_def)
  show ?thesis
    using memfile.decode_from_file_iff [OF i, of "of_nat (length bs)" 0 page_size
        "\<lparr>wf_frame_type = Page, wf_page_id = page_id, wf_payload = payload\<rparr>"] assms(2) n
    by (auto simp: page_payload_from_encoded_with_len_def Let_def FRAME_HEADER_SIZE_def FRAME_TRAILER_SIZE_def
        frame_at_def frame_encoded_len_def is_page_frame_def rbind_eq_Inr p split: if_splits)
qed

theorem wal_page_payload_shortcut_witness:
  "let fr = \<lparr>wf_frame_type = Page, wf_page_id = 7, wf_payload = replicate 4096 1\<rparr>; bs = frame_bytes fr
   in page_payload_from_encoded_with_len bs 7 (of_nat (length bs)) 4096 = Inr (replicate 4096 1)"
proof -
  let ?fr = "\<lparr>wf_frame_type = Page, wf_page_id = 7, wf_payload = replicate 4096 1\<rparr>"
  have ok: "frame_ok 4096 ?fr" by (simp add: frame_ok_def is_page_frame_def)
  have n: "length (frame_bytes ?fr) = 4109" by (simp add: frame_bytes_def)
  have "decode_from_file mem_file_ops (frame_bytes ?fr) 0 4096 4109 = Inr (Some ?fr)"
    using memfile.decode_from_file_iff [of "frame_bytes ?fr" 4109 0 4096 ?fr] frame_at_append [OF ok, of "[]" "[]"] n
    by (simp add: mem_inv_def)
  with wal_page_payload_shortcut [of "frame_bytes ?fr" 4096 7 "replicate 4096 1"] n show ?thesis
    by (simp add: is_supported_page_size_def SUPPORTED_PAGE_SIZES_def)
qed

end
