(* ===== verification/WalReplay.thy ===== *)
theory WalReplay
  imports WalFormat
begin

text \<open>
  What a log means.  A frame acts on the pages of the database, a log on the pages as the
  frames of its committed transactions do one after the other.  The pages that result do
  not depend on bytes that the log overwrites, which is why a database file caught in the middle of
  a copyback can be repaired from the log.  This theory is the specification that
  recovery, the writer and the checkpoint are proved against.
\<close>

section \<open>Frames as page updates\<close>

type_synonym pages = "page_id \<Rightarrow> bytes"

definition apply_frame :: "WalFrame \<Rightarrow> pages \<Rightarrow> pages" where
  "apply_frame fr D =
     (case wf_frame_type fr of
        Page \<Rightarrow> D(wf_page_id fr := wf_payload fr)
      | PageDelta \<Rightarrow> D(wf_page_id fr := snd (apply_page_delta_in_place (D (wf_page_id fr)) (wf_payload fr)))
      | _ \<Rightarrow> D)"

definition replay :: "WalFrame list \<Rightarrow> pages \<Rightarrow> pages" where
  "replay fs D = fold apply_frame fs D"

text \<open>The frames of the transactions that reach their commit frame; a checkpoint frame ends one without a commit.\<close>

fun committed_from :: "WalFrame list \<Rightarrow> WalFrame list \<Rightarrow> WalFrame list" where
  "committed_from open [] = []"
| "committed_from open (fr # fs) =
     (case wf_frame_type fr of
        Commit \<Rightarrow> open @ committed_from [] fs
      | Checkpoint \<Rightarrow> committed_from [] fs
      | _ \<Rightarrow> committed_from (open @ [fr]) fs)"

definition committed :: "WalFrame list \<Rightarrow> WalFrame list" where
  "committed fs = committed_from [] fs"

text \<open>The page frames behind the last commit or checkpoint frame.\<close>

fun open_from :: "WalFrame list \<Rightarrow> WalFrame list \<Rightarrow> WalFrame list" where
  "open_from open [] = open"
| "open_from open (fr # fs) = (if is_page_frame (wf_frame_type fr) then open_from (open @ [fr]) fs else open_from [] fs)"

definition delta_valid :: "nat \<Rightarrow> bytes \<Rightarrow> bool" where
  "delta_valid n payload \<longleftrightarrow> length payload = DELTA_FRAME_PAYLOAD_SIZE \<and>
     delta_check_loop payload n (unat (u16_of_le (bslice payload 0 DELTA_PATCH_COUNT_SIZE))) DELTA_PATCH_COUNT_SIZE = Inr ()"

definition frame_valid :: "u32 \<Rightarrow> WalFrame \<Rightarrow> bool" where
  "frame_valid page_size fr \<longleftrightarrow> frame_ok page_size fr \<and>
     (wf_frame_type fr = PageDelta \<longrightarrow> delta_valid (unat page_size) (wf_payload fr))"

lemma replay_simps [simp]:
  "replay [] D = D" "replay (fr # fs) D = replay fs (apply_frame fr D)"
  "replay (fs @ gs) D = replay gs (replay fs D)"
  by (simp_all add: replay_def)

lemma committed_from_append:
  "committed_from op (fs @ gs) = committed_from op fs @ committed_from (open_from op fs) gs"
  by (induction fs arbitrary: op) (auto simp: is_page_frame_def split: FrameType.splits)

lemma open_from_append: "open_from op (fs @ gs) = open_from (open_from op fs) gs"
  by (induction fs arbitrary: op) auto

lemma committed_subset: "set (committed_from op fs) \<subseteq> set op \<union> set fs"
proof (induction fs arbitrary: op)
  case (Cons fr fs)
  then show ?case by (cases "wf_frame_type fr") fastforce+
qed simp

lemma committed_are_page_frames:
  "\<forall>fr \<in> set op. is_page_frame (wf_frame_type fr) \<Longrightarrow>
     fr \<in> set (committed_from op fs) \<Longrightarrow> is_page_frame (wf_frame_type fr)"
proof (induction fs arbitrary: op)
  case (Cons f fs)
  show ?case
  proof (cases "wf_frame_type f")
    case Page
    then show ?thesis using Cons.IH [of "op @ [f]"] Cons.prems by (auto simp: is_page_frame_def)
  next
    case PageDelta
    then show ?thesis using Cons.IH [of "op @ [f]"] Cons.prems by (auto simp: is_page_frame_def)
  qed (use Cons.IH [of "[]"] Cons.prems in auto)
qed simp

lemma delta_valid_apply:
  assumes "delta_valid (length page) payload"
  shows "\<exists>page'. apply_page_delta_in_place page payload = (Inr (), page') \<and> length page' = length page"
  using assms delta_apply_after_check by (fastforce simp: delta_valid_def apply_page_delta_in_place_def Let_def)

definition pages_sized :: "u32 \<Rightarrow> pages \<Rightarrow> bool" where
  "pages_sized page_size D \<longleftrightarrow> (\<forall>p. length (D p) = unat page_size)"

lemma apply_frame_sized:
  "pages_sized page_size D \<Longrightarrow> frame_valid page_size fr \<Longrightarrow> pages_sized page_size (apply_frame fr D)"
  using delta_valid_apply [of "D (wf_page_id fr)" "wf_payload fr"]
  by (auto simp: pages_sized_def apply_frame_def frame_valid_def frame_ok_def split: FrameType.splits)

lemma replay_sized:
  "pages_sized page_size D \<Longrightarrow> \<forall>fr \<in> set fs. frame_valid page_size fr \<Longrightarrow> pages_sized page_size (replay fs D)"
  by (induction fs arbitrary: D) (auto simp: apply_frame_sized)

lemma apply_frame_other: "wf_page_id fr \<noteq> p \<Longrightarrow> apply_frame fr D p = D p"
  by (simp add: apply_frame_def split: FrameType.splits)

lemma apply_frame_same: "D (wf_page_id fr) = D' (wf_page_id fr) \<Longrightarrow>
    is_page_frame (wf_frame_type fr) \<Longrightarrow> apply_frame fr D (wf_page_id fr) = apply_frame fr D' (wf_page_id fr)"
  by (auto simp: apply_frame_def is_page_frame_def split: FrameType.splits)

section \<open>Bytes that a log overwrites do not matter\<close>

text \<open>
  A byte operation either sets the byte of every page of the given length to one value, or leaves it alone.
\<close>

definition byte_fixed :: "nat \<Rightarrow> (bytes \<Rightarrow> bytes) \<Rightarrow> nat \<Rightarrow> bool" where
  "byte_fixed n f j \<longleftrightarrow> (\<exists>b. \<forall>page. length page = n \<longrightarrow> f page ! j = b)"

definition byte_kept :: "nat \<Rightarrow> (bytes \<Rightarrow> bytes) \<Rightarrow> nat \<Rightarrow> bool" where
  "byte_kept n f j \<longleftrightarrow> (\<forall>page. length page = n \<longrightarrow> f page ! j = page ! j)"

lemma byte_fixed_comp:
  assumes "\<And>page. length page = n \<Longrightarrow> length (f page) = n" "byte_fixed n f j \<or> byte_kept n f j"
    "byte_fixed n g j \<or> byte_kept n g j"
  shows "byte_fixed n (g \<circ> f) j \<or> byte_kept n f j \<and> byte_kept n (g \<circ> f) j"
  using assms by (auto simp: byte_fixed_def byte_kept_def)

lemma delta_apply_fixed_or_kept:
  "delta_check_loop payload n k cursor = Inr () \<Longrightarrow> j < n \<Longrightarrow>
     byte_fixed n (\<lambda>page. snd (delta_apply_loop payload k cursor page)) j \<or>
     byte_kept n (\<lambda>page. snd (delta_apply_loop payload k cursor page)) j"
proof (induction k arbitrary: cursor)
  case 0
  then show ?case by (simp add: byte_kept_def)
next
  case (Suc k)
  from Suc.prems obtain off len nc where
    h: "decode_delta_patch_header payload cursor = Inr (off, len, nc)" "nc + len \<le> length payload"
    and r: "off + len \<le> n" "delta_check_loop payload n k (nc + len) = Inr ()"
    by (auto simp: rbind_eq_Inr split: if_splits)
  let ?b = "bslice payload nc (nc + len)" and ?f = "\<lambda>page. copy_at page off (bslice payload nc (nc + len))"
  have lb: "length ?b = len" using h(2) by simp
  have f: "byte_fixed n ?f j \<or> byte_kept n ?f j"
  proof (cases "off \<le> j \<and> j < off + len")
    case True
    then have "byte_fixed n ?f j" using Suc.prems(2) r(1) lb by (auto simp: byte_fixed_def nth_copy_at)
    then show ?thesis ..
  next
    case False
    then have "byte_kept n ?f j" using Suc.prems(2) r(1) lb by (auto simp: byte_kept_def nth_copy_at)
    then show ?thesis ..
  qed
  have len: "\<And>page. length page = n \<Longrightarrow> length (?f page) = n" using r(1) lb by simp
  have "(\<lambda>page. snd (delta_apply_loop payload (Suc k) cursor page)) =
      (\<lambda>page. snd (delta_apply_loop payload k (nc + len) page)) \<circ> ?f" using h(1) by (auto simp: Let_def)
  then show ?case using byte_fixed_comp [OF len f Suc.IH [OF r(2) Suc.prems(2)]] by auto
qed

text \<open>What the log does to one page, as a function of the page.\<close>

definition page_effect :: "WalFrame list \<Rightarrow> page_id \<Rightarrow> bytes \<Rightarrow> bytes" where
  "page_effect fs p page = replay fs (\<lambda>_. page) p"

lemma replay_local: "D p = D' p \<Longrightarrow> replay fs D p = replay fs D' p"
proof (induction fs arbitrary: D D')
  case (Cons fr fs)
  have "apply_frame fr D p = apply_frame fr D' p"
    using Cons.prems by (auto simp: apply_frame_def split: FrameType.splits)
  then show ?case using Cons.IH [of "apply_frame fr D" "apply_frame fr D'"] by simp
qed simp

lemma replay_effect: "replay fs D p = page_effect fs p (D p)"
  unfolding page_effect_def using replay_local [of D p "\<lambda>_. D p" fs] by simp

lemma page_effect_append: "page_effect (fs @ gs) p = page_effect gs p \<circ> page_effect fs p"
proof
  fix page
  have "replay gs (replay fs (\<lambda>_. page)) p = page_effect gs p (replay fs (\<lambda>_. page) p)"
    by (rule replay_effect [of gs "replay fs (\<lambda>_. page)" p])
  then show "page_effect (fs @ gs) p page = (page_effect gs p \<circ> page_effect fs p) page"
    by (simp add: page_effect_def)
qed

lemma length_page_effect:
  assumes "\<forall>fr \<in> set fs. frame_valid page_size fr" "length page = unat page_size"
  shows "length (page_effect fs p page) = unat page_size"
  using replay_sized [of page_size "\<lambda>_. page" fs] assms by (simp add: pages_sized_def page_effect_def)

lemma frame_fixed_or_kept:
  assumes "frame_valid page_size fr" "j < unat page_size"
  shows "byte_fixed (unat page_size) (page_effect [fr] p) j \<or> byte_kept (unat page_size) (page_effect [fr] p) j"
proof (cases "wf_page_id fr = p \<and> is_page_frame (wf_frame_type fr)")
  case False
  then have "page_effect [fr] p page = page" for page
    by (auto simp: page_effect_def apply_frame_def is_page_frame_def split: FrameType.splits)
  then show ?thesis by (simp add: byte_kept_def)
next
  case True
  then consider "wf_frame_type fr = Page" | "wf_frame_type fr = PageDelta" by (auto simp: is_page_frame_def)
  then show ?thesis
  proof cases
    case 1
    then have "page_effect [fr] p page = wf_payload fr" for page
      using True by (simp add: page_effect_def apply_frame_def)
    then show ?thesis by (simp add: byte_fixed_def)
  next
    case 2
    let ?k = "unat (u16_of_le (bslice (wf_payload fr) 0 DELTA_PATCH_COUNT_SIZE))"
    have v: "delta_valid (unat page_size) (wf_payload fr)" using 2 assms(1) by (simp add: frame_valid_def)
    then have e: "page_effect [fr] p page = snd (delta_apply_loop (wf_payload fr) ?k DELTA_PATCH_COUNT_SIZE page)"
      if "length page = unat page_size" for page
      using that 2 True by (simp add: page_effect_def apply_frame_def apply_page_delta_in_place_def delta_valid_def Let_def)
    from v have "delta_check_loop (wf_payload fr) (unat page_size) ?k DELTA_PATCH_COUNT_SIZE = Inr ()"
      by (simp add: delta_valid_def)
    from delta_apply_fixed_or_kept [OF this assms(2)] show ?thesis
      using e by (simp add: byte_fixed_def byte_kept_def)
  qed
qed

lemma log_fixed_or_kept:
  assumes "\<forall>fr \<in> set fs. frame_valid page_size fr" "j < unat page_size"
  shows "byte_fixed (unat page_size) (page_effect fs p) j \<or>
    (\<forall>k. byte_kept (unat page_size) (page_effect (take k fs) p) j)"
  using assms(1)
proof (induction fs rule: rev_induct)
  case Nil
  then show ?case by (simp add: byte_kept_def page_effect_def)
next
  case (snoc fr fs)
  let ?n = "unat page_size"
  have len: "\<And>page. length page = ?n \<Longrightarrow> length (page_effect fs p page) = ?n"
    using length_page_effect [of fs page_size] snoc.prems by simp
  have fr: "byte_fixed ?n (page_effect [fr] p) j \<or> byte_kept ?n (page_effect [fr] p) j"
    using frame_fixed_or_kept [OF _ assms(2)] snoc.prems by simp
  have "byte_fixed ?n (page_effect fs p) j \<or> (\<forall>k. byte_kept ?n (page_effect (take k fs) p) j)"
    using snoc.IH snoc.prems by simp
  moreover have "byte_kept ?n (page_effect fs p) j" if "\<forall>k. byte_kept ?n (page_effect (take k fs) p) j"
    using that [rule_format, of "length fs"] by simp
  ultimately have "byte_fixed ?n (page_effect fs p) j \<or> byte_kept ?n (page_effect fs p) j" by blast
  from byte_fixed_comp [OF len this fr]
  consider "byte_fixed ?n (page_effect (fs @ [fr]) p) j"
    | "byte_kept ?n (page_effect fs p) j" "byte_kept ?n (page_effect (fs @ [fr]) p) j"
    by (auto simp: page_effect_append)
  then show ?case
  proof cases
    case 1
    then show ?thesis ..
  next
    case 2
    have "\<not> byte_fixed ?n (page_effect fs p) j"
    proof
      assume "byte_fixed ?n (page_effect fs p) j"
      then obtain b where b: "\<And>page. length page = ?n \<Longrightarrow> page_effect fs p page ! j = b" by (auto simp: byte_fixed_def)
      have "(replicate ?n (0 :: u8)) ! j = b" "(replicate ?n (1 :: u8)) ! j = b"
        using b [of "replicate ?n 0"] b [of "replicate ?n 1"] 2(1) by (auto simp: byte_kept_def)
      then show False using assms(2) by simp
    qed
    then have pre: "\<forall>k. byte_kept ?n (page_effect (take k fs) p) j" using snoc.IH snoc.prems by auto
    have "byte_kept ?n (page_effect (take k (fs @ [fr])) p) j" for k
      using pre 2(2) by (cases "k \<le> length fs") simp_all
    then show ?thesis by blast
  qed
qed

text \<open>
  Pages whose bytes were each taken from the original pages or from some state that replay passes through replay
  to the same result.
\<close>

definition torn_pages :: "u32 \<Rightarrow> WalFrame list \<Rightarrow> pages \<Rightarrow> pages \<Rightarrow> bool" where
  "torn_pages page_size fs D D' \<longleftrightarrow> pages_sized page_size D' \<and>
     (\<forall>p. \<forall>j < unat page_size. \<exists>k. D' p ! j = replay (take k fs) D p ! j)"

lemma replay_torn:
  assumes "\<forall>fr \<in> set fs. frame_valid page_size fr" "pages_sized page_size D" "torn_pages page_size fs D D'"
  shows "replay fs D' = replay fs D"
proof (rule ext, rule nth_equalityI)
  fix p
  have len: "length (D p) = unat page_size" "length (D' p) = unat page_size"
    using assms(2,3) by (simp_all add: pages_sized_def torn_pages_def)
  have lens: "length (page_effect fs p (D' p)) = unat page_size" "length (page_effect fs p (D p)) = unat page_size"
    using length_page_effect [OF assms(1)] len by simp_all
  then show "length (replay fs D' p) = length (replay fs D p)" by (simp add: replay_effect)
  fix j assume "j < length (replay fs D' p)"
  then have j: "j < unat page_size" using lens by (simp add: replay_effect)
  obtain k where k: "D' p ! j = page_effect (take k fs) p (D p) ! j"
    using assms(3) j by (auto simp: torn_pages_def replay_effect)
  from log_fixed_or_kept [OF assms(1) j, of p] show "replay fs D' p ! j = replay fs D p ! j"
  proof
    assume "byte_fixed (unat page_size) (page_effect fs p) j"
    then show ?thesis using len by (auto simp: byte_fixed_def replay_effect)
  next
    assume kept: "\<forall>k. byte_kept (unat page_size) (page_effect (take k fs) p) j"
    then have "byte_kept (unat page_size) (page_effect fs p) j" by (metis order_refl take_all)
    then show ?thesis using kept [rule_format, of k] k len by (simp add: byte_kept_def replay_effect)
  qed
qed

end
