(* ===== verification/WalIndex.thy ===== *)
theory WalIndex
  imports WalFormat "HOL-Library.RBT" "HOL-Library.Multiset"
begin

text \<open>
  The in-memory index of page versions in the write-ahead log, \<open>wal/index.rs\<close>.  A version is
  either resident (its page image is in memory) or known only by its place in the log.  The
  hash maps are search trees here; where the code iterates over one, the order is the parameter
  \<open>hash_order\<close>, of which only that it permutes the keys is assumed.
\<close>

section \<open>Definitions\<close>

datatype WalVersionPayload =
    Resident bytes u64 u32 FrameEncoding
  | OnDisk u64 u32 FrameEncoding

text \<open>\<open>as_slice\<close> is called on resident payloads only; on the other variant it panics (\<^const>\<open>None\<close>).\<close>

fun as_slice :: "WalVersionPayload \<Rightarrow> bytes option" where
  "as_slice (Resident data _ _ _) = Some data"
| "as_slice (OnDisk _ _ _) = None"

fun wal_metadata :: "WalVersionPayload \<Rightarrow> u64 \<times> u32 \<times> FrameEncoding" where
  "wal_metadata (Resident _ wal_offset frame_len encoding) = (wal_offset, frame_len, encoding)"
| "wal_metadata (OnDisk wal_offset frame_len encoding) = (wal_offset, frame_len, encoding)"

record WalVersion =
  wv_lsn :: u64
  wv_payload :: WalVersionPayload

definition version_resident :: "u64 \<Rightarrow> u64 \<Rightarrow> u32 \<Rightarrow> FrameEncoding \<Rightarrow> bytes \<Rightarrow> WalVersion" where
  "version_resident lsn wal_offset frame_len encoding data =
     \<lparr>wv_lsn = lsn, wv_payload = Resident data wal_offset frame_len encoding\<rparr>"

definition version_on_disk :: "u64 \<Rightarrow> u64 \<Rightarrow> u32 \<Rightarrow> FrameEncoding \<Rightarrow> WalVersion" where
  "version_on_disk lsn wal_offset frame_len encoding =
     \<lparr>wv_lsn = lsn, wv_payload = OnDisk wal_offset frame_len encoding\<rparr>"

record WalIndex =
  wi_pages :: "(page_id, WalVersion list) RBT.rbt"
  wi_access_order :: "(page_id \<times> u64) list"
  wi_page_touch_epochs :: "(page_id, u64) RBT.rbt"
  wi_dirty_since_demote :: "page_id list"
  wi_dirty_since_demote_set :: "page_id set"
  wi_next_touch_epoch :: u64

definition index_default :: WalIndex where
  "index_default = \<lparr>wi_pages = RBT.empty, wi_access_order = [], wi_page_touch_epochs = RBT.empty,
     wi_dirty_since_demote = [], wi_dirty_since_demote_set = {}, wi_next_touch_epoch = 0\<rparr>"

definition touch :: "page_id \<Rightarrow> WalIndex \<Rightarrow> WalIndex" where
  "touch page_id idx =
     (let epoch = wi_next_touch_epoch idx + 1
      in idx\<lparr>wi_next_touch_epoch := epoch,
             wi_page_touch_epochs := RBT.insert page_id epoch (wi_page_touch_epochs idx),
             wi_access_order := wi_access_order idx @ [(page_id, epoch)]\<rparr>)"

definition mark_dirty_since_demote :: "page_id \<Rightarrow> WalIndex \<Rightarrow> WalIndex" where
  "mark_dirty_since_demote page_id idx =
     (if page_id \<in> wi_dirty_since_demote_set idx then idx
      else idx\<lparr>wi_dirty_since_demote_set := insert page_id (wi_dirty_since_demote_set idx),
               wi_dirty_since_demote := wi_dirty_since_demote idx @ [page_id]\<rparr>)"

definition has_dirty_since_demote :: "WalIndex \<Rightarrow> bool" where
  "has_dirty_since_demote idx = (wi_dirty_since_demote idx \<noteq> [])"

definition unmark_dirty_since_demote :: "page_id \<Rightarrow> WalIndex \<Rightarrow> WalIndex" where
  "unmark_dirty_since_demote page_id idx =
     (if page_id \<notin> wi_dirty_since_demote_set idx then idx
      else idx\<lparr>wi_dirty_since_demote_set := wi_dirty_since_demote_set idx - {page_id},
               wi_dirty_since_demote := filter (\<lambda>candidate. candidate \<noteq> page_id) (wi_dirty_since_demote idx)\<rparr>)"

definition page_versions :: "WalIndex \<Rightarrow> page_id \<Rightarrow> WalVersion list" where
  "page_versions idx page_id = (case RBT.lookup (wi_pages idx) page_id of None \<Rightarrow> [] | Some vs \<Rightarrow> vs)"

definition add_version :: "page_id \<Rightarrow> WalVersion \<Rightarrow> bool \<Rightarrow> WalIndex \<Rightarrow> WalIndex" where
  "add_version page_id version retain_history idx =
     (let versions = (if retain_history then page_versions idx page_id @ [version] else [version])
      in mark_dirty_since_demote page_id
           (touch page_id (idx\<lparr>wi_pages := RBT.insert page_id versions (wi_pages idx)\<rparr>)))"

text \<open>The newest version, searched from the end, that a snapshot can see.\<close>

definition newest_at :: "u64 \<Rightarrow> WalVersion list \<Rightarrow> WalVersion option" where
  "newest_at snapshot_lsn versions = List.find (\<lambda>v. wv_lsn v \<le> snapshot_lsn) (rev versions)"

definition latest_visible :: "WalIndex \<Rightarrow> page_id \<Rightarrow> u64 \<Rightarrow> WalVersion option" where
  "latest_visible idx page_id snapshot_lsn =
     (case RBT.lookup (wi_pages idx) page_id of
        None \<Rightarrow> None
      | Some versions \<Rightarrow> newest_at snapshot_lsn versions)"

definition populate_latest_versions_at_or_before ::
  "(page_id list \<Rightarrow> page_id list) \<Rightarrow> u64 \<Rightarrow> WalIndex \<Rightarrow> (page_id \<times> WalVersion) list"
where
  "populate_latest_versions_at_or_before hash_order safe_lsn idx =
     List.map_filter (\<lambda>page_id. map_option (Pair page_id) (newest_at safe_lsn (page_versions idx page_id)))
       (hash_order (RBT.keys (wi_pages idx)))"

definition prune_page :: "u64 \<Rightarrow> page_id \<Rightarrow> WalIndex \<Rightarrow> WalIndex" where
  "prune_page safe_lsn page_id idx =
     (case RBT.lookup (wi_pages idx) page_id of
        None \<Rightarrow> idx
      | Some entries \<Rightarrow>
          let entries = filter (\<lambda>entry. wv_lsn entry > safe_lsn) entries
          in idx\<lparr>wi_pages := (if entries = [] then RBT.delete page_id (wi_pages idx)
                              else RBT.insert page_id entries (wi_pages idx))\<rparr>)"

definition prune_at_or_below :: "page_id list \<Rightarrow> u64 \<Rightarrow> WalIndex \<Rightarrow> WalIndex" where
  "prune_at_or_below page_ids safe_lsn idx = fold (prune_page safe_lsn) page_ids idx"

definition index_clear :: "WalIndex \<Rightarrow> WalIndex" where
  "index_clear idx = \<lparr>wi_pages = RBT.empty, wi_access_order = [], wi_page_touch_epochs = RBT.empty,
     wi_dirty_since_demote = [], wi_dirty_since_demote_set = {}, wi_next_touch_epoch = 0\<rparr>"

text \<open>Demotion: a resident image is given up, the place in the log is kept.\<close>

fun is_resident :: "WalVersionPayload \<Rightarrow> bool" where
  "is_resident (Resident _ _ _ _) = True"
| "is_resident (OnDisk _ _ _) = False"

fun demote_payload :: "WalVersionPayload \<Rightarrow> WalVersionPayload" where
  "demote_payload (Resident _ wal_offset frame_len encoding) = OnDisk wal_offset frame_len encoding"
| "demote_payload (OnDisk wal_offset frame_len encoding) = OnDisk wal_offset frame_len encoding"

definition demote_version :: "WalVersion \<Rightarrow> WalVersion" where
  "demote_version v = v\<lparr>wv_payload := demote_payload (wv_payload v)\<rparr>"

definition reader_visible :: "u64 option \<Rightarrow> WalVersion \<Rightarrow> bool" where
  "reader_visible min_reader_snapshot v =
     (case min_reader_snapshot of None \<Rightarrow> False | Some snapshot \<Rightarrow> wv_lsn v \<le> snapshot)"

definition demote_page :: "u64 option \<Rightarrow> nat \<Rightarrow> page_id \<Rightarrow> WalIndex \<times> nat \<Rightarrow> WalIndex \<times> nat" where
  "demote_page min_reader_snapshot retain_recent page_id = (\<lambda>(idx, scanned_pages).
     case RBT.lookup (wi_pages idx) page_id of
       None \<Rightarrow> (idx, scanned_pages)
     | Some versions \<Rightarrow>
         let demotable_prefix_len = length versions - retain_recent;
             prefix = take demotable_prefix_len versions;
             retry_after_reader =
               list_ex (\<lambda>v. reader_visible min_reader_snapshot v \<and> is_resident (wv_payload v)) prefix;
             versions = map (\<lambda>v. if reader_visible min_reader_snapshot v then v else demote_version v) prefix
                          @ drop demotable_prefix_len versions;
             idx = idx\<lparr>wi_pages := RBT.insert page_id versions (wi_pages idx)\<rparr>
         in (if retry_after_reader then mark_dirty_since_demote page_id idx else idx, scanned_pages + 1))"

definition demote_cold :: "u64 option \<Rightarrow> u32 \<Rightarrow> WalIndex \<Rightarrow> WalIndex \<times> nat" where
  "demote_cold min_reader_snapshot retain_recent_per_page idx =
     fold (demote_page min_reader_snapshot (unat retain_recent_per_page)) (wi_dirty_since_demote idx)
       (idx\<lparr>wi_dirty_since_demote := [], wi_dirty_since_demote_set := {}\<rparr>, 0)"

text \<open>
  \<open>demote_high_page_ids_resident_bytes\<close>: full-page images are given up from the highest page id
  downwards until enough bytes are freed.  The flag tells that the target has been reached.
\<close>

fun demote_full_pages ::
  "nat \<Rightarrow> WalVersion list \<Rightarrow> nat \<Rightarrow> nat \<Rightarrow> WalVersion list \<times> nat \<times> nat \<times> bool"
where
  "demote_full_pages target [] demoted freed = ([], demoted, freed, False)"
| "demote_full_pages target (v # vs) demoted freed =
     (case wv_payload v of
        Resident data wal_offset frame_len EncPage \<Rightarrow>
          let v' = v\<lparr>wv_payload := OnDisk wal_offset frame_len EncPage\<rparr>;
              freed = min (freed + length data) (2 ^ 64 - 1)
          in if freed \<ge> target then (v' # vs, demoted + 1, freed, True)
             else let (vs', r) = demote_full_pages target vs (demoted + 1) freed in (v' # vs', r)
      | _ \<Rightarrow> let (vs', r) = demote_full_pages target vs demoted freed in (v # vs', r))"

fun demote_high_loop :: "nat \<Rightarrow> page_id list \<Rightarrow> WalIndex \<Rightarrow> nat \<Rightarrow> nat \<Rightarrow> WalIndex \<times> nat" where
  "demote_high_loop target [] idx demoted freed = (idx, demoted)"
| "demote_high_loop target (page_id # page_ids) idx demoted freed =
     (case RBT.lookup (wi_pages idx) page_id of
        None \<Rightarrow> demote_high_loop target page_ids idx demoted freed
      | Some versions \<Rightarrow>
          (case demote_full_pages target versions demoted freed of
             (versions', demoted', freed', reached) \<Rightarrow>
               let idx' = idx\<lparr>wi_pages := RBT.insert page_id versions' (wi_pages idx)\<rparr>
               in if reached then (idx', demoted') else demote_high_loop target page_ids idx' demoted' freed'))"

definition demote_high_page_ids_resident_bytes :: "nat \<Rightarrow> WalIndex \<Rightarrow> WalIndex \<times> nat" where
  "demote_high_page_ids_resident_bytes target_bytes idx =
     (if target_bytes = 0 then (idx, 0)
      else
        let (idx, demoted) = demote_high_loop target_bytes (rev (RBT.keys (wi_pages idx))) idx 0 0
        in (idx\<lparr>wi_dirty_since_demote := [], wi_dirty_since_demote_set := {}\<rparr>, demoted))"

definition version_count :: "WalIndex \<Rightarrow> nat" where
  "version_count idx = sum_list (map (length \<circ> snd) (RBT.entries (wi_pages idx)))"

definition version_counts_by_payload :: "WalIndex \<Rightarrow> nat \<times> nat" where
  "version_counts_by_payload idx =
     (let versions = concat (map snd (RBT.entries (wi_pages idx)))
      in (length (filter (\<lambda>v. is_resident (wv_payload v)) versions),
          length (filter (\<lambda>v. \<not> is_resident (wv_payload v)) versions)))"

definition contains_page :: "WalIndex \<Rightarrow> page_id \<Rightarrow> bool" where
  "contains_page idx page_id = (RBT.lookup (wi_pages idx) page_id \<noteq> None)"

definition seed_latest :: "page_id \<Rightarrow> WalVersion \<Rightarrow> WalIndex \<Rightarrow> WalIndex" where
  "seed_latest page_id version idx =
     mark_dirty_since_demote page_id
       (touch page_id (idx\<lparr>wi_pages := RBT.insert page_id [version] (wi_pages idx)\<rparr>))"

definition hot_page_count :: "WalIndex \<Rightarrow> nat" where
  "hot_page_count idx = length (RBT.keys (wi_pages idx))"

text \<open>
  The search for a page to spill consumes the queue of accesses from the front: outdated entries
  and pages with a history are skipped, and their entries dropped.
\<close>

fun spill_loop :: "nat \<Rightarrow> (page_id \<times> u64) list \<Rightarrow> WalIndex \<Rightarrow> (page_id \<times> WalVersion) option \<times> WalIndex" where
  "spill_loop hot_set_pages [] idx = (None, idx\<lparr>wi_access_order := []\<rparr>)"
| "spill_loop hot_set_pages ((page_id, epoch) # order) idx =
     (if hot_page_count idx \<le> hot_set_pages then (None, idx\<lparr>wi_access_order := (page_id, epoch) # order\<rparr>)
      else if RBT.lookup (wi_page_touch_epochs idx) page_id \<noteq> Some epoch then spill_loop hot_set_pages order idx
      else if length (page_versions idx page_id) \<noteq> 1 then spill_loop hot_set_pages order idx
      else (Some (page_id, hd (page_versions idx page_id)),
            idx\<lparr>wi_access_order := order,
                wi_page_touch_epochs := RBT.delete page_id (wi_page_touch_epochs idx),
                wi_pages := RBT.delete page_id (wi_pages idx)\<rparr>))"

definition spill_one_cold_latest :: "nat \<Rightarrow> WalIndex \<Rightarrow> (page_id \<times> WalVersion) option \<times> WalIndex" where
  "spill_one_cold_latest hot_set_pages idx = spill_loop hot_set_pages (wi_access_order idx) idx"

section \<open>Versions of a page\<close>

lemma mark_fields [simp]:
  "wi_pages (mark_dirty_since_demote p idx) = wi_pages idx"
  "wi_access_order (mark_dirty_since_demote p idx) = wi_access_order idx"
  "wi_page_touch_epochs (mark_dirty_since_demote p idx) = wi_page_touch_epochs idx"
  by (simp_all add: mark_dirty_since_demote_def)

lemma unmark_pages [simp]: "wi_pages (unmark_dirty_since_demote p idx) = wi_pages idx"
  by (simp add: unmark_dirty_since_demote_def)

lemma touch_pages [simp]: "wi_pages (touch p idx) = wi_pages idx"
  by (simp add: touch_def Let_def)

lemma latest_visible_eq: "latest_visible idx p s = newest_at s (page_versions idx p)"
  by (simp add: latest_visible_def page_versions_def newest_at_def split: option.split)

lemma page_versions_cong: "wi_pages idx = wi_pages idx' \<Longrightarrow> page_versions idx = page_versions idx'"
  by (simp add: page_versions_def fun_eq_iff)

lemma page_versions_simps [simp]:
  "page_versions (mark_dirty_since_demote p idx) = page_versions idx"
  "page_versions (unmark_dirty_since_demote p idx) = page_versions idx"
  "page_versions (touch p idx) = page_versions idx"
  "page_versions index_default = (\<lambda>_. [])"
  "page_versions (idx\<lparr>wi_pages := RBT.insert p vs (wi_pages idx')\<rparr>) = (page_versions idx')(p := vs)"
  by (simp_all add: page_versions_def fun_eq_iff index_default_def)

lemma page_versions_add [simp]:
  "page_versions (add_version p v retain idx) =
     (page_versions idx)(p := (if retain then page_versions idx p @ [v] else [v]))"
  by (simp add: add_version_def Let_def)

lemma page_versions_seed [simp]: "page_versions (seed_latest p v idx) = (page_versions idx)(p := [v])"
  by (simp add: seed_latest_def)

lemma newest_at_simps [simp]:
  "newest_at s [] = None"
  "newest_at s (vs @ [v]) = (if wv_lsn v \<le> s then Some v else newest_at s vs)"
  by (simp_all add: newest_at_def)

lemma newest_at_single [simp]: "newest_at s [v] = (if wv_lsn v \<le> s then Some v else None)"
  using newest_at_simps(2) [of s "[]" v] by simp

lemma newest_at_Some:
  assumes "newest_at s vs = Some v" "sorted (map wv_lsn vs)"
  shows "v \<in> set vs \<and> wv_lsn v \<le> s \<and> (\<forall>w\<in>set vs. wv_lsn w \<le> s \<longrightarrow> wv_lsn w \<le> wv_lsn v)"
  using assms
proof (induction vs rule: rev_induct)
  case (snoc x xs)
  then show ?case by (auto simp: sorted_append split: if_splits)
qed simp

lemma newest_at_None: "newest_at s vs = None \<longleftrightarrow> (\<forall>v\<in>set vs. s < wv_lsn v)"
  by (induction vs rule: rev_induct) (auto simp: not_le)

lemma newest_at_spec:
  assumes "sorted (map wv_lsn vs)"
  shows "case newest_at s vs of
      None \<Rightarrow> \<forall>w\<in>set vs. s < wv_lsn w
    | Some u \<Rightarrow> wv_lsn u \<le> s \<and> (\<forall>w\<in>set vs. wv_lsn w \<le> s \<longrightarrow> wv_lsn w \<le> wv_lsn u)"
proof (cases "newest_at s vs")
  case None
  with newest_at_None have "\<forall>w\<in>set vs. s < wv_lsn w" by blast
  with None show ?thesis by simp
next
  case (Some u)
  then show ?thesis using newest_at_Some [OF Some assms] by simp
qed

text \<open>What a version says about the log, which demotion keeps.\<close>

definition version_meta :: "WalVersion \<Rightarrow> u64 \<times> u64 \<times> u32 \<times> FrameEncoding" where
  "version_meta v = (wv_lsn v, wal_metadata (wv_payload v))"

lemma demote_payload_meta [simp]: "wal_metadata (demote_payload pl) = wal_metadata pl"
  by (cases pl) simp_all

lemma demote_version_meta [simp]: "version_meta (demote_version v) = version_meta v" "wv_lsn (demote_version v) = wv_lsn v"
  by (simp_all add: version_meta_def demote_version_def)

text \<open>
  \<open>demoted keep vs vs'\<close>: the lists agree in length and in what they say about the log, the versions
  selected by \<open>keep\<close> are untouched, and every other one is untouched or has given up its image.
\<close>

definition demoted :: "(nat \<Rightarrow> WalVersion \<Rightarrow> bool) \<Rightarrow> WalVersion list \<Rightarrow> WalVersion list \<Rightarrow> bool" where
  "demoted keep vs vs' \<longleftrightarrow> length vs' = length vs \<and>
     (\<forall>i<length vs. vs' ! i = vs ! i \<or> \<not> keep i (vs ! i) \<and> vs' ! i = demote_version (vs ! i))"

lemma demoted_refl [simp]: "demoted keep vs vs"
  by (simp add: demoted_def)

lemma demote_twice [simp]: "demote_version (demote_version v) = demote_version v"
  by (cases "wv_payload v") (simp_all add: demote_version_def)

lemma demoted_mono: "demoted keep vs vs' \<Longrightarrow> (\<And>i v. keep' i v \<Longrightarrow> keep i v) \<Longrightarrow> demoted keep' vs vs'"
  by (auto simp: demoted_def)

lemma demoted_meta:
  assumes "demoted keep vs vs'"
  shows "map version_meta vs' = map version_meta vs"
proof (rule nth_equalityI)
  show "length (map version_meta vs') = length (map version_meta vs)" using assms by (simp add: demoted_def)
next
  fix i assume i: "i < length (map version_meta vs')"
  then have "vs' ! i = vs ! i \<or> vs' ! i = demote_version (vs ! i)" using assms by (auto simp: demoted_def)
  then show "map version_meta vs' ! i = map version_meta vs ! i" using i assms by (auto simp: demoted_def)
qed

lemma newest_at_meta:
  assumes "map version_meta vs' = map version_meta vs"
  shows "map_option version_meta (newest_at s vs') = map_option version_meta (newest_at s vs)"
  using assms
proof (induction vs arbitrary: vs' rule: rev_induct)
  case (snoc x xs)
  then obtain y ys where y: "vs' = ys @ [y]" by (cases vs' rule: rev_cases) auto
  then have m: "version_meta y = version_meta x" "map version_meta ys = map version_meta xs" using snoc.prems by simp_all
  then have "wv_lsn y = wv_lsn x" by (simp add: version_meta_def)
  then show ?case using snoc.IH [OF m(2)] m(1) by (simp add: y)
qed simp

subsection \<open>Demotion\<close>

lemma demote_page_ok:
  assumes "demote_page m k p (idx, n) = (idx', n')"
  shows "demoted (\<lambda>i v. reader_visible m v \<or> length (page_versions idx p) \<le> i + k) (page_versions idx p) (page_versions idx' p)"
    and "q \<noteq> p \<Longrightarrow> page_versions idx' q = page_versions idx q"
proof -
  let ?vs = "page_versions idx p" and ?d = "length (page_versions idx p) - k"
  let ?new = "map (\<lambda>v. if reader_visible m v then v else demote_version v) (take ?d ?vs) @ drop ?d ?vs"
  have e: "page_versions idx' = (if RBT.lookup (wi_pages idx) p = None then page_versions idx else (page_versions idx)(p := ?new))"
    using assms by (auto simp: demote_page_def Let_def page_versions_def [of idx] split: option.splits if_splits)
  show "q \<noteq> p \<Longrightarrow> page_versions idx' q = page_versions idx q" using e by simp
  have "demoted (\<lambda>i v. reader_visible m v \<or> length ?vs \<le> i + k) ?vs ?new"
    unfolding demoted_def by (auto simp: nth_append)
  then show "demoted (\<lambda>i v. reader_visible m v \<or> length ?vs \<le> i + k) ?vs (page_versions idx' p)"
    using e by (auto split: if_splits)
qed

lemma demoted_trans:
  assumes "demoted keep vs us" "demoted keep us ws" "\<And>i v. keep i (demote_version v) = keep i v"
  shows "demoted keep vs ws"
  unfolding demoted_def
proof (intro conjI allI impI)
  show "length ws = length vs" using assms(1,2) by (simp add: demoted_def)
  fix i assume i: "i < length vs"
  then have "us ! i = vs ! i \<or> \<not> keep i (vs ! i) \<and> us ! i = demote_version (vs ! i)"
    "ws ! i = us ! i \<or> \<not> keep i (us ! i) \<and> ws ! i = demote_version (us ! i)"
    using assms(1,2) by (auto simp: demoted_def)
  then show "ws ! i = vs ! i \<or> \<not> keep i (vs ! i) \<and> ws ! i = demote_version (vs ! i)" using assms(3) by auto
qed

lemma demote_fold_ok:
  "fold (demote_page m k) ps (idx, n) = (idx', n') \<Longrightarrow>
     demoted (\<lambda>i v. reader_visible m v \<or> length (page_versions idx q) \<le> i + k) (page_versions idx q) (page_versions idx' q)"
proof (induction ps arbitrary: idx n)
  case (Cons p ps)
  obtain idx1 n1 where s: "demote_page m k p (idx, n) = (idx1, n1)" by fastforce
  have 1: "demoted (\<lambda>i v. reader_visible m v \<or> length (page_versions idx q) \<le> i + k) (page_versions idx q) (page_versions idx1 q)"
    using demote_page_ok [OF s] by (cases "q = p") auto
  then have "length (page_versions idx1 q) = length (page_versions idx q)" by (simp add: demoted_def)
  with Cons.IH [of idx1 n1] Cons.prems s have
    "demoted (\<lambda>i v. reader_visible m v \<or> length (page_versions idx q) \<le> i + k) (page_versions idx1 q) (page_versions idx' q)" by simp
  with 1 show ?case by (rule demoted_trans) (simp add: reader_visible_def split: option.split)
qed simp

lemma demote_full_pages_ok:
  "demote_full_pages t vs d f = (vs', r) \<Longrightarrow> demoted (\<lambda>i v. snd (snd (wal_metadata (wv_payload v))) \<noteq> EncPage) vs vs'"
proof (induction t vs d f arbitrary: vs' r rule: demote_full_pages.induct)
  case (2 target v vs dn freed)
  have cons: "demoted (\<lambda>i v. snd (snd (wal_metadata (wv_payload v))) \<noteq> EncPage) (v # vs) (v' # vs'')"
    if "v' = v \<or> snd (snd (wal_metadata (wv_payload v))) = EncPage \<and> v' = demote_version v"
      "demoted (\<lambda>i v. snd (snd (wal_metadata (wv_payload v))) \<noteq> EncPage) vs vs''" for v' vs''
    using that by (auto simp: demoted_def nth_Cons split: nat.split)
  show ?case
  proof (cases "\<exists>data off len. wv_payload v = Resident data off len EncPage")
    case True
    then obtain data off len where pl: "wv_payload v = Resident data off len EncPage" by blast
    let ?v = "v\<lparr>wv_payload := OnDisk off len EncPage\<rparr>" and ?f = "min (freed + length data) (2 ^ 64 - 1)"
    have v: "?v = demote_version v" "snd (snd (wal_metadata (wv_payload v))) = EncPage"
      using pl by (simp_all add: demote_version_def)
    show ?thesis
    proof (cases "?f \<ge> target")
      case True
      with "2.prems" pl have "vs' = ?v # vs" by (simp add: Let_def)
      then show ?thesis using v by (auto intro: cons)
    next
      case False
      obtain us r' where u: "demote_full_pages target vs (dn + 1) ?f = (us, r')" using prod.exhaust by blast
      with False "2.prems" pl have "vs' = ?v # us" by (auto simp: Let_def split: if_splits)
      then show ?thesis using v "2.IH"(1) [OF pl refl refl refl False u] by (auto intro: cons)
    qed
  next
    case False
    obtain us r' where u: "demote_full_pages target vs dn freed = (us, r')" using prod.exhaust by blast
    have "vs' = v # us"
      using "2.prems" False u by (auto simp: Let_def split: WalVersionPayload.splits FrameEncoding.splits)
    moreover have "demoted (\<lambda>i v. snd (snd (wal_metadata (wv_payload v))) \<noteq> EncPage) vs us"
    proof (cases "wv_payload v")
      case (Resident d off len e)
      with False have "e = EncPageDelta" by (cases e) auto
      then show ?thesis using "2.IH"(2) [OF Resident _ u] by simp
    next
      case (OnDisk off len e)
      then show ?thesis using "2.IH"(3) [OF OnDisk u] by simp
    qed
    ultimately show ?thesis by (auto intro: cons)
  qed
qed simp

lemma demote_high_loop_ok:
  "demote_high_loop t ps idx d f = (idx', n) \<Longrightarrow>
     demoted (\<lambda>i v. snd (snd (wal_metadata (wv_payload v))) \<noteq> EncPage) (page_versions idx q) (page_versions idx' q)"
proof (induction ps arbitrary: idx d f)
  case (Cons p ps)
  show ?case
  proof (cases "RBT.lookup (wi_pages idx) p")
    case (Some vs)
    obtain vs' d' f' reached where v: "demote_full_pages t vs d f = (vs', d', f', reached)" by (metis prod_cases4)
    let ?idx = "idx\<lparr>wi_pages := RBT.insert p vs' (wi_pages idx)\<rparr>"
    have 1: "demoted (\<lambda>i v. snd (snd (wal_metadata (wv_payload v))) \<noteq> EncPage) (page_versions idx q) (page_versions ?idx q)"
      using demote_full_pages_ok [OF v] Some by (simp add: page_versions_def)
    show ?thesis
    proof (cases reached)
      case True
      with Cons.prems Some v 1 show ?thesis by (simp add: Let_def)
    next
      case False
      with Cons.prems Some v have "demote_high_loop t ps ?idx d' f' = (idx', n)" by (simp add: Let_def)
      from demoted_trans [OF 1 Cons.IH [OF this]] show ?thesis by (simp add: demote_version_def)
    qed
  qed (use Cons in simp)
qed simp

subsection \<open>Spilling\<close>

lemma spill_loop_ok:
  "spill_loop hot order idx = (r, idx') \<Longrightarrow>
     (case r of
        None \<Rightarrow> wi_pages idx' = wi_pages idx
      | Some (p, v) \<Rightarrow> page_versions idx p = [v] \<and> wi_pages idx' = RBT.delete p (wi_pages idx) \<and>
          contains_page idx p \<and> hot < hot_page_count idx)"
proof (induction order arbitrary: idx)
  case (Cons x order)
  obtain p e where x: "x = (p, e)" by fastforce
  consider "hot_page_count idx \<le> hot" | "spill_loop hot (x # order) idx = spill_loop hot order idx"
    | "hot < hot_page_count idx" "RBT.lookup (wi_page_touch_epochs idx) p = Some e" "length (page_versions idx p) = 1"
    unfolding x
    by (cases "hot_page_count idx \<le> hot"; cases "RBT.lookup (wi_page_touch_epochs idx) p = Some e";
        cases "length (page_versions idx p) = 1") simp_all
  then show ?case
  proof cases
    case 1
    with Cons.prems have "r = None" "wi_pages idx' = wi_pages idx" by (auto simp: x)
    then show ?thesis by simp
  next
    case 2
    with Cons show ?thesis by simp
  next
    case 3
    then obtain v where v: "page_versions idx p = [v]" by (auto simp: length_Suc_conv)
    then have "contains_page idx p"
      by (cases "RBT.lookup (wi_pages idx) p") (simp_all add: contains_page_def page_versions_def)
    moreover have "r = Some (p, v)" "wi_pages idx' = RBT.delete p (wi_pages idx)" using Cons.prems 3 v by (auto simp: x)
    ultimately show ?thesis using v 3(1) by simp
  qed
qed auto

section \<open>Properties\<close>

definition index_sorted :: "WalIndex \<Rightarrow> bool" where
  "index_sorted idx \<longleftrightarrow> (\<forall>p. sorted (map wv_lsn (page_versions idx p)))"

text \<open>C9: snapshot isolation of the index.  When a page receives a new version at or behind its newest one
  and the history is retained, every snapshot older than the new version sees exactly what it saw before, on
  every page, and every snapshot that covers it sees the new version; versions stay ordered, so that a lookup
  returns the version with the greatest position in the log that the snapshot covers.\<close>

theorem index_snapshot_isolation:
  assumes "index_sorted idx" "\<forall>w\<in>set (page_versions idx p). wv_lsn w \<le> wv_lsn v"
  shows "index_sorted (add_version p v True idx) \<and>
    latest_visible (add_version p v True idx) q s =
      (if q = p \<and> wv_lsn v \<le> s then Some v else latest_visible idx q s) \<and>
    (case latest_visible (add_version p v True idx) q s of
       None \<Rightarrow> \<forall>w\<in>set (page_versions (add_version p v True idx) q). s < wv_lsn w
     | Some u \<Rightarrow> wv_lsn u \<le> s \<and>
         (\<forall>w\<in>set (page_versions (add_version p v True idx) q). wv_lsn w \<le> s \<longrightarrow> wv_lsn w \<le> wv_lsn u))"
proof -
  let ?i = "add_version p v True idx"
  have so: "index_sorted ?i" using assms by (auto simp: index_sorted_def sorted_append)
  then have "sorted (map wv_lsn (page_versions ?i q))" by (simp add: index_sorted_def)
  note newest_at_spec [OF this, of s]
  moreover have "latest_visible ?i q s = (if q = p \<and> wv_lsn v \<le> s then Some v else latest_visible idx q s)"
    by (simp add: latest_visible_eq)
  ultimately show ?thesis using so unfolding latest_visible_eq by blast
qed

definition sample_index :: WalIndex where
  "sample_index = add_version 3 (version_resident 100 32 68 EncPage [1]) True index_default"

lemma sample_index_versions: "page_versions sample_index = (\<lambda>_. [])(3 := [version_resident 100 32 68 EncPage [1]])"
  by (simp add: sample_index_def)

theorem index_snapshot_isolation_witness:
  "latest_visible (add_version 3 (version_on_disk 200 100 100 EncPageDelta) True sample_index) 3 150 =
     Some (version_resident 100 32 68 EncPage [1])"
  using index_snapshot_isolation [of sample_index 3 "version_on_disk 200 100 100 EncPageDelta" 3 150]
  by (simp add: index_sorted_def sample_index_versions version_on_disk_def version_resident_def latest_visible_eq)

lemma page_versions_dirty:
  "page_versions (idx\<lparr>wi_dirty_since_demote := [], wi_dirty_since_demote_set := {}\<rparr>) = page_versions idx"
  for idx :: WalIndex by (rule page_versions_cong) simp

lemma demote_cold_demotes:
  "demoted (\<lambda>i v. reader_visible m v \<or> length (page_versions idx p) \<le> i + unat retain)
     (page_versions idx p) (page_versions (fst (demote_cold m retain idx)) p)"
proof -
  obtain c n where c: "fold (demote_page m (unat retain)) (wi_dirty_since_demote idx)
      (idx\<lparr>wi_dirty_since_demote := [], wi_dirty_since_demote_set := {}\<rparr>, 0) = (c, n)" by fastforce
  show ?thesis using demote_fold_ok [OF c, of p] by (simp add: demote_cold_def c page_versions_dirty)
qed

lemma demote_high_demotes:
  "demoted (\<lambda>i v. snd (snd (wal_metadata (wv_payload v))) \<noteq> EncPage) (page_versions idx p)
     (page_versions (fst (demote_high_page_ids_resident_bytes target idx)) p)"
proof -
  obtain h k where h: "demote_high_loop target (rev (RBT.keys (wi_pages idx))) idx 0 0 = (h, k)" by fastforce
  show ?thesis using demote_high_loop_ok [OF h, of p]
    by (simp add: demote_high_page_ids_resident_bytes_def h page_versions_dirty)
qed

text \<open>C20: demotion is invisible.  Giving up resident images changes for no page and no snapshot which
  version is visible nor where it lies in the log.  The background pass never touches a version that the oldest
  reader can see, nor the most recent versions of a page it is told to retain; the memory-pressure pass
  never touches a delta.\<close>

theorem index_demotion_invisible:
  "let cold = fst (demote_cold m retain idx); high = fst (demote_high_page_ids_resident_bytes target idx)
   in map_option version_meta (latest_visible cold p s) = map_option version_meta (latest_visible idx p s) \<and>
      map_option version_meta (latest_visible high p s) = map_option version_meta (latest_visible idx p s) \<and>
      demoted (\<lambda>i v. reader_visible m v \<or> length (page_versions idx p) \<le> i + unat retain)
        (page_versions idx p) (page_versions cold p) \<and>
      demoted (\<lambda>i v. snd (snd (wal_metadata (wv_payload v))) \<noteq> EncPage) (page_versions idx p) (page_versions high p)"
proof -
  note 1 = demote_cold_demotes [where m = m and retain = retain and idx = idx and p = p]
  note 2 = demote_high_demotes [where target = target and idx = idx and p = p]
  show ?thesis
    using 1 2 newest_at_meta [OF demoted_meta [OF 1]] newest_at_meta [OF demoted_meta [OF 2]]
    by (simp add: latest_visible_eq Let_def)
qed

text \<open>For every order in which the hash map is walked, a checkpoint collects for each page the version
  that the snapshot sees, and no page twice.\<close>

lemma populate_latest:
  assumes "\<And>ks. mset (hash_order ks) = mset ks"
  shows "distinct (map fst (populate_latest_versions_at_or_before hash_order s idx))"
    and "(p, v) \<in> set (populate_latest_versions_at_or_before hash_order s idx) \<longleftrightarrow> latest_visible idx p s = Some v"
proof -
  have k: "set (hash_order ks) = set ks" "distinct (hash_order ks) = distinct ks" for ks
    using assms [of ks] by (metis set_mset_mset, metis mset_eq_imp_distinct_iff)
  have mf: "map fst (List.map_filter (\<lambda>p. map_option (Pair p) (f p)) ks) = filter (\<lambda>p. f p \<noteq> None) ks"
    for f :: "page_id \<Rightarrow> WalVersion option" and ks
    by (induction ks) (auto simp: map_filter_simps split: option.splits)
  show "distinct (map fst (populate_latest_versions_at_or_before hash_order s idx))"
    by (simp add: populate_latest_versions_at_or_before_def mf k RBT.distinct_keys)
  have "p \<in> set (RBT.keys (wi_pages idx))" if "latest_visible idx p s = Some v"
    using that by (auto simp: latest_visible_def RBT.lookup_keys [symmetric] split: option.splits)
  moreover have "x \<in> set (List.map_filter f ks) \<longleftrightarrow> (\<exists>k\<in>set ks. f k = Some x)" for x ks and f :: "page_id \<Rightarrow> (page_id \<times> WalVersion) option"
    by (induction ks) (auto simp: map_filter_simps split: option.splits)
  ultimately show "(p, v) \<in> set (populate_latest_versions_at_or_before hash_order s idx) \<longleftrightarrow> latest_visible idx p s = Some v"
    by (auto simp: populate_latest_versions_at_or_before_def k latest_visible_eq)
qed

end
