(* ===== verification/VfsFaulty.thy ===== *)
theory VfsFaulty
  imports WalFormat
begin

text \<open>
  Files that fail.  The first part is the fault-injecting file of \<open>vfs/faulty.rs\<close>: labelled
  failpoints, hit counters and the wrapper around another file.  The second part is the
  contract \<open>fallible_file\<close>: an operation may fail, and a write that failed leaves each byte of its
  range old or new.  Every file that keeps the contract of \<open>Vfs\<close> keeps this one, and so does
  the fault-injecting file around it.
\<close>

section \<open>Definitions\<close>

datatype FailAction = FaError | FaPartialRead nat | FaPartialWrite nat | FaDropSync

record Failpoint =
  fp_label :: string
  fp_trigger_on :: u64
  fp_action :: FailAction

text \<open>The texts that the log prints, \<open>pass\<close>, \<open>error\<close>, \<open>partial_read:n\<close>, \<open>partial_write:n\<close> and \<open>drop_sync\<close>.\<close>

datatype fault_outcome = OutPass | OutError | OutPartialRead nat | OutPartialWrite nat | OutDropSync

record FailpointLogEntry =
  fl_label :: string
  fl_hit :: u64
  fl_outcome :: fault_outcome

text \<open>
  The maps are association lists, since only lookups depend on them.  Thread ids are numbers and
  the id of the running thread is an argument.
\<close>

record FaultState =
  fs_active_failpoints :: nat
  fs_failpoints :: "(string \<times> Failpoint list) list"
  fs_hits :: "(string \<times> u64) list"
  fs_logs :: "FailpointLogEntry list"
  fs_owner_thread :: "nat option"

datatype FaultDecision =
    Untracked | Pass u64 | FdError u64 | FdPartialRead u64 nat | FdPartialWrite u64 nat | FdDropSync u64

definition fault_state_default :: FaultState where
  "fault_state_default = \<lparr>fs_active_failpoints = 0, fs_failpoints = [], fs_hits = [], fs_logs = [],
     fs_owner_thread = None\<rparr>"

definition assoc_get :: "('k \<times> 'v) list \<Rightarrow> 'k \<Rightarrow> 'v \<Rightarrow> 'v" where
  "assoc_get m k d = (case map_of m k of None \<Rightarrow> d | Some v \<Rightarrow> v)"

definition assoc_put :: "'k \<Rightarrow> 'v \<Rightarrow> ('k \<times> 'v) list \<Rightarrow> ('k \<times> 'v) list" where
  "assoc_put k v m = (k, v) # filter (\<lambda>(k', _). k' \<noteq> k) m"

definition has_active_failpoints :: "FaultState \<Rightarrow> bool" where
  "has_active_failpoints st = (fs_active_failpoints st \<noteq> 0)"

definition is_owner_thread :: "nat \<Rightarrow> FaultState \<Rightarrow> bool" where
  "is_owner_thread me st = (case fs_owner_thread st of None \<Rightarrow> True | Some t \<Rightarrow> t = me)"

definition is_passive_path :: "nat \<Rightarrow> FaultState \<Rightarrow> bool" where
  "is_passive_path me st = (\<not> has_active_failpoints st \<or> \<not> is_owner_thread me st)"

definition can_passthrough_batch :: "nat \<Rightarrow> FaultState \<Rightarrow> bool" where
  "can_passthrough_batch me st =
     (if \<not> has_active_failpoints st then True
      else if \<not> is_owner_thread me st then True
      else fs_failpoints st = [])"

fun fault_match :: "u64 \<Rightarrow> Failpoint list \<Rightarrow> FaultDecision" where
  "fault_match hit [] = Pass hit"
| "fault_match hit (fp # entries) =
     (if fp_trigger_on fp = hit
      then (case fp_action fp of
              FaError \<Rightarrow> FdError hit
            | FaPartialRead bytes \<Rightarrow> FdPartialRead hit bytes
            | FaPartialWrite bytes \<Rightarrow> FdPartialWrite hit bytes
            | FaDropSync \<Rightarrow> FdDropSync hit)
      else fault_match hit entries)"

definition decision :: "nat \<Rightarrow> string \<Rightarrow> FaultState \<Rightarrow> FaultDecision \<times> FaultState" where
  "decision me label st =
     (if \<not> has_active_failpoints st then (Untracked, st)
      else if \<not> is_owner_thread me st then (Untracked, st)
      else if fs_failpoints st = [] then (Untracked, st)
      else
        let hit = assoc_get (fs_hits st) label 0 + 1;
            st' = st\<lparr>fs_hits := assoc_put label hit (fs_hits st)\<rparr>
        in case map_of (fs_failpoints st) label of
             None \<Rightarrow> (Pass hit, st')
           | Some entries \<Rightarrow> (fault_match hit entries, st'))"

definition fault_log :: "nat \<Rightarrow> string \<Rightarrow> u64 \<Rightarrow> fault_outcome \<Rightarrow> FaultState \<Rightarrow> FaultState" where
  "fault_log me label hit outcome st =
     (if \<not> is_owner_thread me st then st
      else st\<lparr>fs_logs := fs_logs st @ [\<lparr>fl_label = label, fl_hit = hit, fl_outcome = outcome\<rparr>]\<rparr>)"

definition install_failpoint :: "nat \<Rightarrow> Failpoint \<Rightarrow> FaultState \<Rightarrow> FaultState" where
  "install_failpoint me fp st =
     st\<lparr>fs_owner_thread := Some me,
        fs_failpoints := assoc_put (fp_label fp) (assoc_get (fs_failpoints st) (fp_label fp) [] @ [fp])
          (fs_failpoints st),
        fs_active_failpoints := fs_active_failpoints st + 1\<rparr>"

definition clear_failpoints :: "nat \<Rightarrow> FaultState \<Rightarrow> FaultState" where
  "clear_failpoints me st =
     st\<lparr>fs_failpoints := [], fs_active_failpoints := 0, fs_hits := [], fs_logs := [],
        fs_owner_thread := Some me\<rparr>"

definition failpoint_logs :: "FaultState \<Rightarrow> FailpointLogEntry list" where
  "failpoint_logs st = fs_logs st"

subsection \<open>Labels\<close>

fun classify_read :: "FileKind \<Rightarrow> string" where
  "classify_read Database = ''db.read''"
| "classify_read Wal = ''wal.read''"
| "classify_read SyncJournal = ''sync.read''"
| "classify_read Coordination = ''coord.read''"

fun classify_sync :: "FileKind \<Rightarrow> string" where
  "classify_sync Database = ''db.fsync''"
| "classify_sync Wal = ''wal.fsync''"
| "classify_sync SyncJournal = ''sync.fsync''"
| "classify_sync Coordination = ''coord.fsync''"

function combined_prefix_loop :: "u32 \<Rightarrow> bytes \<Rightarrow> nat \<Rightarrow> bool" where
  "combined_prefix_loop page_size prefix offset =
     (if offset < length prefix
      then let frame_type = prefix ! offset
           in if frame_type \<noteq> frame_type_byte Page \<and> frame_type \<noteq> frame_type_byte PageDelta then False
              else
                let payload_len = (if frame_type = frame_type_byte Page then unat page_size
                                   else DELTA_FRAME_PAYLOAD_SIZE);
                    frame_len = FRAME_HEADER_SIZE + payload_len + FRAME_TRAILER_SIZE
                in case usize_checked_add offset frame_len of
                     None \<Rightarrow> False
                   | Some next_offset \<Rightarrow>
                       if next_offset > length prefix then False
                       else combined_prefix_loop page_size prefix next_offset
      else offset = length prefix)"
  by pat_completeness auto
termination
  by (relation "measure (\<lambda>(_, prefix, offset). length prefix - offset)")
     (auto simp: usize_checked_add_def FRAME_HEADER_SIZE_def split: if_splits)

definition is_combined_commit_write :: "bytes \<Rightarrow> bool" where
  "is_combined_commit_write buf =
     (let control_frame_len = FRAME_HEADER_SIZE + FRAME_TRAILER_SIZE
      in if length buf < control_frame_len then False
         else
           let commit_start = length buf - control_frame_len
           in if commit_start = 0 then False
              else if buf ! commit_start \<noteq> frame_type_byte Commit then False
              else if list_ex (\<lambda>b. b \<noteq> 0) (drop (commit_start + 1) buf) then False
              else list_ex (\<lambda>page_size. combined_prefix_loop page_size (take commit_start buf) 0)
                     SUPPORTED_PAGE_SIZES)"

definition classify_wal_write :: "u64 \<Rightarrow> bytes \<Rightarrow> string" where
  "classify_wal_write offset buf =
     (if offset = 0 \<and> length buf = unat WAL_HEADER_SIZE then ''wal.write_header''
      else if is_combined_commit_write buf then ''wal.write_commit''
      else case buf of
        [] \<Rightarrow> ''wal.write''
      | frame_type # _ \<Rightarrow>
          if frame_type = frame_type_byte Page \<or> frame_type = frame_type_byte PageDelta then ''wal.write_frame''
          else if frame_type = frame_type_byte Commit then ''wal.write_commit''
          else if frame_type = frame_type_byte Checkpoint then ''wal.write_checkpoint''
          else ''wal.write'')"

fun classify_write :: "FileKind \<Rightarrow> u64 \<Rightarrow> bytes \<Rightarrow> string" where
  "classify_write Database offset buf =
     (if offset = 0 \<and> length buf \<ge> 128 then ''db.write_header'' else ''db.write_page'')"
| "classify_write Wal offset buf = classify_wal_write offset buf"
| "classify_write SyncJournal offset buf = ''sync.write''"
| "classify_write Coordination offset buf = ''coord.write''"

subsection \<open>The wrapper\<close>

record 'f FaultyVfsFile =
  ff_inner :: 'f
  ff_kind :: FileKind
  ff_state :: FaultState

definition faulty_read_at ::
  "'f vfs_file_ops \<Rightarrow> nat \<Rightarrow> u64 \<Rightarrow> nat \<Rightarrow> 'f FaultyVfsFile \<Rightarrow> bytes result \<times> 'f FaultyVfsFile"
where
  "faulty_read_at ops me offset len f =
     (if is_passive_path me (ff_state f) then (vf_read_at ops offset len (ff_inner f), f)
      else
        let label = classify_read (ff_kind f);
            (d, st) = decision me label (ff_state f);
            logged = (\<lambda>hit outcome. f\<lparr>ff_state := fault_log me label hit outcome st\<rparr>)
        in case d of
             Untracked \<Rightarrow> (vf_read_at ops offset len (ff_inner f), f\<lparr>ff_state := st\<rparr>)
           | Pass hit \<Rightarrow> (vf_read_at ops offset len (ff_inner f), logged hit OutPass)
           | FdError hit \<Rightarrow> (Inl (Io ''fault injected''), logged hit OutError)
           | FdPartialRead hit bytes \<Rightarrow>
               (vf_read_at ops offset (min bytes len) (ff_inner f), logged hit (OutPartialRead bytes))
           | FdPartialWrite hit _ \<Rightarrow> (vf_read_at ops offset len (ff_inner f), logged hit OutPass)
           | FdDropSync hit \<Rightarrow> (vf_read_at ops offset len (ff_inner f), logged hit OutPass))"

definition faulty_inner :: "('f \<Rightarrow> 'a result \<times> 'f) \<Rightarrow> 'f FaultyVfsFile \<Rightarrow> 'a result \<times> 'f FaultyVfsFile" where
  "faulty_inner m f = (let (r, i) = m (ff_inner f) in (r, f\<lparr>ff_inner := i\<rparr>))"

definition faulty_write_at ::
  "'f vfs_file_ops \<Rightarrow> nat \<Rightarrow> u64 \<Rightarrow> bytes \<Rightarrow> 'f FaultyVfsFile \<Rightarrow> nat result \<times> 'f FaultyVfsFile"
where
  "faulty_write_at ops me offset buf f =
     (if is_passive_path me (ff_state f) then faulty_inner (vf_write_at ops offset buf) f
      else
        let label = classify_write (ff_kind f) offset buf;
            (d, st) = decision me label (ff_state f);
            logged = (\<lambda>hit outcome. f\<lparr>ff_state := fault_log me label hit outcome st\<rparr>)
        in case d of
             Untracked \<Rightarrow> faulty_inner (vf_write_at ops offset buf) (f\<lparr>ff_state := st\<rparr>)
           | Pass hit \<Rightarrow> faulty_inner (vf_write_at ops offset buf) (logged hit OutPass)
           | FdError hit \<Rightarrow> (Inl (Io ''fault injected''), logged hit OutError)
           | FdPartialWrite hit bytes \<Rightarrow>
               let shortened = min bytes (length buf)
               in faulty_inner (vf_write_at ops offset (take shortened buf)) (logged hit (OutPartialWrite shortened))
           | FdPartialRead hit _ \<Rightarrow> faulty_inner (vf_write_at ops offset buf) (logged hit OutPass)
           | FdDropSync hit \<Rightarrow> faulty_inner (vf_write_at ops offset buf) (logged hit OutPass))"

definition faulty_sync_data ::
  "'f vfs_file_ops \<Rightarrow> nat \<Rightarrow> 'f FaultyVfsFile \<Rightarrow> unit result \<times> 'f FaultyVfsFile"
where
  "faulty_sync_data ops me f =
     (if is_passive_path me (ff_state f) then faulty_inner (vf_sync_data ops) f
      else
        let label = classify_sync (ff_kind f);
            (d, st) = decision me label (ff_state f);
            logged = (\<lambda>hit outcome. f\<lparr>ff_state := fault_log me label hit outcome st\<rparr>)
        in case d of
             Untracked \<Rightarrow> faulty_inner (vf_sync_data ops) (f\<lparr>ff_state := st\<rparr>)
           | Pass hit \<Rightarrow> faulty_inner (vf_sync_data ops) (logged hit OutPass)
           | FdDropSync hit \<Rightarrow> (Inr (), logged hit OutDropSync)
           | FdError hit \<Rightarrow> (Inl (Io ''fault injected''), logged hit OutError)
           | FdPartialRead hit _ \<Rightarrow> faulty_inner (vf_sync_data ops) (logged hit OutPass)
           | FdPartialWrite hit _ \<Rightarrow> faulty_inner (vf_sync_data ops) (logged hit OutPass))"

text \<open>
  The operations as a file.  A read of a \<open>vfs_file_ops\<close> does not return a state, so the counter and
  the log entry of a read are dropped here: a read failpoint that is due stays due.
\<close>

definition faulty_file_ops :: "'f vfs_file_ops \<Rightarrow> nat \<Rightarrow> 'f FaultyVfsFile vfs_file_ops" where
  "faulty_file_ops ops me =
     \<lparr>vf_read_at = (\<lambda>offset len f. fst (faulty_read_at ops me offset len f)),
      vf_write_at = faulty_write_at ops me,
      vf_sync_data = faulty_sync_data ops me,
      vf_file_size = (\<lambda>f. vf_file_size ops (ff_inner f)),
      vf_set_len = (\<lambda>len. faulty_inner (vf_set_len ops len))\<rparr>"

text \<open>The batch write: the loop of the wrapper is the loop of the trait's default over the wrapper's \<open>write_at\<close>.\<close>

definition faulty_write_all_at_many ::
  "'f vfs_file_ops \<Rightarrow> nat \<Rightarrow> (u64 \<times> bytes) list \<Rightarrow> 'f FaultyVfsFile \<Rightarrow> unit result \<times> 'f FaultyVfsFile"
where
  "faulty_write_all_at_many ops me writes f =
     (if is_passive_path me (ff_state f) then faulty_inner (write_all_at_many ops writes) f
      else if can_passthrough_batch me (ff_state f) then faulty_inner (write_all_at_many ops writes) f
      else write_all_at_many (faulty_file_ops ops me) writes f)"

section \<open>The contract of a file that may fail\<close>

definition byte_at :: "bytes \<Rightarrow> nat \<Rightarrow> u8" where
  "byte_at c i = (if i < length c then c ! i else 0)"

definition torn_write :: "bytes \<Rightarrow> nat \<Rightarrow> bytes \<Rightarrow> bytes \<Rightarrow> bool" where
  "torn_write c off b c' \<longleftrightarrow> length c \<le> length c' \<and> length c' \<le> max (length c) (off + length b) \<and>
     (\<forall>i < length c'. c' ! i = byte_at c i \<or> off \<le> i \<and> i < off + length b \<and> c' ! i = b ! (i - off))"

lemma nth_file_patch:
  assumes "i < max (length c) (off + length b)"
  shows "file_patch c off b ! i = (if off \<le> i \<and> i < off + length b then b ! (i - off) else byte_at c i)"
proof -
  have "min (length c) off + (off - length c) = off" by auto
  then show ?thesis using assms
    by (auto simp: file_patch_def byte_at_def nth_append)
qed

lemma torn_write_refl [simp]: "torn_write c off b c"
  by (simp add: torn_write_def byte_at_def)

lemma torn_write_prefix: "torn_write c off b (file_patch c off (take n b))"
  by (auto simp: torn_write_def nth_file_patch)

lemma torn_write_continue:
  assumes "torn_write (file_patch c off (take n b)) (off + n) (drop n b) c'" "n \<le> length b"
  shows "torn_write c off b c'"
proof -
  have len: "length c \<le> length c'" "length c' \<le> max (length c) (off + length b)"
    using assms by (auto simp: torn_write_def)
  have "c' ! i = byte_at c i \<or> off \<le> i \<and> i < off + length b \<and> c' ! i = b ! (i - off)"
    if i: "i < length c'" for i
  proof -
    have "c' ! i = byte_at (file_patch c off (take n b)) i \<or>
        off + n \<le> i \<and> i < off + length b \<and> c' ! i = b ! (i - off)"
      using assms i by (auto simp: torn_write_def)
    then show ?thesis using assms(2) len i
      by (auto simp: byte_at_def [of "file_patch c off (take n b)"] nth_file_patch split: if_splits)
         (auto simp: byte_at_def max_def split: if_splits)
  qed
  with len show ?thesis by (simp add: torn_write_def)
qed

locale fallible_file =
  fixes ops :: "'f vfs_file_ops" and inv :: "'f \<Rightarrow> bool" and content :: "'f \<Rightarrow> bytes"
  assumes content_bound: "inv f \<Longrightarrow> length (content f) < 2 ^ 63"
    and try_read: "inv f \<Longrightarrow> 0 < len \<Longrightarrow> vf_read_at ops off len f = Inr bs \<Longrightarrow>
      bs = bslice (content f) (unat off) (unat off + length bs)"
    and try_write: "inv f \<Longrightarrow> buf \<noteq> [] \<Longrightarrow> unat off + length buf < 2 ^ 63 \<Longrightarrow>
      vf_write_at ops off buf f = (r, f') \<Longrightarrow> inv f' \<and>
        (case r of
           Inl e \<Rightarrow> torn_write (content f) (unat off) buf (content f')
         | Inr n \<Rightarrow> n \<le> length buf \<and> content f' = file_patch (content f) (unat off) (take n buf))"
    and try_sync: "inv f \<Longrightarrow> vf_sync_data ops f = (r', f') \<Longrightarrow> inv f' \<and> content f' = content f"
    and try_size: "inv f \<Longrightarrow> vf_file_size ops f = Inr s \<Longrightarrow> s = of_nat (length (content f))"
    and try_set_len: "inv f \<Longrightarrow> unat n < 2 ^ 63 \<Longrightarrow> vf_set_len ops n f = (r', f') \<Longrightarrow> inv f' \<and>
      (content f' = vec_resize (content f) (unat n) \<or> r' \<noteq> Inr () \<and> content f' = content f)"
begin

lemma try_read_loop:
  "inv f \<Longrightarrow> buf = bslice (content f) (unat off) (unat off + length buf) \<Longrightarrow> length buf \<le> len \<Longrightarrow>
   unat off + len < 2 ^ 63 \<Longrightarrow> read_exact_loop ops f off len buf = Inr bs \<Longrightarrow>
     bs = bslice (content f) (unat off) (unat off + len) \<and> length bs = len"
proof (induction "len - length buf" arbitrary: buf rule: less_induct)
  case less
  show ?case
  proof (cases "length buf = len")
    case True
    have "bs = buf" using less.prems(5) True by (subst (asm) read_exact_loop.simps) (simp add: Let_def)
    then show ?thesis using less.prems(2) True by simp
  next
    case False
    let ?o = "off + of_nat (length buf)"
    have o: "unat ?o = unat off + length buf"
      using less.prems(3,4) by (simp add: unat_word_ariths unat_of_nat)
    obtain chunk where c: "vf_read_at ops ?o (len - length buf) f = Inr chunk" "chunk \<noteq> []"
      "length chunk \<le> len - length buf" "read_exact_loop ops f off len (buf @ chunk) = Inr bs"
      using less.prems(3,5) False
      by (subst (asm) read_exact_loop.simps) (auto simp: Let_def split: sum.splits if_splits)
    have ch: "chunk = bslice (content f) (unat ?o) (unat ?o + length chunk)"
      using try_read [OF less.prems(1) _ c(1)] False less.prems(3) by simp
    have "buf @ chunk = bslice (content f) (unat off) (unat off + (length buf + length chunk))"
      using less.prems(2) ch o
        bslice_append_bslice [of "unat off" "unat ?o" "unat ?o + length chunk" "content f"]
      by (simp add: add.assoc)
    then have "buf @ chunk = bslice (content f) (unat off) (unat off + length (buf @ chunk))"
      unfolding length_append .
    moreover have "len - length (buf @ chunk) < len - length buf" "length (buf @ chunk) \<le> len"
      using c(2,3) False less.prems(3) by (auto simp: length_greater_0_conv [symmetric] simp del: length_greater_0_conv)
    ultimately show ?thesis using less.hyps [of "buf @ chunk"] less.prems(1,4) c(4) by blast
  qed
qed

lemma try_read_exact:
  "inv f \<Longrightarrow> unat off + len < 2 ^ 63 \<Longrightarrow> read_exact_at ops off len f = Inr bs \<Longrightarrow>
     bs = bslice (content f) (unat off) (unat off + len) \<and> length bs = len"
  unfolding read_exact_at_def by (rule try_read_loop) simp_all

lemma try_write_loop:
  "inv f \<Longrightarrow> cursor \<le> length buf \<Longrightarrow> unat off + length buf < 2 ^ 63 \<Longrightarrow>
   content f = (if cursor = 0 then c else file_patch c (unat off) (take cursor buf)) \<Longrightarrow> buf \<noteq> [] \<Longrightarrow>
   write_all_loop ops off buf cursor f = (r, f') \<Longrightarrow>
     inv f' \<and> (if r = Inr () then content f' = file_patch c (unat off) buf
               else torn_write c (unat off) buf (content f'))"
proof (induction "length buf - cursor" arbitrary: cursor f rule: less_induct)
  case less
  show ?case
  proof (cases "cursor = length buf")
    case True
    then show ?thesis using less.prems by (subst (asm) write_all_loop.simps) (auto split: if_splits)
  next
    case False
    let ?o = "off + of_nat cursor"
    have o: "unat ?o = unat off + cursor"
      using less.prems(2,3) by (simp add: unat_word_ariths unat_of_nat)
    have ne: "drop cursor buf \<noteq> []" and b: "unat ?o + length (drop cursor buf) < 2 ^ 63"
      using False less.prems(2,3) o by auto
    obtain w f1 where w: "vf_write_at ops ?o (drop cursor buf) f = (w, f1)" by fastforce
    note l = try_write [OF less.prems(1) ne b w]
    have cont: "torn_write c (unat off) buf c'"
      if "torn_write (content f) (unat ?o) (drop cursor buf) c'" for c'
      using that less.prems(2,4) o torn_write_continue [of c "unat off" cursor buf c']
      by (cases "cursor = 0") auto
    show ?thesis
    proof (cases w)
      case (Inl e)
      then show ?thesis using less.prems(2,6) False w l cont by (subst (asm) write_all_loop.simps) auto
    next
      case (Inr n)
      with l have n: "n \<le> length (drop cursor buf)" "inv f1"
        "content f1 = file_patch (content f) (unat ?o) (take n (drop cursor buf))" by auto
      show ?thesis
      proof (cases "n = 0")
        case True
        have "torn_write c (unat off) buf (content f1)" unfolding n(3) by (rule cont) (rule torn_write_prefix)
        then show ?thesis
          using True Inr n(2) w less.prems(2,6) False by (subst (asm) write_all_loop.simps) auto
      next
        case n0: False
        have "content f1 = file_patch c (unat off) (take (cursor + n) buf)"
          using n less.prems(2,4) o file_patch_join [of c "unat off" "take cursor buf" "take n (drop cursor buf)"]
          by (cases "cursor = 0") (auto simp: take_add min_absorb2)
        moreover have "write_all_loop ops off buf (cursor + n) f1 = (r, f')"
          using n0 Inr n(1) w less.prems(2,6) False by (subst (asm) write_all_loop.simps) auto
        moreover have "length buf - (cursor + n) < length buf - cursor" "cursor + n \<le> length buf"
          using n0 n(1) False less.prems(2) by auto
        ultimately show ?thesis using less.hyps [of "cursor + n" f1] n(2) n0 less.prems(3,5) by auto
      qed
    qed
  qed
qed

lemma try_write_all:
  "inv f \<Longrightarrow> unat off + length buf < 2 ^ 63 \<Longrightarrow> buf \<noteq> [] \<Longrightarrow> write_all_at ops off buf f = (r, f') \<Longrightarrow>
     inv f' \<and> (if r = Inr () then content f' = file_patch (content f) (unat off) buf
               else torn_write (content f) (unat off) buf (content f'))"
  unfolding write_all_at_def by (rule try_write_loop [where cursor = 0]) simp_all

end

sublocale vfs_file < fallible: fallible_file ops inv content
proof (unfold_locales, goal_cases)
  case (1 f)
  then show ?case by (rule content_len)
next
  case (2 f len off bs)
  then show ?case using file_read [of f off len] file_read_end [of f off len]
    by (cases "unat off < length (content f)") auto
next
  case (3 f buf off r f')
  then show ?case using file_write [of f buf off] by auto
next
  case (4 f r' f')
  then show ?case using file_sync [of f] by auto
next
  case (5 f s)
  then show ?case using file_len [of f] by simp
next
  case (6 f n r' f')
  then show ?case using file_set_len [of f n] by auto
qed

lemma faulty_inner_eq: "faulty_inner m f = (fst (m (ff_inner f)), f\<lparr>ff_inner := snd (m (ff_inner f))\<rparr>)"
  by (simp add: faulty_inner_def split: prod.splits)

text \<open>
  What the wrapper may do with an operation: fail without touching the file, or run the inner
  operation, a write possibly with a shorter buffer.
\<close>

lemma faulty_read_cases:
  "fst (faulty_read_at ops me off len f) = Inr bs \<Longrightarrow> \<exists>len' \<le> len. vf_read_at ops off len' (ff_inner f) = Inr bs"
  by (auto simp: faulty_read_at_def Let_def split: if_splits prod.splits FaultDecision.splits) (meson min.cobounded2)

lemma faulty_write_cases:
  assumes "faulty_write_at ops me off buf f = (r, f')"
  shows "(\<exists>e. r = Inl e) \<and> ff_inner f' = ff_inner f \<or>
    (\<exists>n \<le> length buf. vf_write_at ops off (take n buf) (ff_inner f) = (r, ff_inner f'))"
proof -
  have full: "vf_write_at ops off buf (ff_inner f) = (r, ff_inner f') \<Longrightarrow> ?thesis"
    by (intro disjI2 exI [of _ "length buf"]) simp
  have part: "vf_write_at ops off (take (min k (length buf)) buf) (ff_inner f) = (r, ff_inner f') \<Longrightarrow> ?thesis"
    for k by (intro disjI2 exI [of _ "min k (length buf)"]) simp
  show ?thesis
  proof (cases "is_passive_path me (ff_state f)")
    case True
    then show ?thesis using assms by (intro full) (auto simp: faulty_write_at_def faulty_inner_eq)
  next
    case False
    obtain d st where d: "decision me (classify_write (ff_kind f) off buf) (ff_state f) = (d, st)" by fastforce
    show ?thesis
    proof (cases d)
      case (FdPartialWrite hit k)
      then show ?thesis using assms False d
        by (intro part [of k]) (auto simp: faulty_write_at_def faulty_inner_eq Let_def)
    next
      case (FdError hit)
      then show ?thesis using assms False d by (auto simp: faulty_write_at_def Let_def)
    qed (use assms False d in \<open>auto intro!: full simp: faulty_write_at_def faulty_inner_eq Let_def\<close>)
  qed
qed

lemma faulty_sync_cases:
  "faulty_sync_data ops me f = (r, f') \<Longrightarrow>
     ff_inner f' = ff_inner f \<or> vf_sync_data ops (ff_inner f) = (r, ff_inner f')"
  by (auto simp: faulty_sync_data_def Let_def faulty_inner_eq split: if_splits prod.splits FaultDecision.splits)

interpretation faultymem: fallible_file "faulty_file_ops mem_file_ops me" "\<lambda>f. mem_inv (ff_inner f)" ff_inner for me
proof (unfold_locales, goal_cases)
  case (1 f)
  then show ?case by (simp add: mem_inv_def)
next
  case (2 f len off bs)
  then obtain len' where "mem_read_at off len' (ff_inner f) = Inr bs"
    using faulty_read_cases [of mem_file_ops me off len f bs] by (auto simp: faulty_file_ops_def mem_file_ops_def)
  then show ?case by (auto simp: mem_read_at_def Let_def bslice_def split: if_splits)
next
  case (3 f buf off r f')
  then have "faulty_write_at mem_file_ops me off buf f = (r, f')" by (simp add: faulty_file_ops_def)
  from faulty_write_cases [OF this]
  consider e where "r = Inl e" "ff_inner f' = ff_inner f"
    | n where "n \<le> length buf" "r = Inr n" "ff_inner f' = file_patch (ff_inner f) (unat off) (take n buf)"
    by (auto simp: mem_file_ops_def mem_write_patch)
  then show ?case using 3 by cases (auto simp: mem_inv_def)
next
  case (4 f r' f')
  then show ?case using faulty_sync_cases [of mem_file_ops me f r' f']
    by (auto simp: faulty_file_ops_def mem_file_ops_def mem_sync_data_def)
next
  case (5 f s)
  then show ?case by (simp add: faulty_file_ops_def mem_file_ops_def mem_file_size_def)
next
  case (6 f n r' f')
  then show ?case
    by (auto simp: faulty_file_ops_def mem_file_ops_def mem_set_len_def faulty_inner_eq mem_inv_def)
qed

end
