(* ===== verification/WalSidecar.thy ===== *)
theory WalSidecar
  imports WalIndex VfsFaulty
begin

text \<open>
  The spill file of the WAL index, \<open>wal/index_sidecar.rs\<close>: one 32-byte slot per page that can hold
  the place in the log of the page's latest version.  The file is a rebuildable cache; the flag
  \<open>readable\<close> says whether its slots belong to the current log.
\<close>

section \<open>Definitions\<close>

definition WAL_INDEX_SIDECAR_MAGIC :: bytes where
  "WAL_INDEX_SIDECAR_MAGIC = [0x44, 0x44, 0x42, 0x2D, 0x57, 0x49, 0x44, 0x58]"
definition WAL_INDEX_SIDECAR_VERSION :: u16 where "WAL_INDEX_SIDECAR_VERSION = 0"
definition WAL_INDEX_SIDECAR_HEADER_LEN :: u64 where "WAL_INDEX_SIDECAR_HEADER_LEN = 16"
definition WAL_INDEX_SIDECAR_RECORD_LEN :: u64 where "WAL_INDEX_SIDECAR_RECORD_LEN = 32"
definition RECORD_STATE_EMPTY :: u8 where "RECORD_STATE_EMPTY = 0"
definition RECORD_STATE_PRESENT :: u8 where "RECORD_STATE_PRESENT = 1"

record 'x WalIndexSidecar =
  sc_file :: 'x
  sc_entry_count :: nat
  sc_readable :: bool

record SidecarRecord =
  sr_lsn :: u64
  sr_wal_offset :: u64
  sr_frame_len :: u32
  sr_encoding :: FrameEncoding

definition record_offset :: "page_id \<Rightarrow> u64" where
  "record_offset page_id = WAL_INDEX_SIDECAR_HEADER_LEN + (ucast page_id - 1) * WAL_INDEX_SIDECAR_RECORD_LEN"

fun encode_encoding :: "FrameEncoding \<Rightarrow> u8" where
  "encode_encoding EncPage = 1"
| "encode_encoding EncPageDelta = 2"

definition decode_encoding :: "u8 \<Rightarrow> FrameEncoding result" where
  "decode_encoding tag =
     (if tag = 1 then Inr EncPage else if tag = 2 then Inr EncPageDelta
      else Inl (Corruption ''WAL index sidecar has invalid frame encoding tag''))"

definition with_sidecar_file :: "('x \<Rightarrow> 'a result \<times> 'x) \<Rightarrow> ('x WalIndexSidecar, 'a) prog" where
  "with_sidecar_file m sc = (let (r, f) = m (sc_file sc) in Some (r, sc\<lparr>sc_file := f\<rparr>))"

definition invalidate_generation :: "'x WalIndexSidecar \<Rightarrow> 'x WalIndexSidecar" where
  "invalidate_generation sc = sc\<lparr>sc_readable := False, sc_entry_count := 0\<rparr>"

definition sidecar_header :: bytes where
  "sidecar_header =
     (let header = copy_at (replicate 16 0) 0 WAL_INDEX_SIDECAR_MAGIC;
          header = copy_at header 8 (u16_le WAL_INDEX_SIDECAR_VERSION)
      in copy_at header 10 (u16_le (ucast WAL_INDEX_SIDECAR_RECORD_LEN)))"

definition sidecar_clear :: "'x vfs_file_ops \<Rightarrow> ('x WalIndexSidecar, unit) prog" where
  "sidecar_clear ops sc =
     pbind (with_sidecar_file (write_all_at ops 0 sidecar_header)) (\<lambda>_.
     pbind (with_sidecar_file (vf_set_len ops WAL_INDEX_SIDECAR_HEADER_LEN)) (\<lambda>_ sc.
       Some (Inr (), sc\<lparr>sc_readable := True\<rparr>))) (invalidate_generation sc)"

text \<open>\<open>open\<close>, for the file the VFS has opened or created.\<close>

definition sidecar_open :: "'x vfs_file_ops \<Rightarrow> 'x \<Rightarrow> (unit result \<times> 'x WalIndexSidecar) option" where
  "sidecar_open ops file = sidecar_clear ops \<lparr>sc_file = file, sc_entry_count = 0, sc_readable = False\<rparr>"

text \<open>The match of \<open>read_record\<close> on the 32 bytes of a slot.\<close>

definition record_of_slot :: "bytes \<Rightarrow> SidecarRecord option result" where
  "record_of_slot rec =
     (if rec ! 0 = RECORD_STATE_EMPTY then Inr None
      else if rec ! 0 = RECORD_STATE_PRESENT
      then rbind (decode_encoding (rec ! 1)) (\<lambda>encoding.
        Inr (Some \<lparr>sr_lsn = u64_of_le (bslice rec 8 16), sr_wal_offset = u64_of_le (bslice rec 16 24),
          sr_frame_len = u32_of_le (bslice rec 4 8), sr_encoding = encoding\<rparr>))
      else Inl (Corruption ''WAL index sidecar has invalid record state''))"

definition read_record :: "'x vfs_file_ops \<Rightarrow> page_id \<Rightarrow> 'x WalIndexSidecar \<Rightarrow> SidecarRecord option result" where
  "read_record ops page_id sc =
     (if \<not> sc_readable sc then Inr None
      else
        let offset = record_offset page_id
        in rbind (vf_file_size ops (sc_file sc)) (\<lambda>size'.
          if size' < offset + WAL_INDEX_SIDECAR_RECORD_LEN then Inr None
          else rbind (read_exact_at ops offset 32 (sc_file sc)) record_of_slot))"

definition read_latest :: "'x vfs_file_ops \<Rightarrow> page_id \<Rightarrow> 'x WalIndexSidecar \<Rightarrow> WalVersion option result" where
  "read_latest ops page_id sc =
     (if page_id = 0 \<or> \<not> sc_readable sc then Inr None
      else rbind (read_record ops page_id sc) (\<lambda>rec.
        Inr (map_option (\<lambda>r. \<lparr>wv_lsn = sr_lsn r,
               wv_payload = OnDisk (sr_wal_offset r) (sr_frame_len r) (sr_encoding r)\<rparr>) rec)))"

definition sidecar_record :: "WalVersion \<Rightarrow> bytes" where
  "sidecar_record version =
     (case wal_metadata (wv_payload version) of (wal_offset, frame_len, encoding) \<Rightarrow>
        let rec = (replicate 32 0)[1 := encode_encoding encoding];
            rec = copy_at rec 4 (u32_le frame_len);
            rec = copy_at rec 8 (u64_le (wv_lsn version))
        in copy_at rec 16 (u64_le wal_offset))"

definition write_latest_in_current_generation ::
  "'x vfs_file_ops \<Rightarrow> page_id \<Rightarrow> WalVersion \<Rightarrow> ('x WalIndexSidecar, unit) prog"
where
  "write_latest_in_current_generation ops page_id version sc =
     (let offset = record_offset page_id; rec = sidecar_record version
      in pbind (\<lambda>sc. Some (read_record ops page_id sc, sc)) (\<lambda>existed.
         pbind (\<lambda>sc. Some (vf_file_size ops (sc_file sc), sc)) (\<lambda>size'.
         pbind (if size' < offset + WAL_INDEX_SIDECAR_RECORD_LEN
                then with_sidecar_file (vf_set_len ops (offset + WAL_INDEX_SIDECAR_RECORD_LEN))
                else pret ()) (\<lambda>_.
         pbind (with_sidecar_file (write_all_at ops offset [RECORD_STATE_EMPTY])) (\<lambda>_.
         pbind (with_sidecar_file (write_all_at ops (offset + 1) (drop 1 rec))) (\<lambda>_.
         pbind (with_sidecar_file (write_all_at ops offset [RECORD_STATE_PRESENT])) (\<lambda>_ sc.
           Some (Inr (), if existed = None then sc\<lparr>sc_entry_count := sc_entry_count sc + 1\<rparr> else sc))))))) sc)"

definition write_latest :: "'x vfs_file_ops \<Rightarrow> page_id \<Rightarrow> WalVersion \<Rightarrow> ('x WalIndexSidecar, unit) prog" where
  "write_latest ops page_id version sc =
     (if page_id = 0 then Some (Inl (Corruption ''WAL index sidecar cannot store page id 0''), sc)
      else pbind (if \<not> sc_readable sc then sidecar_clear ops else pret ())
             (\<lambda>_. write_latest_in_current_generation ops page_id version) sc)"

definition clear_latest :: "'x vfs_file_ops \<Rightarrow> page_id \<Rightarrow> ('x WalIndexSidecar, unit) prog" where
  "clear_latest ops page_id sc =
     (if page_id = 0 \<or> \<not> sc_readable sc then Some (Inr (), sc)
      else
        let offset = record_offset page_id
        in pbind (\<lambda>sc. Some (vf_file_size ops (sc_file sc), sc)) (\<lambda>size'.
             if size' < offset + WAL_INDEX_SIDECAR_RECORD_LEN then pret ()
             else pbind (\<lambda>sc. Some (read_record ops page_id sc, sc)) (\<lambda>existed.
               if existed = None then pret ()
               else pbind (with_sidecar_file (write_all_at ops offset [RECORD_STATE_EMPTY])) (\<lambda>_ sc.
                 Some (Inr (), sc\<lparr>sc_entry_count := sc_entry_count sc - 1\<rparr>)))) sc)"

fun sidecar_populate_loop ::
  "'x vfs_file_ops \<Rightarrow> u64 \<Rightarrow> page_id list \<Rightarrow> 'x WalIndexSidecar \<Rightarrow>
   (page_id \<times> WalVersion) list \<Rightarrow> unit result \<times> (page_id \<times> WalVersion) list"
where
  "sidecar_populate_loop ops safe_lsn [] sc out = (Inr (), out)"
| "sidecar_populate_loop ops safe_lsn (page_id # ids) sc out =
     (case read_latest ops page_id sc of
        Inl e \<Rightarrow> (Inl e, out)
      | Inr None \<Rightarrow> sidecar_populate_loop ops safe_lsn ids sc out
      | Inr (Some version) \<Rightarrow>
          sidecar_populate_loop ops safe_lsn ids sc
            (if wv_lsn version \<le> safe_lsn then out @ [(page_id, version)] else out))"

definition sidecar_populate ::
  "'x vfs_file_ops \<Rightarrow> u64 \<Rightarrow> 'x WalIndexSidecar \<Rightarrow>
   (page_id \<times> WalVersion) list \<Rightarrow> unit result \<times> (page_id \<times> WalVersion) list"
where
  "sidecar_populate ops safe_lsn sc out =
     (if \<not> sc_readable sc then (Inr (), out)
      else case vf_file_size ops (sc_file sc) of
        Inl e \<Rightarrow> (Inl e, out)
      | Inr file_size \<Rightarrow>
          if file_size \<le> WAL_INDEX_SIDECAR_HEADER_LEN then (Inr (), out)
          else
            let slot_count = (ucast ((file_size - WAL_INDEX_SIDECAR_HEADER_LEN) div WAL_INDEX_SIDECAR_RECORD_LEN) :: u32)
            in sidecar_populate_loop ops safe_lsn (map (\<lambda>i. of_nat (Suc i)) [0..<unat slot_count]) sc out)"

definition sidecar_version_count :: "'x WalIndexSidecar \<Rightarrow> nat" where
  "sidecar_version_count sc = (if sc_readable sc then sc_entry_count sc else 0)"

definition sidecar_version_counts_by_payload :: "'x WalIndexSidecar \<Rightarrow> nat \<times> nat" where
  "sidecar_version_counts_by_payload sc = (0, sidecar_version_count sc)"

datatype WalIndexBackendKind = InMemory | PagedSidecar

definition for_hot_set_pages :: "u32 \<Rightarrow> WalIndexBackendKind" where
  "for_hot_set_pages hot_set_pages = (if hot_set_pages = 0 then InMemory else PagedSidecar)"

definition for_runtime :: "u32 \<Rightarrow> bool \<Rightarrow> WalIndexBackendKind" where
  "for_runtime hot_set_pages process_coordinated =
     (if process_coordinated then InMemory else for_hot_set_pages hot_set_pages)"

lemmas sidecar_consts = WAL_INDEX_SIDECAR_HEADER_LEN_def WAL_INDEX_SIDECAR_RECORD_LEN_def
  RECORD_STATE_EMPTY_def RECORD_STATE_PRESENT_def

section \<open>Slots\<close>

definition slot_off :: "page_id \<Rightarrow> nat" where
  "slot_off p = 16 + (unat p - 1) * 32"

definition slot_record :: "bytes \<Rightarrow> page_id \<Rightarrow> SidecarRecord option result" where
  "slot_record c p =
     (if length c < slot_off p + 32 then Inr None
      else record_of_slot (bslice c (slot_off p) (slot_off p + 32)))"

definition slots_ok :: "bytes \<Rightarrow> bool" where
  "slots_ok c \<longleftrightarrow> 16 \<le> length c \<and> 32 dvd (length c - 16) \<and> (\<forall>p. p \<noteq> 0 \<longrightarrow> (\<exists>r. slot_record c p = Inr r))"

text \<open>The file went from \<open>c\<close> to \<open>c'\<close>, the slot of \<open>p\<close> now reads as one of \<open>R\<close>, and no other slot changed.\<close>

definition slot_update :: "bytes \<Rightarrow> page_id \<Rightarrow> SidecarRecord option set \<Rightarrow> bytes \<Rightarrow> bool" where
  "slot_update c p R c' \<longleftrightarrow> slots_ok c' \<and> (\<forall>q. q \<noteq> 0 \<longrightarrow> q \<noteq> p \<longrightarrow> slot_record c' q = slot_record c q) \<and>
     (\<exists>r \<in> R. slot_record c' p = Inr r)"

lemma slot_off_bound: "slot_off p < 2 ^ 38"
proof -
  have "unat p < 2 ^ 32" using unsigned_less [of p, where ?'a = nat] by simp
  then show ?thesis by (simp add: slot_off_def)
qed

lemma unat_record_offset: "p \<noteq> 0 \<Longrightarrow> unat (record_offset p) = slot_off p"
proof -
  assume p: "p \<noteq> 0"
  then have pos: "0 < unat p" by (simp add: unat_gt_0)
  have lt: "unat p < 2 ^ 32" using unsigned_less [of p, where ?'a = nat] by simp
  have "unat (ucast p - 1 :: u64) = unat p - 1"
    using pos by (subst unat_sub) (auto simp: word_le_nat_alt)
  moreover have u: "unat (16 + x * 32 :: u64) = 16 + unat x * 32" if "unat x < 2 ^ 32" for x
    using that by (simp add: unat_word_ariths)
  ultimately show ?thesis using lt u [of "ucast p - 1"] unfolding record_offset_def sidecar_consts slot_off_def
    by (metis less_imp_diff_less)
qed

lemma unat_record_end: "p \<noteq> 0 \<Longrightarrow> k \<le> 32 \<Longrightarrow> unat (record_offset p + of_nat k) = slot_off p + k"
  using slot_off_bound [of p] by (simp add: unat_word_ariths unat_record_offset unat_of_nat)

lemma slot_apart:
  assumes "p \<noteq> q" "p \<noteq> 0" "q \<noteq> 0"
  shows "slot_off p + 32 \<le> slot_off q \<or> slot_off q + 32 \<le> slot_off p"
proof -
  have "unat p \<noteq> unat q" using assms(1) word_unat_eq_iff [of p q] by blast
  moreover have "0 < unat p" "0 < unat q" using assms(2,3) by (simp_all add: unat_gt_0)
  ultimately show ?thesis by (auto simp: slot_off_def)
qed

lemma record_of_sidecar_record:
  "record_of_slot (1 # drop 1 (sidecar_record v)) =
     (case wal_metadata (wv_payload v) of (o', n, enc) \<Rightarrow>
        Inr (Some \<lparr>sr_lsn = wv_lsn v, sr_wal_offset = o', sr_frame_len = n, sr_encoding = enc\<rparr>))"
proof -
  obtain o' n enc where m: "wal_metadata (wv_payload v) = (o', n, enc)" using prod_cases3 by blast
  let ?h = "[encode_encoding enc, 0, 0]"
  have "(replicate 32 0)[1 := encode_encoding enc] = 0 # ?h @ replicate 28 (0 :: u8)"
    by (simp add: numeral_eq_Suc)
  then have "sidecar_record v = 0 # ?h @ u32_le n @ u64_le (wv_lsn v) @ u64_le o' @ replicate 8 0"
    using m by (simp add: sidecar_record_def copy_at_def Let_def)
  then have "1 # drop 1 (sidecar_record v) =
      1 # ?h @ u32_le n @ u64_le (wv_lsn v) @ u64_le o' @ replicate 8 0" by simp
  moreover have "decode_encoding (encode_encoding enc) = Inr enc"
    by (cases enc) (simp_all add: decode_encoding_def)
  ultimately show ?thesis using m
    by (simp add: record_of_slot_def sidecar_consts bslice_def)
qed

lemma length_sidecar_record [simp]: "length (sidecar_record v) = 32"
  by (simp add: sidecar_record_def Let_def split: prod.splits)

section \<open>What a write to a slot does, torn or whole\<close>

lemma torn_write_outside:
  "torn_write c off b c' \<Longrightarrow> i < length c' \<Longrightarrow> i < off \<or> off + length b \<le> i \<Longrightarrow> c' ! i = byte_at c i"
  by (auto simp: torn_write_def)

lemma torn_write_inside:
  assumes "torn_write c off b c'" "off + length b \<le> length c"
  shows "length c' = length c" and "j \<le> off \<or> off + length b \<le> i \<Longrightarrow> j \<le> length c \<Longrightarrow> bslice c' i j = bslice c i j"
proof -
  show len: "length c' = length c" using assms by (simp add: torn_write_def)
  show "bslice c' i j = bslice c i j" if "j \<le> off \<or> off + length b \<le> i" "j \<le> length c"
  proof (rule nth_equalityI)
    fix k assume "k < length (bslice c' i j)"
    then have "i + k < j" by auto
    then show "bslice c' i j ! k = bslice c i j ! k"
      using that len torn_write_outside [OF assms(1), of "i + k"] by (auto simp: nth_bslice byte_at_def)
  qed (use len in simp)
qed

lemma torn_write_byte:
  assumes "torn_write c off [x] c'" "off < length c"
  shows "c' = c \<or> c' = c[off := x]"
proof -
  have len: "length c' = length c" using torn_write_inside(1) [OF assms(1)] assms(2) by simp
  have o: "c' ! i = c ! i" if "i \<noteq> off" "i < length c" for i
    using assms that len by (auto simp: torn_write_def byte_at_def)
  have "c' ! off = c ! off \<or> c' ! off = x"
    using assms len by (auto simp: torn_write_def byte_at_def)
  then show ?thesis
  proof
    assume "c' ! off = c ! off"
    then have "c' ! i = c ! i" if "i < length c" for i using that o [of i] by (cases "i = off") simp_all
    then have "c' = c" using len by (intro nth_equalityI) simp_all
    then show ?thesis ..
  next
    assume "c' ! off = x"
    then have "c' ! i = c[off := x] ! i" if "i < length c" for i using that o [of i] by (cases "i = off") simp_all
    then have "c' = c[off := x]" using len by (intro nth_equalityI) simp_all
    then show ?thesis ..
  qed
qed

lemma file_patch_byte: "off < length c \<Longrightarrow> file_patch c off [x] = c[off := x]"
  by (rule nth_equalityI) (auto simp: nth_file_patch byte_at_def nth_list_update)

lemma slot_state_empty:
  assumes "slot_off p + 32 \<le> length c" "c ! slot_off p = 0"
  shows "slot_record c p = Inr None"
  using assms by (simp add: slot_record_def record_of_slot_def sidecar_consts nth_bslice)

lemma slot_update_inside:
  assumes "slots_ok c" "p \<noteq> 0" "slot_off p + 32 \<le> length c"
    "torn_write c (slot_off p + k) b c'" "k + length b \<le> 32" "slot_record c' p = Inr r" "r \<in> R"
  shows "slot_update c p R c'"
proof -
  note ins = torn_write_inside [OF assms(4)]
  have len: "length c' = length c" using ins(1) assms(3,5) by simp
  have o: "slot_record c' q = slot_record c q" if "q \<noteq> 0" "q \<noteq> p" for q
    using slot_apart [OF that(2,1) assms(2)] ins(2) [of "slot_off q + 32" "slot_off q"] assms(3,5) len
    by (auto simp: slot_record_def)
  then have "slots_ok c'" using assms(1,6) len unfolding slots_ok_def by metis
  with o assms(6,7) show ?thesis by (auto simp: slot_update_def)
qed

lemma slot_update_trans:
  "slot_update c p R c1 \<Longrightarrow> slot_update c1 p R' c' \<Longrightarrow> slot_update c p R' c'"
  by (auto simp: slot_update_def)

lemma slot_update_mono: "slot_update c p R c' \<Longrightarrow> R \<subseteq> R' \<Longrightarrow> slot_update c p R' c'"
  by (auto simp: slot_update_def)

lemma slot_update_refl: "slots_ok c \<Longrightarrow> slot_record c p = Inr r \<Longrightarrow> slot_update c p {r} c"
  by (auto simp: slot_update_def)

lemma slot_resize:
  assumes ok: "slots_ok c" and p: "p \<noteq> 0" and short: "length c < slot_off p + 32"
  shows "slot_update c p {None} (vec_resize c (slot_off p + 32))"
proof -
  let ?c = "vec_resize c (slot_off p + 32)"
  have same: "slot_record ?c q = slot_record c q" if q: "q \<noteq> 0" for q
  proof (cases "slot_off q + 32 \<le> length c")
    case True
    then have "bslice ?c (slot_off q) (slot_off q + 32) = bslice c (slot_off q) (slot_off q + 32)"
      using short by (simp add: vec_resize_def bslice_append1)
    then show ?thesis using True short by (simp add: slot_record_def)
  next
    case False
    obtain k where k: "length c = 16 + k * 32" using ok by (auto simp: slots_ok_def dvd_def) (metis le_add_diff_inverse mult.commute)
    have q0: "slot_off q = 16 + (unat q - 1) * 32" by (simp add: slot_off_def)
    have "length c \<le> slot_off q" using False k q0 by simp
    then have "slot_off q + 32 \<le> length ?c \<Longrightarrow> ?c ! slot_off q = 0"
      using short by (simp add: vec_resize_def nth_append)
    then show ?thesis using False slot_state_empty [of q ?c] by (auto simp: slot_record_def)
  qed
  have "slots_ok ?c" using ok same by (auto simp: slots_ok_def slot_off_def)
  moreover have "slot_record c p = Inr None" using short by (simp add: slot_record_def)
  ultimately show ?thesis using same p by (auto simp: slot_update_def)
qed

lemma slot_empty:
  assumes "slots_ok c" "p \<noteq> 0" "slot_off p + 32 \<le> length c" "torn_write c (slot_off p) [0] c'"
    "slot_record c p = Inr r"
  shows "slot_update c p {r, None} c'"
proof -
  have "slot_record c' p = Inr r \<or> slot_record c' p = Inr None"
    using torn_write_byte [OF assms(4)] assms(3,5) slot_state_empty [of p c'] by auto
  then show ?thesis using slot_update_inside [of c p 0 "[0]" c' _ "{r, None}"] assms by auto
qed

lemma slot_body:
  assumes "slots_ok c" "p \<noteq> 0" "slot_off p + 32 \<le> length c" "torn_write c (slot_off p + 1) b c'"
    "length b = 31" "c ! slot_off p = 0"
  shows "slot_update c p {None} c'" "c' ! slot_off p = 0"
proof -
  have len: "length c' = length c" using torn_write_inside(1) [OF assms(4)] assms(3,5) by simp
  show z: "c' ! slot_off p = 0" using torn_write_outside [OF assms(4), of "slot_off p"] assms(3,6) len by (simp add: byte_at_def)
  show "slot_update c p {None} c'"
    using slot_update_inside [OF assms(1-4), of None "{None}"] slot_state_empty [of p c'] z assms(3,5) len by auto
qed

lemma slot_publish:
  assumes "slots_ok c" "p \<noteq> 0" "slot_off p + 32 \<le> length c" "torn_write c (slot_off p) [1] c'"
    "c ! slot_off p = 0" "bslice c (slot_off p + 1) (slot_off p + 32) = b" "record_of_slot (1 # b) = Inr r"
  shows "slot_update c p {None, r} c'" "c' = c[slot_off p := 1] \<Longrightarrow> slot_update c p {r} c'"
proof -
  let ?c = "c[slot_off p := 1]"
  have "bslice ?c (slot_off p) (slot_off p + 32) = 1 # b"
    using assms(3) bslice_Suc [of "slot_off p" "slot_off p + 32" ?c] assms(6)
    by (simp add: bslice_def drop_update_cancel)
  then have new: "slot_record ?c p = Inr r" using assms(3,7) by (simp add: slot_record_def)
  show "slot_update c p {r} c'" if "c' = ?c"
    using slot_update_inside [of c p 0 "[1]" c' r "{r}"] assms new that by auto
  have "slot_record c' p = Inr r \<or> slot_record c' p = Inr None"
    using torn_write_byte [OF assms(4)] assms(3,5) new slot_state_empty [of p c] by auto
  then show "slot_update c p {None, r} c'"
    using slot_update_inside [of c p 0 "[1]" c' _ "{None, r}"] assms by auto
qed

section \<open>The sidecar as a map from pages to versions\<close>

definition record_version :: "SidecarRecord \<Rightarrow> WalVersion" where
  "record_version r = \<lparr>wv_lsn = sr_lsn r, wv_payload = OnDisk (sr_wal_offset r) (sr_frame_len r) (sr_encoding r)\<rparr>"

definition sidecar_view :: "('x \<Rightarrow> bytes) \<Rightarrow> 'x WalIndexSidecar \<Rightarrow> page_id \<Rightarrow> WalVersion option" where
  "sidecar_view content sc p =
     (if p = 0 \<or> \<not> sc_readable sc then None
      else case slot_record (content (sc_file sc)) p of
        Inl e \<Rightarrow> None
      | Inr r \<Rightarrow> map_option record_version r)"

definition sidecar_ok :: "('x \<Rightarrow> bool) \<Rightarrow> ('x \<Rightarrow> bytes) \<Rightarrow> 'x WalIndexSidecar \<Rightarrow> bool" where
  "sidecar_ok ok content sc \<longleftrightarrow> ok (sc_file sc) \<and> (sc_readable sc \<longrightarrow> slots_ok (content (sc_file sc)))"

definition version_record :: "WalVersion \<Rightarrow> SidecarRecord" where
  "version_record v =
     (case wal_metadata (wv_payload v) of (o', n, enc) \<Rightarrow>
        \<lparr>sr_lsn = wv_lsn v, sr_wal_offset = o', sr_frame_len = n, sr_encoding = enc\<rparr>)"

definition spilled :: "WalVersion \<Rightarrow> WalVersion" where
  "spilled v =
     (case wal_metadata (wv_payload v) of (o', n, enc) \<Rightarrow> \<lparr>wv_lsn = wv_lsn v, wv_payload = OnDisk o' n enc\<rparr>)"

lemma record_of_new_slot: "record_of_slot (1 # drop 1 (sidecar_record v)) = Inr (Some (version_record v))"
  using record_of_sidecar_record [of v] by (simp add: version_record_def split: prod.splits)

lemma record_version_spilled [simp]: "record_version (version_record v) = spilled v"
  by (simp add: record_version_def version_record_def spilled_def split: prod.splits)

lemma with_sidecar_file_eq:
  "m (sc_file sc) = (r, f) \<Longrightarrow> with_sidecar_file m sc = Some (r, sc\<lparr>sc_file := f\<rparr>)"
  by (simp add: with_sidecar_file_def)

lemma sidecar_header_slots [simp]: "length sidecar_header = 16"
  by (simp add: sidecar_header_def WAL_INDEX_SIDECAR_MAGIC_def Let_def)

lemma slots_ok_empty: "length c = 16 \<Longrightarrow> slots_ok c" "length c = 16 \<Longrightarrow> slot_record c p = Inr None"
  by (simp_all add: slots_ok_def slot_record_def)

lemma view_of_slots:
  "p \<noteq> 0 \<Longrightarrow> sc_readable sc \<Longrightarrow> slot_record (content (sc_file sc)) p = Inr r \<Longrightarrow>
     sidecar_view content sc p = map_option record_version r"
  by (simp add: sidecar_view_def)

lemma slot_update_view:
  assumes "slot_update (content (sc_file sc)) p R (content (sc_file sc'))" "p \<noteq> 0"
    "sc_readable sc" "sc_readable sc'" "ok (sc_file sc')"
  shows "sidecar_ok ok content sc'" "sidecar_view content sc' p \<in> map_option record_version ` R"
    "q \<noteq> p \<Longrightarrow> sidecar_view content sc' q = sidecar_view content sc q"
  using assms by (auto simp: slot_update_def sidecar_ok_def sidecar_view_def)

context fallible_file
begin

lemma unat_try_size: "inv f \<Longrightarrow> vf_file_size ops f = Inr s \<Longrightarrow> unat s = length (content f)"
  using try_size [of f s] content_bound [of f] by (simp add: unat_of_nat)

lemma try_read_record:
  assumes "inv (sc_file sc)" "sc_readable sc" "p \<noteq> 0" "read_record ops p sc = Inr r"
  shows "slot_record (content (sc_file sc)) p = Inr r"
proof -
  obtain s where s: "vf_file_size ops (sc_file sc) = Inr s"
    "(if s < record_offset p + WAL_INDEX_SIDECAR_RECORD_LEN then Inr None
      else rbind (read_exact_at ops (record_offset p) 32 (sc_file sc)) record_of_slot) = Inr r"
    using assms(2,4) by (auto simp: read_record_def Let_def rbind_eq_Inr)
  have sz: "s < record_offset p + WAL_INDEX_SIDECAR_RECORD_LEN \<longleftrightarrow> length (content (sc_file sc)) < slot_off p + 32"
    using unat_try_size [OF assms(1) s(1)] unat_record_end [OF assms(3), of 32]
    by (simp add: word_less_nat_alt sidecar_consts)
  show ?thesis
  proof (cases "length (content (sc_file sc)) < slot_off p + 32")
    case True
    then show ?thesis using s(2) sz by (simp add: slot_record_def)
  next
    case False
    then obtain bs where bs: "read_exact_at ops (record_offset p) 32 (sc_file sc) = Inr bs" "record_of_slot bs = Inr r"
      using s(2) sz by (auto simp: rbind_eq_Inr)
    have "unat (record_offset p) + 32 < 2 ^ 63"
      using unat_record_offset [OF assms(3)] slot_off_bound [of p] by simp
    from try_read_exact [OF assms(1) this bs(1)] show ?thesis
      using False bs(2) unat_record_offset [OF assms(3)] by (simp add: slot_record_def)
  qed
qed

lemma try_grow:
  assumes "inv (sc_file sc)" "slots_ok (content (sc_file sc))" "p \<noteq> 0"
    "slot_record (content (sc_file sc)) p = Inr r0" "vf_file_size ops (sc_file sc) = Inr s"
    "(if s < record_offset p + WAL_INDEX_SIDECAR_RECORD_LEN
      then with_sidecar_file (vf_set_len ops (record_offset p + WAL_INDEX_SIDECAR_RECORD_LEN)) else pret ()) sc
       = Some (r, sc')"
  shows "\<exists>f. sc' = sc\<lparr>sc_file := f\<rparr> \<and> inv f \<and> slot_update (content (sc_file sc)) p {r0} (content f) \<and>
    (r = Inr () \<longrightarrow> slot_off p + 32 \<le> length (content f))"
proof -
  have e: "unat (record_offset p + WAL_INDEX_SIDECAR_RECORD_LEN) = slot_off p + 32"
    using unat_record_end [OF assms(3), of 32] by (simp add: sidecar_consts)
  have sz: "s < record_offset p + WAL_INDEX_SIDECAR_RECORD_LEN \<longleftrightarrow> length (content (sc_file sc)) < slot_off p + 32"
    using unat_try_size [OF assms(1,5)] e by (simp add: word_less_nat_alt)
  show ?thesis
  proof (cases "length (content (sc_file sc)) < slot_off p + 32")
    case False
    then show ?thesis using assms(1,2,4,6) sz slot_update_refl by (intro exI [of _ "sc_file sc"]) auto
  next
    case True
    obtain f where f: "vf_set_len ops (record_offset p + WAL_INDEX_SIDECAR_RECORD_LEN) (sc_file sc) = (r, f)"
      "sc' = sc\<lparr>sc_file := f\<rparr>"
      using assms(6) sz True by (auto simp: with_sidecar_file_def Let_def split: prod.splits)
    have "inv f \<and> (content f = vec_resize (content (sc_file sc)) (slot_off p + 32) \<or>
        r \<noteq> Inr () \<and> content f = content (sc_file sc))"
      using try_set_len [OF assms(1) _ f(1)] e slot_off_bound [of p] by simp
    moreover have "r0 = None" using True assms(4) by (simp add: slot_record_def)
    ultimately show ?thesis using slot_resize [OF assms(2,3) True] slot_update_refl [OF assms(2,4)] f(2)
      by (intro exI [of _ f]) auto
  qed
qed

lemma try_publish:
  assumes f: "inv (sc_file sc)" and ok: "slots_ok (content (sc_file sc))" and p: "p \<noteq> 0"
    and room: "slot_off p + 32 \<le> length (content (sc_file sc))"
    and r0: "slot_record (content (sc_file sc)) p = Inr r0"
    and g: "\<And>sc. sc_file (g sc) = sc_file sc" "\<And>sc. sc_readable (g sc) = sc_readable sc"
    and run: "pbind (with_sidecar_file (write_all_at ops (record_offset p) [RECORD_STATE_EMPTY])) (\<lambda>_.
      pbind (with_sidecar_file (write_all_at ops (record_offset p + 1) (drop 1 (sidecar_record v)))) (\<lambda>_.
      pbind (with_sidecar_file (write_all_at ops (record_offset p) [RECORD_STATE_PRESENT]))
        (\<lambda>_ sc. Some (Inr (), g sc)))) sc = Some (res, sc')"
  shows "inv (sc_file sc') \<and> sc_readable sc' = sc_readable sc \<and>
    slot_update (content (sc_file sc)) p {r0, None, Some (version_record v)} (content (sc_file sc')) \<and>
    (res = Inr () \<longrightarrow> slot_update (content (sc_file sc)) p {Some (version_record v)} (content (sc_file sc')))"
proof -
  let ?c = "content (sc_file sc)" and ?o = "slot_off p" and ?new = "Some (version_record v)"
  let ?b = "drop 1 (sidecar_record v)"
  note off = unat_record_offset [OF p] unat_record_end [OF p, of 1, simplified] and bound = slot_off_bound [of p]
  obtain r1 f1 where w1: "write_all_at ops (record_offset p) [RECORD_STATE_EMPTY] (sc_file sc) = (r1, f1)" by fastforce
  have i1: "inv f1" and t1: "torn_write ?c ?o [0] (content f1)"
    and c1: "r1 = Inr () \<Longrightarrow> content f1 = ?c[?o := 0]"
    using try_write_all [OF f _ _ w1] off bound room torn_write_prefix [of ?c ?o "[0]" 1]
    by (auto simp: sidecar_consts file_patch_byte split: if_splits)
  note u1 = slot_empty [OF ok p room t1 r0]
  show ?thesis
  proof (cases r1)
    case (Inl e)
    then have "sc' = sc\<lparr>sc_file := f1\<rparr>" "res = Inl e" using run w1 by (simp_all add: with_sidecar_file_eq)
    then show ?thesis using i1 slot_update_mono [OF u1] by auto
  next
    case (Inr u)
    have c1: "content f1 = ?c[?o := 0]" using c1 Inr by simp
    have ok1: "slots_ok (content f1)" using u1 by (simp add: slot_update_def)
    have room1: "?o + 32 \<le> length (content f1)" using c1 room by simp
    obtain r2 f2 where w2: "write_all_at ops (record_offset p + 1) ?b f1 = (r2, f2)" by fastforce
    have i2: "inv f2" and t2: "torn_write (content f1) (?o + 1) ?b (content f2)"
      and c2: "r2 = Inr () \<Longrightarrow> content f2 = file_patch (content f1) (?o + 1) ?b"
      using try_write_all [OF i1 _ _ w2] off bound torn_write_prefix [of "content f1" "?o + 1" ?b 31]
      by (auto split: if_splits)
    have z1: "content f1 ! ?o = 0" using c1 room by simp
    note u2 = slot_body [OF ok1 p room1 t2 _ z1, simplified]
    show ?thesis
    proof (cases r2)
      case (Inl e)
      then have "sc' = sc\<lparr>sc_file := f2\<rparr>" "res = Inl e"
        using run w1 w2 \<open>r1 = Inr u\<close> by (simp_all add: with_sidecar_file_eq)
      then show ?thesis using i2 slot_update_mono [OF slot_update_trans [OF u1 u2(1)]] by auto
    next
      case (Inr u')
      have c2: "content f2 = file_patch (content f1) (?o + 1) ?b" using c2 Inr by simp
      have room2: "?o + 32 \<le> length (content f2)" using c2 room1 by simp
      have ok2: "slots_ok (content f2)" using u2(1) by (simp add: slot_update_def)
      have "?o + 1 + length ?b = ?o + 32" by simp
      then have b2: "bslice (content f2) (?o + 1) (?o + 32) = ?b"
        using bslice_file_patch [of "content f1" "?o + 1" ?b] c2 by (simp only:)
      obtain r3 f3 where w3: "write_all_at ops (record_offset p) [RECORD_STATE_PRESENT] f2 = (r3, f3)" by fastforce
      have i3: "inv f3" and t3: "torn_write (content f2) ?o [1] (content f3)"
        and c3: "r3 = Inr () \<Longrightarrow> content f3 = (content f2)[?o := 1]"
        using try_write_all [OF i2 _ _ w3] off bound room2 torn_write_prefix [of "content f2" ?o "[1]" 1]
        by (auto simp: sidecar_consts file_patch_byte split: if_splits)
      note u3 = slot_publish [OF ok2 p room2 t3 u2(2) b2 record_of_new_slot]
      note u02 = slot_update_trans [OF u1 u2(1)]
      have "sc_file sc' = f3" "sc_readable sc' = sc_readable sc" "res = r3"
        using run w1 w2 w3 \<open>r1 = Inr u\<close> \<open>r2 = Inr u'\<close> g by (cases r3; auto simp: with_sidecar_file_eq)+
      then show ?thesis
        using i3 slot_update_mono [OF slot_update_trans [OF u02 u3(1)]] slot_update_trans [OF u02 u3(2) [OF c3]]
        by auto
    qed
  qed
qed

lemma try_write_current:
  assumes f: "inv (sc_file sc)" and ok: "slots_ok (content (sc_file sc))" and p: "p \<noteq> 0" and rd: "sc_readable sc"
    and run: "write_latest_in_current_generation ops p v sc = Some (res, sc')"
  shows "inv (sc_file sc') \<and> sc_readable sc' \<and>
    (\<exists>r0. slot_record (content (sc_file sc)) p = Inr r0 \<and>
      slot_update (content (sc_file sc)) p {r0, None, Some (version_record v)} (content (sc_file sc'))) \<and>
    (res = Inr () \<longrightarrow> slot_update (content (sc_file sc)) p {Some (version_record v)} (content (sc_file sc')))"
proof -
  let ?c = "content (sc_file sc)"
  obtain r0 where r0: "slot_record ?c p = Inr r0" using ok p by (auto simp: slots_ok_def)
  note same = slot_update_mono [OF slot_update_refl [OF ok r0], of "{r0, None, Some (version_record v)}"]
  show ?thesis
  proof (cases "(\<exists>e. read_record ops p sc = Inl e) \<or> (\<exists>e. vf_file_size ops (sc_file sc) = Inl e)")
    case True
    then have "sc' = sc" "res \<noteq> Inr ()"
      using run by (cases "read_record ops p sc"; auto simp: write_latest_in_current_generation_def Let_def)+
    then show ?thesis using f rd r0 same by auto
  next
    case False
    then obtain ex s where ex: "read_record ops p sc = Inr ex" and s: "vf_file_size ops (sc_file sc) = Inr s"
      by (metis sum.exhaust)
    let ?grow = "if s < record_offset p + WAL_INDEX_SIDECAR_RECORD_LEN
      then with_sidecar_file (vf_set_len ops (record_offset p + WAL_INDEX_SIDECAR_RECORD_LEN)) else pret ()"
    have "?grow sc \<noteq> None" by (simp add: with_sidecar_file_def Let_def split: prod.splits)
    then obtain r1 sc1 where g1: "?grow sc = Some (r1, sc1)" by fastforce
    from try_grow [OF f ok p r0 s g1] obtain f1 where f1: "sc1 = sc\<lparr>sc_file := f1\<rparr>" "inv f1"
      "slot_update ?c p {r0} (content f1)" "r1 = Inr () \<Longrightarrow> slot_off p + 32 \<le> length (content f1)" by blast
    show ?thesis
    proof (cases r1)
      case (Inl e)
      then have "sc' = sc1" "res = Inl e"
        using run ex s g1 by (simp_all add: write_latest_in_current_generation_def Let_def del: if_split)
      then show ?thesis using f1 rd r0 slot_update_mono [OF f1(3)] by auto
    next
      case (Inr u)
      have ok1: "slots_ok (content (sc_file sc1))" and r1: "slot_record (content (sc_file sc1)) p = Inr r0"
        using f1 by (auto simp: slot_update_def)
      let ?fin = "\<lambda>sc. if ex = None then sc\<lparr>sc_entry_count := sc_entry_count sc + 1\<rparr> else sc"
      have run1: "pbind (with_sidecar_file (write_all_at ops (record_offset p) [RECORD_STATE_EMPTY])) (\<lambda>_.
          pbind (with_sidecar_file (write_all_at ops (record_offset p + 1) (drop 1 (sidecar_record v)))) (\<lambda>_.
          pbind (with_sidecar_file (write_all_at ops (record_offset p) [RECORD_STATE_PRESENT]))
            (\<lambda>_ sc. Some (Inr (), ?fin sc)))) sc1 = Some (res, sc')"
        using run ex s g1 Inr by (simp add: write_latest_in_current_generation_def Let_def del: if_split)
      have "inv (sc_file sc') \<and> sc_readable sc' = sc_readable sc1 \<and>
          slot_update (content f1) p {r0, None, Some (version_record v)} (content (sc_file sc')) \<and>
          (res = Inr () \<longrightarrow> slot_update (content f1) p {Some (version_record v)} (content (sc_file sc')))"
        using try_publish [of sc1 p r0 ?fin v res sc', OF _ ok1 p _ r1 _ _ run1] f1 Inr by simp
      then show ?thesis using f1(1) rd r0 slot_update_trans [OF f1(3)] by auto
    qed
  qed
qed

lemma try_read_latest:
  "inv (sc_file sc) \<Longrightarrow> read_latest ops p sc = Inr w \<Longrightarrow> w = sidecar_view content sc p"
  using try_read_record [of sc p] view_of_slots [of p sc content]
  by (auto simp: read_latest_def record_version_def [abs_def] rbind_eq_Inr sidecar_view_def split: if_splits)

lemma try_clear:
  assumes "inv (sc_file sc)" "sidecar_clear ops sc = Some (r, sc')"
  shows "inv (sc_file sc')" "sc_readable sc' \<longleftrightarrow> r = Inr ()"
    "sc_readable sc' \<Longrightarrow> length (content (sc_file sc')) = 16" "r = Inr () \<Longrightarrow> sc_entry_count sc' = 0"
proof -
  let ?sc = "invalidate_generation sc"
  obtain r1 f1 where w: "write_all_at ops 0 sidecar_header (sc_file sc) = (r1, f1)" by fastforce
  have i1: "inv f1" using try_write_all [OF assms(1) _ _ w] by (simp add: length_greater_0_conv [symmetric] del: length_greater_0_conv)
  obtain r2 f2 where l: "vf_set_len ops WAL_INDEX_SIDECAR_HEADER_LEN f1 = (r2, f2)" by fastforce
  have i2: "inv f2" and c2: "r2 = Inr () \<Longrightarrow> length (content f2) = 16"
    using try_set_len [OF i1 _ l] by (auto simp: sidecar_consts)
  have "sc' = (case r1 of Inl e \<Rightarrow> ?sc\<lparr>sc_file := f1\<rparr>
      | Inr _ \<Rightarrow> (case r2 of Inl e \<Rightarrow> ?sc\<lparr>sc_file := f2\<rparr> | Inr _ \<Rightarrow> ?sc\<lparr>sc_file := f2, sc_readable := True\<rparr>))"
    "r = (case r1 of Inl e \<Rightarrow> Inl e | Inr _ \<Rightarrow> r2)"
    using assms(2) w l
    by (cases r1; cases r2; auto simp: sidecar_clear_def invalidate_generation_def with_sidecar_file_def)+
  then show "inv (sc_file sc')" "sc_readable sc' \<longleftrightarrow> r = Inr ()"
    "sc_readable sc' \<Longrightarrow> length (content (sc_file sc')) = 16" "r = Inr () \<Longrightarrow> sc_entry_count sc' = 0"
    using i1 i2 c2 by (auto simp: invalidate_generation_def split: sum.splits)
qed

lemma try_clear_view:
  assumes "inv (sc_file sc)" "sidecar_clear ops sc = Some (r, sc')"
  shows "sidecar_ok inv content sc'" "sidecar_view content sc' q = None"
  using try_clear [OF assms] slots_ok_empty [of "content (sc_file sc')"] by (auto simp: sidecar_ok_def sidecar_view_def)

lemma try_write_latest:
  assumes ok: "sidecar_ok inv content sc" and p: "p \<noteq> 0" and run: "write_latest ops p v sc = Some (res, sc')"
  shows "sidecar_ok inv content sc'" "q \<noteq> p \<Longrightarrow> sidecar_view content sc' q = sidecar_view content sc q"
    "sidecar_view content sc' p \<in> {sidecar_view content sc p, None, Some (spilled v)}"
    "res = Inr () \<Longrightarrow> sidecar_view content sc' p = Some (spilled v)"
proof -
  have f: "inv (sc_file sc)" using ok by (simp add: sidecar_ok_def)
  have main: "sidecar_ok inv content sc' \<and> (\<forall>q. q \<noteq> p \<longrightarrow> sidecar_view content sc' q = sidecar_view content sc1 q) \<and>
      sidecar_view content sc' p \<in> {sidecar_view content sc1 p, None, Some (spilled v)} \<and>
      (res = Inr () \<longrightarrow> sidecar_view content sc' p = Some (spilled v))"
    if 1: "inv (sc_file sc1)" "slots_ok (content (sc_file sc1))" "sc_readable sc1"
      "write_latest_in_current_generation ops p v sc1 = Some (res, sc')" for sc1
  proof -
    obtain r0 where a: "inv (sc_file sc')" "sc_readable sc'" "slot_record (content (sc_file sc1)) p = Inr r0"
      "slot_update (content (sc_file sc1)) p {r0, None, Some (version_record v)} (content (sc_file sc'))"
      "res = Inr () \<Longrightarrow> slot_update (content (sc_file sc1)) p {Some (version_record v)} (content (sc_file sc'))"
      using try_write_current [OF 1(1,2) p 1(3,4)] by blast
    note u = slot_update_view [OF a(4) p 1(3) a(2), of inv, OF a(1)]
    have "sidecar_view content sc1 p = map_option record_version r0" using view_of_slots [of p sc1 content r0] p 1(3) a(3) by simp
    then show ?thesis
      using u slot_update_view(2) [OF a(5) p 1(3) a(2), of inv, OF _ a(1)] by auto
  qed
  have all: "sidecar_ok inv content sc' \<and> (\<forall>q. q \<noteq> p \<longrightarrow> sidecar_view content sc' q = sidecar_view content sc q) \<and>
      sidecar_view content sc' p \<in> {sidecar_view content sc p, None, Some (spilled v)} \<and>
      (res = Inr () \<longrightarrow> sidecar_view content sc' p = Some (spilled v))"
  proof (cases "sc_readable sc")
    case True
    then show ?thesis using main [of sc] run ok p by (auto simp: write_latest_def sidecar_ok_def)
  next
    case False
    then have old: "sidecar_view content sc q = None" for q by (simp add: sidecar_view_def)
    obtain r1 sc1 where c: "sidecar_clear ops sc = Some (r1, sc1)"
      using run p False by (cases "sidecar_clear ops sc") (auto simp: write_latest_def)
    note cl = try_clear [OF f c] try_clear_view [OF f c]
    show ?thesis
    proof (cases r1)
      case (Inl e)
      then show ?thesis using run p False c cl(5,6) old by (auto simp: write_latest_def)
    next
      case (Inr u)
      then have "sc_readable sc1" "slots_ok (content (sc_file sc1))" using cl(2,5) by (auto simp: sidecar_ok_def)
      then show ?thesis using main [of sc1] run p False c Inr cl(1,6) old by (simp add: write_latest_def)
    qed
  qed
  then show "sidecar_ok inv content sc'" "q \<noteq> p \<Longrightarrow> sidecar_view content sc' q = sidecar_view content sc q"
    "sidecar_view content sc' p \<in> {sidecar_view content sc p, None, Some (spilled v)}"
    "res = Inr () \<Longrightarrow> sidecar_view content sc' p = Some (spilled v)" by blast+
qed

lemma try_clear_latest:
  assumes ok: "sidecar_ok inv content sc" and run: "clear_latest ops p sc = Some (res, sc')"
  shows "sidecar_ok inv content sc'" "q \<noteq> p \<Longrightarrow> sidecar_view content sc' q = sidecar_view content sc q"
    "sidecar_view content sc' p \<in> {sidecar_view content sc p, None}"
    "res = Inr () \<Longrightarrow> sidecar_view content sc' p = None"
proof -
  have f: "inv (sc_file sc)" using ok by (simp add: sidecar_ok_def)
  have "sidecar_ok inv content sc' \<and> (\<forall>q. q \<noteq> p \<longrightarrow> sidecar_view content sc' q = sidecar_view content sc q) \<and>
    sidecar_view content sc' p \<in> {sidecar_view content sc p, None} \<and> (res = Inr () \<longrightarrow> sidecar_view content sc' p = None)"
  proof (cases "p = 0 \<or> \<not> sc_readable sc")
    case True
    then show ?thesis using run ok by (auto simp: clear_latest_def sidecar_view_def)
  next
    case False
    then have p: "p \<noteq> 0" and rd: "sc_readable sc" and sl: "slots_ok (content (sc_file sc))"
      using ok by (auto simp: sidecar_ok_def)
    obtain r0 where r0: "slot_record (content (sc_file sc)) p = Inr r0" using sl p by (auto simp: slots_ok_def)
    have keep: ?thesis if "sc' = sc" "res = Inr () \<Longrightarrow> r0 = None"
      using that ok view_of_slots [of p sc content r0] p rd r0 by auto
    show ?thesis
    proof (cases "vf_file_size ops (sc_file sc)")
      case (Inl e)
      then show ?thesis using run p rd by (intro keep) (auto simp: clear_latest_def Let_def)
    next
      case (Inr s)
      have sz: "s < record_offset p + WAL_INDEX_SIDECAR_RECORD_LEN \<longleftrightarrow> length (content (sc_file sc)) < slot_off p + 32"
        using unat_try_size [OF f Inr] unat_record_end [OF p, of 32] by (simp add: word_less_nat_alt sidecar_consts)
      consider "length (content (sc_file sc)) < slot_off p + 32" 
        | e where "slot_off p + 32 \<le> length (content (sc_file sc))" "read_record ops p sc = Inl e"
        | "slot_off p + 32 \<le> length (content (sc_file sc))" "read_record ops p sc = Inr r0"
        using try_read_record [OF f rd p] r0 by (cases "read_record ops p sc") force+
      then show ?thesis
      proof cases
        case 1
        then show ?thesis using run p rd Inr sz r0 by (intro keep) (auto simp: clear_latest_def Let_def slot_record_def)
      next
        case 2
        then show ?thesis using run p rd Inr sz by (intro keep) (auto simp: clear_latest_def Let_def)
      next
        case 3
        show ?thesis
        proof (cases r0)
          case None
          then show ?thesis using run p rd Inr 3 sz by (intro keep) (auto simp: clear_latest_def Let_def)
        next
          case (Some r')
          obtain r1 f1 where w: "write_all_at ops (record_offset p) [RECORD_STATE_EMPTY] (sc_file sc) = (r1, f1)" by fastforce
          have i1: "inv f1" and t1: "torn_write (content (sc_file sc)) (slot_off p) [0] (content f1)"
            and c1: "r1 = Inr () \<Longrightarrow> content f1 = (content (sc_file sc))[slot_off p := 0]"
            using try_write_all [OF f _ _ w] unat_record_offset [OF p] slot_off_bound [of p] 3(1)
              torn_write_prefix [of "content (sc_file sc)" "slot_off p" "[0]" 1]
            by (auto simp: sidecar_consts file_patch_byte split: if_splits)
          have sc': "sc_file sc' = f1" "sc_readable sc'" "res = r1"
            using run p rd Inr 3 sz Some w by (cases r1; auto simp: clear_latest_def Let_def with_sidecar_file_eq)+
          have "res = Inr () \<Longrightarrow> slot_record (content (sc_file sc')) p = Inr None"
            using slot_state_empty [of p "content f1"] c1 sc' 3(1) by simp
          then have "res = Inr () \<Longrightarrow> sidecar_view content sc' p = None"
            using view_of_slots [of p sc' content None] p sc'(2) by simp
          moreover have "slot_update (content (sc_file sc)) p {r0, None} (content (sc_file sc'))"
            using slot_empty [OF sl p 3(1) t1 r0] sc' by simp
          ultimately show ?thesis
            using slot_update_view [of content sc p "{r0, None}" sc' inv] p rd sc' i1
              view_of_slots [of p sc content r0] r0 by auto
        qed
      qed
    qed
  qed
  then show "sidecar_ok inv content sc'" "q \<noteq> p \<Longrightarrow> sidecar_view content sc' q = sidecar_view content sc q"
    "sidecar_view content sc' p \<in> {sidecar_view content sc p, None}"
    "res = Inr () \<Longrightarrow> sidecar_view content sc' p = None" by blast+
qed

end

context vfs_file
begin

lemma read_record_ok:
  assumes "inv (sc_file sc)" "p \<noteq> 0"
  shows "read_record ops p sc = (if sc_readable sc then slot_record (content (sc_file sc)) p else Inr None)"
proof -
  let ?c = "content (sc_file sc)"
  have s: "unat (of_nat (length ?c) :: u64) = length ?c"
    using content_len [OF assms(1)] by (simp add: unat_of_nat)
  have "of_nat (length ?c) < record_offset p + WAL_INDEX_SIDECAR_RECORD_LEN \<longleftrightarrow> length ?c < slot_off p + 32"
    using s unat_record_end [OF assms(2), of 32] by (simp add: word_less_nat_alt sidecar_consts)
  then show ?thesis
    using file_len [OF assms(1)] read_exact_ok [OF assms(1), of "record_offset p" 32] unat_record_offset [OF assms(2)]
    by (simp add: read_record_def Let_def slot_record_def)
qed

lemma read_latest_ok:
  assumes "sidecar_ok inv content sc"
  shows "read_latest ops p sc = Inr (sidecar_view content sc p)"
proof (cases "p = 0 \<or> \<not> sc_readable sc")
  case True
  then show ?thesis by (auto simp: read_latest_def sidecar_view_def)
next
  case False
  then obtain r where "slot_record (content (sc_file sc)) p = Inr r"
    using assms by (auto simp: sidecar_ok_def slots_ok_def)
  then show ?thesis using False assms read_record_ok [of sc p]
    by (simp add: read_latest_def sidecar_view_def sidecar_ok_def record_version_def [abs_def])
qed

lemma sidecar_clear_ok:
  assumes "inv (sc_file sc)"
  shows "\<exists>sc'. sidecar_clear ops sc = Some (Inr (), sc')"
proof -
  obtain f1 where w: "write_all_at ops 0 sidecar_header (sc_file sc) = (Inr (), f1)" "inv f1"
    using write_all_ok [OF assms, of 0 sidecar_header]
    by (auto simp: length_greater_0_conv [symmetric] simp del: length_greater_0_conv)
  obtain f2 where "vf_set_len ops WAL_INDEX_SIDECAR_HEADER_LEN f1 = (Inr (), f2)"
    using file_set_len [OF w(2), of WAL_INDEX_SIDECAR_HEADER_LEN] by (auto simp: sidecar_consts)
  then show ?thesis using w(1) by (simp add: sidecar_clear_def invalidate_generation_def with_sidecar_file_def)
qed

lemma write_file_ok:
  assumes "inv (sc_file sc)" "p \<noteq> 0" "k + length b \<le> 32" "b \<noteq> []" "o' = record_offset p + of_nat k"
  shows "\<exists>f. with_sidecar_file (write_all_at ops o' b) sc = Some (Inr (), sc\<lparr>sc_file := f\<rparr>) \<and> inv f"
proof -
  have "unat o' = slot_off p + k" unfolding assms(5) using assms(2,3) by (intro unat_record_end) auto
  then show ?thesis using write_all_ok [OF assms(1), of o' b] slot_off_bound [of p] assms(3,4)
    by (auto simp: with_sidecar_file_def)
qed

lemma write_latest_returns:
  assumes ok: "sidecar_ok inv content sc" and p: "p \<noteq> 0"
  shows "\<exists>sc'. write_latest ops p v sc = Some (Inr (), sc')"
proof -
  have cur: "\<exists>sc'. write_latest_in_current_generation ops p v sc1 = Some (Inr (), sc')"
    if 1: "inv (sc_file sc1)" "slots_ok (content (sc_file sc1))" for sc1
  proof -
    obtain ex where ex: "read_record ops p sc1 = Inr ex"
      using read_record_ok [OF 1(1) p] 1(2) p by (cases "sc_readable sc1") (auto simp: slots_ok_def)
    let ?n = "record_offset p + WAL_INDEX_SIDECAR_RECORD_LEN"
    have n: "unat ?n < 2 ^ 63"
      using unat_record_end [OF p, of 32] slot_off_bound [of p] by (simp add: sidecar_consts)
    obtain f2 where g: "(if of_nat (length (content (sc_file sc1))) < ?n
        then with_sidecar_file (vf_set_len ops ?n) else pret ()) sc1 = Some (Inr (), sc1\<lparr>sc_file := f2\<rparr>)" "inv f2"
    proof (cases "of_nat (length (content (sc_file sc1))) < ?n")
      case True
      then show ?thesis using that file_set_len [OF 1(1) n] by (auto simp: with_sidecar_file_def)
    next
      case False
      then show ?thesis using that [of "sc_file sc1"] 1(1) by simp
    qed
    obtain f3 where w1: "with_sidecar_file (write_all_at ops (record_offset p) [RECORD_STATE_EMPTY]) (sc1\<lparr>sc_file := f2\<rparr>)
        = Some (Inr (), sc1\<lparr>sc_file := f3\<rparr>)" "inv f3"
      using write_file_ok [of "sc1\<lparr>sc_file := f2\<rparr>" p 0 "[RECORD_STATE_EMPTY]" "record_offset p"] g(2) p by auto
    obtain f4 where w2: "with_sidecar_file (write_all_at ops (record_offset p + 1) (drop 1 (sidecar_record v))) (sc1\<lparr>sc_file := f3\<rparr>)
        = Some (Inr (), sc1\<lparr>sc_file := f4\<rparr>)" "inv f4"
      using write_file_ok [of "sc1\<lparr>sc_file := f3\<rparr>" p 1 "drop 1 (sidecar_record v)" "record_offset p + 1"] w1(2) p by auto
    obtain f5 where w3: "with_sidecar_file (write_all_at ops (record_offset p) [RECORD_STATE_PRESENT]) (sc1\<lparr>sc_file := f4\<rparr>)
        = Some (Inr (), sc1\<lparr>sc_file := f5\<rparr>)" "inv f5"
      using write_file_ok [of "sc1\<lparr>sc_file := f4\<rparr>" p 0 "[RECORD_STATE_PRESENT]" "record_offset p"] w2(2) p by auto
    show ?thesis using ex file_len [OF 1(1)] g w1 w2 w3
      by (simp add: write_latest_in_current_generation_def Let_def del: if_split)
  qed
  show ?thesis
  proof (cases "sc_readable sc")
    case True
    then show ?thesis using cur [of sc] ok p by (simp add: write_latest_def sidecar_ok_def)
  next
    case False
    have f: "inv (sc_file sc)" using ok by (simp add: sidecar_ok_def)
    obtain sc1 where c: "sidecar_clear ops sc = Some (Inr (), sc1)" using sidecar_clear_ok [OF f] by blast
    have "inv (sc_file sc1)" "slots_ok (content (sc_file sc1))"
      using fallible.try_clear [OF f c] slots_ok_empty by auto
    from cur [OF this] show ?thesis using c p False by (simp add: write_latest_def)
  qed
qed

end

lemma pbind_total: "m s \<noteq> None \<Longrightarrow> (\<And>x s'. f x s' \<noteq> None) \<Longrightarrow> pbind m f s \<noteq> None"
  by (auto simp: pbind_def split: sum.splits)

lemma with_sidecar_file_total: "with_sidecar_file m sc \<noteq> None"
  by (simp add: with_sidecar_file_def split: prod.splits)

lemma write_latest_total: "\<exists>res sc'. write_latest ops p v sc = Some (res, sc')"
proof -
  have "sidecar_clear ops s \<noteq> None" for s
    unfolding sidecar_clear_def by (intro pbind_total with_sidecar_file_total) simp
  moreover have "write_latest_in_current_generation ops p v s \<noteq> None" for s
    unfolding write_latest_in_current_generation_def Let_def
    by (intro pbind_total with_sidecar_file_total) (simp_all add: with_sidecar_file_total del: not_None_eq)
  ultimately have "write_latest ops p v sc \<noteq> None"
    using pbind_total [of "sidecar_clear ops" sc "\<lambda>_. write_latest_in_current_generation ops p v"]
    by (simp add: write_latest_def del: not_None_eq)
  then show ?thesis by (metis not_None_eq surj_pair)
qed

section \<open>Properties\<close>

text \<open>
  C8: Over a file that may fail at any write, with any failpoints installed, spilling the latest version
  of a page always returns, leaves a well-formed sidecar, never changes what the sidecar
  says of another page, and leaves for the page itself the old entry, no entry or
  the complete new entry, never a mixture; if it reports success the new entry is there, and
  whatever a later read returns is that entry.
\<close>

theorem sidecar_crash_safe:
  assumes "sidecar_ok (\<lambda>f. mem_inv (ff_inner f)) ff_inner sc" "p \<noteq> 0"
  shows "\<exists>res sc'. write_latest (faulty_file_ops mem_file_ops me) p v sc = Some (res, sc') \<and>
    sidecar_ok (\<lambda>f. mem_inv (ff_inner f)) ff_inner sc' \<and>
    (\<forall>q. q \<noteq> p \<longrightarrow> sidecar_view ff_inner sc' q = sidecar_view ff_inner sc q) \<and>
    sidecar_view ff_inner sc' p \<in> {sidecar_view ff_inner sc p, None, Some (spilled v)} \<and>
    (res = Inr () \<longrightarrow> sidecar_view ff_inner sc' p = Some (spilled v)) \<and>
    (\<forall>q w. read_latest (faulty_file_ops mem_file_ops me) q sc' = Inr w \<longrightarrow> w = sidecar_view ff_inner sc' q)"
proof -
  obtain res sc' where run: "write_latest (faulty_file_ops mem_file_ops me) p v sc = Some (res, sc')"
    using write_latest_total by blast
  note w = faultymem.try_write_latest [OF assms run]
  from w(1) have "mem_inv (ff_inner (sc_file sc'))" by (simp add: sidecar_ok_def)
  from faultymem.try_read_latest [OF this] run w show ?thesis by blast
qed

text \<open>The record's body is written in two pieces, and the write that is to publish it fails.\<close>

definition torn_sidecar :: "bytes FaultyVfsFile WalIndexSidecar" where
  "torn_sidecar = \<lparr>sc_file = \<lparr>ff_inner = sidecar_header, ff_kind = Wal,
     ff_state = install_failpoint 0 \<lparr>fp_label = ''wal.write_commit'', fp_trigger_on = 2, fp_action = FaError\<rparr>
       (install_failpoint 0 \<lparr>fp_label = ''wal.write_commit'', fp_trigger_on = 1, fp_action = FaPartialWrite 5\<rparr>
         fault_state_default)\<rparr>, sc_entry_count = 0, sc_readable = True\<rparr>"

theorem sidecar_crash_safe_witness:
  "sidecar_ok (\<lambda>f. mem_inv (ff_inner f)) ff_inner torn_sidecar \<and>
   (\<exists>sc'. write_latest (faulty_file_ops mem_file_ops 0) 1 (version_on_disk 9 32 13 EncPage) torn_sidecar =
        Some (Inl (Io ''fault injected''), sc') \<and>
      map fl_outcome (fs_logs (ff_state (sc_file sc'))) = [OutPass, OutPartialWrite 5, OutPass, OutError] \<and>
      sidecar_ok (\<lambda>f. mem_inv (ff_inner f)) ff_inner sc' \<and> sidecar_view ff_inner sc' 2 = None)"
proof -
  have ok: "sidecar_ok (\<lambda>f. mem_inv (ff_inner f)) ff_inner torn_sidecar"
    using slots_ok_empty by (simp add: torn_sidecar_def sidecar_ok_def mem_inv_def)
  have "sidecar_view ff_inner torn_sidecar 2 = None"
    using slots_ok_empty(2) [of sidecar_header 2] by (simp add: torn_sidecar_def sidecar_view_def)
  moreover have "(case write_latest (faulty_file_ops mem_file_ops 0) 1 (version_on_disk 9 32 13 EncPage) torn_sidecar of
      Some (Inl e, sc') \<Rightarrow> e = Io ''fault injected'' \<and>
        map fl_outcome (fs_logs (ff_state (sc_file sc'))) = [OutPass, OutPartialWrite 5, OutPass, OutError]
    | _ \<Rightarrow> False)" by code_simp
  moreover obtain res sc' where w: "write_latest (faulty_file_ops mem_file_ops 0) 1 (version_on_disk 9 32 13 EncPage) torn_sidecar =
      Some (res, sc')" "sidecar_ok (\<lambda>f. mem_inv (ff_inner f)) ff_inner sc'"
      "sidecar_view ff_inner sc' 2 = sidecar_view ff_inner torn_sidecar 2"
    using sidecar_crash_safe [OF ok, of 1 0 "version_on_disk 9 32 13 EncPage"] by auto
  ultimately show ?thesis using ok by (cases res) auto
qed

text \<open>
  C21: On a file that works, the sidecar is a map from pages to versions: spilling a version succeeds,
  afterwards the page reads as that version with its payload left in the log, every other
  page reads as before, and the sidecar stays well-formed.
\<close>

theorem sidecar_write_read:
  assumes "sidecar_ok mem_inv (\<lambda>data. data) sc" "p \<noteq> 0"
  shows "\<exists>sc'. write_latest mem_file_ops p v sc = Some (Inr (), sc') \<and> sidecar_ok mem_inv (\<lambda>data. data) sc' \<and>
    (\<forall>q. read_latest mem_file_ops q sc' =
       (if q = p then Inr (Some (spilled v)) else read_latest mem_file_ops q sc))"
proof -
  obtain sc' where w: "write_latest mem_file_ops p v sc = Some (Inr (), sc')"
    using memfile.write_latest_returns [OF assms] by blast
  note t = memfile.fallible.try_write_latest [OF assms w]
  have "read_latest mem_file_ops q sc' = (if q = p then Inr (Some (spilled v)) else read_latest mem_file_ops q sc)" for q
    using memfile.read_latest_ok [OF t(1)] memfile.read_latest_ok [OF assms(1)] t(2,4) by simp
  with w t(1) show ?thesis by blast
qed

theorem sidecar_write_read_witness:
  "\<exists>sc'. write_latest mem_file_ops 3 (version_on_disk 9 32 13 EncPage)
       \<lparr>sc_file = [1, 2], sc_entry_count = 0, sc_readable = False\<rparr> = Some (Inr (), sc') \<and>
     read_latest mem_file_ops 3 sc' = Inr (Some (version_on_disk 9 32 13 EncPage))"
proof -
  have "sidecar_ok mem_inv (\<lambda>data. data) \<lparr>sc_file = [1, 2], sc_entry_count = 0, sc_readable = False\<rparr>"
    by (simp add: sidecar_ok_def mem_inv_def)
  from sidecar_write_read [OF this, of 3 "version_on_disk 9 32 13 EncPage"] show ?thesis
    by (auto simp: spilled_def version_on_disk_def)
qed

end
