(* ===== verification/PageCache.thy ===== *)
theory PageCache
  imports Prelude "HOL-Library.RBT"
begin

text \<open>
  The page cache, \<open>storage/cache.rs\<close>.  A cached page is shared by the cache and by the
  handles that pin it (\<open>Arc<CachedPage>\<close>), so the pages live in a store indexed by their
  allocation number and a \<open>PageHandle\<close> is such a number; the cache maps page ids to them.
  The operations are modelled as they run one after the other: no lock is poisoned, and
  \<open>try_write\<close> gets the lock.  The eviction loop is written as the code has it, with
  \<^const>\<open>None\<close> for not returning, and shown to return.
\<close>

section \<open>Definitions\<close>

record CachedPageInner =
  cp_data :: bytes
  cp_dirty :: bool
  cp_pin_count :: nat
  cp_last_access :: u64
  cp_indexed_access :: u64

type_synonym PageHandle = nat

record PageCache =
  pc_capacity_pages :: nat
  pc_page_size :: nat
  pc_access_counter :: u64
  pc_store :: "CachedPageInner list"
  pc_pages :: "(page_id, nat) RBT.rbt"
  pc_lru_index :: "(u64, page_id list) RBT.rbt"

definition page_cache_new :: "nat \<Rightarrow> nat \<Rightarrow> PageCache" where
  "page_cache_new capacity_pages page_size =
     \<lparr>pc_capacity_pages = max capacity_pages 1, pc_page_size = page_size, pc_access_counter = 0,
      pc_store = [], pc_pages = RBT.empty, pc_lru_index = RBT.empty\<rparr>"

definition page_inner :: "PageCache \<Rightarrow> nat \<Rightarrow> CachedPageInner" where
  "page_inner c a = pc_store c ! a"

definition set_page_inner :: "nat \<Rightarrow> CachedPageInner \<Rightarrow> PageCache \<Rightarrow> PageCache" where
  "set_page_inner a p c = c\<lparr>pc_store := (pc_store c)[a := p]\<rparr>"

text \<open>\<open>access_counter.fetch_add(1)\<close>, which wraps.\<close>

definition tick :: "PageCache \<Rightarrow> PageCache" where
  "tick c = c\<lparr>pc_access_counter := pc_access_counter c + 1\<rparr>"

definition remove_from_lru_index :: "page_id \<Rightarrow> u64 \<Rightarrow> PageCache \<Rightarrow> PageCache" where
  "remove_from_lru_index page_id ts c =
     (case RBT.lookup (pc_lru_index c) ts of
        None \<Rightarrow> c
      | Some bucket \<Rightarrow>
          let bucket = filter (\<lambda>p. p \<noteq> page_id) bucket
          in c\<lparr>pc_lru_index := (if bucket = [] then RBT.delete ts (pc_lru_index c)
                              else RBT.insert ts bucket (pc_lru_index c))\<rparr>)"

text \<open>\<open>lru_index.entry(ts).or_default().push(page_id)\<close>\<close>

definition push_lru :: "page_id \<Rightarrow> u64 \<Rightarrow> PageCache \<Rightarrow> PageCache" where
  "push_lru page_id ts c =
     c\<lparr>pc_lru_index := RBT.insert ts
        ((case RBT.lookup (pc_lru_index c) ts of None \<Rightarrow> [] | Some bucket \<Rightarrow> bucket) @ [page_id])
        (pc_lru_index c)\<rparr>"

definition try_refresh_lru_index :: "page_id \<Rightarrow> PageCache \<Rightarrow> PageCache" where
  "try_refresh_lru_index page_id c =
     (case RBT.lookup (pc_pages c) page_id of
        None \<Rightarrow> c
      | Some a \<Rightarrow>
          let last_access = cp_last_access (page_inner c a);
              indexed_access = cp_indexed_access (page_inner c a)
          in if indexed_access \<noteq> last_access
             then
               let c = push_lru page_id last_access (remove_from_lru_index page_id indexed_access c)
               in set_page_inner a ((page_inner c a)\<lparr>cp_indexed_access := last_access\<rparr>) c
             else c)"

definition try_pin_existing :: "page_id \<Rightarrow> PageCache \<Rightarrow> PageHandle option \<times> PageCache" where
  "try_pin_existing page_id c =
     (case RBT.lookup (pc_pages c) page_id of
        None \<Rightarrow> (None, c)
      | Some a \<Rightarrow>
          let new_ts = pc_access_counter c;
              c = tick c;
              p = page_inner c a;
              c = set_page_inner a (p\<lparr>cp_pin_count := cp_pin_count p + 1, cp_last_access := new_ts\<rparr>) c
          in (Some a, try_refresh_lru_index page_id c))"

text \<open>The candidate search walks the buckets in the order of their timestamps.\<close>

fun find_candidate :: "PageCache \<Rightarrow> page_id list \<Rightarrow> (page_id \<times> u64 \<times> u64) option" where
  "find_candidate c [] = None"
| "find_candidate c (page_id # ids) =
     (case RBT.lookup (pc_pages c) page_id of
        None \<Rightarrow> find_candidate c ids
      | Some a \<Rightarrow>
          if cp_pin_count (page_inner c a) = 0
          then Some (page_id, cp_indexed_access (page_inner c a), cp_last_access (page_inner c a))
          else find_candidate c ids)"

definition lru_order :: "PageCache \<Rightarrow> page_id list" where
  "lru_order c = concat (map snd (RBT.entries (pc_lru_index c)))"

definition repair_stale :: "page_id \<Rightarrow> u64 \<Rightarrow> u64 \<Rightarrow> PageCache \<Rightarrow> PageCache" where
  "repair_stale victim bucket_ts last_access c =
     (let c = remove_from_lru_index victim bucket_ts c
      in case RBT.lookup (pc_pages c) victim of
           None \<Rightarrow> c
         | Some a \<Rightarrow>
             let c = push_lru victim last_access c
             in set_page_inner a ((page_inner c a)\<lparr>cp_indexed_access := last_access\<rparr>) c)"

partial_function (option) evict_loop :: "PageCache \<Rightarrow> (unit result \<times> PageCache) option" where
  "evict_loop c =
     (case find_candidate c (lru_order c) of
        None \<Rightarrow> Some (Inl (Transaction ''page cache is full and every cached page is pinned''), c)
      | Some (victim, bucket_ts, last_access) \<Rightarrow>
          if last_access \<noteq> bucket_ts then evict_loop (repair_stale victim bucket_ts last_access c)
          else Some (Inr (), remove_from_lru_index victim bucket_ts
                               (c\<lparr>pc_pages := RBT.delete victim (pc_pages c)\<rparr>)))"

definition cached_count :: "PageCache \<Rightarrow> nat" where
  "cached_count c = length (RBT.keys (pc_pages c))"

definition evict_one_if_needed :: "(PageCache, unit) prog" where
  "evict_one_if_needed c = (if cached_count c < pc_capacity_pages c then Some (Inr (), c) else evict_loop c)"

text \<open>A new page at a fresh timestamp, entered in both maps.\<close>

definition add_page :: "page_id \<Rightarrow> bytes \<Rightarrow> bool \<Rightarrow> nat \<Rightarrow> PageCache \<Rightarrow> PageHandle \<times> PageCache" where
  "add_page page_id data dirty pins c =
     (let ts = pc_access_counter c;
          c = tick c;
          a = length (pc_store c);
          c = c\<lparr>pc_store := pc_store c @ [\<lparr>cp_data = data, cp_dirty = dirty, cp_pin_count = pins,
                 cp_last_access = ts, cp_indexed_access = ts\<rparr>],
               pc_pages := RBT.insert page_id a (pc_pages c)\<rparr>
      in (a, push_lru page_id ts c))"

text \<open>
  The loader may use further state of the caller, \<open>s\<close> (the pager's buffer pool); it runs only
  when the page is not cached.
\<close>

definition pin_or_load ::
  "page_id \<Rightarrow> ('s \<Rightarrow> bytes result \<times> 's) \<Rightarrow> (PageCache \<times> 's, PageHandle) prog"
where
  "pin_or_load page_id loader = (\<lambda>(c, s).
     case try_pin_existing page_id c of
       (Some h, c) \<Rightarrow> Some (Inr h, (c, s))
     | (None, c) \<Rightarrow>
         (case loader s of
            (Inl e, s) \<Rightarrow> Some (Inl e, (c, s))
          | (Inr loaded, s) \<Rightarrow>
              if length loaded \<noteq> pc_page_size c
              then Some (Inl (Internal ''page loaded with an unexpected number of bytes''), (c, s))
              else
                let loaded = (if loaded = [] then replicate (pc_page_size c) 0 else loaded)
                in case RBT.lookup (pc_pages c) page_id of
                     Some a \<Rightarrow>
                       let new_ts = pc_access_counter c;
                           c = tick c;
                           p = page_inner c a;
                           c = set_page_inner a (p\<lparr>cp_pin_count := cp_pin_count p + 1,
                                 cp_last_access := new_ts, cp_indexed_access := new_ts\<rparr>) c
                       in Some (Inr a, (push_lru page_id new_ts
                                          (remove_from_lru_index page_id (cp_indexed_access p) c), s))
                   | None \<Rightarrow>
                       (case evict_one_if_needed c of
                          None \<Rightarrow> None
                        | Some (Inl e, c) \<Rightarrow> Some (Inl e, (c, s))
                        | Some (Inr _, c) \<Rightarrow>
                            let (h, c) = add_page page_id loaded False 1 c in Some (Inr h, (c, s)))))"

definition insert_page :: "page_id \<Rightarrow> bytes \<Rightarrow> bool \<Rightarrow> (PageCache, unit) prog" where
  "insert_page page_id data dirty c =
     (if length data \<noteq> pc_page_size c
      then Some (Inl (Internal ''page inserted with an unexpected number of bytes''), c)
      else case RBT.lookup (pc_pages c) page_id of
        Some a \<Rightarrow>
          let p = page_inner c a;
              old_ts = cp_indexed_access p;
              ts = pc_access_counter c;
              c = tick c;
              c = set_page_inner a (p\<lparr>cp_data := data, cp_dirty := dirty, cp_last_access := ts,
                    cp_indexed_access := ts\<rparr>) c
          in Some (Inr (), if ts \<noteq> old_ts
                           then push_lru page_id ts (remove_from_lru_index page_id old_ts c) else c)
      | None \<Rightarrow>
          (case evict_one_if_needed c of
             None \<Rightarrow> None
           | Some (Inl e, c) \<Rightarrow> Some (Inl e, c)
           | Some (Inr _, c) \<Rightarrow> Some (Inr (), snd (add_page page_id data dirty 0 c))))"

definition insert_clean_page :: "page_id \<Rightarrow> bytes \<Rightarrow> (PageCache, unit) prog" where
  "insert_clean_page page_id data = insert_page page_id data False"

definition cache_discard :: "page_id \<Rightarrow> PageCache \<Rightarrow> PageCache" where
  "cache_discard page_id c =
     (let c = (case RBT.lookup (pc_pages c) page_id of
                 None \<Rightarrow> c
               | Some a \<Rightarrow> remove_from_lru_index page_id (cp_indexed_access (page_inner c a)) c)
      in c\<lparr>pc_pages := RBT.delete page_id (pc_pages c)\<rparr>)"

definition cache_clear :: "PageCache \<Rightarrow> PageCache" where
  "cache_clear c = c\<lparr>pc_pages := RBT.empty, pc_lru_index := RBT.empty, pc_access_counter := 0\<rparr>"

definition handle_read :: "PageHandle \<Rightarrow> PageCache \<Rightarrow> bytes" where
  "handle_read h c = cp_data (page_inner c h)"

definition handle_drop :: "PageHandle \<Rightarrow> PageCache \<Rightarrow> PageCache" where
  "handle_drop h c =
     (let p = page_inner c h in set_page_inner h (p\<lparr>cp_pin_count := cp_pin_count p - 1\<rparr>) c)"

text \<open>Pin a page, take its bytes and drop the handle, as a page read does.\<close>

definition pin_read :: "page_id \<Rightarrow> ('s \<Rightarrow> bytes result \<times> 's) \<Rightarrow> (PageCache \<times> 's, bytes) prog" where
  "pin_read page_id loader =
     pbind (pin_or_load page_id loader) (\<lambda>h (c, s). Some (Inr (handle_read h c), (handle_drop h c, s)))"

section \<open>The invariant\<close>

abbreviation cached :: "PageCache \<Rightarrow> page_id \<Rightarrow> nat option" where
  "cached c \<equiv> RBT.lookup (pc_pages c)"

definition bucket :: "PageCache \<Rightarrow> u64 \<Rightarrow> page_id list" where
  "bucket c ts = (case RBT.lookup (pc_lru_index c) ts of None \<Rightarrow> [] | Some b \<Rightarrow> b)"

text \<open>
  Every cached page has its own allocation and a full page of data, it is listed in exactly the
  bucket of its indexed timestamp, no bucket is empty or lists another page, and the capacity holds.
\<close>

definition pages_ok :: "PageCache \<Rightarrow> bool" where
  "pages_ok c \<longleftrightarrow>
     (\<forall>p a. cached c p = Some a \<longrightarrow> a < length (pc_store c) \<and> length (cp_data (page_inner c a)) = pc_page_size c) \<and>
     (\<forall>p q a. cached c p = Some a \<longrightarrow> cached c q = Some a \<longrightarrow> p = q)"

definition indexed_at :: "PageCache \<Rightarrow> page_id \<Rightarrow> u64 option" where
  "indexed_at c p = map_option (\<lambda>a. cp_indexed_access (page_inner c a)) (cached c p)"

definition lru_ok :: "PageCache \<Rightarrow> bool" where
  "lru_ok c \<longleftrightarrow>
     (\<forall>ts p. p \<in> set (bucket c ts) \<longleftrightarrow> indexed_at c p = Some ts) \<and>
     (\<forall>ts. RBT.lookup (pc_lru_index c) ts \<noteq> Some [])"

definition cache_ok :: "PageCache \<Rightarrow> bool" where
  "cache_ok c \<longleftrightarrow> pages_ok c \<and> lru_ok c \<and> 0 < pc_capacity_pages c \<and> cached_count c \<le> pc_capacity_pages c"

text \<open>The content of the cache, and the order of the two timestamps of a page.\<close>

definition cache_view :: "PageCache \<Rightarrow> page_id \<Rightarrow> bytes option" where
  "cache_view c p = map_option (\<lambda>a. cp_data (page_inner c a)) (cached c p)"

definition clock_ok :: "PageCache \<Rightarrow> bool" where
  "clock_ok c \<longleftrightarrow> (\<forall>p a. cached c p = Some a \<longrightarrow> cp_indexed_access (page_inner c a) \<le> cp_last_access (page_inner c a))"

subsection \<open>The elementary updates\<close>

lemma bucket_remove [simp]:
  "bucket (remove_from_lru_index p ts c) t = (if t = ts then filter (\<lambda>q. q \<noteq> p) (bucket c t) else bucket c t)"
  by (auto simp: bucket_def remove_from_lru_index_def Let_def split: option.splits)

lemma bucket_push [simp]:
  "bucket (push_lru p ts c) t = (if t = ts then bucket c t @ [p] else bucket c t)"
  by (auto simp: bucket_def push_lru_def split: option.splits)

lemma no_empty_remove:
  "\<forall>t. RBT.lookup (pc_lru_index c) t \<noteq> Some [] \<Longrightarrow> RBT.lookup (pc_lru_index (remove_from_lru_index p ts c)) t \<noteq> Some []"
  by (auto simp: remove_from_lru_index_def Let_def split: option.splits)

lemma no_empty_push:
  "\<forall>t. RBT.lookup (pc_lru_index c) t \<noteq> Some [] \<Longrightarrow> RBT.lookup (pc_lru_index (push_lru p ts c)) t \<noteq> Some []"
  by (auto simp: push_lru_def)

lemma remove_fields [simp]:
  "pc_pages (remove_from_lru_index p ts c) = pc_pages c" "pc_store (remove_from_lru_index p ts c) = pc_store c"
  "pc_page_size (remove_from_lru_index p ts c) = pc_page_size c"
  "pc_capacity_pages (remove_from_lru_index p ts c) = pc_capacity_pages c"
  "pc_access_counter (remove_from_lru_index p ts c) = pc_access_counter c"
  by (simp_all add: remove_from_lru_index_def Let_def split: option.splits)

lemma push_fields [simp]:
  "pc_pages (push_lru p ts c) = pc_pages c" "pc_store (push_lru p ts c) = pc_store c"
  "pc_page_size (push_lru p ts c) = pc_page_size c" "pc_capacity_pages (push_lru p ts c) = pc_capacity_pages c"
  "pc_access_counter (push_lru p ts c) = pc_access_counter c"
  by (simp_all add: push_lru_def)

lemma set_fields [simp]:
  "pc_pages (set_page_inner a q c) = pc_pages c" "pc_lru_index (set_page_inner a q c) = pc_lru_index c"
  "pc_store (set_page_inner a q c) = (pc_store c)[a := q]"
  "pc_page_size (set_page_inner a q c) = pc_page_size c" "pc_capacity_pages (set_page_inner a q c) = pc_capacity_pages c"
  "pc_access_counter (set_page_inner a q c) = pc_access_counter c"
  "bucket (set_page_inner a q c) = bucket c"
  by (simp_all add: set_page_inner_def bucket_def fun_eq_iff)

lemma tick_fields [simp]:
  "pc_pages (tick c) = pc_pages c" "pc_lru_index (tick c) = pc_lru_index c" "pc_store (tick c) = pc_store c"
  "pc_page_size (tick c) = pc_page_size c" "pc_capacity_pages (tick c) = pc_capacity_pages c"
  "pc_access_counter (tick c) = pc_access_counter c + 1" "bucket (tick c) = bucket c"
  by (simp_all add: tick_def bucket_def fun_eq_iff)

lemma page_inner_simps [simp]:
  "page_inner (remove_from_lru_index p ts c) = page_inner c" "page_inner (push_lru p ts c) = page_inner c"
  "page_inner (tick c) = page_inner c"
  "a < length (pc_store c) \<Longrightarrow> page_inner (set_page_inner a q c) b = (if b = a then q else page_inner c b)"
  by (auto simp: page_inner_def fun_eq_iff)

lemma set_commute:
  "set_page_inner a q (push_lru p t1 (remove_from_lru_index p t0 c)) =
     push_lru p t1 (remove_from_lru_index p t0 (set_page_inner a q c))"
  by (simp add: set_page_inner_def push_lru_def remove_from_lru_index_def Let_def split: option.split)

lemma indexed_at_simps [simp]:
  "indexed_at (remove_from_lru_index p ts c) = indexed_at c" "indexed_at (push_lru p ts c) = indexed_at c"
  "indexed_at (tick c) = indexed_at c"
  by (simp_all add: indexed_at_def fun_eq_iff)

lemma cached_count_card: "cached_count c = card (dom (cached c))"
  by (simp add: cached_count_def RBT.lookup_keys distinct_card)

lemma finite_cached [simp]: "finite (dom (cached c))"
  by (simp add: RBT.lookup_keys)

lemma cached_count_simps [simp]:
  "cached_count (remove_from_lru_index p ts c) = cached_count c" "cached_count (push_lru p ts c) = cached_count c"
  "cached_count (set_page_inner a q c) = cached_count c" "cached_count (tick c) = cached_count c"
  by (simp_all add: cached_count_def)

lemma tick_ok [simp]: "cache_ok (tick c) = cache_ok c"
  by (simp add: cache_ok_def pages_ok_def lru_ok_def)

lemma pages_ok_inj: "pages_ok c \<Longrightarrow> cached c p = Some a \<Longrightarrow> cached c q = Some a \<Longrightarrow> p = q"
  by (auto simp: pages_ok_def)

lemma pages_ok_addr:
  "pages_ok c \<Longrightarrow> cached c p = Some a \<Longrightarrow> a < length (pc_store c) \<and> length (cp_data (page_inner c a)) = pc_page_size c"
  by (auto simp: pages_ok_def)

lemma indexed_at_set:
  assumes "pages_ok c" "cached c p = Some a"
  shows "indexed_at (set_page_inner a q c) r = (if r = p then Some (cp_indexed_access q) else indexed_at c r)"
proof (cases "cached c r")
  case (Some b)
  then have "b = a \<longleftrightarrow> r = p" using assms pages_ok_inj by fastforce
  with Some assms pages_ok_addr [OF assms] show ?thesis by (simp add: indexed_at_def)
qed (use assms in \<open>auto simp: indexed_at_def\<close>)

lemma pages_ok_set:
  "pages_ok c \<Longrightarrow> cached c p = Some a \<Longrightarrow> length (cp_data q) = pc_page_size c \<Longrightarrow> pages_ok (set_page_inner a q c)"
  using pages_ok_addr [of c p a] by (auto simp: pages_ok_def)

text \<open>Changing a cached page and moving it to the bucket of its new timestamp.\<close>

lemma reindex_ok:
  assumes "cache_ok c" "cached c p = Some a" "length (cp_data q) = pc_page_size c"
  shows "cache_ok (push_lru p (cp_indexed_access q)
           (remove_from_lru_index p (cp_indexed_access (page_inner c a)) (set_page_inner a q c)))"
proof -
  have a: "pages_ok c" "lru_ok c" using assms by (auto simp: cache_ok_def)
  let ?c = "push_lru p (cp_indexed_access q)
      (remove_from_lru_index p (cp_indexed_access (page_inner c a)) (set_page_inner a q c))"
  have old: "indexed_at c p = Some (cp_indexed_access (page_inner c a))" using assms(2) by (simp add: indexed_at_def)
  have ne: "\<forall>t. RBT.lookup (pc_lru_index (set_page_inner a q c)) t \<noteq> Some []" using a(2) by (simp add: lru_ok_def)
  have "r \<in> set (bucket ?c ts) \<longleftrightarrow> indexed_at ?c r = Some ts" for r ts
    using a(2) old by (auto simp: indexed_at_set [OF a(1) assms(2)] lru_ok_def)
  then have "lru_ok ?c" using no_empty_push [OF allI [OF no_empty_remove [OF ne]]] by (simp add: lru_ok_def)
  moreover have "pages_ok ?c"
    using pages_ok_set [OF a(1) assms(2,3)] by (simp add: pages_ok_def)
  ultimately show ?thesis using assms(1) by (simp add: cache_ok_def)
qed

lemma set_ok:
  assumes "cache_ok c" "cached c p = Some a" "length (cp_data q) = pc_page_size c"
    and "cp_indexed_access q = cp_indexed_access (page_inner c a)"
  shows "cache_ok (set_page_inner a q c)"
proof -
  have a: "pages_ok c" using assms by (simp add: cache_ok_def)
  have "indexed_at (set_page_inner a q c) = indexed_at c"
    using assms by (auto simp: indexed_at_set [OF a assms(2)] indexed_at_def [of c] fun_eq_iff)
  then show ?thesis using assms(1) pages_ok_set [OF a assms(2,3)] by (simp add: cache_ok_def lru_ok_def)
qed

subsection \<open>Eviction\<close>

lemma find_candidate_None:
  "find_candidate c ids = None \<Longrightarrow> p \<in> set ids \<Longrightarrow> cached c p = Some a \<Longrightarrow> cp_pin_count (page_inner c a) \<noteq> 0"
  by (induction ids) (auto split: option.splits if_splits)

lemma find_candidate_Some:
  "find_candidate c ids = Some (v, ts, la) \<Longrightarrow>
     \<exists>a pre post. cached c v = Some a \<and> cp_pin_count (page_inner c a) = 0 \<and>
       ts = cp_indexed_access (page_inner c a) \<and> la = cp_last_access (page_inner c a) \<and> ids = pre @ v # post \<and>
       (\<forall>p\<in>set pre. \<forall>b. cached c p = Some b \<longrightarrow> cp_pin_count (page_inner c b) \<noteq> 0)"
proof (induction ids)
  case Nil
  then show ?case by simp
next
  case (Cons i ids)
  show ?case
  proof (cases "\<exists>b. cached c i = Some b \<and> cp_pin_count (page_inner c b) = 0")
    case True
    with Cons.prems show ?thesis by (intro exI [of _ "the (cached c i)"] exI [of _ "[]"] exI [of _ ids]) auto
  next
    case False
    with Cons.prems have "find_candidate c ids = Some (v, ts, la)" by (auto split: option.splits if_splits)
    from Cons.IH [OF this] obtain a pre post where "cached c v = Some a \<and> cp_pin_count (page_inner c a) = 0 \<and>
       ts = cp_indexed_access (page_inner c a) \<and> la = cp_last_access (page_inner c a) \<and> ids = pre @ v # post \<and>
       (\<forall>p\<in>set pre. \<forall>b. cached c p = Some b \<longrightarrow> cp_pin_count (page_inner c b) \<noteq> 0)" by blast
    with False show ?thesis by (intro exI [of _ a] exI [of _ "i # pre"] exI [of _ post]) auto
  qed
qed

lemma set_lru_order: "lru_ok c \<Longrightarrow> p \<in> set (lru_order c) \<longleftrightarrow> cached c p \<noteq> None"
proof -
  assume a: "lru_ok c"
  have "p \<in> set (lru_order c) \<longleftrightarrow> (\<exists>ts b. (ts, b) \<in> set (RBT.entries (pc_lru_index c)) \<and> p \<in> set b)"
    unfolding lru_order_def set_concat set_map by fastforce
  moreover have "p \<in> set (bucket c ts) \<longleftrightarrow> (\<exists>b. (ts, b) \<in> set (RBT.entries (pc_lru_index c)) \<and> p \<in> set b)" for ts
    by (cases "RBT.lookup (pc_lru_index c) ts") (simp_all add: bucket_def RBT.lookup_in_tree [symmetric])
  ultimately have "p \<in> set (lru_order c) \<longleftrightarrow> (\<exists>ts. p \<in> set (bucket c ts))" by simp
  with a show ?thesis by (auto simp: lru_ok_def indexed_at_def)
qed

lemma lru_order_sorted: "lru_ok c \<Longrightarrow> sorted_wrt (\<lambda>p q. the (indexed_at c p) \<le> the (indexed_at c q)) (lru_order c)"
proof -
  assume a: "lru_ok c"
  have b: "indexed_at c p = Some ts" if "(ts, b) \<in> set (RBT.entries (pc_lru_index c))" "p \<in> set b" for ts b p
  proof -
    have "p \<in> set (bucket c ts)" using that by (simp add: bucket_def RBT.lookup_in_tree [symmetric])
    with a show ?thesis by (simp add: lru_ok_def)
  qed
  have "sorted_wrt (\<lambda>p q. the (indexed_at c p) \<le> the (indexed_at c q)) (concat (map snd es))"
    if "set es \<subseteq> set (RBT.entries (pc_lru_index c))" "sorted (map fst es)" for es
    using that
  proof (induction es)
    case (Cons e es)
    have "sorted_wrt (\<lambda>p q. the (indexed_at c p) \<le> the (indexed_at c q)) (snd e)"
      using b [of "fst e" "snd e"] Cons.prems(1) by (auto simp: sorted_wrt_iff_nth_less)
    moreover have "the (indexed_at c p) \<le> the (indexed_at c q)" if "p \<in> set (snd e)" "(ts, l) \<in> set es" "q \<in> set l" for p q ts l
      using b [of "fst e" "snd e" p] b [of ts l q] that Cons.prems by (force)
    ultimately show ?case using Cons by (auto simp: sorted_wrt_append)
  qed simp
  from this [of "RBT.entries (pc_lru_index c)"] show ?thesis by (simp add: lru_order_def RBT.sorted_entries)
qed

text \<open>Two caches that differ at most in the indexed timestamps of their pages and in the index.\<close>

definition same_pages :: "PageCache \<Rightarrow> PageCache \<Rightarrow> bool" where
  "same_pages c c' \<longleftrightarrow> pc_pages c' = pc_pages c \<and> pc_page_size c' = pc_page_size c \<and>
     pc_capacity_pages c' = pc_capacity_pages c \<and> pc_access_counter c' = pc_access_counter c \<and>
     length (pc_store c') = length (pc_store c) \<and>
     (\<forall>a. (page_inner c' a)\<lparr>cp_indexed_access := 0\<rparr> = (page_inner c a)\<lparr>cp_indexed_access := 0\<rparr>)"

lemma same_pages_refl [simp]: "same_pages c c"
  by (simp add: same_pages_def)

lemma same_pages_trans: "same_pages c d \<Longrightarrow> same_pages d e \<Longrightarrow> same_pages c e"
  by (simp add: same_pages_def)

lemma same_inner:
  assumes "same_pages c c'"
  shows "cp_data (page_inner c' a) = cp_data (page_inner c a)" "cp_pin_count (page_inner c' a) = cp_pin_count (page_inner c a)"
    "cp_last_access (page_inner c' a) = cp_last_access (page_inner c a)"
    "cp_dirty (page_inner c' a) = cp_dirty (page_inner c a)"
proof -
  have "(page_inner c' a)\<lparr>cp_indexed_access := 0\<rparr> = (page_inner c a)\<lparr>cp_indexed_access := 0\<rparr>"
    using assms by (simp add: same_pages_def)
  then show "cp_data (page_inner c' a) = cp_data (page_inner c a)" "cp_pin_count (page_inner c' a) = cp_pin_count (page_inner c a)"
    "cp_last_access (page_inner c' a) = cp_last_access (page_inner c a)"
    "cp_dirty (page_inner c' a) = cp_dirty (page_inner c a)"
    by (cases "page_inner c a"; cases "page_inner c' a"; simp)+
qed

lemma repair_stale_ok:
  assumes "cache_ok c" "cached c v = Some a"
  defines "c' \<equiv> repair_stale v (cp_indexed_access (page_inner c a)) (cp_last_access (page_inner c a)) c"
  shows "cache_ok c' \<and> same_pages c c' \<and>
    page_inner c' = (page_inner c)(a := (page_inner c a)\<lparr>cp_indexed_access := cp_last_access (page_inner c a)\<rparr>)"
proof -
  let ?q = "(page_inner c a)\<lparr>cp_indexed_access := cp_last_access (page_inner c a)\<rparr>"
  have a: "pages_ok c" "a < length (pc_store c)" "length (cp_data ?q) = pc_page_size c"
    using assms(1,2) pages_ok_addr by (auto simp: cache_ok_def)
  have "c' = push_lru v (cp_indexed_access ?q)
      (remove_from_lru_index v (cp_indexed_access (page_inner c a)) (set_page_inner a ?q c))"
    using assms(2) by (simp add: c'_def repair_stale_def Let_def set_commute)
  with reindex_ok [OF assms(1,2) a(3)] a(2) show ?thesis by (auto simp: same_pages_def fun_eq_iff)
qed

definition stale :: "PageCache \<Rightarrow> page_id set" where
  "stale c = {p. \<exists>a. cached c p = Some a \<and> cp_indexed_access (page_inner c a) \<noteq> cp_last_access (page_inner c a)}"

lemma stale_repair:
  assumes "cache_ok c" "cached c v = Some a" "cp_last_access (page_inner c a) \<noteq> cp_indexed_access (page_inner c a)"
  shows "card (stale (repair_stale v (cp_indexed_access (page_inner c a)) (cp_last_access (page_inner c a)) c)) < card (stale c)"
proof -
  let ?c = "repair_stale v (cp_indexed_access (page_inner c a)) (cp_last_access (page_inner c a)) c"
  have r: "pc_pages ?c = pc_pages c"
    "page_inner ?c = (page_inner c)(a := (page_inner c a)\<lparr>cp_indexed_access := cp_last_access (page_inner c a)\<rparr>)"
    using repair_stale_ok [OF assms(1,2)] by (simp_all add: same_pages_def)
  have "finite (stale c)" by (rule finite_subset [OF _ finite_cached [of c]]) (auto simp: stale_def)
  moreover have "stale ?c \<subseteq> stale c" "v \<in> stale c" "v \<notin> stale ?c"
    using assms(2,3) by (auto simp: stale_def r split: if_splits)
  ultimately show ?thesis by (metis psubsetI psubset_card_mono)
qed

text \<open>\<open>evicted c v c'\<close>: page \<open>v\<close> has left the cache, everything else is as before.\<close>

definition evicted :: "PageCache \<Rightarrow> page_id \<Rightarrow> PageCache \<Rightarrow> bool" where
  "evicted c v c' \<longleftrightarrow> cached c' = (cached c)(v := None) \<and> same_pages c (c'\<lparr>pc_pages := pc_pages c\<rparr>)"

lemma evicted_same: "same_pages c d \<Longrightarrow> evicted d v c' \<Longrightarrow> evicted c v c'"
  by (simp add: evicted_def same_pages_def page_inner_def)

lemma drop_page_ok:
  assumes "cache_ok c" "cached c v = Some a"
  defines "c' \<equiv> remove_from_lru_index v (cp_indexed_access (page_inner c a)) (c\<lparr>pc_pages := RBT.delete v (pc_pages c)\<rparr>)"
  shows "cache_ok c' \<and> evicted c v c' \<and> Suc (cached_count c') = cached_count c"
proof -
  let ?d = "c\<lparr>pc_pages := RBT.delete v (pc_pages c)\<rparr>"
  have inner: "page_inner ?d = page_inner c" by (simp add: page_inner_def fun_eq_iff)
  have ix: "indexed_at ?d p = (if p = v then None else indexed_at c p)" for p by (simp add: indexed_at_def inner)
  have bu: "bucket ?d = bucket c" by (simp add: bucket_def fun_eq_iff)
  have ok: "pages_ok c" "lru_ok c" using assms(1) by (simp_all add: cache_ok_def)
  have "pages_ok c'" using ok(1) by (auto simp: c'_def pages_ok_def inner split: if_splits)
  moreover have "lru_ok c'"
    using ok(2) assms(2) no_empty_remove [of ?d v "cp_indexed_access (page_inner c a)"]
    by (auto simp: c'_def lru_ok_def ix bu) (simp add: indexed_at_def)
  moreover have n: "Suc (cached_count c') = cached_count c"
    using assms(2) finite_cached [of c] card_Suc_Diff1 [of "dom (cached c)" v]
    by (simp add: c'_def cached_count_card domIff)
  moreover have "evicted c v c'"
    by (auto simp: c'_def evicted_def same_pages_def page_inner_def remove_from_lru_index_def Let_def split: option.split)
  ultimately show ?thesis using assms(1) by (simp add: cache_ok_def c'_def)
qed

lemma candidate_lru:
  assumes "cache_ok c" "find_candidate c (lru_order c) = Some (v, ts, la)"
    and "cached c q = Some b" "cp_pin_count (page_inner c b) = 0"
  shows "ts \<le> cp_indexed_access (page_inner c b)"
proof -
  have l: "lru_ok c" using assms(1) by (simp add: cache_ok_def)
  obtain a pre post where a: "cached c v = Some a" "ts = cp_indexed_access (page_inner c a)" "lru_order c = pre @ v # post"
    "\<forall>p\<in>set pre. \<forall>b. cached c p = Some b \<longrightarrow> cp_pin_count (page_inner c b) \<noteq> 0"
    using find_candidate_Some [OF assms(2)] by blast
  have "q \<in> set (lru_order c)" using set_lru_order [OF l] assms(3) by simp
  moreover have "q \<notin> set pre" using a(4) assms(3,4) by blast
  ultimately have "q = v \<or> q \<in> set post" using a(3) by auto
  moreover have "\<forall>p\<in>set post. the (indexed_at c v) \<le> the (indexed_at c p)"
    using lru_order_sorted [OF l] a(3) by (simp add: sorted_wrt_append)
  ultimately show ?thesis using a(1,2) assms(3) by (auto simp: indexed_at_def)
qed

definition evict_post :: "PageCache \<Rightarrow> unit result \<Rightarrow> PageCache \<Rightarrow> bool" where
  "evict_post c r c' \<longleftrightarrow> cache_ok c' \<and>
     (case r of
        Inl e \<Rightarrow> e = Transaction ''page cache is full and every cached page is pinned'' \<and> same_pages c c' \<and>
          (\<forall>p a. cached c p = Some a \<longrightarrow> cp_pin_count (page_inner c a) \<noteq> 0)
      | Inr _ \<Rightarrow> \<exists>v a. cached c v = Some a \<and> cp_pin_count (page_inner c a) = 0 \<and> evicted c v c' \<and>
          Suc (cached_count c') = cached_count c \<and>
          (clock_ok c \<longrightarrow> (\<forall>q b. cached c q = Some b \<longrightarrow> cp_pin_count (page_inner c b) = 0 \<longrightarrow>
             cp_last_access (page_inner c a) \<le> cp_last_access (page_inner c b))))"

lemma evict_post_same:
  assumes "same_pages c d" "clock_ok c \<Longrightarrow> clock_ok d" "evict_post d r c'"
  shows "evict_post c r c'"
proof -
  have p: "pc_pages d = pc_pages c" "cached_count d = cached_count c"
    using assms(1) by (simp_all add: same_pages_def cached_count_def)
  show ?thesis
    using assms(3) same_pages_trans [OF assms(1)] evicted_same [OF assms(1)] assms(2)
    unfolding evict_post_def p same_inner [OF assms(1)] by (cases r; simp; blast)
qed

lemma evict_loop_ok: "cache_ok c \<Longrightarrow> \<exists>r c'. evict_loop c = Some (r, c') \<and> evict_post c r c'"
proof (induction "card (stale c)" arbitrary: c rule: less_induct)
  case less
  have l: "lru_ok c" using less.prems by (simp add: cache_ok_def)
  show ?case
  proof (cases "find_candidate c (lru_order c)")
    case None
    have "evict_loop c = Some (Inl (Transaction ''page cache is full and every cached page is pinned''), c)"
      by (subst evict_loop.simps) (simp add: None)
    moreover have "cp_pin_count (page_inner c a) \<noteq> 0" if "cached c p = Some a" for p a
      using find_candidate_None [OF None _ that] set_lru_order [OF l, of p] that by simp
    ultimately show ?thesis using less.prems by (simp add: evict_post_def)
  next
    case (Some x)
    obtain v ts la where x: "x = (v, ts, la)" by (metis prod_cases3)
    obtain a where a: "cached c v = Some a" "cp_pin_count (page_inner c a) = 0"
      "ts = cp_indexed_access (page_inner c a)" "la = cp_last_access (page_inner c a)"
      using find_candidate_Some [OF Some [unfolded x]] by blast
    show ?thesis
    proof (cases "la = ts")
      case False
      let ?d = "repair_stale v ts la c"
      have r: "cache_ok ?d" "same_pages c ?d"
        "page_inner ?d = (page_inner c)(a := (page_inner c a)\<lparr>cp_indexed_access := la\<rparr>)"
        using repair_stale_ok [OF less.prems a(1)] a(3,4) by simp_all
      have "card (stale ?d) < card (stale c)" using stale_repair [OF less.prems a(1)] False a(3,4) by simp
      from less.hyps [OF this r(1)] obtain r' c' where e: "evict_loop ?d = Some (r', c')" "evict_post ?d r' c'" by blast
      have "clock_ok ?d" if "clock_ok c"
        using that r(2,3) a(4) by (simp add: clock_ok_def same_pages_def)
      from evict_post_same [OF r(2) this e(2)] e(1) Some x False show ?thesis
        by (subst evict_loop.simps) simp
    next
      case True
      let ?c = "remove_from_lru_index v ts (c\<lparr>pc_pages := RBT.delete v (pc_pages c)\<rparr>)"
      have e: "evict_loop c = Some (Inr (), ?c)" by (subst evict_loop.simps) (simp add: Some x True)
      have d: "cache_ok ?c \<and> evicted c v ?c \<and> Suc (cached_count ?c) = cached_count c"
        using drop_page_ok [OF less.prems a(1)] a(3) by simp
      have "cp_last_access (page_inner c a) \<le> cp_last_access (page_inner c b)"
        if "clock_ok c" "cached c q = Some b" "cp_pin_count (page_inner c b) = 0" for q b
        using candidate_lru [OF less.prems Some [unfolded x] that(2,3)] that(1,2) a(3,4) True
        by (simp add: clock_ok_def) (meson order_trans)
      with d a(1,2) have "evict_post c (Inr ()) ?c" unfolding evict_post_def by (simp only: sum.case) blast
      with e show ?thesis by blast
    qed
  qed
qed

lemma evict_one_ok:
  assumes "cache_ok c"
  shows "\<exists>r c'. evict_one_if_needed c = Some (r, c') \<and> cache_ok c' \<and>
    (case r of
       Inl e \<Rightarrow> e = Transaction ''page cache is full and every cached page is pinned'' \<and> same_pages c c' \<and>
         (\<forall>p a. cached c p = Some a \<longrightarrow> cp_pin_count (page_inner c a) \<noteq> 0) \<and> (\<exists>p. cached c p \<noteq> None)
     | Inr _ \<Rightarrow> cached_count c' < pc_capacity_pages c \<and> (c' = c \<or> (\<exists>v. evicted c v c')))"
proof (cases "cached_count c < pc_capacity_pages c")
  case True
  with assms show ?thesis by (simp add: evict_one_if_needed_def)
next
  case False
  obtain r c' where e: "evict_loop c = Some (r, c')" "evict_post c r c'" using evict_loop_ok [OF assms] by blast
  have "dom (cached c) \<noteq> {}" using False assms by (auto simp: cache_ok_def cached_count_card)
  then have ne: "\<exists>p. cached c p \<noteq> None" by blast
  show ?thesis
  proof (cases r)
    case (Inl x)
    with e ne False show ?thesis by (simp add: evict_one_if_needed_def evict_post_def)
  next
    case (Inr x)
    with e have "cache_ok c'" "Suc (cached_count c') = cached_count c" "\<exists>v. evicted c v c'"
      by (auto simp: evict_post_def)
    with e Inr False assms show ?thesis by (simp add: evict_one_if_needed_def cache_ok_def)
  qed
qed

subsection \<open>The operations\<close>

lemma same_pages_view: "same_pages c c' \<Longrightarrow> cache_view c' = cache_view c"
  by (simp add: cache_view_def same_inner fun_eq_iff) (simp add: same_pages_def)

lemma evicted_inner:
  assumes "evicted c v c'"
  shows "cp_data (page_inner c' a) = cp_data (page_inner c a)" "cp_pin_count (page_inner c' a) = cp_pin_count (page_inner c a)"
    "pc_page_size c' = pc_page_size c" "pc_capacity_pages c' = pc_capacity_pages c" "length (pc_store c') = length (pc_store c)"
proof -
  have s: "same_pages c (c'\<lparr>pc_pages := pc_pages c\<rparr>)" using assms by (simp add: evicted_def)
  show "cp_data (page_inner c' a) = cp_data (page_inner c a)" "cp_pin_count (page_inner c' a) = cp_pin_count (page_inner c a)"
    using same_inner(1,2) [OF s, of a] by (simp_all add: page_inner_def)
  show "pc_page_size c' = pc_page_size c" "pc_capacity_pages c' = pc_capacity_pages c" "length (pc_store c') = length (pc_store c)"
    using s by (simp_all add: same_pages_def)
qed

lemma evicted_view: "evicted c v c' \<Longrightarrow> cache_view c' = (cache_view c)(v := None)"
  by (simp add: cache_view_def evicted_inner fun_eq_iff) (simp add: evicted_def)

lemma add_page_ok:
  assumes "cache_ok c" "cached c p = None" "cached_count c < pc_capacity_pages c" "length data = pc_page_size c"
    and "add_page p data dirty pins c = (h, c')"
  shows "cache_ok c'" "cached c' = (cached c)(p \<mapsto> h)"
    "cp_data (page_inner c' h) = data" "cp_pin_count (page_inner c' h) = pins"
    "\<forall>q a. cached c q = Some a \<longrightarrow> page_inner c' a = page_inner c a"
proof -
  let ?q = "\<lparr>cp_data = data, cp_dirty = dirty, cp_pin_count = pins,
       cp_last_access = pc_access_counter c, cp_indexed_access = pc_access_counter c\<rparr>"
  let ?d = "c\<lparr>pc_access_counter := pc_access_counter c + 1, pc_store := pc_store c @ [?q],
      pc_pages := RBT.insert p (length (pc_store c)) (pc_pages c)\<rparr>"
  have h: "h = length (pc_store c)" "c' = push_lru p (pc_access_counter c) ?d"
    using assms(5) by (auto simp: add_page_def Let_def tick_def)
  have ok: "pages_ok c" "lru_ok c" using assms(1) by (simp_all add: cache_ok_def)
  have lt: "a < length (pc_store c)" if "cached c q = Some a" for q a using pages_ok_addr [OF ok(1) that] by simp
  show p: "cached c' = (cached c)(p \<mapsto> h)" by (simp add: h fun_eq_iff)
  have inner: "page_inner c' a = (if a = h then ?q else page_inner c a)" if "a \<le> h" for a
    using that by (auto simp: h page_inner_def nth_append push_lru_def)
  then show "cp_data (page_inner c' h) = data" "cp_pin_count (page_inner c' h) = pins" by simp_all
  show old: "\<forall>q a. cached c q = Some a \<longrightarrow> page_inner c' a = page_inner c a"
    using inner lt h(1) by (simp add: less_imp_le less_imp_neq)
  have ne: "cached c q \<noteq> Some h" for q using lt [of q h] h(1) by auto
  have po: "pages_ok c'"
    unfolding pages_ok_def p
  proof (intro conjI allI impI)
    fix q a assume "((cached c)(p \<mapsto> h)) q = Some a"
    then have "q = p \<and> a = h \<or> cached c q = Some a" by (simp split: if_splits)
    then have "a < length (pc_store c') \<and> length (cp_data (page_inner c' a)) = pc_page_size c'"
    proof
      assume "cached c q = Some a"
      with pages_ok_addr [OF ok(1) this] old show ?thesis by (auto simp: h)
    qed (use inner [of h] assms(4) in \<open>simp add: h\<close>)
    then show "a < length (pc_store c')" "length (cp_data (page_inner c' a)) = pc_page_size c'" by simp_all
  next
    fix q r a assume "((cached c)(p \<mapsto> h)) q = Some a" "((cached c)(p \<mapsto> h)) r = Some a"
    then show "q = r" using pages_ok_inj [OF ok(1), of q a r] ne by (auto split: if_splits)
  qed
  have ix: "indexed_at c' q = (if q = p then Some (pc_access_counter c) else indexed_at c q)" for q
    using old inner [of h] by (cases "cached c q") (auto simp: indexed_at_def p)
  have bu: "bucket c' t = (if t = pc_access_counter c then bucket c t @ [p] else bucket c t)" for t
    unfolding h(2) bucket_push by (simp add: bucket_def)
  have e: "RBT.lookup (pc_lru_index c') t \<noteq> Some []" for t
    unfolding h(2) by (rule no_empty_push) (use ok(2) in \<open>simp add: lru_ok_def\<close>)
  have "indexed_at c p = None" using assms(2) by (simp add: indexed_at_def)
  then have "lru_ok c'" using ok(2) e by (auto simp: lru_ok_def ix bu)
  moreover have "cached_count c' = Suc (cached_count c)"
    using assms(2) finite_cached [of c] by (simp add: cached_count_card p domIff)
  ultimately show "cache_ok c'" using po assms(1,3) by (simp add: cache_ok_def h)
qed

text \<open>
  \<open>pinned c p d h c'\<close>: after page \<open>p\<close> with data \<open>d\<close> has been pinned, the handle refers to the cached page,
  every other page still cached is unchanged, and only the pin count of \<open>p\<close> has grown.
\<close>

definition pinned :: "PageCache \<Rightarrow> page_id \<Rightarrow> bytes \<Rightarrow> PageHandle \<Rightarrow> PageCache \<Rightarrow> bool" where
  "pinned c p d h c' \<longleftrightarrow> cached c' p = Some h \<and> cp_data (page_inner c' h) = d \<and>
     cp_pin_count (page_inner c' h) = Suc (case cached c p of None \<Rightarrow> 0 | Some a \<Rightarrow> cp_pin_count (page_inner c a)) \<and>
     pc_page_size c' = pc_page_size c \<and>
     (\<forall>q a. q \<noteq> p \<longrightarrow> cached c' q = Some a \<longrightarrow> cached c q = Some a \<and>
        cp_data (page_inner c' a) = cp_data (page_inner c a) \<and>
        cp_pin_count (page_inner c' a) = cp_pin_count (page_inner c a))"

lemma refresh_ok:
  assumes "cache_ok c"
  shows "cache_ok (try_refresh_lru_index p c) \<and> same_pages c (try_refresh_lru_index p c)"
proof (cases "cached c p")
  case (Some a)
  have "try_refresh_lru_index p c = (if cp_indexed_access (page_inner c a) = cp_last_access (page_inner c a) then c
      else repair_stale p (cp_indexed_access (page_inner c a)) (cp_last_access (page_inner c a)) c)"
    using Some by (simp add: try_refresh_lru_index_def repair_stale_def Let_def)
  with repair_stale_ok [OF assms Some] assms show ?thesis by simp
qed (simp add: try_refresh_lru_index_def assms)

lemma try_pin_ok:
  assumes "cache_ok c" "cached c p = Some a"
  shows "\<exists>c'. try_pin_existing p c = (Some a, c') \<and> cache_ok c' \<and> pinned c p (cp_data (page_inner c a)) a c'"
proof -
  let ?q = "(page_inner c a)\<lparr>cp_pin_count := cp_pin_count (page_inner c a) + 1, cp_last_access := pc_access_counter c\<rparr>"
  let ?d = "set_page_inner a ?q (tick c)"
  have ok: "pages_ok c" "a < length (pc_store c)" "length (cp_data (page_inner c a)) = pc_page_size c"
    using assms pages_ok_addr by (auto simp: cache_ok_def)
  have d: "cache_ok ?d" using set_ok [of "tick c" p a ?q] assms ok by simp
  obtain c' where e: "try_pin_existing p c = (Some a, c')" and r: "cache_ok c'" "same_pages ?d c'"
    using assms(2) refresh_ok [OF d, of p] by (simp add: try_pin_existing_def Let_def)
  have ne: "b \<noteq> a" if "cached c q = Some b" "q \<noteq> p" for q b using that assms(2) pages_ok_inj [OF ok(1)] by blast
  have pg: "pc_pages c' = pc_pages c" "pc_page_size c' = pc_page_size c" using r(2) by (simp_all add: same_pages_def)
  have inner: "cp_data (page_inner c' b) = cp_data (page_inner c b)"
    "cp_pin_count (page_inner c' b) = (if b = a then Suc (cp_pin_count (page_inner c a)) else cp_pin_count (page_inner c b))" for b
    using same_inner(1,2) [OF r(2), of b] ok(2) by (simp_all split: if_splits)
  have "pinned c p (cp_data (page_inner c a)) a c'"
    unfolding pinned_def pg inner using assms(2) ne by auto
  with e r(1) show ?thesis by blast
qed

lemma load_new_page_ok:
  assumes "cache_ok c" "cached c p = None" "length d = pc_page_size c"
    and "evict_one_if_needed c = Some (Inr u, e)" "cache_ok e" "cached_count e < pc_capacity_pages c"
    and "e = c \<or> (\<exists>v. evicted c v e)" "add_page p d dirty pins e = (h, c')"
  shows "cache_ok c' \<and> cached c' p = Some h \<and> cp_data (page_inner c' h) = d \<and> cp_pin_count (page_inner c' h) = pins \<and>
    pc_page_size c' = pc_page_size c \<and>
    (\<forall>q a. q \<noteq> p \<longrightarrow> cached c' q = Some a \<longrightarrow> cached c q = Some a \<and>
        cp_data (page_inner c' a) = cp_data (page_inner c a) \<and>
        cp_pin_count (page_inner c' a) = cp_pin_count (page_inner c a))"
proof -
  have e: "pc_page_size e = pc_page_size c" "pc_capacity_pages e = pc_capacity_pages c" "cached e p = None"
    "cp_data (page_inner e a) = cp_data (page_inner c a)" "cp_pin_count (page_inner e a) = cp_pin_count (page_inner c a)"
    "cached e q = Some a \<Longrightarrow> cached c q = Some a" for a q
    using assms(2,7) by (auto simp: evicted_inner) (auto simp: evicted_def split: if_splits)
  have ps: "pc_page_size c' = pc_page_size e" using assms(8) by (auto simp: add_page_def Let_def)
  have a: "cache_ok c'" "cached c' = (cached e)(p \<mapsto> h)" "cp_data (page_inner c' h) = d"
    "cp_pin_count (page_inner c' h) = pins" "\<forall>q a. cached e q = Some a \<longrightarrow> page_inner c' a = page_inner e a"
    using add_page_ok [OF assms(5) e(3) _ _ assms(8)] assms(3,6) e(1,2) by simp_all
  have "cached c q = Some a \<and> cp_data (page_inner c' a) = cp_data (page_inner c a) \<and>
        cp_pin_count (page_inner c' a) = cp_pin_count (page_inner c a)" if "q \<noteq> p" "cached c' q = Some a" for q a
  proof -
    have "cached e q = Some a" using that a(2) by simp
    with a(5) e(4-6) show ?thesis by simp
  qed
  with a(1-4) ps e(1) show ?thesis by simp
qed

lemma pin_or_load_ok:
  fixes loader :: "'s \<Rightarrow> bytes result \<times> 's"
  assumes "cache_ok c"
  shows "\<exists>r c'. pin_or_load p loader (c, s) = Some (r, (c', if cached c p = None then snd (loader s) else s)) \<and> cache_ok c' \<and>
    (case cache_view c p of
       Some d \<Rightarrow> \<exists>h. r = Inr h \<and> pinned c p d h c'
     | None \<Rightarrow> (case fst (loader s) of
         Inl e \<Rightarrow> r = Inl e \<and> c' = c
       | Inr d \<Rightarrow>
           if length d \<noteq> pc_page_size c then (\<exists>e. r = Inl e) \<and> c' = c
           else (\<exists>h. r = Inr h \<and> pinned c p d h c') \<or>
             (\<exists>e. r = Inl e) \<and> same_pages c c' \<and> (\<exists>q. cached c q \<noteq> None) \<and>
               (\<forall>q a. cached c q = Some a \<longrightarrow> cp_pin_count (page_inner c a) \<noteq> 0)))"
proof (cases "cached c p")
  case (Some a)
  from try_pin_ok [OF assms this] Some show ?thesis by (auto simp: pin_or_load_def cache_view_def)
next
  case None
  have np: "try_pin_existing p c = (None, c)" using None by (simp add: try_pin_existing_def)
  obtain l s' where l: "loader s = (l, s')" by fastforce
  show ?thesis
  proof (cases "\<exists>d. l = Inr d \<and> length d = pc_page_size c")
    case False
    with None np l assms show ?thesis by (cases l) (auto simp: pin_or_load_def cache_view_def)
  next
    case True
    then obtain d where d: "l = Inr d" "length d = pc_page_size c" by blast
    then have d': "(if d = [] then replicate (pc_page_size c) 0 else d) = d" by auto
    obtain r e where ev: "evict_one_if_needed c = Some (r, e)" "cache_ok e"
      "case r of Inl x \<Rightarrow> x = Transaction ''page cache is full and every cached page is pinned'' \<and> same_pages c e \<and>
         (\<forall>p a. cached c p = Some a \<longrightarrow> cp_pin_count (page_inner c a) \<noteq> 0) \<and> (\<exists>p. cached c p \<noteq> None)
       | Inr _ \<Rightarrow> cached_count e < pc_capacity_pages c \<and> (e = c \<or> (\<exists>v. evicted c v e))"
      using evict_one_ok [OF assms] by blast
    show ?thesis
    proof (cases r)
      case (Inl x)
      with None np l d d' ev show ?thesis by (simp add: pin_or_load_def cache_view_def Let_def)
    next
      case (Inr u)
      obtain h c' where h: "add_page p d False 1 e = (h, c')" by fastforce
      have "cache_ok c' \<and> pinned c p d h c'"
        using load_new_page_ok [OF assms None d(2) ev(1) [unfolded Inr] ev(2) _ _ h] ev(3) Inr None
        by (simp add: pinned_def)
      with None np l d d' ev(1) Inr h show ?thesis by (simp add: pin_or_load_def cache_view_def Let_def)
    qed
  qed
qed

definition unpinned :: "PageCache \<Rightarrow> bool" where
  "unpinned c \<longleftrightarrow> (\<forall>p a. cached c p = Some a \<longrightarrow> cp_pin_count (page_inner c a) = 0)"

text \<open>\<open>cache_idle c\<close>: the invariant holds and no handle is alive, the state between two calls of the pager.\<close>

definition cache_idle :: "PageCache \<Rightarrow> bool" where
  "cache_idle c \<longleftrightarrow> cache_ok c \<and> unpinned c"

lemma drop_pinned:
  assumes "cache_ok c'" "unpinned c" "pinned c p d h c'"
  shows "cache_idle (handle_drop h c') \<and> cache_view (handle_drop h c') \<subseteq>\<^sub>m (cache_view c)(p \<mapsto> d) \<and>
    cache_view (handle_drop h c') p = Some d \<and> pc_page_size (handle_drop h c') = pc_page_size c"
proof -
  let ?q = "(page_inner c' h)\<lparr>cp_pin_count := cp_pin_count (page_inner c' h) - 1\<rparr>"
  have p: "cached c' p = Some h" "cp_data (page_inner c' h) = d" "cp_pin_count (page_inner c' h) = 1"
    "pc_page_size c' = pc_page_size c"
    using assms(2,3) by (auto simp: pinned_def unpinned_def split: option.splits)
  have other: "cached c q = Some a \<and> cp_data (page_inner c' a) = cp_data (page_inner c a) \<and>
        cp_pin_count (page_inner c' a) = cp_pin_count (page_inner c a)" if "q \<noteq> p" "cached c' q = Some a" for q a
    using that assms(3) by (simp add: pinned_def)
  have ok: "pages_ok c'" "h < length (pc_store c')" "length (cp_data ?q) = pc_page_size c'"
    using assms(1) p(1) pages_ok_addr by (auto simp: cache_ok_def)
  have d: "handle_drop h c' = set_page_inner h ?q c'" by (simp add: handle_drop_def Let_def)
  have ne: "a \<noteq> h" if "q \<noteq> p" "cached c' q = Some a" for q a using that p(1) pages_ok_inj [OF ok(1)] by blast
  have "cache_ok (handle_drop h c')" unfolding d by (rule set_ok [OF assms(1) p(1) ok(3)]) simp
  moreover have "unpinned (handle_drop h c')"
    unfolding unpinned_def
  proof (intro allI impI)
    fix q a assume "cached (handle_drop h c') q = Some a"
    then have "cached c' q = Some a" by (simp add: d)
    then show "cp_pin_count (page_inner (handle_drop h c') a) = 0"
      unfolding d using p(1,3) other [of q a] ne [of q a] ok(2) assms(2) [unfolded unpinned_def, rule_format, of q a]
      by (cases "q = p") simp_all
  qed
  moreover have v: "cache_view (handle_drop h c') q = (if q = p then Some d else cache_view c' q)" for q
    unfolding d using p(1,2) ok(2) by (cases "q = p"; cases "cached c' q") (simp_all add: cache_view_def)
  moreover have "cache_view c' q = cache_view c q" if "q \<noteq> p" "cache_view c' q \<noteq> None" for q
    using other [OF that(1)] that(2) by (cases "cached c' q") (simp_all add: cache_view_def)
  then have "cache_view (handle_drop h c') \<subseteq>\<^sub>m (cache_view c)(p \<mapsto> d)"
    unfolding map_le_def by (intro ballI) (simp add: v domIff split: if_splits)
  ultimately show ?thesis using p(4) by (simp add: cache_idle_def d)
qed

lemma pin_read_ok:
  assumes "cache_idle c"
  shows "case cache_view c p of
      Some d \<Rightarrow> \<exists>c'. pin_read p loader (c, s) = Some (Inr d, (c', s)) \<and> cache_idle c' \<and>
        cache_view c' \<subseteq>\<^sub>m cache_view c \<and> pc_page_size c' = pc_page_size c
    | None \<Rightarrow> (case loader s of
        (Inl e, s') \<Rightarrow> pin_read p loader (c, s) = Some (Inl e, (c, s'))
      | (Inr d, s') \<Rightarrow> length d = pc_page_size c \<longrightarrow>
          (\<exists>c'. pin_read p loader (c, s) = Some (Inr d, (c', s')) \<and> cache_idle c' \<and>
            cache_view c' \<subseteq>\<^sub>m (cache_view c)(p \<mapsto> d) \<and> pc_page_size c' = pc_page_size c))"
proof -
  have ok: "cache_ok c" "unpinned c" using assms by (simp_all add: cache_idle_def)
  have rd: "pin_read p loader (c, s) = Some (Inr d, (handle_drop h c', s'))"
    if "pin_or_load p loader (c, s) = Some (Inr h, (c', s'))" "pinned c p d h c'" for h c' s' d
    using that by (simp add: pin_read_def handle_read_def pinned_def)
  show ?thesis
  proof (cases "cache_view c p")
    case (Some d)
    then have "cached c p \<noteq> None" by (auto simp: cache_view_def)
    with pin_or_load_ok [OF ok(1), of p loader s] Some obtain h c' where
      l: "pin_or_load p loader (c, s) = Some (Inr h, (c', s))" "cache_ok c'" "pinned c p d h c'" by auto
    from drop_pinned [OF l(2) ok(2) l(3)] rd [OF l(1,3)] Some show ?thesis
      by (auto simp: fun_upd_idem)
  next
    case None
    then have n: "cached c p = None" by (simp add: cache_view_def)
    obtain l s' where l: "loader s = (l, s')" by fastforce
    show ?thesis
    proof (cases l)
      case (Inl e)
      with pin_or_load_ok [OF ok(1), of p loader s] None n l show ?thesis by (auto simp: pin_read_def)
    next
      case (Inr d)
      show ?thesis
      proof (cases "length d = pc_page_size c")
        case True
        have nf: "\<not> ((\<exists>q. cached c q \<noteq> None) \<and> (\<forall>q a. cached c q = Some a \<longrightarrow> cp_pin_count (page_inner c a) \<noteq> 0))"
          using ok(2) by (auto simp: unpinned_def)
        obtain r c' where q: "pin_or_load p loader (c, s) = Some (r, (c', s'))" "cache_ok c'"
          "(\<exists>h. r = Inr h \<and> pinned c p d h c') \<or>
             (\<exists>e. r = Inl e) \<and> same_pages c c' \<and> (\<exists>q. cached c q \<noteq> None) \<and>
               (\<forall>q a. cached c q = Some a \<longrightarrow> cp_pin_count (page_inner c a) \<noteq> 0)"
          using pin_or_load_ok [OF ok(1), of p loader s] unfolding None n l Inr
          by (simp only: True fst_conv snd_conv option.case sum.case simp_thms if_True if_False) blast
        from q(3) nf obtain h where "r = Inr h" "pinned c p d h c'" by (elim disjE) blast+
        with q(1,2) have m: "pin_or_load p loader (c, s) = Some (Inr h, (c', s'))" "cache_ok c'" "pinned c p d h c'"
          by simp_all
        from drop_pinned [OF m(2) ok(2) m(3)] rd [OF m(1,3)] None l Inr show ?thesis by simp
      qed (use None l Inr in simp)
    qed
  qed
qed

lemma insert_page_ok:
  assumes "cache_idle c" "length data = pc_page_size c"
  shows "\<exists>c'. insert_page p data dirty c = Some (Inr (), c') \<and> cache_idle c' \<and>
    cache_view c' \<subseteq>\<^sub>m (cache_view c)(p \<mapsto> data) \<and> cache_view c' p = Some data \<and> pc_page_size c' = pc_page_size c"
proof -
  have ok: "cache_ok c" "pages_ok c" "unpinned c" using assms by (simp_all add: cache_idle_def cache_ok_def)
  have unp: "cp_pin_count (page_inner c a) = 0" if "cached c q = Some a" for q a using ok(3) that by (auto simp: unpinned_def)
  show ?thesis
  proof (cases "cached c p")
    case (Some a)
    let ?q = "(page_inner c a)\<lparr>cp_data := data, cp_dirty := dirty, cp_last_access := pc_access_counter c,
        cp_indexed_access := pc_access_counter c\<rparr>"
    let ?d = "set_page_inner a ?q (tick c)"
    have a: "a < length (pc_store c)" using pages_ok_addr [OF ok(2) Some] by simp
    obtain c' where c': "insert_page p data dirty c = Some (Inr (), c')" "cache_ok c'"
      "pc_pages c' = pc_pages c" "page_inner c' = page_inner ?d" "pc_page_size c' = pc_page_size c"
    proof (cases "pc_access_counter c = cp_indexed_access (page_inner c a)")
      case True
      have "cache_ok ?d" using set_ok [of "tick c" p a ?q] ok(1) Some assms(2) True by simp
      with True Some assms(2) show ?thesis by (intro that [of ?d]) (simp_all add: insert_page_def Let_def)
    next
      case False
      have "cache_ok (push_lru p (cp_indexed_access ?q)
           (remove_from_lru_index p (cp_indexed_access (page_inner (tick c) a)) ?d))"
        by (rule reindex_ok) (use ok(1) Some assms(2) in simp_all)
      with False Some assms(2) show ?thesis
        by (intro that [of "push_lru p (pc_access_counter c) (remove_from_lru_index p (cp_indexed_access (page_inner c a)) ?d)"])
           (simp_all add: insert_page_def Let_def)
    qed
    have inner: "page_inner c' b = (if b = a then ?q else page_inner c b)" for b using c'(4) a by simp
    have "cache_view c' q = (if q = p then Some data else cache_view c q)" for q
      using Some pages_ok_inj [OF ok(2) _ Some, of q] by (cases "cached c q") (auto simp: cache_view_def c'(3) inner)
    moreover have "unpinned c'" unfolding unpinned_def c'(3) inner using unp by simp
    ultimately show ?thesis using c' by (auto simp: cache_idle_def map_le_def)
  next
    case None
    obtain r e where ev: "evict_one_if_needed c = Some (r, e)" "cache_ok e"
      "case r of Inl x \<Rightarrow> x = Transaction ''page cache is full and every cached page is pinned'' \<and> same_pages c e \<and>
         (\<forall>p a. cached c p = Some a \<longrightarrow> cp_pin_count (page_inner c a) \<noteq> 0) \<and> (\<exists>p. cached c p \<noteq> None)
       | Inr _ \<Rightarrow> cached_count e < pc_capacity_pages c \<and> (e = c \<or> (\<exists>v. evicted c v e))"
      using evict_one_ok [OF ok(1)] by blast
    obtain u where u: "r = Inr u" using ev(3) unp by (cases r) auto
    obtain h c' where h: "add_page p data dirty 0 e = (h, c')" by fastforce
    have l: "cache_ok c'" "cached c' p = Some h" "cp_data (page_inner c' h) = data" "cp_pin_count (page_inner c' h) = 0"
      "pc_page_size c' = pc_page_size c"
      "\<And>q a. q \<noteq> p \<Longrightarrow> cached c' q = Some a \<Longrightarrow> cached c q = Some a \<and>
        cp_data (page_inner c' a) = cp_data (page_inner c a) \<and> cp_pin_count (page_inner c' a) = cp_pin_count (page_inner c a)"
      using load_new_page_ok [OF ok(1) None assms(2) ev(1) [unfolded u] ev(2) _ _ h] ev(3) u by simp_all
    have i: "insert_page p data dirty c = Some (Inr (), c')" using None assms(2) ev(1) u h by (simp add: insert_page_def)
    have v: "cache_view c' p = Some data" using l(2,3) by (simp add: cache_view_def)
    have "unpinned c'" unfolding unpinned_def
    proof (intro allI impI)
      fix q a assume "cached c' q = Some a"
      then show "cp_pin_count (page_inner c' a) = 0" using l(2,4) l(6) [of q a] unp [of q a] by (cases "q = p") simp_all
    qed
    moreover have "cache_view c' q = ((cache_view c)(p \<mapsto> data)) q" if "cache_view c' q \<noteq> None" for q
      using that v l(6) [of q] by (cases "q = p"; cases "cached c' q") (simp_all add: cache_view_def)
    ultimately show ?thesis using i l(1,5) v by (auto simp: cache_idle_def map_le_def domIff)
  qed
qed

lemma cache_clear_ok [simp]:
  "0 < pc_capacity_pages c \<Longrightarrow> cache_idle (cache_clear c)" "cache_view (cache_clear c) = Map.empty"
  "pc_page_size (cache_clear c) = pc_page_size c" "pc_capacity_pages (cache_clear c) = pc_capacity_pages c"
  by (simp_all add: cache_idle_def cache_ok_def pages_ok_def lru_ok_def unpinned_def cache_clear_def bucket_def
      indexed_at_def cached_count_card cache_view_def fun_eq_iff)

lemma page_cache_new_ok [simp]:
  "cache_idle (page_cache_new n k)" "cache_view (page_cache_new n k) = Map.empty" "pc_page_size (page_cache_new n k) = k"
  by (simp_all add: cache_idle_def cache_ok_def pages_ok_def lru_ok_def unpinned_def page_cache_new_def bucket_def
      indexed_at_def cached_count_card cache_view_def fun_eq_iff)

lemma cache_discard_ok:
  assumes "cache_idle c"
  shows "cache_idle (cache_discard p c) \<and> cache_view (cache_discard p c) = (cache_view c)(p := None)"
proof (cases "cached c p")
  case None
  let ?d = "c\<lparr>pc_pages := RBT.delete p (pc_pages c)\<rparr>"
  have d: "cached ?d = cached c" "page_inner ?d = page_inner c" "bucket ?d = bucket c" "cache_discard p c = ?d"
    using None by (auto simp: page_inner_def bucket_def cache_discard_def Let_def fun_eq_iff)
  have "cache_view ?d = cache_view c" "indexed_at ?d = indexed_at c" by (simp_all only: cache_view_def indexed_at_def d fun_eq_iff) simp_all
  then show ?thesis
    using assms None unfolding cache_idle_def cache_ok_def pages_ok_def lru_ok_def unpinned_def cached_count_card d
    by (simp add: cache_view_def fun_eq_iff)
next
  case (Some a)
  have e: "cache_discard p c = remove_from_lru_index p (cp_indexed_access (page_inner c a)) (c\<lparr>pc_pages := RBT.delete p (pc_pages c)\<rparr>)"
    using Some by (simp add: cache_discard_def Let_def remove_from_lru_index_def split: option.split)
  from drop_page_ok [of c p a] Some assms show ?thesis
    by (auto simp: e cache_idle_def unpinned_def evicted_view evicted_inner) (auto simp: evicted_def page_inner_def split: if_splits)
qed

section \<open>Properties\<close>

text \<open>C17: eviction. The loop that looks for a victim returns in every state that satisfies the invariant,
  also when the index holds stale timestamps.  It fails only if every cached page is pinned; otherwise it
  removes exactly one page, which is not pinned and was used least recently among the pages that are not,
  and it leaves the data and the pins of all other pages alone and the invariant intact.\<close>

theorem cache_evicts_lru:
  assumes "cache_ok c" "clock_ok c"
  shows "if \<forall>p a. cached c p = Some a \<longrightarrow> cp_pin_count (page_inner c a) \<noteq> 0
    then \<exists>c'. evict_loop c = Some (Inl (Transaction ''page cache is full and every cached page is pinned''), c') \<and>
      cache_ok c' \<and> cache_view c' = cache_view c
    else \<exists>v a c'. evict_loop c = Some (Inr (), c') \<and> cache_ok c' \<and>
      cached c v = Some a \<and> cp_pin_count (page_inner c a) = 0 \<and>
      (\<forall>q b. cached c q = Some b \<longrightarrow> cp_pin_count (page_inner c b) = 0 \<longrightarrow>
         cp_last_access (page_inner c a) \<le> cp_last_access (page_inner c b)) \<and>
      cached c' = (cached c)(v := None) \<and> cache_view c' = (cache_view c)(v := None) \<and>
      (\<forall>b. cp_pin_count (page_inner c' b) = cp_pin_count (page_inner c b))"
proof -
  obtain r c' where e: "evict_loop c = Some (r, c')" "evict_post c r c'" using evict_loop_ok [OF assms(1)] by blast
  show ?thesis
  proof (cases r)
    case (Inl x)
    with e show ?thesis by (simp add: evict_post_def same_pages_view)
  next
    case (Inr u)
    with e(2) assms(2) obtain v a where v: "cache_ok c'" "cached c v = Some a" "cp_pin_count (page_inner c a) = 0" "evicted c v c'"
      "\<forall>q b. cached c q = Some b \<longrightarrow> cp_pin_count (page_inner c b) = 0 \<longrightarrow>
         cp_last_access (page_inner c a) \<le> cp_last_access (page_inner c b)"
      unfolding evict_post_def by auto
    have "cached c' = (cached c)(v := None)" "cache_view c' = (cache_view c)(v := None)"
      "\<forall>b. cp_pin_count (page_inner c' b) = cp_pin_count (page_inner c b)"
      using v(4) evicted_view evicted_inner(2) by (auto simp: evicted_def)
    moreover have "evict_loop c = Some (Inr (), c')" using e(1) Inr by simp
    ultimately have "\<exists>v a c'. evict_loop c = Some (Inr (), c') \<and> cache_ok c' \<and>
      cached c v = Some a \<and> cp_pin_count (page_inner c a) = 0 \<and>
      (\<forall>q b. cached c q = Some b \<longrightarrow> cp_pin_count (page_inner c b) = 0 \<longrightarrow>
         cp_last_access (page_inner c a) \<le> cp_last_access (page_inner c b)) \<and>
      cached c' = (cached c)(v := None) \<and> cache_view c' = (cache_view c)(v := None) \<and>
      (\<forall>b. cp_pin_count (page_inner c' b) = cp_pin_count (page_inner c b))" using v by blast
    moreover have "\<not> (\<forall>p a. cached c p = Some a \<longrightarrow> cp_pin_count (page_inner c a) \<noteq> 0)" using v(2,3) by blast
    ultimately show ?thesis by (simp only: if_False)
  qed
qed

text \<open>A cache of one page in which page 5 was read.\<close>

definition one_page_cache :: PageCache where
  "one_page_cache = snd (add_page 5 [7] False 0 (page_cache_new 1 1))"

theorem cache_evicts_lru_witness:
  "\<exists>v a c'. evict_loop one_page_cache = Some (Inr (), c') \<and> cache_ok c' \<and> cached one_page_cache v = Some a \<and>
     cached c' = (cached one_page_cache)(v := None)"
proof -
  have ne: "cached (page_cache_new 1 1) 5 = None" by (simp add: page_cache_new_def)
  obtain h c' where a: "add_page 5 [7] False 0 (page_cache_new 1 1) = (h, c')" by fastforce
  then have c': "c' = one_page_cache" by (simp add: one_page_cache_def)
  have ok: "cache_ok (page_cache_new 1 1)" using page_cache_new_ok(1) [of 1 1] by (simp add: cache_idle_def)
  have n: "cached_count (page_cache_new 1 1) < pc_capacity_pages (page_cache_new 1 1)"
    by (simp add: page_cache_new_def cached_count_card)
  have o: "cache_ok one_page_cache" "cached one_page_cache = [5 \<mapsto> h]" "cp_pin_count (page_inner one_page_cache h) = 0"
    using add_page_ok(1,2,4) [OF ok ne n _ a] c' by (simp_all add: page_cache_new_def fun_eq_iff)
  have "clock_ok one_page_cache"
    using a o(2) by (auto simp: clock_ok_def one_page_cache_def add_page_def page_cache_new_def tick_def page_inner_def
        push_lru_def Let_def)
  from cache_evicts_lru [OF o(1) this] o show ?thesis by (auto split: if_splits)
qed

end
