(* ===== verification/Pager.thy ===== *)
theory Pager
  imports PageCache Pages DbHeader
begin

text \<open>
  The pager, \<open>storage/pager.rs\<close>: pages of the main database file behind the page cache, the
  database header and the freelist kept in the file.  It is generic in the file, as the code
  is in \<open>VfsFile\<close>.  The file length is tracked in \<open>db_page_count\<close>, from which reads beyond the
  end are answered with zeroed pages.
\<close>

section \<open>Definitions\<close>

record 'f Pager =
  pg_file :: 'f
  pg_page_size :: u32
  pg_cache :: PageCache
  pg_header :: DatabaseHeader
  pg_page_pool :: "bytes list"
  pg_page_pool_max :: nat
  pg_db_page_count :: page_id

definition open_with_known_page_count ::
  "'f \<Rightarrow> DatabaseHeader \<Rightarrow> nat \<Rightarrow> nat \<Rightarrow> page_id \<Rightarrow> 'f Pager"
where
  "open_with_known_page_count file header cache_size_mb page_pool_max db_page_count =
     (let page_size = h_page_size header;
          bs = min (cache_size_mb * (1024 * 1024)) (2 ^ 64 - 1);
          capacity_pages = max (bs div unat page_size) 1
      in \<lparr>pg_file = file, pg_page_size = page_size, pg_cache = page_cache_new capacity_pages (unat page_size),
          pg_header = header, pg_page_pool = [], pg_page_pool_max = page_pool_max,
          pg_db_page_count = db_page_count\<rparr>)"

definition open_with_page_pool ::
  "'f vfs_file_ops \<Rightarrow> 'f \<Rightarrow> DatabaseHeader \<Rightarrow> nat \<Rightarrow> nat \<Rightarrow> 'f Pager result"
where
  "open_with_page_pool ops file header cache_size_mb page_pool_max =
     rbind (vf_file_size ops file) (\<lambda>len.
       Inr (open_with_known_page_count file header cache_size_mb page_pool_max
              (page_count_for_len len (h_page_size header))))"

definition open_fresh_bootstrap_with_page_pool :: "'f \<Rightarrow> DatabaseHeader \<Rightarrow> nat \<Rightarrow> nat \<Rightarrow> 'f Pager" where
  "open_fresh_bootstrap_with_page_pool file header cache_size_mb page_pool_max =
     open_with_known_page_count file header cache_size_mb page_pool_max 2"

text \<open>
  A recycled buffer has been cleared; taking one resizes it to a page and fills it with zeros.
\<close>

definition take_page_buffer :: "'f Pager \<Rightarrow> bytes \<times> 'f Pager" where
  "take_page_buffer pg =
     (if pg_page_pool_max pg \<noteq> 0 \<and> pg_page_pool pg \<noteq> []
      then (map (\<lambda>_. 0) (vec_resize (last (pg_page_pool pg)) (unat (pg_page_size pg))),
            pg\<lparr>pg_page_pool := butlast (pg_page_pool pg)\<rparr>)
      else (zeroed_page (pg_page_size pg), pg))"

text \<open>The buffers given back are page buffers, whose capacity is at least a page.\<close>

definition recycle_page_buffer :: "bytes \<Rightarrow> 'f Pager \<Rightarrow> 'f Pager" where
  "recycle_page_buffer buffer pg =
     (if pg_page_pool_max pg = 0 \<or> length buffer < unat (pg_page_size pg) then pg
      else if length (pg_page_pool pg) < pg_page_pool_max pg
      then pg\<lparr>pg_page_pool := pg_page_pool pg @ [[]]\<rparr> else pg)"

definition load_page_from_disk :: "'f vfs_file_ops \<Rightarrow> page_id \<Rightarrow> 'f Pager \<Rightarrow> bytes result \<times> 'f Pager" where
  "load_page_from_disk ops page_id pg =
     (if page_id > pg_db_page_count pg
      then let (buffer, pg) = take_page_buffer pg in (Inr buffer, pg)
      else
        let (buffer, pg) = take_page_buffer pg
        in (read_exact_at ops (page_offset page_id (pg_page_size pg)) (length buffer) (pg_file pg), pg))"

definition bump_db_page_count_from_len :: "u64 \<Rightarrow> 'f Pager \<Rightarrow> 'f Pager" where
  "bump_db_page_count_from_len file_len pg =
     pg\<lparr>pg_db_page_count := max (pg_db_page_count pg) (page_count_for_len file_len (pg_page_size pg))\<rparr>"

definition set_db_page_count_from_len :: "u64 \<Rightarrow> 'f Pager \<Rightarrow> 'f Pager" where
  "set_db_page_count_from_len file_len pg =
     pg\<lparr>pg_db_page_count := page_count_for_len file_len (pg_page_size pg)\<rparr>"

definition refresh_db_page_count :: "'f vfs_file_ops \<Rightarrow> 'f Pager \<Rightarrow> unit result \<times> 'f Pager" where
  "refresh_db_page_count ops pg =
     (case vf_file_size ops (pg_file pg) of
        Inl e \<Rightarrow> (Inl e, pg)
      | Inr len \<Rightarrow> (Inr (), pg\<lparr>pg_db_page_count := page_count_for_len len (pg_page_size pg)\<rparr>))"

text \<open>Operations of the file and of the cache, applied inside the pager.\<close>

definition with_file :: "('f \<Rightarrow> 'a result \<times> 'f) \<Rightarrow> ('f Pager, 'a) prog" where
  "with_file m pg = (let (r, f) = m (pg_file pg) in Some (r, pg\<lparr>pg_file := f\<rparr>))"

definition with_cache :: "(PageCache, 'a) prog \<Rightarrow> ('f Pager, 'a) prog" where
  "with_cache m pg = (case m (pg_cache pg) of None \<Rightarrow> None | Some (r, c) \<Rightarrow> Some (r, pg\<lparr>pg_cache := c\<rparr>))"

definition pager_upd :: "('f Pager \<Rightarrow> 'f Pager) \<Rightarrow> ('f Pager, unit) prog" where
  "pager_upd f pg = Some (Inr (), f pg)"

definition read_page :: "'f vfs_file_ops \<Rightarrow> page_id \<Rightarrow> ('f Pager, bytes) prog" where
  "read_page ops page_id =
     pbind (plift (validate_page_id page_id)) (\<lambda>_ pg.
       case pin_read page_id (load_page_from_disk ops page_id) (pg_cache pg, pg) of
         None \<Rightarrow> None
       | Some (r, (c, pg)) \<Rightarrow> Some (r, pg\<lparr>pg_cache := c\<rparr>))"

definition read_page_from_disk :: "'f vfs_file_ops \<Rightarrow> page_id \<Rightarrow> ('f Pager, bytes) prog" where
  "read_page_from_disk ops page_id =
     pbind (plift (validate_page_id page_id)) (\<lambda>_. pstep (load_page_from_disk ops page_id))"

definition write_page_direct :: "'f vfs_file_ops \<Rightarrow> page_id \<Rightarrow> bytes \<Rightarrow> ('f Pager, unit) prog" where
  "write_page_direct ops page_id data =
     pbind (plift (validate_page_id page_id)) (\<lambda>_ pg.
       if length data \<noteq> unat (pg_page_size pg)
       then Some (Inl (Internal ''page write length does not match page size''), pg)
       else
         let off = page_offset page_id (pg_page_size pg);
             required_len = off + ucast (pg_page_size pg)
         in pbind (with_file (write_all_at ops off data)) (\<lambda>_.
            pbind (\<lambda>pg. Some (vf_file_size ops (pg_file pg), pg)) (\<lambda>size'.
            pbind (if size' < required_len then with_file (vf_set_len ops required_len) else pret ()) (\<lambda>_.
            pbind (pager_upd (bump_db_page_count_from_len required_len)) (\<lambda>_.
            with_cache (insert_clean_page page_id data))))) pg)"

definition u32_checked_add :: "u32 \<Rightarrow> u32 \<Rightarrow> u32 option" where
  "u32_checked_add a b = (if unat a + unat b < 2 ^ 32 then Some (a + b) else None)"

definition write_pages_contiguous_no_cache ::
  "'f vfs_file_ops \<Rightarrow> page_id \<Rightarrow> bytes \<Rightarrow> ('f Pager, unit) prog"
where
  "write_pages_contiguous_no_cache ops start_page_id pages =
     pbind (plift (validate_page_id start_page_id)) (\<lambda>_ pg.
       let page_size = unat (pg_page_size pg)
       in if length pages mod page_size \<noteq> 0
          then Some (Inl (Internal ''contiguous write buffer length is not a multiple of page size''), pg)
          else
            let count = length pages div page_size
            in if count = 0 then Some (Inr (), pg)
               else
                 pbind (plift (ok_or (Internal ''contiguous database write contains too many pages'')
                          (u32_try_from count))) (\<lambda>count.
                 pbind (plift (ok_or (Internal ''contiguous database write page range overflows'')
                          (u32_checked_add start_page_id (u32_saturating_sub count 1)))) (\<lambda>_.
                 let off = page_offset start_page_id (pg_page_size pg)
                 in pbind (plift (ok_or (Internal ''contiguous database write length overflows'')
                          (u64_checked_add off (of_nat (length pages))))) (\<lambda>required_len.
                    pbind (with_file (write_all_at ops off pages)) (\<lambda>_.
                    pager_upd (bump_db_page_count_from_len required_len))))) pg)"

definition pager_sync_data :: "'f vfs_file_ops \<Rightarrow> ('f Pager, unit) prog" where
  "pager_sync_data ops = with_file (vf_sync_data ops)"

definition on_disk_page_count :: "'f vfs_file_ops \<Rightarrow> 'f Pager \<Rightarrow> page_id result" where
  "on_disk_page_count ops pg =
     rmap (\<lambda>len. page_count_for_len len (pg_page_size pg)) (vf_file_size ops (pg_file pg))"

definition cached_page_count :: "'f Pager \<Rightarrow> page_id" where
  "cached_page_count pg = pg_db_page_count pg"

definition header_page :: "crc_cpu \<Rightarrow> DatabaseHeader \<Rightarrow> 'f Pager \<Rightarrow> bytes" where
  "header_page cpu header pg = copy_at (zeroed_page (pg_page_size pg)) 0 (header_encode cpu header)"

definition persist_header :: "crc_cpu \<Rightarrow> 'f vfs_file_ops \<Rightarrow> DatabaseHeader \<Rightarrow> ('f Pager, unit) prog" where
  "persist_header cpu ops header =
     pbind (with_file (write_all_at ops 0 (header_encode cpu header))) (\<lambda>_ pg.
       with_cache (insert_clean_page HEADER_PAGE_ID (header_page cpu header pg)) pg)"

text \<open>The in-memory header is changed under its lock before it is written.\<close>

definition set_last_checkpoint_lsn :: "crc_cpu \<Rightarrow> 'f vfs_file_ops \<Rightarrow> u64 \<Rightarrow> ('f Pager, unit) prog" where
  "set_last_checkpoint_lsn cpu ops lsn pg =
     (let header = (pg_header pg)\<lparr>h_last_checkpoint_lsn := lsn\<rparr>
      in persist_header cpu ops header (pg\<lparr>pg_header := header\<rparr>))"

definition set_schema_cookie :: "crc_cpu \<Rightarrow> 'f vfs_file_ops \<Rightarrow> u32 \<Rightarrow> ('f Pager, unit) prog" where
  "set_schema_cookie cpu ops schema_cookie pg =
     (let header = (pg_header pg)\<lparr>h_schema_cookie := schema_cookie\<rparr>
      in persist_header cpu ops header (pg\<lparr>pg_header := header\<rparr>))"

definition header_snapshot :: "'f Pager \<Rightarrow> DatabaseHeader" where
  "header_snapshot pg = pg_header pg"

definition header_from_disk :: "crc_cpu \<Rightarrow> 'f vfs_file_ops \<Rightarrow> 'f Pager \<Rightarrow> DatabaseHeader result" where
  "header_from_disk cpu ops pg = rbind (read_exact_at ops 0 DB_HEADER_SIZE (pg_file pg)) (header_decode cpu)"

definition refresh_from_disk :: "'f vfs_file_ops \<Rightarrow> DatabaseHeader \<Rightarrow> 'f Pager \<Rightarrow> unit result \<times> 'f Pager" where
  "refresh_from_disk ops header pg =
     (if h_page_size header \<noteq> pg_page_size pg then (Inl (Corruption ''database page size changed''), pg)
      else
        case refresh_db_page_count ops (pg\<lparr>pg_cache := cache_clear (pg_cache pg)\<rparr>) of
          (Inl e, pg) \<Rightarrow> (Inl e, pg)
        | (Inr _, pg) \<Rightarrow> (Inr (), pg\<lparr>pg_header := header\<rparr>))"

definition invalidate_cache_after_local_checkpoint :: "'f Pager \<Rightarrow> 'f Pager" where
  "invalidate_cache_after_local_checkpoint pg = pg\<lparr>pg_cache := cache_clear (pg_cache pg)\<rparr>"

definition refresh_header_from_disk_after_local_checkpoint ::
  "crc_cpu \<Rightarrow> 'f vfs_file_ops \<Rightarrow> 'f Pager \<Rightarrow> unit result \<times> 'f Pager"
where
  "refresh_header_from_disk_after_local_checkpoint cpu ops pg =
     (case header_from_disk cpu ops pg of
        Inl e \<Rightarrow> (Inl e, pg)
      | Inr header \<Rightarrow>
          if h_page_size header \<noteq> pg_page_size pg then (Inl (Corruption ''database page size changed''), pg)
          else (Inr (), pg\<lparr>pg_header := header\<rparr>))"

definition read_freelist_next :: "'f vfs_file_ops \<Rightarrow> page_id \<Rightarrow> ('f Pager, page_id) prog" where
  "read_freelist_next ops page_id pg =
     (let (buffer, pg) = take_page_buffer pg
      in case read_exact_at ops (page_offset page_id (pg_page_size pg)) (length buffer) (pg_file pg) of
           Inl e \<Rightarrow> Some (Inl e, pg)
         | Inr page \<Rightarrow> Some (decode_freelist_next page, recycle_page_buffer page pg))"

text \<open>The walk along the freelist; it ends at page id 0.\<close>

partial_function (option) freelist_walk ::
  "'f vfs_file_ops \<Rightarrow> page_id \<Rightarrow> page_id list \<Rightarrow> 'f Pager \<Rightarrow> (page_id list result \<times> 'f Pager) option"
where
  "freelist_walk ops page_id ordered pg =
     (if page_id = 0 then Some (Inr ordered, pg)
      else case read_freelist_next ops page_id pg of
        None \<Rightarrow> None
      | Some (r, pg) \<Rightarrow>
          (case r of
             Inl e \<Rightarrow> Some (Inl e, pg)
           | Inr next' \<Rightarrow> freelist_walk ops next' (ordered @ [page_id]) pg))"

text \<open>The pages at the end of the file that are free: the new page count and the pages trimmed.\<close>

function trim_tail :: "page_id set \<Rightarrow> page_id \<Rightarrow> page_id list \<Rightarrow> page_id \<times> page_id list" where
  "trim_tail freelist_pages new_page_count trimmed =
     (if new_page_count > CATALOG_ROOT_PAGE_ID \<and> new_page_count \<in> freelist_pages
      then trim_tail freelist_pages (u32_saturating_sub new_page_count 1) (trimmed @ [new_page_count])
      else (new_page_count, trimmed))"
  by pat_completeness auto
termination
proof (relation "measure (\<lambda>(_, n, _). unat n)", goal_cases)
  case (2 freelist_pages n trimmed)
  then have "1 \<le> n" "n \<noteq> 0" by (auto simp: CATALOG_ROOT_PAGE_ID_def word_le_nat_alt word_less_nat_alt)
  then show ?case by (simp add: u32_saturating_sub_def unat_sub unat_gt_0)
qed simp

declare trim_tail.simps [simp del]

text \<open>The remaining free pages are linked again, each to its successor.\<close>

fun relink :: "'f vfs_file_ops \<Rightarrow> page_id list \<Rightarrow> ('f Pager, unit) prog" where
  "relink ops [] = pret ()"
| "relink ops (page_id # rest) = (\<lambda>pg.
     pbind (with_file (write_all_at ops (page_offset page_id (pg_page_size pg))
              (encode_freelist_page (pg_page_size pg) (case rest of [] \<Rightarrow> 0 | next' # _ \<Rightarrow> next'))))
       (\<lambda>_. relink ops rest) pg)"

definition truncate_freelist_tail :: "crc_cpu \<Rightarrow> 'f vfs_file_ops \<Rightarrow> ('f Pager, page_id option) prog" where
  "truncate_freelist_tail cpu ops pg =
     (let header = header_snapshot pg; freelist = h_freelist header
      in if fl_head_page_id freelist = 0 \<or> fl_page_count freelist = 0 then Some (Inr None, pg)
         else
           pbind (\<lambda>pg. Some (on_disk_page_count ops pg, pg)) (\<lambda>current_page_count.
             if current_page_count \<le> CATALOG_ROOT_PAGE_ID then pret None
             else pbind (freelist_walk ops (fl_head_page_id freelist) []) (\<lambda>ordered_freelist_pages.
               let (new_page_count, trimmed_pages) = trim_tail (set ordered_freelist_pages) current_page_count []
               in if trimmed_pages = [] then pret None
                  else
                    let remaining_pages = filter (\<lambda>p. p \<notin> set trimmed_pages) ordered_freelist_pages;
                        header = header\<lparr>h_freelist := freelist\<lparr>
                          fl_head_page_id := (case remaining_pages of [] \<Rightarrow> 0 | p # _ \<Rightarrow> p),
                          fl_page_count := u32_saturating_sub (fl_page_count freelist) (of_nat (length trimmed_pages))\<rparr>\<rparr>
                    in pbind (relink ops remaining_pages) (\<lambda>_.
                       pbind (persist_header cpu ops header) (\<lambda>_ pg.
                         let new_len = page_offset (u32_saturating_add new_page_count 1) (pg_page_size pg)
                         in pbind (with_file (vf_set_len ops new_len)) (\<lambda>_ pg.
                              Some (Inr (Some new_page_count),
                                (set_db_page_count_from_len new_len pg)
                                  \<lparr>pg_cache := cache_clear (pg_cache pg), pg_header := header\<rparr>)) pg)))) pg)"

text \<open>Allocation and release of single pages directly in the file.\<close>

definition pager_allocate_page :: "crc_cpu \<Rightarrow> 'f vfs_file_ops \<Rightarrow> ('f Pager, page_id) prog" where
  "pager_allocate_page cpu ops pg =
     (let freelist = h_freelist (pg_header pg)
      in if fl_head_page_id freelist \<noteq> 0
         then
           let page_id = fl_head_page_id freelist
           in pbind (read_freelist_next ops page_id) (\<lambda>next' pg.
                let header = (pg_header pg)\<lparr>h_freelist := freelist\<lparr>fl_head_page_id := next',
                      fl_page_count := u32_saturating_sub (fl_page_count freelist) 1\<rparr>\<rparr>
                in pbind (persist_header cpu ops header) (\<lambda>_.
                   pbind (pager_upd (\<lambda>pg. pg\<lparr>pg_cache := cache_discard page_id (pg_cache pg)\<rparr>)) (\<lambda>_.
                   pret page_id)) (pg\<lparr>pg_header := header\<rparr>)) pg
         else
           pbind (\<lambda>pg. Some (on_disk_page_count ops pg, pg)) (\<lambda>count.
             let page_id = count + 1
             in (\<lambda>pg.
               let (empty, pg) = take_page_buffer pg;
                   off = page_offset page_id (pg_page_size pg);
                   new_len = off + ucast (pg_page_size pg)
               in pbind (with_file (write_all_at ops off empty)) (\<lambda>_.
                  pbind (pager_upd (recycle_page_buffer empty)) (\<lambda>_.
                  pbind (with_file (vf_set_len ops new_len)) (\<lambda>_.
                  pbind (pager_upd (bump_db_page_count_from_len new_len)) (\<lambda>_.
                  pret page_id)))) pg)) pg)"

definition pager_free_page :: "crc_cpu \<Rightarrow> 'f vfs_file_ops \<Rightarrow> page_id \<Rightarrow> ('f Pager, unit) prog" where
  "pager_free_page cpu ops page_id pg =
     (if page_id \<le> CATALOG_ROOT_PAGE_ID
      then Some (Inl (Transaction ''page is reserved and cannot be freed''), pg)
      else
        let freelist = h_freelist (pg_header pg)
        in pbind (with_file (write_all_at ops (page_offset page_id (pg_page_size pg))
                    (encode_freelist_page (pg_page_size pg) (fl_head_page_id freelist)))) (\<lambda>_ pg.
             let header = (pg_header pg)\<lparr>h_freelist := freelist\<lparr>fl_head_page_id := page_id,
                   fl_page_count := fl_page_count freelist + 1\<rparr>\<rparr>
             in pbind (persist_header cpu ops header) (\<lambda>_.
                  pager_upd (\<lambda>pg. pg\<lparr>pg_cache := cache_discard page_id (pg_cache pg)\<rparr>))
                  (pg\<lparr>pg_header := header\<rparr>)) pg)"

section \<open>The pages of a file\<close>

text \<open>Bytes beyond the end of the file read as zeros; a page is taken from there.\<close>

definition pget :: "bytes \<Rightarrow> nat \<Rightarrow> u8" where
  "pget c i = (if i < length c then c ! i else 0)"

definition disk_page :: "bytes \<Rightarrow> nat \<Rightarrow> page_id \<Rightarrow> bytes" where
  "disk_page c ps p = map (\<lambda>j. pget c ((unat p - 1) * ps + j)) [0..<ps]"

lemma length_disk_page [simp]: "length (disk_page c ps p) = ps"
  by (simp add: disk_page_def)

lemma bslice_pget: "i + n \<le> length c \<Longrightarrow> bslice c i (i + n) = map (\<lambda>j. pget c (i + j)) [0..<n]"
  by (rule nth_equalityI) (simp_all add: nth_bslice pget_def)

lemma pget_file_patch:
  "pget (file_patch c off b) i = (if off \<le> i \<and> i < off + length b then b ! (i - off) else pget c i)"
proof -
  have "min (length c) off + (off - length c) = off" by auto
  then show ?thesis by (auto simp: pget_def file_patch_def nth_append)
qed

lemma pget_vec_resize: "pget (vec_resize c n) i = (if i < n then pget c i else 0)"
  by (auto simp: pget_def vec_resize_def nth_append)

lemma disk_page_patch_page:
  assumes "length b = ps" "p \<noteq> 0" "q \<noteq> 0"
  shows "disk_page (file_patch c ((unat p - 1) * ps) b) ps q = (if q = p then b else disk_page c ps q)"
proof (cases "q = p")
  case True
  then show ?thesis using assms(1) by (intro nth_equalityI) (simp_all add: disk_page_def pget_file_patch)
next
  case False
  have "unat q - 1 \<noteq> unat p - 1"
    using False assms(2,3) by (metis Suc_pred' unat_gt_0 word_unat_eq_iff)
  then have key: "(unat q - 1) * ps + j < (unat p - 1) * ps \<or> (unat p - 1) * ps + ps \<le> (unat q - 1) * ps + j" if "j < ps" for j
  proof (cases "unat q - 1 < unat p - 1")
    case True
    then have "Suc (unat q - 1) * ps \<le> (unat p - 1) * ps" by (intro mult_le_mono1) simp
    with that show ?thesis by simp
  next
    case False
    with \<open>unat q - 1 \<noteq> unat p - 1\<close> have "Suc (unat p - 1) * ps \<le> (unat q - 1) * ps" by (intro mult_le_mono1) simp
    then show ?thesis by simp
  qed
  have "pget (file_patch c ((unat p - 1) * ps) b) ((unat q - 1) * ps + j) = pget c ((unat q - 1) * ps + j)" if "j < ps" for j
    using key [OF that] assms(1) by (auto simp: pget_file_patch)
  with False show ?thesis by (simp add: disk_page_def)
qed

text \<open>
  \<open>pager_disk\<close>: the file is a whole number of pages and \<open>db_page_count\<close> is that number.
  \<open>pager_ok\<close>: moreover the cache is idle and every cached page is the page of the file.
\<close>

definition pager_disk :: "('f \<Rightarrow> bool) \<Rightarrow> ('f \<Rightarrow> bytes) \<Rightarrow> 'f Pager \<Rightarrow> bool" where
  "pager_disk ok content pg \<longleftrightarrow> ok (pg_file pg) \<and> is_supported_page_size (pg_page_size pg) \<and>
     length (content (pg_file pg)) = unat (pg_db_page_count pg) * unat (pg_page_size pg) \<and>
     cache_idle (pg_cache pg) \<and> pc_page_size (pg_cache pg) = unat (pg_page_size pg)"

definition pager_page :: "('f \<Rightarrow> bytes) \<Rightarrow> 'f Pager \<Rightarrow> page_id \<Rightarrow> bytes" where
  "pager_page content pg = disk_page (content (pg_file pg)) (unat (pg_page_size pg))"

definition pager_ok :: "('f \<Rightarrow> bool) \<Rightarrow> ('f \<Rightarrow> bytes) \<Rightarrow> 'f Pager \<Rightarrow> bool" where
  "pager_ok ok content pg \<longleftrightarrow> pager_disk ok content pg \<and>
     cache_view (pg_cache pg) \<subseteq>\<^sub>m (\<lambda>p. Some (pager_page content pg p))"

lemma page_size_bounds:
  assumes "is_supported_page_size ps"
  shows "4096 \<le> unat ps" "unat ps \<le> 16384" "unat (ucast ps :: u64) = unat ps"
  using assms by (auto simp: is_supported_page_size_def SUPPORTED_PAGE_SIZES_def)

lemma page_count_for_len_unat:
  assumes "is_supported_page_size ps" "unat len = n * unat ps" "n < 2 ^ 32"
  shows "unat (page_count_for_len len ps) = n"
proof -
  have "unat (len div ucast ps) = n"
    using assms page_size_bounds [OF assms(1)] by (simp add: unat_div)
  then show ?thesis using assms(3) by (simp add: page_count_for_len_def unsigned_ucast_eq take_bit_nat_eq_self)
qed

lemma take_page_buffer_eq:
  "\<exists>pool. take_page_buffer pg = (replicate (unat (pg_page_size pg)) 0, pg\<lparr>pg_page_pool := pool\<rparr>)"
proof (cases "pg_page_pool_max pg \<noteq> 0 \<and> pg_page_pool pg \<noteq> []")
  case True
  have "map (\<lambda>_. 0) (vec_resize b n) = replicate n (0 :: u8)" for b n by (simp add: map_replicate_const)
  with True show ?thesis by (intro exI [of _ "butlast (pg_page_pool pg)"]) (simp add: take_page_buffer_def)
next
  case False
  then show ?thesis by (intro exI [of _ "pg_page_pool pg"]) (auto simp: take_page_buffer_def zeroed_page_def)
qed

lemma pager_pool_simps [simp]:
  "pager_disk ok content (pg\<lparr>pg_page_pool := pool\<rparr>) = pager_disk ok content pg"
  "pager_page content (pg\<lparr>pg_page_pool := pool\<rparr>) = pager_page content pg"
  "pager_ok ok content (pg\<lparr>pg_page_pool := pool\<rparr>) = pager_ok ok content pg"
  by (simp_all add: pager_disk_def pager_page_def pager_ok_def)

context vfs_file
begin

lemma page_in_file:
  assumes "pager_disk inv content pg" "p \<noteq> 0" "p \<le> pg_db_page_count pg"
  shows "unat (page_offset p (pg_page_size pg)) + unat (pg_page_size pg) \<le> length (content (pg_file pg))"
proof -
  have "unat p \<le> unat (pg_db_page_count pg)" "0 < unat p"
    using assms by (simp_all add: word_le_nat_alt unat_gt_0)
  then have "Suc (unat p - 1) * unat (pg_page_size pg) \<le> unat (pg_db_page_count pg) * unat (pg_page_size pg)"
    by (intro mult_le_mono1) simp
  with assms(1,2) show ?thesis by (simp add: page_offset_unat pager_disk_def)
qed

lemma page_bytes_on_disk:
  assumes "pager_disk inv content pg" "p \<noteq> 0" "p \<le> pg_db_page_count pg"
  shows "read_exact_at ops (page_offset p (pg_page_size pg)) (unat (pg_page_size pg)) (pg_file pg) =
    Inr (pager_page content pg p)"
  using page_in_file [OF assms] assms(1,2)
  by (simp add: read_exact_ok pager_disk_def pager_page_def disk_page_def bslice_pget page_offset_unat)

lemma load_page_ok:
  assumes "pager_disk inv content pg" "p \<noteq> 0"
  shows "\<exists>pool. load_page_from_disk ops p pg = (Inr (pager_page content pg p), pg\<lparr>pg_page_pool := pool\<rparr>)"
proof -
  obtain pool where pool: "take_page_buffer pg = (replicate (unat (pg_page_size pg)) 0, pg\<lparr>pg_page_pool := pool\<rparr>)"
    using take_page_buffer_eq by blast
  show ?thesis
  proof (cases "p > pg_db_page_count pg")
    case True
    then have "unat (pg_db_page_count pg) \<le> unat p - 1" by (simp add: word_less_nat_alt)
    then have "length (content (pg_file pg)) \<le> (unat p - 1) * unat (pg_page_size pg)"
      using assms(1) by (simp add: pager_disk_def)
    then have "pager_page content pg p = replicate (unat (pg_page_size pg)) 0"
      by (intro nth_equalityI) (simp_all add: pager_page_def disk_page_def pget_def)
    with True pool show ?thesis by (intro exI [of _ pool]) (simp add: load_page_from_disk_def)
  next
    case False
    with page_bytes_on_disk [OF assms] pool show ?thesis
      by (intro exI [of _ pool]) (simp add: load_page_from_disk_def)
  qed
qed

lemma read_page_ok:
  assumes "pager_ok inv content pg" "p \<noteq> 0"
  shows "\<exists>c pool. read_page ops p pg = Some (Inr (pager_page content pg p), pg\<lparr>pg_cache := c, pg_page_pool := pool\<rparr>) \<and>
    pager_ok inv content (pg\<lparr>pg_cache := c, pg_page_pool := pool\<rparr>)"
proof -
  let ?d = "pager_page content pg p"
  have ok: "pager_disk inv content pg" "cache_idle (pg_cache pg)" "pc_page_size (pg_cache pg) = unat (pg_page_size pg)"
    and co: "cache_view (pg_cache pg) \<subseteq>\<^sub>m (\<lambda>p. Some (pager_page content pg p))"
    using assms(1) by (simp_all add: pager_ok_def pager_disk_def)
  obtain pool where l: "load_page_from_disk ops p pg = (Inr ?d, pg\<lparr>pg_page_pool := pool\<rparr>)"
    using load_page_ok [OF ok(1) assms(2)] by blast
  obtain c pool' where c: "pin_read p (load_page_from_disk ops p) (pg_cache pg, pg) = Some (Inr ?d, (c, pg\<lparr>pg_page_pool := pool'\<rparr>))"
    "cache_idle c" "cache_view c \<subseteq>\<^sub>m (\<lambda>p. Some (pager_page content pg p))" "pc_page_size c = unat (pg_page_size pg)"
  proof (cases "cache_view (pg_cache pg) p")
    case (Some d)
    then have "d = ?d" using co by (auto simp: map_le_def dom_def)
    with pin_read_ok [OF ok(2), of p "load_page_from_disk ops p" pg] Some ok(3) co show ?thesis
      by (auto intro!: that [of _ "pg_page_pool pg"] elim: map_le_trans)
  next
    case None
    have len: "length ?d = pc_page_size (pg_cache pg)" using ok(3) by (simp add: pager_page_def)
    from pin_read_ok [OF ok(2), of p "load_page_from_disk ops p" pg] None l len obtain c where
      c: "pin_read p (load_page_from_disk ops p) (pg_cache pg, pg) = Some (Inr ?d, (c, pg\<lparr>pg_page_pool := pool\<rparr>))"
      "cache_idle c" "cache_view c \<subseteq>\<^sub>m (cache_view (pg_cache pg))(p \<mapsto> ?d)" "pc_page_size c = pc_page_size (pg_cache pg)" by auto
    have "(cache_view (pg_cache pg))(p \<mapsto> ?d) \<subseteq>\<^sub>m (\<lambda>p. Some (pager_page content pg p))"
      using co by (auto simp: map_le_def)
    with c ok(3) show ?thesis by (intro that [of c pool]) (auto elim: map_le_trans)
  qed
  show ?thesis
    using c assms(2) ok(1)
    by (intro exI [of _ c] exI [of _ pool'])
       (simp add: read_page_def validate_page_id_def pager_ok_def pager_disk_def pager_page_def)
qed

lemma file_room:
  assumes "pager_disk inv content pg"
  shows "length (content (pg_file pg)) < 2 ^ 47"
proof -
  have "unat (pg_db_page_count pg) * unat (pg_page_size pg) \<le> 2 ^ 32 * 16384"
    using assms page_size_bounds(2) [of "pg_page_size pg"] unsigned_less [of "pg_db_page_count pg", where ?'a = nat]
    by (intro mult_le_mono) (simp_all add: pager_disk_def less_imp_le)
  with assms show ?thesis by (simp add: pager_disk_def)
qed

text \<open>Writing pages that lie inside the file.\<close>

lemma write_page_at_ok:
  assumes "pager_disk inv content pg" "p \<noteq> 0" "p \<le> pg_db_page_count pg" "length b = unat (pg_page_size pg)"
  shows "\<exists>f. write_all_at ops (page_offset p (pg_page_size pg)) b (pg_file pg) = (Inr (), f) \<and>
    pager_disk inv content (pg\<lparr>pg_file := f\<rparr>) \<and>
    (\<forall>q. q \<noteq> 0 \<longrightarrow> pager_page content (pg\<lparr>pg_file := f\<rparr>) q = (if q = p then b else pager_page content pg q))"
proof -
  have ps: "0 < unat (pg_page_size pg)" using assms(1) page_size_bounds(1) [of "pg_page_size pg"] by (simp add: pager_disk_def)
  have b: "b \<noteq> []" using assms(4) ps by auto
  have le: "unat (page_offset p (pg_page_size pg)) + length b \<le> length (content (pg_file pg))"
    using page_in_file [OF assms(1-3)] assms(4) by simp
  moreover have "length (content (pg_file pg)) < 2 ^ 63" "inv (pg_file pg)"
    using assms(1) file_room [OF assms(1)] by (simp_all add: pager_disk_def)
  ultimately obtain f where f: "write_all_at ops (page_offset p (pg_page_size pg)) b (pg_file pg) = (Inr (), f)" "inv f"
    "content f = file_patch (content (pg_file pg)) (unat (page_offset p (pg_page_size pg))) b"
    using write_all_ok [of "pg_file pg" "page_offset p (pg_page_size pg)" b] b by auto
  have "length (content f) = length (content (pg_file pg))" using f(3) le by simp
  with f assms(1) have "pager_disk inv content (pg\<lparr>pg_file := f\<rparr>)" by (simp add: pager_disk_def)
  moreover have "pager_page content (pg\<lparr>pg_file := f\<rparr>) q = (if q = p then b else pager_page content pg q)" if "q \<noteq> 0" for q
    using disk_page_patch_page [OF assms(4,2) that] f(3) assms(2) by (simp add: pager_page_def page_offset_unat)
  ultimately show ?thesis using f(1) by blast
qed

lemma write_contig_ok:
  assumes "pager_disk inv content pg" "s \<noteq> 0" "length b = k * unat (pg_page_size pg)" "0 < k" "unat s + k \<le> 2 ^ 32"
  shows "\<exists>f n. write_pages_contiguous_no_cache ops s b pg = Some (Inr (), pg\<lparr>pg_file := f, pg_db_page_count := n\<rparr>) \<and>
    pager_disk inv content (pg\<lparr>pg_file := f, pg_db_page_count := n\<rparr>) \<and>
    content f = file_patch (content (pg_file pg)) ((unat s - 1) * unat (pg_page_size pg)) b"
proof -
  let ?ps = "unat (pg_page_size pg)" and ?off = "page_offset s (pg_page_size pg)"
  have sup: "is_supported_page_size (pg_page_size pg)" and i: "inv (pg_file pg)" using assms(1) by (simp_all add: pager_disk_def)
  note psb = page_size_bounds [OF sup]
  have s0: "0 < unat s" using assms(2) by (simp add: unat_gt_0)
  have k32: "k < 2 ^ 32" using assms(5) s0 by simp
  have off: "unat ?off = (unat s - 1) * ?ps" using assms(2) by (simp add: page_offset_unat)
  have tot: "unat ?off + length b = (unat s - 1 + k) * ?ps" using off assms(3) by (simp add: add_mult_distrib)
  have "(unat s - 1 + k) * ?ps \<le> 2 ^ 32 * 16384" using assms(5) psb(2) s0 by (intro mult_le_mono) simp_all
  with tot have lt: "unat ?off + length b < 2 ^ 63" by simp
  have "b \<noteq> []" using assms(3,4) psb(1) by auto
  from write_all_ok [OF i lt this] obtain f where f: "write_all_at ops ?off b (pg_file pg) = (Inr (), f)" "inv f"
    "content f = file_patch (content (pg_file pg)) (unat ?off) b" by blast
  have lb: "unat (of_nat (length b) :: u64) = length b" using lt by (simp add: unat_of_nat)
  have req: "u64_checked_add ?off (of_nat (length b)) = Some (?off + of_nat (length b))"
    using lt lb by (simp add: u64_checked_add_def)
  have ureq: "unat (?off + of_nat (length b)) = (unat s - 1 + k) * ?ps" using lt tot lb by (simp add: unat_word_ariths)
  have cnt: "unat (page_count_for_len (?off + of_nat (length b)) (pg_page_size pg)) = unat s - 1 + k"
    using page_count_for_len_unat [OF sup ureq] assms(5) s0 by simp
  have km: "length b mod ?ps = 0" "length b div ?ps = k" using assms(3) psb(1) by simp_all
  have uk: "unat (of_nat k :: u32) = k" using k32 by (simp add: unat_of_nat)
  have "(of_nat k :: u32) \<ge> 1" using assms(4) uk by (simp add: word_le_nat_alt)
  then have "unat (u32_saturating_sub (of_nat k) 1) = k - 1" using uk by (simp add: u32_saturating_sub_def unat_sub)
  then have chk: "u32_checked_add s (u32_saturating_sub (of_nat k) 1) = Some (s + u32_saturating_sub (of_nat k) 1)"
    using assms(4,5) by (simp add: u32_checked_add_def)
  let ?n = "max (pg_db_page_count pg) (page_count_for_len (?off + of_nat (length b)) (pg_page_size pg))"
  have n: "unat ?n = max (unat (pg_db_page_count pg)) (unat s - 1 + k)"
    using cnt by (simp add: max_def word_le_nat_alt)
  have w: "write_pages_contiguous_no_cache ops s b pg = Some (Inr (), pg\<lparr>pg_file := f, pg_db_page_count := ?n\<rparr>)"
    using assms(2,4) km k32 chk req f(1)
    by (simp add: write_pages_contiguous_no_cache_def validate_page_id_def Let_def u32_try_from_def with_file_def
        pager_upd_def bump_db_page_count_from_len_def)
  have "length (content f) = unat ?n * ?ps"
    using f(3) tot assms(1) n by (simp add: pager_disk_def max_mult_distrib_right [symmetric] nat_mult_max_left)
  then have "pager_disk inv content (pg\<lparr>pg_file := f, pg_db_page_count := ?n\<rparr>)"
    using assms(1) f(2) by (simp add: pager_disk_def)
  with w f(3) off show ?thesis by (intro exI [of _ f] exI [of _ ?n]) simp
qed

end

text \<open>A run of pages written over the file, page by page.\<close>

lemma disk_page_patch_run:
  assumes "length b = k * ps" "s \<noteq> 0" "q \<noteq> 0"
  shows "disk_page (file_patch c ((unat s - 1) * ps) b) ps q =
    (if unat s \<le> unat q \<and> unat q < unat s + k then bslice b ((unat q - unat s) * ps) ((unat q - unat s) * ps + ps)
     else disk_page c ps q)"
proof -
  have pos: "0 < unat s" "0 < unat q" using assms by (simp_all add: unat_gt_0)
  show ?thesis
  proof (cases "unat s \<le> unat q \<and> unat q < unat s + k")
    case True
    have e: "(unat q - 1) * ps = (unat s - 1) * ps + (unat q - unat s) * ps"
      using True pos by (simp add: add_mult_distrib [symmetric])
    have "Suc (unat q - unat s) * ps \<le> k * ps" using True by (intro mult_le_mono1) auto
    then have le: "(unat q - unat s) * ps + ps \<le> length b" using assms(1) by simp
    have "disk_page (file_patch c ((unat s - 1) * ps) b) ps q = bslice b ((unat q - unat s) * ps) ((unat q - unat s) * ps + ps)"
      using le unfolding disk_page_def e
      by (intro nth_equalityI) (simp_all add: pget_file_patch nth_bslice)
    with True show ?thesis by simp
  next
    case False
    have "(unat q - 1) * ps + j < (unat s - 1) * ps \<or> (unat s - 1) * ps + k * ps \<le> (unat q - 1) * ps + j" if "j < ps" for j
    proof (cases "unat q < unat s")
      case True
      then have "Suc (unat q - 1) * ps \<le> (unat s - 1) * ps" using pos by (intro mult_le_mono1) simp
      with that show ?thesis by simp
    next
      case False
      with \<open>\<not> (unat s \<le> unat q \<and> unat q < unat s + k)\<close> have "(unat s - 1 + k) * ps \<le> (unat q - 1) * ps"
        using pos by (intro mult_le_mono1) simp
      then show ?thesis by (simp add: add_mult_distrib)
    qed
    then have "pget (file_patch c ((unat s - 1) * ps) b) ((unat q - 1) * ps + j) = pget c ((unat q - 1) * ps + j)" if "j < ps" for j
      using that assms(1) by (fastforce simp: pget_file_patch)
    then show ?thesis unfolding if_not_P [OF False] by (simp add: disk_page_def)
  qed
qed

section \<open>The freelist in the file\<close>

text \<open>\<open>fl_chain D h xs\<close>: following the links from \<open>h\<close> through the pages \<open>D\<close> visits \<open>xs\<close> and ends at 0.\<close>

fun fl_chain :: "(page_id \<Rightarrow> bytes) \<Rightarrow> page_id \<Rightarrow> page_id list \<Rightarrow> bool" where
  "fl_chain D h [] \<longleftrightarrow> h = 0"
| "fl_chain D h (x # xs) \<longleftrightarrow> h = x \<and> x \<noteq> 0 \<and> fl_chain D (u32_of_le (take 4 (D x))) xs"

lemma fl_chain_cong: "fl_chain D h xs \<Longrightarrow> (\<And>x. x \<in> set xs \<Longrightarrow> E x = D x) \<Longrightarrow> fl_chain E h xs"
  by (induction xs arbitrary: h) auto

lemma fl_chain_nonzero: "fl_chain D h xs \<Longrightarrow> 0 \<notin> set xs"
  by (induction xs arbitrary: h) auto

definition fl_next :: "page_id list \<Rightarrow> page_id" where
  "fl_next xs = (case xs of [] \<Rightarrow> 0 | x # _ \<Rightarrow> x)"

lemma fl_next_simps [simp]: "fl_next [] = 0" "fl_next (x # xs) = x"
  by (simp_all add: fl_next_def)

lemma freelist_page_next:
  assumes "4 \<le> unat ps"
  shows "length (encode_freelist_page ps n) = unat ps" "u32_of_le (take 4 (encode_freelist_page ps n)) = n"
  using assms by (simp_all add: encode_freelist_page_def zeroed_page_def copy_at_def)

lemma trim_tail_spec:
  "trim_tail F n t = (n', t') \<Longrightarrow> n' \<le> n \<and> set t' = set t \<union> {p. n' < p \<and> p \<le> n} \<and> {p. n' < p \<and> p \<le> n} \<subseteq> F \<and>
     (n' \<le> CATALOG_ROOT_PAGE_ID \<or> n' \<notin> F) \<and> (CATALOG_ROOT_PAGE_ID < n' \<or> n' = n \<or> n' = CATALOG_ROOT_PAGE_ID) \<and>
     length t' = length t + (unat n - unat n')"
proof (induction F n t arbitrary: n' t' rule: trim_tail.induct)
  case (1 F n t)
  show ?case
  proof (cases "n > CATALOG_ROOT_PAGE_ID \<and> n \<in> F")
    case False
    with "1.prems" have e: "n' = n" "t' = t" by (auto simp: trim_tail.simps [of F n t])
    from False show ?thesis by (auto simp: e)
  next
    case True
    let ?m = "u32_saturating_sub n 1"
    have n: "2 < unat n" using True by (simp add: CATALOG_ROOT_PAGE_ID_def word_less_nat_alt)
    then have m: "unat ?m = unat n - 1" by (simp add: u32_saturating_sub_def word_le_nat_alt unat_sub)
    have t: "trim_tail F ?m (t @ [n]) = (n', t')" using "1.prems" True by (simp add: trim_tail.simps [of F n t])
    note ih = "1.IH" [OF True t]
    have split: "{p. n' < p \<and> p \<le> n} = insert n {p. n' < p \<and> p \<le> ?m}"
      using ih m n by (auto simp: word_le_nat_alt word_less_nat_alt word_unat_eq_iff)
    have "CATALOG_ROOT_PAGE_ID < n' \<or> n' = CATALOG_ROOT_PAGE_ID"
      using ih m n by (auto simp: CATALOG_ROOT_PAGE_ID_def word_less_nat_alt word_unat_eq_iff)
    moreover have "unat n' \<le> unat ?m" using ih by (simp add: word_le_nat_alt)
    moreover from this have "n' \<le> n" using m by (simp add: word_le_nat_alt)
    moreover have "length t' = length t + (unat n - unat n')" using ih m n \<open>unat n' \<le> unat ?m\<close> by simp
    ultimately show ?thesis using ih True split by auto
  qed
qed

context vfs_file
begin

lemma read_freelist_next_ok:
  assumes "pager_disk inv content pg" "p \<noteq> 0" "p \<le> pg_db_page_count pg"
  shows "\<exists>pool. read_freelist_next ops p pg =
    Some (Inr (u32_of_le (take 4 (pager_page content pg p))), pg\<lparr>pg_page_pool := pool\<rparr>)"
proof -
  obtain pool where pool: "take_page_buffer pg = (replicate (unat (pg_page_size pg)) 0, pg\<lparr>pg_page_pool := pool\<rparr>)"
    using take_page_buffer_eq by blast
  have "4096 \<le> unat (pg_page_size pg)" using assms(1) page_size_bounds(1) by (simp add: pager_disk_def)
  then have "decode_freelist_next (pager_page content pg p) = Inr (u32_of_le (take 4 (pager_page content pg p)))"
    by (simp add: decode_freelist_next_def pager_page_def)
  moreover have "\<exists>pool'. recycle_page_buffer b (pg\<lparr>pg_page_pool := pool\<rparr>) = pg\<lparr>pg_page_pool := pool'\<rparr>" for b
    by (auto simp: recycle_page_buffer_def)
  ultimately show ?thesis
    using pool page_bytes_on_disk [OF assms] by (simp add: read_freelist_next_def)
qed

lemma freelist_walk_ok:
  "pager_disk inv content pg \<Longrightarrow> fl_chain (pager_page content pg) h xs \<Longrightarrow> \<forall>x\<in>set xs. x \<le> pg_db_page_count pg \<Longrightarrow>
     \<exists>pool. freelist_walk ops h acc pg = Some (Inr (acc @ xs), pg\<lparr>pg_page_pool := pool\<rparr>)"
proof (induction xs arbitrary: h acc pg)
  case Nil
  then show ?case by (intro exI [of _ "pg_page_pool pg"]) (simp add: freelist_walk.simps [of ops 0 acc pg])
next
  case (Cons x xs)
  then obtain pool where r: "read_freelist_next ops x pg =
      Some (Inr (u32_of_le (take 4 (pager_page content pg x))), pg\<lparr>pg_page_pool := pool\<rparr>)"
    using read_freelist_next_ok [of pg x] by auto
  from Cons.IH [of "pg\<lparr>pg_page_pool := pool\<rparr>" "u32_of_le (take 4 (pager_page content pg x))" "acc @ [x]"] Cons.prems r
  show ?case by (subst freelist_walk.simps) auto
qed

lemma relink_ok:
  "pager_disk inv content pg \<Longrightarrow> distinct xs \<Longrightarrow> 0 \<notin> set xs \<Longrightarrow> \<forall>x\<in>set xs. x \<le> pg_db_page_count pg \<Longrightarrow>
     \<exists>f. relink ops xs pg = Some (Inr (), pg\<lparr>pg_file := f\<rparr>) \<and> pager_disk inv content (pg\<lparr>pg_file := f\<rparr>) \<and>
       fl_chain (pager_page content (pg\<lparr>pg_file := f\<rparr>)) (fl_next xs) xs \<and>
       (\<forall>q. q \<noteq> 0 \<longrightarrow> q \<notin> set xs \<longrightarrow> pager_page content (pg\<lparr>pg_file := f\<rparr>) q = pager_page content pg q)"
proof (induction xs arbitrary: pg)
  case Nil
  then show ?case by (intro exI [of _ "pg_file pg"]) simp
next
  case (Cons x xs)
  have ps: "4 \<le> unat (pg_page_size pg)" using Cons.prems(1) page_size_bounds(1) [of "pg_page_size pg"]
    by (simp add: pager_disk_def)
  let ?b = "encode_freelist_page (pg_page_size pg) (fl_next xs)"
  have x: "x \<noteq> 0" "x \<le> pg_db_page_count pg" "length ?b = unat (pg_page_size pg)"
    using Cons.prems freelist_page_next(1) [OF ps] by auto
  from write_page_at_ok [OF Cons.prems(1) x] obtain f where f:
    "write_all_at ops (page_offset x (pg_page_size pg)) ?b (pg_file pg) = (Inr (), f)"
    "pager_disk inv content (pg\<lparr>pg_file := f\<rparr>)"
    "\<And>q. q \<noteq> 0 \<Longrightarrow> pager_page content (pg\<lparr>pg_file := f\<rparr>) q = (if q = x then ?b else pager_page content pg q)" by blast
  from Cons.IH [OF f(2)] Cons.prems obtain g where g:
    "relink ops xs (pg\<lparr>pg_file := f\<rparr>) = Some (Inr (), pg\<lparr>pg_file := g\<rparr>)" "pager_disk inv content (pg\<lparr>pg_file := g\<rparr>)"
    "fl_chain (pager_page content (pg\<lparr>pg_file := g\<rparr>)) (fl_next xs) xs"
    "\<And>q. q \<noteq> 0 \<Longrightarrow> q \<notin> set xs \<Longrightarrow> pager_page content (pg\<lparr>pg_file := g\<rparr>) q = pager_page content (pg\<lparr>pg_file := f\<rparr>) q"
    by auto
  have "relink ops (x # xs) pg = Some (Inr (), pg\<lparr>pg_file := g\<rparr>)"
    using f(1) g(1) by (simp add: with_file_def fl_next_def)
  moreover have "pager_page content (pg\<lparr>pg_file := g\<rparr>) x = ?b" using g(4) [of x] f(3) [of x] x(1) Cons.prems(2) by simp
  ultimately show ?case
    using g f(3) x(1) Cons.prems(3) freelist_page_next(2) [OF ps] by (intro exI [of _ g]) auto
qed

lemma persist_header_ok:
  assumes "pager_disk inv content pg" "header_wf h" "0 < unat (pg_db_page_count pg)"
  shows "\<exists>f c. persist_header cpu ops h pg = Some (Inr (), pg\<lparr>pg_file := f, pg_cache := c\<rparr>) \<and>
    pager_disk inv content (pg\<lparr>pg_file := f, pg_cache := c\<rparr>) \<and>
    content f = file_patch (content (pg_file pg)) 0 (header_encode cpu h) \<and>
    cache_view c \<subseteq>\<^sub>m (cache_view (pg_cache pg))(HEADER_PAGE_ID \<mapsto> header_page cpu h pg)"
proof -
  have len: "length (header_encode cpu h) = 128" using assms(2) by (simp add: header_encode_fields length_header_fields)
  have d: "inv (pg_file pg)" "length (content (pg_file pg)) = unat (pg_db_page_count pg) * unat (pg_page_size pg)"
    "cache_idle (pg_cache pg)" "pc_page_size (pg_cache pg) = unat (pg_page_size pg)"
    and ps: "4096 \<le> unat (pg_page_size pg)"
    using assms(1) page_size_bounds(1) by (simp_all add: pager_disk_def)
  have "1 * 4096 \<le> length (content (pg_file pg))" unfolding d(2) using assms(3) ps by (intro mult_le_mono) simp_all
  then have fl: "128 \<le> length (content (pg_file pg))" by simp
  have ne: "header_encode cpu h \<noteq> []" using len by auto
  obtain f where f: "write_all_at ops 0 (header_encode cpu h) (pg_file pg) = (Inr (), f)" "inv f"
    "content f = file_patch (content (pg_file pg)) 0 (header_encode cpu h)"
    using write_all_ok [OF d(1), of 0 "header_encode cpu h"] ne len by auto
  have hp: "length (header_page cpu h pg) = pc_page_size (pg_cache pg)"
    using len ps d(4) by (simp add: header_page_def zeroed_page_def)
  obtain c where c: "insert_page HEADER_PAGE_ID (header_page cpu h pg) False (pg_cache pg) = Some (Inr (), c)" "cache_idle c"
    "cache_view c \<subseteq>\<^sub>m (cache_view (pg_cache pg))(HEADER_PAGE_ID \<mapsto> header_page cpu h pg)" "pc_page_size c = pc_page_size (pg_cache pg)"
    using insert_page_ok [OF d(3) hp] by blast
  have "persist_header cpu ops h pg = Some (Inr (), pg\<lparr>pg_file := f, pg_cache := c\<rparr>)"
    using f(1) c(1) by (simp add: persist_header_def with_file_def with_cache_def insert_clean_page_def header_page_def)
  moreover have "pager_disk inv content (pg\<lparr>pg_file := f, pg_cache := c\<rparr>)"
    using assms(1) f(2,3) c(2,4) fl len by (simp add: pager_disk_def)
  ultimately show ?thesis using f(3) c(3) by blast
qed

end

text \<open>
  What the truncation leaves: the file ends at page \<open>n\<close>, the free pages up to \<open>n\<close> are linked in their old
  order, the header on disk and in memory says so, and no other page has changed.
\<close>

definition tail_truncated ::
  "('f \<Rightarrow> bool) \<Rightarrow> ('f \<Rightarrow> bytes) \<Rightarrow> crc_cpu \<Rightarrow> 'f vfs_file_ops \<Rightarrow> page_id list \<Rightarrow> page_id \<Rightarrow> 'f Pager \<Rightarrow> 'f Pager \<Rightarrow> bool"
where
  "tail_truncated ok content cpu ops xs n pg pg' \<longleftrightarrow> pager_ok ok content pg' \<and> pg_db_page_count pg' = n \<and>
     pg_header pg' = (pg_header pg)\<lparr>h_freelist := (h_freelist (pg_header pg))\<lparr>
       fl_head_page_id := fl_next (filter (\<lambda>p. p \<le> n) xs),
       fl_page_count := u32_saturating_sub (fl_page_count (h_freelist (pg_header pg))) (pg_db_page_count pg - n)\<rparr>\<rparr> \<and>
     (unat (fl_page_count (h_freelist (pg_header pg))) = length xs \<longrightarrow>
        unat (fl_page_count (h_freelist (pg_header pg'))) = length (filter (\<lambda>p. p \<le> n) xs)) \<and>
     fl_chain (pager_page content pg') (fl_next (filter (\<lambda>p. p \<le> n) xs)) (filter (\<lambda>p. p \<le> n) xs) \<and>
     header_from_disk cpu ops pg' =
       Inr ((pg_header pg')\<lparr>h_header_checksum := compute_checksum cpu (pg_header pg')\<rparr>) \<and>
     (\<forall>q. 1 < q \<longrightarrow> q \<le> n \<longrightarrow> q \<notin> set xs \<longrightarrow> pager_page content pg' q = pager_page content pg q)"

context vfs_file
begin

lemma truncate_file_ok:
  assumes "pager_disk inv content pg" "header_wf h" "h_page_size h = pg_page_size pg" "2 \<le> unat n" "n < pg_db_page_count pg"
  shows "\<exists>pg'. pbind (persist_header cpu ops h) (\<lambda>_ pg.
      let new_len = page_offset (u32_saturating_add n 1) (pg_page_size pg)
      in pbind (with_file (vf_set_len ops new_len)) (\<lambda>_ pg.
           Some (Inr (Some n), (set_db_page_count_from_len new_len pg)
             \<lparr>pg_cache := cache_clear (pg_cache pg), pg_header := h\<rparr>)) pg) pg = Some (Inr (Some n), pg') \<and>
    pager_ok inv content pg' \<and> pg_db_page_count pg' = n \<and> pg_header pg' = h \<and>
    header_from_disk cpu ops pg' = Inr (h\<lparr>h_header_checksum := compute_checksum cpu h\<rparr>) \<and>
    (\<forall>q. 1 < q \<longrightarrow> q \<le> n \<longrightarrow> pager_page content pg' q = pager_page content pg q)"
proof -
  let ?ps = "unat (pg_page_size pg)" and ?new = "page_offset (u32_saturating_add n 1) (pg_page_size pg)"
  have sup: "is_supported_page_size (pg_page_size pg)" using assms(1) by (simp add: pager_disk_def)
  note psb = page_size_bounds [OF sup]
  have cnt: "0 < unat (pg_db_page_count pg)" "unat n < unat (pg_db_page_count pg)"
    using assms(4,5) by (simp_all add: word_less_nat_alt)
  obtain f c where f: "persist_header cpu ops h pg = Some (Inr (), pg\<lparr>pg_file := f, pg_cache := c\<rparr>)"
    "pager_disk inv content (pg\<lparr>pg_file := f, pg_cache := c\<rparr>)"
    "content f = file_patch (content (pg_file pg)) 0 (header_encode cpu h)"
    using persist_header_ok [OF assms(1,2) cnt(1)] by blast
  have n1: "unat (u32_saturating_add n 1) = unat n + 1"
    using cnt(2) unsigned_less [of "pg_db_page_count pg", where ?'a = nat] by (simp add: u32_saturating_add_def unat_word_ariths)
  then have "u32_saturating_add n 1 \<noteq> 0" by (metis add_is_0 one_neq_zero unat_0)
  then have nl: "unat ?new = unat n * ?ps" using n1 by (simp add: page_offset_unat)
  have lf: "length (content f) = unat (pg_db_page_count pg) * ?ps" "inv f" "cache_idle c" "pc_page_size c = ?ps"
    using f(2) by (simp_all add: pager_disk_def)
  have le: "unat n * ?ps \<le> length (content f)" unfolding lf(1) using cnt(2) by (intro mult_le_mono1) simp
  moreover have "length (content f) < 2 ^ 47" using file_room [OF f(2)] by simp
  ultimately obtain g where g: "vf_set_len ops ?new f = (Inr (), g)" "inv g" "content g = vec_resize (content f) (unat n * ?ps)"
    using file_set_len [OF lf(2), of ?new] nl by auto
  have pc: "page_count_for_len ?new (pg_page_size pg) = n"
    using page_count_for_len_unat [OF sup nl] unsigned_less [of n, where ?'a = nat] by (simp add: word_unat_eq_iff)
  define pg' where "pg' = pg\<lparr>pg_file := g, pg_cache := cache_clear c, pg_header := h, pg_db_page_count := n\<rparr>"
  have cap: "0 < pc_capacity_pages c" using lf(3) by (simp add: cache_idle_def cache_ok_def)
  have len: "length (header_encode cpu h) = 128" using assms(2) by (simp add: header_encode_fields length_header_fields)
  have lg: "length (content g) = unat n * ?ps" using g(3) by simp
  have small: "128 \<le> length (content g)" unfolding lg using mult_le_mono [OF assms(4) psb(1)] by simp
  have "pager_ok inv content pg'"
    using g(2) sup lg cap lf(4) by (simp add: pg'_def pager_ok_def pager_disk_def map_le_def)
  moreover have "header_from_disk cpu ops pg' = Inr (h\<lparr>h_header_checksum := compute_checksum cpu h\<rparr>)"
  proof -
    have "take 128 (content g) = take 128 (content f)"
      using g(3) small [unfolded lg] le by (simp add: vec_resize_def min_absorb1)
    also have "\<dots> = header_encode cpu h" using f(3) len by (simp add: file_patch_def)
    finally show ?thesis
      using small g(2) header_decode_encode [OF assms(2)]
      by (simp add: pg'_def header_from_disk_def DB_HEADER_SIZE_def read_exact_ok)
  qed
  moreover have "pager_page content pg' q = pager_page content pg q" if "1 < q" "q \<le> n" for q
  proof -
    have q: "2 \<le> unat q" "unat q \<le> unat n" using that by (simp_all add: word_le_nat_alt word_less_nat_alt)
    have "pget (content g) ((unat q - 1) * ?ps + j) = pget (content (pg_file pg)) ((unat q - 1) * ?ps + j)" if "j < ?ps" for j
    proof -
      obtain m where m: "unat q = m + 2" using q(1) by (metis add.commute le_Suc_ex)
      have "(m + 2) * ?ps \<le> unat n * ?ps" using q(2) m by (intro mult_le_mono1) simp
      then have "\<not> (unat q - 1) * ?ps + j < 128" "(unat q - 1) * ?ps + j < unat n * ?ps"
        using that psb(1) unfolding m by (simp_all add: add_mult_distrib)
      then show ?thesis using len by (simp add: g(3) f(3) pget_vec_resize pget_file_patch)
    qed
    then show ?thesis by (simp add: pager_page_def disk_page_def pg'_def)
  qed
  ultimately show ?thesis
    using f(1) g(1) pc
    by (intro exI [of _ pg']) (simp add: with_file_def Let_def set_db_page_count_from_len_def pg'_def)
qed

lemma free_count_after:
  assumes "distinct xs" "\<forall>x \<in> set xs. x \<le> cnt" "\<forall>p. n < p \<longrightarrow> p \<le> cnt \<longrightarrow> p \<in> set xs" "n \<le> cnt" "unat c = length xs"
  shows "unat (u32_saturating_sub c (cnt - n)) = length (filter (\<lambda>p. p \<le> n) xs)"
proof -
  let ?cut = "filter (\<lambda>p. \<not> p \<le> n) xs"
  have "unat ` set ?cut = {unat n<..unat cnt}"
  proof (intro equalityI subsetI)
    fix k assume k: "k \<in> {unat n<..unat cnt}"
    then have u: "unat (of_nat k :: u32) = k"
      using unsigned_less [of cnt, where ?'a = nat] by (simp add: unat_of_nat)
    then have "of_nat k \<in> set ?cut" using k assms(3) by (simp add: word_le_nat_alt word_less_nat_alt)
    with u show "k \<in> unat ` set ?cut" by (metis image_eqI)
  qed (use assms(2) in \<open>auto simp: word_le_nat_alt\<close>)
  moreover have "card (unat ` set ?cut) = length ?cut"
    using assms(1) card_image [of unat "set ?cut"] distinct_card [of ?cut] by (simp add: inj_on_def word_unat_eq_iff del: set_filter)
  ultimately have "length ?cut = unat cnt - unat n" by simp
  with sum_length_filter_compl [of "\<lambda>p. p \<le> n" xs] have "length (filter (\<lambda>p. p \<le> n) xs) + unat (cnt - n) = unat c"
    using assms(4,5) by (simp add: unat_sub)
  then show ?thesis by (simp add: u32_saturating_sub_def word_le_nat_alt unat_sub)
qed

lemma truncate_freelist_tail_ok:
  assumes "pager_ok inv content pg" "header_wf (pg_header pg)" "h_page_size (pg_header pg) = pg_page_size pg"
    and "fl_chain (pager_page content pg) (fl_head_page_id (h_freelist (pg_header pg))) xs" "distinct xs"
    and "\<forall>x\<in>set xs. 2 < x \<and> x \<le> pg_db_page_count pg" "fl_page_count (h_freelist (pg_header pg)) \<noteq> 0"
    and "pg_db_page_count pg \<in> set xs"
  shows "\<exists>n pg'. truncate_freelist_tail cpu ops pg = Some (Inr (Some n), pg') \<and>
    n < pg_db_page_count pg \<and> (\<forall>p. n < p \<longrightarrow> p \<le> pg_db_page_count pg \<longrightarrow> p \<in> set xs) \<and> n \<notin> set xs \<and>
    tail_truncated inv content cpu ops xs n pg pg'"
proof -
  let ?fl = "h_freelist (pg_header pg)" and ?cnt = "pg_db_page_count pg"
  have d: "pager_disk inv content pg" using assms(1) by (simp add: pager_ok_def)
  have sup: "is_supported_page_size (pg_page_size pg)" and i: "inv (pg_file pg)"
    and lc: "length (content (pg_file pg)) = unat ?cnt * unat (pg_page_size pg)" using d by (simp_all add: pager_disk_def)
  have c2: "2 < ?cnt" using assms(6,8) by blast
  have "unat (of_nat (length (content (pg_file pg))) :: u64) = length (content (pg_file pg))"
    using file_room [OF d] by (simp add: unat_of_nat)
  then have "unat (of_nat (length (content (pg_file pg))) :: u64) = unat ?cnt * unat (pg_page_size pg)" unfolding lc .
  from page_count_for_len_unat [OF sup this] have
    "page_count_for_len (of_nat (length (content (pg_file pg)))) (pg_page_size pg) = ?cnt"
    using unsigned_less [of ?cnt, where ?'a = nat] by (simp add: word_unat_eq_iff)
  then have cnt: "on_disk_page_count ops pg = Inr ?cnt" using file_len [OF i] by (simp add: on_disk_page_count_def)
  have head: "fl_head_page_id ?fl \<noteq> 0" using assms(4,8) by (cases xs) auto
  obtain pool where w: "freelist_walk ops (fl_head_page_id ?fl) [] pg = Some (Inr xs, pg\<lparr>pg_page_pool := pool\<rparr>)"
    using freelist_walk_ok [OF d assms(4), of "[]"] assms(6) by auto
  obtain n t where t: "trim_tail (set xs) ?cnt [] = (n, t)" by fastforce
  note ts = trim_tail_spec [OF t]
  have n: "n < ?cnt"
  proof (rule ccontr)
    assume "\<not> n < ?cnt"
    with ts have "n = ?cnt" by simp
    with ts assms(8) c2 show False by (auto simp: CATALOG_ROOT_PAGE_ID_def)
  qed
  have n2: "2 \<le> unat n" using ts n by (auto simp: CATALOG_ROOT_PAGE_ID_def word_less_nat_alt)
  have tne: "t \<noteq> []" using ts n by auto
  have rem: "filter (\<lambda>p. p \<notin> set t) xs = filter (\<lambda>p. p \<le> n) xs"
    using ts assms(6) by (intro filter_cong) (auto simp: not_less)
  let ?xs = "filter (\<lambda>p. p \<le> n) xs"
  let ?h = "(pg_header pg)\<lparr>h_freelist := ?fl\<lparr>fl_head_page_id := fl_next ?xs,
      fl_page_count := u32_saturating_sub (fl_page_count ?fl) (?cnt - n)\<rparr>\<rparr>"
  have tl: "of_nat (length t) = ?cnt - n" using ts n by (simp add: unat_sub [symmetric])
  have exact: "unat (fl_page_count ?fl) = length xs \<Longrightarrow>
      unat (u32_saturating_sub (fl_page_count ?fl) (?cnt - n)) = length ?xs"
    using free_count_after [OF assms(5), of ?cnt n] assms(6) ts by auto
  have "0 \<notin> set ?xs" using fl_chain_nonzero [OF assms(4)] by simp
  then obtain f where f: "relink ops ?xs (pg\<lparr>pg_page_pool := pool\<rparr>) = Some (Inr (), pg\<lparr>pg_page_pool := pool, pg_file := f\<rparr>)"
    "pager_disk inv content (pg\<lparr>pg_page_pool := pool, pg_file := f\<rparr>)"
    "fl_chain (pager_page content (pg\<lparr>pg_page_pool := pool, pg_file := f\<rparr>)) (fl_next ?xs) ?xs"
    "\<And>q. q \<noteq> 0 \<Longrightarrow> q \<notin> set ?xs \<Longrightarrow> pager_page content (pg\<lparr>pg_page_pool := pool, pg_file := f\<rparr>) q = pager_page content pg q"
    using relink_ok [of "pg\<lparr>pg_page_pool := pool\<rparr>" ?xs] d assms(5,6) by auto
  have h: "header_wf ?h" "h_page_size ?h = pg_page_size pg" using assms(2,3) by (simp_all add: header_wf_def)
  obtain pg' where r: "pbind (persist_header cpu ops ?h) (\<lambda>_ pg.
      let new_len = page_offset (u32_saturating_add n 1) (pg_page_size pg)
      in pbind (with_file (vf_set_len ops new_len)) (\<lambda>_ pg.
           Some (Inr (Some n), (set_db_page_count_from_len new_len pg)
             \<lparr>pg_cache := cache_clear (pg_cache pg), pg_header := ?h\<rparr>)) pg) (pg\<lparr>pg_page_pool := pool, pg_file := f\<rparr>) =
      Some (Inr (Some n), pg')"
    "pager_ok inv content pg'" "pg_db_page_count pg' = n" "pg_header pg' = ?h"
    "header_from_disk cpu ops pg' = Inr (?h\<lparr>h_header_checksum := compute_checksum cpu ?h\<rparr>)"
    "\<And>q. 1 < q \<Longrightarrow> q \<le> n \<Longrightarrow> pager_page content pg' q = pager_page content (pg\<lparr>pg_page_pool := pool, pg_file := f\<rparr>) q"
    using truncate_file_ok [OF f(2) h(1) _ n2, of cpu] h(2) n by auto
  have "truncate_freelist_tail cpu ops pg = Some (Inr (Some n), pg')"
    using head assms(7) cnt c2 w t tne f(1) r(1)
    by (simp add: truncate_freelist_tail_def header_snapshot_def CATALOG_ROOT_PAGE_ID_def rem tl fl_next_def not_le Let_def)
  moreover have gt: "1 < q" if "q \<in> set xs" for q using bspec [OF assms(6) that] by (simp add: word_less_nat_alt)
  moreover have "fl_chain (pager_page content pg') (fl_next ?xs) ?xs"
    by (rule fl_chain_cong [OF f(3)]) (use r(6) gt in auto)
  moreover have "pager_page content pg' q = pager_page content pg q" if "1 < q" "q \<le> n" "q \<notin> set xs" for q
    using r(6) [OF that(1,2)] f(4) [of q] that by (cases "q = 0") auto
  moreover have "n \<notin> set xs" using ts n2 assms(6) by (auto simp: CATALOG_ROOT_PAGE_ID_def word_le_nat_alt word_less_nat_alt)
  ultimately show ?thesis using n ts r(2-5) exact unfolding tail_truncated_def by (intro exI [of _ n] exI [of _ pg']) auto
qed

end

section \<open>Properties\<close>

text \<open>C15: checkpoint copyback through the pager.  From a pager whose cache agrees with its file, write a run
  of pages with \<open>write_pages_contiguous_no_cache\<close>, drop the cache, and read any page: the read returns, it
  yields the new image for every page of the run, the old one for every other page and zeros beyond the end
  of the file, and cache and file agree again.\<close>

theorem pager_copyback_read:
  assumes "pager_ok mem_inv (\<lambda>d. d) pg" "s \<noteq> 0" "length b = k * unat (pg_page_size pg)" "0 < k"
    and "unat s + k \<le> 2 ^ 32" "q \<noteq> 0"
  shows "\<exists>pg1 pg2. write_pages_contiguous_no_cache mem_file_ops s b pg = Some (Inr (), pg1) \<and>
    read_page mem_file_ops q (invalidate_cache_after_local_checkpoint pg1) =
      Some (Inr (if unat s \<le> unat q \<and> unat q < unat s + k
                 then bslice b ((unat q - unat s) * unat (pg_page_size pg))
                        ((unat q - unat s) * unat (pg_page_size pg) + unat (pg_page_size pg))
                 else disk_page (pg_file pg) (unat (pg_page_size pg)) q), pg2) \<and>
    pager_ok mem_inv (\<lambda>d. d) pg2"
proof -
  have d: "pager_disk mem_inv (\<lambda>d. d) pg" using assms(1) by (simp add: pager_ok_def)
  obtain f n where w: "write_pages_contiguous_no_cache mem_file_ops s b pg = Some (Inr (), pg\<lparr>pg_file := f, pg_db_page_count := n\<rparr>)"
    "pager_disk mem_inv (\<lambda>d. d) (pg\<lparr>pg_file := f, pg_db_page_count := n\<rparr>)"
    "f = file_patch (pg_file pg) ((unat s - 1) * unat (pg_page_size pg)) b"
    using memfile.write_contig_ok [OF d assms(2-5)] by blast
  let ?pg = "invalidate_cache_after_local_checkpoint (pg\<lparr>pg_file := f, pg_db_page_count := n\<rparr>)"
  have "0 < pc_capacity_pages (pg_cache pg)" using d by (simp add: pager_disk_def cache_idle_def cache_ok_def)
  then have ok: "pager_ok mem_inv (\<lambda>d. d) ?pg"
    using w(2) by (simp add: pager_ok_def pager_disk_def invalidate_cache_after_local_checkpoint_def map_le_def)
  have pp: "pager_page (\<lambda>d. d) ?pg q = (if unat s \<le> unat q \<and> unat q < unat s + k
      then bslice b ((unat q - unat s) * unat (pg_page_size pg))
             ((unat q - unat s) * unat (pg_page_size pg) + unat (pg_page_size pg))
      else disk_page (pg_file pg) (unat (pg_page_size pg)) q)"
    using disk_page_patch_run [OF assms(3,2,6)] w(3)
    by (simp add: pager_page_def invalidate_cache_after_local_checkpoint_def)
  obtain c pool where "read_page mem_file_ops q ?pg = Some (Inr (pager_page (\<lambda>d. d) ?pg q), ?pg\<lparr>pg_cache := c, pg_page_pool := pool\<rparr>)"
    "pager_ok mem_inv (\<lambda>d. d) (?pg\<lparr>pg_cache := c, pg_page_pool := pool\<rparr>)"
    using memfile.read_page_ok [OF ok assms(6)] by blast
  with w(1) show ?thesis unfolding pp by blast
qed

definition empty_pager :: "bytes Pager" where
  "empty_pager = open_with_known_page_count [] (sample_header\<lparr>h_page_size := 4096\<rparr>) 1 4 0"

lemma empty_pager_ok: "pager_ok mem_inv (\<lambda>d. d) empty_pager" "pg_page_size empty_pager = 4096"
  by (simp_all add: empty_pager_def open_with_known_page_count_def Let_def pager_ok_def pager_disk_def mem_inv_def
      is_supported_page_size_def SUPPORTED_PAGE_SIZES_def)

theorem pager_copyback_read_witness:
  "\<exists>pg1 pg2. write_pages_contiguous_no_cache mem_file_ops 3 (replicate 8192 7) empty_pager = Some (Inr (), pg1) \<and>
    read_page mem_file_ops 4 (invalidate_cache_after_local_checkpoint pg1) = Some (Inr (replicate 4096 7), pg2)"
  using pager_copyback_read [OF empty_pager_ok(1), of 3 "replicate 8192 7" 2 4] empty_pager_ok(2)
  by (auto simp: bslice_def)

text \<open>C16: truncation of the free tail.  When the freelist kept in the file is a chain of distinct pages
  behind the reserved ones and the last page of the file is free, \<open>truncate_freelist_tail\<close> returns, cuts
  off exactly the maximal run of free pages at the end, keeps the other free pages linked in their old
  order, takes the number of pages cut off from the recorded number of free pages, which stays exact if it was,
  leaves every page in use untouched, and the header on disk is the header in memory.\<close>

theorem freelist_tail_truncated:
  assumes "pager_ok mem_inv (\<lambda>d. d) pg" "header_wf (pg_header pg)" "h_page_size (pg_header pg) = pg_page_size pg"
    and "fl_chain (pager_page (\<lambda>d. d) pg) (fl_head_page_id (h_freelist (pg_header pg))) xs" "distinct xs"
    and "\<forall>x\<in>set xs. 2 < x \<and> x \<le> pg_db_page_count pg" "fl_page_count (h_freelist (pg_header pg)) \<noteq> 0"
    and "pg_db_page_count pg \<in> set xs"
  shows "\<exists>n pg'. truncate_freelist_tail cpu mem_file_ops pg = Some (Inr (Some n), pg') \<and>
    n < pg_db_page_count pg \<and> (\<forall>p. n < p \<longrightarrow> p \<le> pg_db_page_count pg \<longrightarrow> p \<in> set xs) \<and> n \<notin> set xs \<and>
    tail_truncated mem_inv (\<lambda>d. d) cpu mem_file_ops xs n pg pg'"
  using memfile.truncate_freelist_tail_ok [OF assms] .

definition free_tail_pager :: "bytes Pager" where
  "free_tail_pager = open_with_known_page_count (replicate 12288 0)
     (sample_header\<lparr>h_freelist := \<lparr>fl_root_page_id = 0, fl_head_page_id = 3, fl_page_count = 1\<rparr>\<rparr>) 1 4 3"

theorem freelist_tail_truncated_witness:
  "\<exists>n pg'. truncate_freelist_tail sse42_cpu mem_file_ops free_tail_pager = Some (Inr (Some n), pg') \<and> n < 3 \<and>
     tail_truncated mem_inv (\<lambda>d. d) sse42_cpu mem_file_ops [3] n free_tail_pager pg'"
proof -
  let ?h = "sample_header\<lparr>h_freelist := \<lparr>fl_root_page_id = 0, fl_head_page_id = 3, fl_page_count = 1\<rparr>\<rparr>"
  have f: "pg_header free_tail_pager = ?h" "pg_page_size free_tail_pager = 4096" "pg_db_page_count free_tail_pager = 3"
    "pg_file free_tail_pager = replicate 12288 0"
    by (simp_all add: free_tail_pager_def open_with_known_page_count_def sample_header_def Let_def)
  have ok: "pager_ok mem_inv (\<lambda>d. d) free_tail_pager"
    by (simp add: free_tail_pager_def open_with_known_page_count_def sample_header_def Let_def pager_ok_def pager_disk_def
        mem_inv_def is_supported_page_size_def SUPPORTED_PAGE_SIZES_def)
  have h: "header_wf (pg_header free_tail_pager)" using sample_header_wf by (simp add: f header_wf_def)
  have "pager_page (\<lambda>d. d) free_tail_pager 3 = replicate 4096 0"
    by (intro nth_equalityI) (simp_all add: pager_page_def disk_page_def f pget_def)
  moreover have "u32_of_le (replicate 4 0) = 0" by (simp add: u32_of_le_def numeral_eq_Suc)
  ultimately have c: "fl_chain (pager_page (\<lambda>d. d) free_tail_pager) (fl_head_page_id (h_freelist (pg_header free_tail_pager))) [3]"
    by (simp add: f)
  show ?thesis
    using freelist_tail_truncated [OF ok h _ c, of sse42_cpu] f by (auto simp: sample_header_def)
qed

end
