(* ===== verification/WalRecovery.thy ===== *)
theory WalRecovery
  imports WalReplay WalSidecar Pager
begin

text \<open>
  Recovery, \<open>wal/recovery.rs\<close>: the log is read frame by frame, page images of the open transaction are
  collected, and a commit frame moves them into the index.  It is shown that recovery returns
  and that index and database file together are the pages the log describes.
\<close>

section \<open>Definitions\<close>

definition MAX_PENDING_RECOVERY_FRAMES :: nat where "MAX_PENDING_RECOVERY_FRAMES = 1000000"

record PendingRecoveryPage =
  pr_data :: bytes
  pr_lsn :: u64
  pr_wal_offset :: u64
  pr_frame_len :: u32
  pr_encoding :: FrameEncoding

definition recovery_pending_overflow_error :: db_error where
  "recovery_pending_overflow_error =
     Corruption ''WAL recovery aborted: more than 1,000,000 uncommitted page frames before commit''"

definition push_pending_frame :: "page_id list \<Rightarrow> page_id \<Rightarrow> page_id list result" where
  "push_pending_frame pending page_id =
     (if length pending \<ge> MAX_PENDING_RECOVERY_FRAMES then Inl recovery_pending_overflow_error
      else Inr (pending @ [page_id]))"

definition store_pending_page ::
  "(page_id, PendingRecoveryPage) RBT.rbt \<Rightarrow> page_id \<Rightarrow> bytes \<Rightarrow> u64 \<Rightarrow> u64 \<Rightarrow> u32 \<Rightarrow> FrameEncoding \<Rightarrow>
   (page_id, PendingRecoveryPage) RBT.rbt result"
where
  "store_pending_page pending_pages page_id data lsn wal_offset frame_len encoding =
     (let at_capacity = length (RBT.keys pending_pages) \<ge> MAX_PENDING_RECOVERY_FRAMES;
          entry = \<lparr>pr_data = data, pr_lsn = lsn, pr_wal_offset = wal_offset, pr_frame_len = frame_len,
                   pr_encoding = encoding\<rparr>
      in case RBT.lookup pending_pages page_id of
           Some _ \<Rightarrow> Inr (RBT.insert page_id entry pending_pages)
         | None \<Rightarrow> if at_capacity then Inl recovery_pending_overflow_error
                   else Inr (RBT.insert page_id entry pending_pages))"

text \<open>The variables of the loop, with the pager whose cache it fills.\<close>

record 'f recovery =
  rv_index :: WalIndex
  rv_max_page_id :: page_id
  rv_pending :: "page_id list"
  rv_pending_pages :: "(page_id, PendingRecoveryPage) RBT.rbt"
  rv_pager :: "'f Pager"

definition drain_pending ::
  "(page_id list \<Rightarrow> page_id list) \<Rightarrow> (page_id, PendingRecoveryPage) RBT.rbt \<Rightarrow> WalIndex \<Rightarrow> WalIndex"
where
  "drain_pending hash_order pending_pages idx =
     fold (\<lambda>page_id idx. case RBT.lookup pending_pages page_id of
         None \<Rightarrow> idx
       | Some pending_page \<Rightarrow>
           add_version page_id
             (version_resident (pr_lsn pending_page) (pr_wal_offset pending_page) (pr_frame_len pending_page)
                (pr_encoding pending_page) (pr_data pending_page)) False idx)
       (hash_order (RBT.keys pending_pages)) idx"

text \<open>
  The base image of a delta: the latest recovered version, else the page in the database.  A version
  without resident bytes would be a panic; here it is an error that cannot occur during replay.
\<close>

definition delta_base :: "'f vfs_file_ops \<Rightarrow> page_id \<Rightarrow> ('f recovery, bytes) prog" where
  "delta_base ops page_id st =
     (case latest_visible (rv_index st) page_id (- 1) of
        Some version \<Rightarrow>
          Some (ok_or (Internal ''demoted WAL payload must be materialized first'') (as_slice (wv_payload version)), st)
      | None \<Rightarrow>
          (case read_page ops page_id (rv_pager st) of
             None \<Rightarrow> None
           | Some (r, pg) \<Rightarrow> Some (r, st\<lparr>rv_pager := pg\<rparr>)))"

definition recover_frame ::
  "'f vfs_file_ops \<Rightarrow> (page_id list \<Rightarrow> page_id list) \<Rightarrow> WalFrame \<Rightarrow> u64 \<Rightarrow> u32 \<Rightarrow> u64 \<Rightarrow> ('f recovery, unit) prog"
where
  "recover_frame ops hash_order frame offset frame_len next_offset st =
     (let page_id = wf_page_id frame;
          counted = pbind (\<lambda>st. let st = st\<lparr>rv_max_page_id := max (rv_max_page_id st) page_id\<rparr>
                                 in Some (push_pending_frame (rv_pending st) page_id, st))
                          (\<lambda>pending st. Some (Inr (), st\<lparr>rv_pending := pending\<rparr>));
          store = (\<lambda>data encoding. pbind
                     (\<lambda>st. Some (store_pending_page (rv_pending_pages st) page_id data next_offset offset frame_len encoding, st))
                     (\<lambda>pages st. Some (Inr (), st\<lparr>rv_pending_pages := pages\<rparr>)))
      in case wf_frame_type frame of
           Page \<Rightarrow> pbind counted (\<lambda>_. store (wf_payload frame) EncPage) st
         | PageDelta \<Rightarrow>
             pbind counted (\<lambda>_ st.
               case RBT.lookup (rv_pending_pages st) page_id of
                 Some pending_page \<Rightarrow>
                   (case apply_page_delta_in_place (pr_data pending_page) (wf_payload frame) of
                      (Inl e, _) \<Rightarrow> Some (Inl e, st)
                    | (Inr _, data) \<Rightarrow>
                        Some (Inr (), st\<lparr>rv_pending_pages := RBT.insert page_id
                          (pending_page\<lparr>pr_data := data, pr_lsn := next_offset, pr_wal_offset := offset,
                             pr_frame_len := frame_len, pr_encoding := EncPageDelta\<rparr>) (rv_pending_pages st)\<rparr>))
               | None \<Rightarrow>
                   pbind (delta_base ops page_id) (\<lambda>base.
                     case apply_page_delta_in_place base (wf_payload frame) of
                       (Inl e, _) \<Rightarrow> pfail e
                     | (Inr _, data) \<Rightarrow> store data EncPageDelta) st) st
         | Commit \<Rightarrow>
             Some (Inr (), st\<lparr>rv_pending := [], rv_index := drain_pending hash_order (rv_pending_pages st) (rv_index st),
                              rv_pending_pages := RBT.empty\<rparr>)
         | Checkpoint \<Rightarrow> Some (Inr (), st\<lparr>rv_pending := [], rv_pending_pages := RBT.empty\<rparr>))"

partial_function (option) recover_loop ::
  "'w vfs_file_ops \<Rightarrow> 'f vfs_file_ops \<Rightarrow> (page_id list \<Rightarrow> page_id list) \<Rightarrow> 'w \<Rightarrow> u32 \<Rightarrow> u64 \<Rightarrow> u64 \<Rightarrow>
   'f recovery \<Rightarrow> (unit result \<times> 'f recovery) option"
where
  "recover_loop wops ops hash_order wal page_size wal_end offset st =
     (if offset < wal_end
      then case decode_from_file wops wal offset page_size wal_end of
             Inl e \<Rightarrow> Some (Inl e, st)
           | Inr None \<Rightarrow> Some (Inr (), st)
           | Inr (Some frame) \<Rightarrow>
               let frame_len = (of_nat (frame_encoded_len frame page_size) :: u32);
                   next_offset = offset + ucast frame_len
               in case recover_frame ops hash_order frame offset frame_len next_offset st of
                    None \<Rightarrow> None
                  | Some (Inl e, st') \<Rightarrow> Some (Inl e, st')
                  | Some (Inr _, st') \<Rightarrow> recover_loop wops ops hash_order wal page_size wal_end next_offset st'
      else Some (Inr (), st))"

lemma spill_loop_shorter:
  "spill_loop hot order idx = (Some s, idx') \<Longrightarrow> length (wi_access_order idx') < length order"
  by (induction hot order idx rule: spill_loop.induct) (auto split: if_splits)

function spill_recovered_loop ::
  "'x vfs_file_ops \<Rightarrow> nat \<Rightarrow> WalIndex \<Rightarrow> 'x WalIndexSidecar \<Rightarrow> (unit result \<times> WalIndex \<times> 'x WalIndexSidecar) option"
where
  "spill_recovered_loop xops hot_set_pages idx sc =
     (case spill_one_cold_latest hot_set_pages idx of
        (None, idx') \<Rightarrow> Some (Inr (), idx', sc)
      | (Some (page_id, version), idx') \<Rightarrow>
          (case write_latest xops page_id version sc of
             None \<Rightarrow> None
           | Some (Inl e, sc') \<Rightarrow> Some (Inl e, idx', sc')
           | Some (Inr _, sc') \<Rightarrow> spill_recovered_loop xops hot_set_pages idx' sc'))"
  by pat_completeness auto
termination
  by (relation "measure (\<lambda>(_, _, idx, _). length (wi_access_order idx))")
     (auto simp: spill_one_cold_latest_def dest: spill_loop_shorter [OF sym])

declare spill_recovered_loop.simps [simp del]

definition spill_recovered_latest_versions ::
  "'x vfs_file_ops \<Rightarrow> WalIndex \<Rightarrow> u32 \<Rightarrow> 'x WalIndexSidecar option \<Rightarrow>
   (unit result \<times> WalIndex \<times> 'x WalIndexSidecar option) option"
where
  "spill_recovered_latest_versions xops idx hot_set_pages sidecar =
     (case sidecar of
        None \<Rightarrow> Some (Inr (), idx, None)
      | Some sc \<Rightarrow>
          map_option (\<lambda>(r, idx, sc). (r, idx, Some sc)) (spill_recovered_loop xops (unat hot_set_pages) idx sc))"

definition persist_wal_header :: "'w vfs_file_ops \<Rightarrow> u32 \<Rightarrow> u64 \<Rightarrow> 'w \<Rightarrow> unit result \<times> 'w" where
  "persist_wal_header wops page_size wal_end_offset wal =
     write_all_at wops 0 (wal_header_encode \<lparr>wh_page_size = page_size, wh_wal_end_offset = wal_end_offset\<rparr>) wal"

record ('w, 'f, 'x) recovery_world =
  rw_wal :: 'w
  rw_pager :: "'f Pager"
  rw_sidecar :: "'x WalIndexSidecar option"

definition initialize_or_recover ::
  "'w vfs_file_ops \<Rightarrow> 'f vfs_file_ops \<Rightarrow> 'x vfs_file_ops \<Rightarrow> (page_id list \<Rightarrow> page_id list) \<Rightarrow> u32 \<Rightarrow> u32 \<Rightarrow>
   (('w, 'f, 'x) recovery_world, WalIndex \<times> u64 \<times> page_id) prog"
where
  "initialize_or_recover wops ops xops hash_order page_size hot_set_pages w =
     pbind (\<lambda>w. Some (vf_file_size wops (rw_wal w), w)) (\<lambda>size'.
       if size' = 0
       then pbind (\<lambda>w. let (r, wal) = write_all_at wops 0
                          (wal_header_encode \<lparr>wh_page_size = page_size, wh_wal_end_offset = 0\<rparr>) (rw_wal w)
                       in Some (r, w\<lparr>rw_wal := wal\<rparr>)) (\<lambda>_.
            pbind (\<lambda>w. let (r, wal) = vf_set_len wops WAL_HEADER_SIZE (rw_wal w)
                       in Some (r, w\<lparr>rw_wal := wal\<rparr>)) (\<lambda>_.
              pret (index_default, 0, 0)))
       else if size' < WAL_HEADER_SIZE then pfail (Corruption ''WAL file is shorter than the fixed header'')
       else pbind (\<lambda>w. Some (rbind (read_exact_at wops 0 32 (rw_wal w)) wal_header_decode, w)) (\<lambda>header.
         if wh_page_size header \<noteq> page_size
         then pfail (Corruption ''WAL page size does not match database page size'')
         else if wh_wal_end_offset header > size'
         then pfail (Corruption ''WAL logical end offset exceeds file size'')
         else (\<lambda>w.
           case recover_loop wops ops hash_order (rw_wal w) page_size (wh_wal_end_offset header) WAL_HEADER_SIZE
                  \<lparr>rv_index = index_default, rv_max_page_id = 0, rv_pending = [], rv_pending_pages = RBT.empty,
                   rv_pager = rw_pager w\<rparr> of
             None \<Rightarrow> None
           | Some (Inl e, st) \<Rightarrow> Some (Inl e, w\<lparr>rw_pager := rv_pager st\<rparr>)
           | Some (Inr _, st) \<Rightarrow>
               (case spill_recovered_latest_versions xops (rv_index st) hot_set_pages (rw_sidecar w) of
                  None \<Rightarrow> None
                | Some (r, idx, sc) \<Rightarrow>
                    Some (rmap (\<lambda>_. (idx, wh_wal_end_offset header, rv_max_page_id st)) r,
                          w\<lparr>rw_pager := rv_pager st, rw_sidecar := sc\<rparr>))))) w"

section \<open>Versions backed by the log\<close>

text \<open>
  The frame that a version names lies in the log, belongs to the page, and ends at the version's sequence
  number; resident bytes are a whole page, and those of a full-page frame are its payload.
\<close>

definition version_backed :: "bytes \<Rightarrow> u32 \<Rightarrow> page_id \<Rightarrow> WalVersion \<Rightarrow> bool" where
  "version_backed c page_size p v \<longleftrightarrow>
     (case wal_metadata (wv_payload v) of (wal_offset, frame_len, enc) \<Rightarrow>
        \<exists>fr. frame_at c (unat wal_offset) page_size fr \<and> wf_page_id fr = p \<and>
          wf_frame_type fr = encoding_frame_type enc \<and> unat frame_len = frame_encoded_len fr page_size \<and>
          unat (wv_lsn v) = unat wal_offset + frame_encoded_len fr page_size \<and>
          (\<forall>data. as_slice (wv_payload v) = Some data \<longrightarrow>
             length data = unat page_size \<and> (enc = EncPage \<longrightarrow> data = wf_payload fr)))"

definition pending_version :: "PendingRecoveryPage \<Rightarrow> WalVersion" where
  "pending_version pr = version_resident (pr_lsn pr) (pr_wal_offset pr) (pr_frame_len pr) (pr_encoding pr) (pr_data pr)"

lemma version_backed_resident:
  "version_backed c page_size p (version_resident lsn wal_offset frame_len enc data) \<longleftrightarrow>
     (\<exists>fr. frame_at c (unat wal_offset) page_size fr \<and> wf_page_id fr = p \<and>
        wf_frame_type fr = encoding_frame_type enc \<and> unat frame_len = frame_encoded_len fr page_size \<and>
        unat lsn = unat wal_offset + frame_encoded_len fr page_size \<and>
        length data = unat page_size \<and> (enc = EncPage \<longrightarrow> data = wf_payload fr))"
  by (simp add: version_backed_def version_resident_def)

definition max_page_id_of :: "WalFrame list \<Rightarrow> page_id" where
  "max_page_id_of fs = fold max (map wf_page_id (filter (\<lambda>fr. is_page_frame (wf_frame_type fr)) fs)) 0"

lemma max_page_id_of_snoc:
  "max_page_id_of (fs @ [fr]) =
     (if is_page_frame (wf_frame_type fr) then max (max_page_id_of fs) (wf_page_id fr) else max_page_id_of fs)"
  by (simp add: max_page_id_of_def max.commute)

lemma length_keys: "length (RBT.keys t) = card (dom (RBT.lookup t))"
  by (simp add: RBT.lookup_keys distinct_card RBT.distinct_keys)

lemma length_keys_insert: "length (RBT.keys (RBT.insert k v t)) \<le> Suc (length (RBT.keys t))"
  by (simp add: length_keys card_insert_le_m1 RBT.finite_dom_lookup card_insert_if)

lemma drain_pending_versions:
  assumes "\<And>ks. mset (hash_order ks) = mset ks"
  shows "page_versions (drain_pending hash_order pend idx) p =
    (case RBT.lookup pend p of None \<Rightarrow> page_versions idx p | Some pr \<Rightarrow> [pending_version pr])"
proof -
  let ?f = "\<lambda>page_id idx. case RBT.lookup pend page_id of None \<Rightarrow> idx
    | Some pr \<Rightarrow> add_version page_id (version_resident (pr_lsn pr) (pr_wal_offset pr) (pr_frame_len pr)
        (pr_encoding pr) (pr_data pr)) False idx"
  have "page_versions (fold ?f ks idx) p =
      (case RBT.lookup pend p of None \<Rightarrow> page_versions idx p
       | Some pr \<Rightarrow> if p \<in> set ks then [pending_version pr] else page_versions idx p)" for ks
    by (induction ks arbitrary: idx) (auto simp: pending_version_def split: option.splits)
  moreover have "set (hash_order (RBT.keys pend)) = dom (RBT.lookup pend)"
    using assms [of "RBT.keys pend"] by (metis RBT.lookup_keys set_mset_mset)
  ultimately show ?thesis by (auto simp: drain_pending_def split: option.splits)
qed

section \<open>The invariant of the replay loop\<close>

locale wal_world = wal: vfs_file wops winv wcontent + db: vfs_file ops inv content
  for wops :: "'w vfs_file_ops" and winv and wcontent and ops :: "'f vfs_file_ops" and inv and content

definition index_view :: "WalIndex \<Rightarrow> pages \<Rightarrow> pages" where
  "index_view idx D p =
     (case latest_visible idx p (- 1) of
        None \<Rightarrow> D p
      | Some v \<Rightarrow> (case as_slice (wv_payload v) of None \<Rightarrow> [] | Some data \<Rightarrow> data))"

definition index_holds :: "bytes \<Rightarrow> u32 \<Rightarrow> WalIndex \<Rightarrow> pages \<Rightarrow> pages \<Rightarrow> bool" where
  "index_holds c page_size idx D E \<longleftrightarrow>
     (\<forall>p. page_versions idx p = [] \<and> E p = D p \<or>
       (\<exists>v. page_versions idx p = [v] \<and> as_slice (wv_payload v) = Some (E p) \<and> version_backed c page_size p v))"

lemma index_holds_view: "index_holds c page_size idx D E \<Longrightarrow> index_view idx D = E"
proof
  fix p assume "index_holds c page_size idx D E"
  then consider "page_versions idx p = []" "E p = D p"
    | v where "page_versions idx p = [v]" "as_slice (wv_payload v) = Some (E p)"
    unfolding index_holds_def by blast
  then show "index_view idx D p = E p"
    by cases (simp_all add: index_view_def latest_visible_eq)
qed

definition pending_holds :: "bytes \<Rightarrow> u32 \<Rightarrow> (page_id, PendingRecoveryPage) RBT.rbt \<Rightarrow> pages \<Rightarrow> pages \<Rightarrow> bool" where
  "pending_holds c page_size pend E F \<longleftrightarrow>
     (\<forall>p. case RBT.lookup pend p of
        None \<Rightarrow> F p = E p
      | Some pr \<Rightarrow> pr_data pr = F p \<and> version_backed c page_size p (pending_version pr))"

definition recovery_inv ::
  "('f \<Rightarrow> bool) \<Rightarrow> ('f \<Rightarrow> bytes) \<Rightarrow> bytes \<Rightarrow> u32 \<Rightarrow> 'f \<Rightarrow> pages \<Rightarrow> WalFrame list \<Rightarrow> 'f recovery \<Rightarrow> bool"
where
  "recovery_inv ok content c page_size file D fs st \<longleftrightarrow>
     index_holds c page_size (rv_index st) D (replay (committed fs) D) \<and>
     pending_holds c page_size (rv_pending_pages st) (replay (committed fs) D)
       (replay (open_from [] fs) (replay (committed fs) D)) \<and>
     length (rv_pending st) = length (open_from [] fs) \<and>
     length (RBT.keys (rv_pending_pages st)) \<le> length (open_from [] fs) \<and>
     rv_max_page_id st = max_page_id_of fs \<and>
     pager_ok ok content (rv_pager st) \<and> pg_file (rv_pager st) = file \<and> pg_page_size (rv_pager st) = page_size \<and>
     pager_page content (rv_pager st) = D \<and>
     (\<forall>fr \<in> set (committed fs @ open_from [] fs). frame_valid page_size fr)"

lemma index_holds_drain:
  assumes "\<And>ks. mset (hash_order ks) = mset ks" "index_holds c page_size idx D E" "pending_holds c page_size pend E F"
  shows "index_holds c page_size (drain_pending hash_order pend idx) D F"
  unfolding index_holds_def
proof
  fix p
  show "page_versions (drain_pending hash_order pend idx) p = [] \<and> F p = D p \<or>
    (\<exists>v. page_versions (drain_pending hash_order pend idx) p = [v] \<and> as_slice (wv_payload v) = Some (F p) \<and>
      version_backed c page_size p v)"
  proof (cases "RBT.lookup pend p")
    case None
    then have "F p = E p" using assms(3) by (auto simp: pending_holds_def split: option.splits dest: spec [of _ p])
    then show ?thesis using assms(2) None drain_pending_versions [OF assms(1), of pend idx p]
      unfolding index_holds_def by simp
  next
    case (Some pr)
    then have "pr_data pr = F p" "version_backed c page_size p (pending_version pr)"
      using assms(3) [unfolded pending_holds_def, rule_format, of p] by simp_all
    then show ?thesis using Some drain_pending_versions [OF assms(1), of pend idx p]
      by (simp add: pending_version_def version_resident_def)
  qed
qed

lemma pending_holds_store:
  assumes "pending_holds c page_size pend E F" "pr_data pr = G p" "version_backed c page_size p (pending_version pr)"
    "\<And>q. q \<noteq> p \<Longrightarrow> G q = F q"
  shows "pending_holds c page_size (RBT.insert p pr pend) E G"
  unfolding pending_holds_def
proof
  fix q
  show "case RBT.lookup (RBT.insert p pr pend) q of None \<Rightarrow> G q = E q
    | Some pr \<Rightarrow> pr_data pr = G q \<and> version_backed c page_size q (pending_version pr)"
    using assms(1) [unfolded pending_holds_def, rule_format, of q] assms(2,3) assms(4) [of q]
    by (cases "q = p"; cases "RBT.lookup pend q") simp_all
qed

lemma open_from_snoc:
  "open_from [] (fs @ [fr]) = (if is_page_frame (wf_frame_type fr) then open_from [] fs @ [fr] else [])"
  by (simp add: open_from_append)

lemma committed_snoc:
  "committed (fs @ [fr]) = committed fs @ (if wf_frame_type fr = Commit then open_from [] fs else [])"
  by (cases "wf_frame_type fr") (simp_all add: committed_def committed_from_append)

lemma store_pending_ok:
  assumes "length (RBT.keys pend) < MAX_PENDING_RECOVERY_FRAMES"
  shows "store_pending_page pend p data lsn off len enc =
    Inr (RBT.insert p \<lparr>pr_data = data, pr_lsn = lsn, pr_wal_offset = off, pr_frame_len = len, pr_encoding = enc\<rparr> pend)"
  using assms by (simp add: store_pending_page_def Let_def split: option.splits)

lemma recovery_inv_store:
  assumes inv: "recovery_inv ok content c page_size file D fs st" and fr: "is_page_frame (wf_frame_type fr)" "frame_valid page_size fr"
    and p: "p = wf_page_id fr"
    and at: "frame_at c (unat off) page_size fr" "unat len = frame_encoded_len fr page_size"
      "unat lsn = unat off + frame_encoded_len fr page_size"
    and enc: "wf_frame_type fr = encoding_frame_type enc"
    and data: "data = apply_frame fr (replay (open_from [] fs) (replay (committed fs) D)) p"
    and st': "rv_index st' = rv_index st" "rv_pager st' = pg" "rv_max_page_id st' = max (rv_max_page_id st) p"
      "rv_pending st' = rv_pending st @ [p]"
      "rv_pending_pages st' = RBT.insert p \<lparr>pr_data = data, pr_lsn = lsn, pr_wal_offset = off, pr_frame_len = len,
         pr_encoding = enc\<rparr> (rv_pending_pages st)"
    and pg: "pager_ok ok content pg" "pg_file pg = file" "pg_page_size pg = page_size" "pager_page content pg = D"
  shows "recovery_inv ok content c page_size file D (fs @ [fr]) st'"
proof -
  let ?E = "replay (committed fs) D"
  let ?F = "replay (open_from [] fs) ?E"
  have cm: "committed (fs @ [fr]) = committed fs" "open_from [] (fs @ [fr]) = open_from [] fs @ [fr]"
    using fr(1) by (auto simp: committed_snoc open_from_snoc is_page_frame_def)
  have sized: "pages_sized page_size D" using pg(3,4) by (auto simp: pages_sized_def pager_page_def)
  then have "pages_sized page_size (apply_frame fr ?F)"
    using inv fr(2) by (intro apply_frame_sized replay_sized) (auto simp: recovery_inv_def)
  then have len: "length data = unat page_size" by (simp add: data pages_sized_def)
  have full: "enc = EncPage \<Longrightarrow> data = wf_payload fr" using enc p by (simp add: data apply_frame_def)
  have "version_backed c page_size p (pending_version \<lparr>pr_data = data, pr_lsn = lsn, pr_wal_offset = off,
      pr_frame_len = len, pr_encoding = enc\<rparr>)"
    using at enc len full p by (auto simp: pending_version_def version_backed_resident)
  moreover have "apply_frame fr ?F q = ?F q" if "q \<noteq> p" for q using that p by (simp add: apply_frame_other)
  ultimately have "pending_holds c page_size (rv_pending_pages st') ?E (apply_frame fr ?F)"
    unfolding st' using inv data by (intro pending_holds_store) (auto simp: recovery_inv_def)
  moreover have "length (RBT.keys (rv_pending_pages st')) \<le> Suc (length (open_from [] fs))"
    unfolding st' using length_keys_insert inv by (fastforce simp: recovery_inv_def intro: order_trans)
  ultimately show ?thesis
    using inv pg cm fr(1,2) p by (simp add: recovery_inv_def st' max_page_id_of_snoc)
qed

section \<open>Logs\<close>

fun frames_at :: "bytes \<Rightarrow> nat \<Rightarrow> u32 \<Rightarrow> WalFrame list \<Rightarrow> bool" where
  "frames_at c o' page_size [] = True"
| "frames_at c o' page_size (fr # fs) =
     (frame_at c o' page_size fr \<and> frames_at c (o' + frame_encoded_len fr page_size) page_size fs)"

definition log_length :: "u32 \<Rightarrow> WalFrame list \<Rightarrow> nat" where
  "log_length page_size fs = sum_list (map (\<lambda>fr. frame_encoded_len fr page_size) fs)"

text \<open>No complete frame lies behind position \<open>e\<close>: the header of the next frame or its body is cut off.\<close>

definition log_ends :: "bytes \<Rightarrow> nat \<Rightarrow> u32 \<Rightarrow> bool" where
  "log_ends c e page_size \<longleftrightarrow> length c < e + 5 \<or>
     (\<exists>t. frame_type_try_from (c ! e) = Inr t \<and> length c < e + (13 + payload_size t page_size))"

definition pending_within :: "WalFrame list \<Rightarrow> bool" where
  "pending_within fs \<longleftrightarrow> (\<forall>k < length fs. is_page_frame (wf_frame_type (fs ! k)) \<longrightarrow>
     length (open_from [] (take k fs)) < MAX_PENDING_RECOVERY_FRAMES)"

text \<open>\<open>c\<close> is the log up to its logical end, holding the frames \<open>fs\<close> and possibly the beginning of another one.\<close>

definition log_holds :: "bytes \<Rightarrow> u32 \<Rightarrow> WalFrame list \<Rightarrow> bool" where
  "log_holds c page_size fs \<longleftrightarrow> frames_at c 32 page_size fs \<and> log_ends c (32 + log_length page_size fs) page_size \<and>
     (\<forall>fr \<in> set fs. frame_valid page_size fr) \<and> pending_within fs"

lemma frames_at_append:
  "frames_at c o' page_size (fs @ gs) \<longleftrightarrow>
     frames_at c o' page_size fs \<and> frames_at c (o' + log_length page_size fs) page_size gs"
  by (induction fs arbitrary: o') (auto simp: log_length_def add.assoc)

lemma log_length_simps [simp]:
  "log_length page_size [] = 0" "log_length page_size (fr # fs) = frame_encoded_len fr page_size + log_length page_size fs"
  "log_length page_size (fs @ gs) = log_length page_size fs + log_length page_size gs"
  by (simp_all add: log_length_def)

context vfs_file
begin

lemma decode_at_end:
  assumes "inv f" "unat logical_end \<le> length (content f)"
    "log_ends (take (unat logical_end) (content f)) (unat off) page_size"
  shows "decode_from_file ops f off page_size logical_end = Inr None"
proof (cases "unat off + 5 \<le> unat logical_end")
  case False
  show ?thesis
  proof (cases "off \<ge> logical_end")
    case o: False
    then have "unat off < unat logical_end" by (simp add: word_le_nat_alt)
    then have "unat (off + of_nat 5) = unat off + 5"
      using assms content_len [OF assms(1)] by (intro unat_offset) simp
    with False o show ?thesis by (simp add: decode_from_file_def FRAME_HEADER_SIZE_def word_less_nat_alt)
  qed (simp add: decode_from_file_def)
next
  case True
  let ?c = "take (unat logical_end) (content f)"
  have L: "unat logical_end < 2 ^ 63" using assms(1,2) content_len by fastforce
  obtain t where t: "frame_type_try_from (?c ! unat off) = Inr t" "unat logical_end < unat off + (13 + payload_size t page_size)"
    using assms(2,3) True by (auto simp: log_ends_def)
  have o: "\<not> off \<ge> logical_end" using True by (simp add: word_le_nat_alt)
  have n: "payload_size t page_size \<le> 2 ^ 32" using payload_size_bound [of t page_size] unsigned_less [of page_size, where ?'a = nat]
    by (simp add: DELTA_FRAME_PAYLOAD_SIZE_def)
  have add: "unat (off + of_nat k) = unat off + k" if "k \<le> 2 ^ 32 + 13" for k
    using that True L by (intro unat_offset) simp
  have h: "\<not> off + of_nat 5 > logical_end" "off + of_nat (5 + payload_size t page_size + 8) > logical_end"
    using True t(2) n add [of 5] add [of "5 + payload_size t page_size + 8"] by (simp_all add: word_less_nat_alt)
  have rd: "read_exact_at ops off 5 f = Inr (bslice (content f) (unat off) (unat off + 5))"
    using True assms(1,2) by (simp add: read_exact_ok)
  have "bslice (content f) (unat off) (unat off + 5) ! 0 = ?c ! unat off"
    using True assms(2) by (simp add: nth_bslice)
  with o h rd t(1) show ?thesis
    by (simp add: decode_from_file_def FRAME_HEADER_SIZE_def FRAME_TRAILER_SIZE_def Let_def)
qed

end

context wal_world
begin

lemma delta_base_ok:
  assumes "recovery_inv inv content c page_size file D fs st" "p \<noteq> 0" "RBT.lookup (rv_pending_pages st) p = None"
    and st': "rv_index st' = rv_index st" "rv_pager st' = rv_pager st"
  shows "\<exists>pg. delta_base ops p st' = Some (Inr (replay (open_from [] fs) (replay (committed fs) D) p), st'\<lparr>rv_pager := pg\<rparr>) \<and>
    pager_ok inv content pg \<and> pg_file pg = file \<and> pg_page_size pg = page_size \<and> pager_page content pg = D"
proof -
  let ?E = "replay (committed fs) D"
  have e: "replay (open_from [] fs) ?E p = ?E p"
    using assms(1,3) by (auto simp: recovery_inv_def pending_holds_def split: option.splits dest: spec [of _ p])
  have pg: "pager_ok inv content (rv_pager st)" "pg_file (rv_pager st) = file" "pg_page_size (rv_pager st) = page_size"
    "pager_page content (rv_pager st) = D" and ih: "index_holds c page_size (rv_index st) D ?E"
    using assms(1) by (simp_all add: recovery_inv_def)
  from ih consider "page_versions (rv_index st) p = []" "?E p = D p"
    | v where "page_versions (rv_index st) p = [v]" "as_slice (wv_payload v) = Some (?E p)"
    unfolding index_holds_def by blast
  then show ?thesis
  proof cases
    case 1
    obtain cc pool where r: "read_page ops p (rv_pager st) =
        Some (Inr (D p), (rv_pager st)\<lparr>pg_cache := cc, pg_page_pool := pool\<rparr>)"
      "pager_ok inv content ((rv_pager st)\<lparr>pg_cache := cc, pg_page_pool := pool\<rparr>)"
      using db.read_page_ok [OF pg(1) assms(2)] pg(4) by auto
    then show ?thesis using 1 e pg
      by (intro exI [of _ "(rv_pager st)\<lparr>pg_cache := cc, pg_page_pool := pool\<rparr>"])
         (simp add: delta_base_def latest_visible_eq pager_page_def st')
  next
    case 2
    then show ?thesis using e pg st'
      by (intro exI [of _ "rv_pager st"]) (cases st', simp add: delta_base_def latest_visible_eq)
  qed
qed

lemma recover_frame_ok:
  assumes inv: "recovery_inv inv content c page_size file D fs st"
    and fr: "frame_at c (unat off) page_size fr" "frame_valid page_size fr"
    and len: "unat len = frame_encoded_len fr page_size" "unat lsn = unat off + frame_encoded_len fr page_size"
    and room: "is_page_frame (wf_frame_type fr) \<Longrightarrow> length (open_from [] fs) < MAX_PENDING_RECOVERY_FRAMES"
    and ho: "\<And>ks. mset (hash_order ks) = mset ks"
  shows "\<exists>st'. recover_frame ops hash_order fr off len lsn st = Some (Inr (), st') \<and>
    recovery_inv inv content c page_size file D (fs @ [fr]) st'"
proof -
  let ?p = "wf_page_id fr" and ?E = "replay (committed fs) D"
  let ?F = "replay (open_from [] fs) ?E"
  let ?st = "st\<lparr>rv_max_page_id := max (rv_max_page_id st) ?p, rv_pending := rv_pending st @ [?p]\<rparr>"
  have pg: "pager_ok inv content (rv_pager st)" "pg_file (rv_pager st) = file" "pg_page_size (rv_pager st) = page_size"
    "pager_page content (rv_pager st) = D" using inv by (simp_all add: recovery_inv_def)
  have keys: "is_page_frame (wf_frame_type fr) \<Longrightarrow> length (RBT.keys (rv_pending_pages st)) < MAX_PENDING_RECOVERY_FRAMES"
    using inv room by (simp add: recovery_inv_def)
  have push: "is_page_frame (wf_frame_type fr) \<Longrightarrow> push_pending_frame (rv_pending st) ?p = Inr (rv_pending st @ [?p])"
    using inv room by (simp add: push_pending_frame_def recovery_inv_def)
  have pnz: "is_page_frame (wf_frame_type fr) \<Longrightarrow> ?p \<noteq> 0" using fr(2) by (simp add: frame_valid_def frame_ok_def)
  show ?thesis
  proof (cases "wf_frame_type fr")
    case Page
    then have isp: "is_page_frame (wf_frame_type fr)" by (simp add: is_page_frame_def)
    let ?st' = "?st\<lparr>rv_pending_pages := RBT.insert ?p \<lparr>pr_data = wf_payload fr, pr_lsn = lsn, pr_wal_offset = off,
      pr_frame_len = len, pr_encoding = EncPage\<rparr> (rv_pending_pages st)\<rparr>"
    have "recover_frame ops hash_order fr off len lsn st = Some (Inr (), ?st')"
      using Page push [OF isp] store_pending_ok [OF keys [OF isp]] by (simp add: recover_frame_def Let_def)
    moreover have "recovery_inv inv content c page_size file D (fs @ [fr]) ?st'"
      using Page by (intro recovery_inv_store [OF inv isp fr(2) refl fr(1) len _ _ _ _ _ _ _ pg, where enc = EncPage])
        (simp_all add: apply_frame_def)
    ultimately show ?thesis by blast
  next
    case PageDelta
    then have isp: "is_page_frame (wf_frame_type fr)" by (simp add: is_page_frame_def)
    have sized: "pages_sized page_size ?F"
      using inv by (intro replay_sized) (auto simp: recovery_inv_def pages_sized_def pager_page_def)
    obtain data where ap: "apply_page_delta_in_place (?F ?p) (wf_payload fr) = (Inr (), data)"
      using delta_valid_apply [of "?F ?p" "wf_payload fr"] fr(2) PageDelta sized by (auto simp: frame_valid_def pages_sized_def)
    then have data: "data = apply_frame fr ?F ?p" using PageDelta by (simp add: apply_frame_def)
    let ?ins = "RBT.insert ?p \<lparr>pr_data = data, pr_lsn = lsn, pr_wal_offset = off,
      pr_frame_len = len, pr_encoding = EncPageDelta\<rparr> (rv_pending_pages st)"
    have fin: "recovery_inv inv content c page_size file D (fs @ [fr]) (?st\<lparr>rv_pager := pg', rv_pending_pages := ?ins\<rparr>)"
      if "pager_ok inv content pg'" "pg_file pg' = file" "pg_page_size pg' = page_size" "pager_page content pg' = D" for pg'
      using PageDelta data that
      by (intro recovery_inv_store [OF inv isp fr(2) refl fr(1) len, where enc = EncPageDelta]) simp_all
    show ?thesis
    proof (cases "RBT.lookup (rv_pending_pages st) ?p")
      case (Some pr)
      then have "pr_data pr = ?F ?p"
        using inv by (auto simp: recovery_inv_def pending_holds_def split: option.splits dest: spec [of _ ?p])
      then have "recover_frame ops hash_order fr off len lsn st = Some (Inr (), ?st\<lparr>rv_pager := rv_pager st, rv_pending_pages := ?ins\<rparr>)"
        using Some PageDelta push [OF isp] ap by (cases pr) (simp add: recover_frame_def Let_def)
      with fin [OF pg] show ?thesis by blast
    next
      case None
      obtain pg' where b: "delta_base ops ?p ?st = Some (Inr (?F ?p), ?st\<lparr>rv_pager := pg'\<rparr>)"
        "pager_ok inv content pg'" "pg_file pg' = file" "pg_page_size pg' = page_size" "pager_page content pg' = D"
        using delta_base_ok [OF inv pnz [OF isp] None, of ?st] by auto
      then have "recover_frame ops hash_order fr off len lsn st = Some (Inr (), ?st\<lparr>rv_pager := pg', rv_pending_pages := ?ins\<rparr>)"
        using None PageDelta push [OF isp] store_pending_ok [OF keys [OF isp]] ap by (simp add: recover_frame_def Let_def)
      with fin [OF b(2-5)] show ?thesis by blast
    qed
  next
    case Commit
    have "index_holds c page_size (drain_pending hash_order (rv_pending_pages st) (rv_index st)) D ?F"
      using inv by (intro index_holds_drain [OF ho]) (auto simp: recovery_inv_def)
    then show ?thesis using Commit inv
      by (simp add: recover_frame_def recovery_inv_def committed_snoc open_from_snoc is_page_frame_def
          pending_holds_def max_page_id_of_snoc)
  next
    case Checkpoint
    then show ?thesis using inv
      by (simp add: recover_frame_def recovery_inv_def committed_snoc open_from_snoc is_page_frame_def
          pending_holds_def max_page_id_of_snoc)
  qed
qed

lemma recover_loop_ok:
  assumes f: "winv f" "unat wal_end \<le> length (wcontent f)" and c: "c = take (unat wal_end) (wcontent f)"
    and ho: "\<And>ks. mset (hash_order ks) = mset ks"
  shows "frames_at c (unat off) page_size fs \<Longrightarrow> log_ends c (unat off + log_length page_size fs) page_size \<Longrightarrow>
    \<forall>fr \<in> set fs. frame_valid page_size fr \<Longrightarrow> pending_within (gs @ fs) \<Longrightarrow>
    recovery_inv inv content c page_size file D gs st \<Longrightarrow>
    \<exists>st'. recover_loop wops ops hash_order f page_size wal_end off st = Some (Inr (), st') \<and>
      recovery_inv inv content c page_size file D (gs @ fs) st'"
proof (induction fs arbitrary: gs off st)
  case Nil
  have "decode_from_file wops f off page_size wal_end = Inr None"
    using Nil f c by (intro wal.decode_at_end) auto
  then show ?case using Nil by (subst recover_loop.simps) simp
next
  case (Cons fr fs)
  have at: "frame_at c (unat off) page_size fr" using Cons.prems(1) by simp
  have dec: "decode_from_file wops f off page_size wal_end = Inr (Some fr)"
    using wal.decode_from_file_iff [OF f, of off page_size fr] at c by simp
  have lc: "length c = unat wal_end" using f(2) c by simp
  have "13 \<le> frame_encoded_len fr page_size"
    by (simp add: frame_encoded_len_def FRAME_HEADER_SIZE_def FRAME_TRAILER_SIZE_def)
  then have less: "off < wal_end" using at lc by (simp add: frame_at_def word_less_nat_alt)
  have sup: "is_supported_page_size page_size"
    using Cons.prems(5) by (auto simp: recovery_inv_def pager_ok_def pager_disk_def)
  have n: "frame_encoded_len fr page_size < 2 ^ 32"
    using payload_size_bound [of "wf_frame_type fr" page_size] page_size_bounds(2) [OF sup]
    by (simp add: frame_encoded_len_def FRAME_HEADER_SIZE_def FRAME_TRAILER_SIZE_def DELTA_FRAME_PAYLOAD_SIZE_def)
  let ?n = "of_nat (frame_encoded_len fr page_size) :: u32"
  have un: "unat ?n = frame_encoded_len fr page_size" using n by (simp add: unat_of_nat)
  have "unat off + frame_encoded_len fr page_size < 2 ^ 63"
    using at lc f wal.content_len [OF f(1)] by (simp add: frame_at_def)
  then have next_off: "unat (off + ucast ?n) = unat off + frame_encoded_len fr page_size"
    using un by (simp add: unat_word_ariths)
  have room: "is_page_frame (wf_frame_type fr) \<Longrightarrow> length (open_from [] gs) < MAX_PENDING_RECOVERY_FRAMES"
    using Cons.prems(4) by (auto simp: pending_within_def dest: spec [of _ "length gs"])
  obtain st1 where s1: "recover_frame ops hash_order fr off ?n (off + ucast ?n) st = Some (Inr (), st1)"
    "recovery_inv inv content c page_size file D (gs @ [fr]) st1"
    using recover_frame_ok [OF Cons.prems(5) at _ un next_off room ho] Cons.prems(3) by auto
  have "\<exists>st'. recover_loop wops ops hash_order f page_size wal_end (off + ucast ?n) st1 = Some (Inr (), st') \<and>
      recovery_inv inv content c page_size file D ((gs @ [fr]) @ fs) st'"
    using Cons.prems s1(2) next_off by (intro Cons.IH) (auto simp: add.assoc)
  then show ?case using less dec s1(1) by (subst recover_loop.simps) (simp add: Let_def)
qed

lemma recovery_inv_init:
  assumes "pager_ok inv content pg" "pg_page_size pg = page_size" "pager_page content pg = D"
  shows "recovery_inv inv content c page_size (pg_file pg) D []
    \<lparr>rv_index = index_default, rv_max_page_id = 0, rv_pending = [], rv_pending_pages = RBT.empty, rv_pager = pg\<rparr>"
  using assms by (simp add: recovery_inv_def committed_def index_holds_def pending_holds_def max_page_id_of_def
      index_default_def page_versions_def)

lemma recover_ok:
  assumes f: "winv (rw_wal w)" "32 \<le> length (wcontent (rw_wal w))" "unat wal_end \<le> length (wcontent (rw_wal w))"
    and h: "wal_header_decode (take 32 (wcontent (rw_wal w))) = Inr \<lparr>wh_page_size = page_size, wh_wal_end_offset = wal_end\<rparr>"
    and log: "log_holds (take (unat wal_end) (wcontent (rw_wal w))) page_size fs"
    and pg: "pager_ok inv content (rw_pager w)" "pg_page_size (rw_pager w) = page_size" "pager_page content (rw_pager w) = D"
    and ho: "\<And>ks. mset (hash_order ks) = mset ks"
  shows "\<exists>st. recovery_inv inv content (take (unat wal_end) (wcontent (rw_wal w))) page_size (pg_file (rw_pager w)) D fs st \<and>
    initialize_or_recover wops ops xops hash_order page_size hot_set_pages w =
      (case spill_recovered_latest_versions xops (rv_index st) hot_set_pages (rw_sidecar w) of
         None \<Rightarrow> None
       | Some (r, idx, sc) \<Rightarrow>
           Some (rmap (\<lambda>_. (idx, wal_end, max_page_id_of fs)) r, w\<lparr>rw_pager := rv_pager st, rw_sidecar := sc\<rparr>))"
proof -
  let ?c = "wcontent (rw_wal w)"
  have size: "vf_file_size wops (rw_wal w) = Inr (of_nat (length ?c))" using wal.file_len f(1) by blast
  have us: "unat (of_nat (length ?c) :: u64) = length ?c" using wal.content_len [OF f(1)] by (simp add: unat_of_nat)
  have sz: "(of_nat (length ?c) :: u64) \<noteq> 0" "\<not> (of_nat (length ?c) :: u64) < WAL_HEADER_SIZE"
    "\<not> wal_end > of_nat (length ?c)"
    using us f(2,3) by (auto simp: WAL_HEADER_SIZE_def word_less_nat_alt)
  have rd: "read_exact_at wops 0 32 (rw_wal w) = Inr (take 32 ?c)"
    using wal.read_exact_ok [OF f(1), of 0 32] f(2) by simp
  have u32: "unat WAL_HEADER_SIZE = 32" by (simp add: WAL_HEADER_SIZE_def)
  obtain st where st: "recover_loop wops ops hash_order (rw_wal w) page_size wal_end WAL_HEADER_SIZE
      \<lparr>rv_index = index_default, rv_max_page_id = 0, rv_pending = [], rv_pending_pages = RBT.empty, rv_pager = rw_pager w\<rparr>
        = Some (Inr (), st)"
    "recovery_inv inv content (take (unat wal_end) ?c) page_size (pg_file (rw_pager w)) D fs st"
    using recover_loop_ok [OF f(1,3) refl ho _ _ _ _ recovery_inv_init [OF pg], of WAL_HEADER_SIZE fs] log u32
    by (auto simp: log_holds_def)
  have "rv_max_page_id st = max_page_id_of fs" using st(2) by (simp add: recovery_inv_def)
  then show ?thesis
    using st size sz rd h by (intro exI [of _ st]) (simp add: initialize_or_recover_def split: option.split)
qed

lemma recover_no_sidecar:
  assumes f: "winv (rw_wal w)" "32 \<le> length (wcontent (rw_wal w))" "unat wal_end \<le> length (wcontent (rw_wal w))"
    and h: "wal_header_decode (take 32 (wcontent (rw_wal w))) = Inr \<lparr>wh_page_size = page_size, wh_wal_end_offset = wal_end\<rparr>"
    and log: "log_holds (take (unat wal_end) (wcontent (rw_wal w))) page_size fs"
    and pg: "pager_ok inv content (rw_pager w)" "pg_page_size (rw_pager w) = page_size" "pager_page content (rw_pager w) = D"
    and ho: "\<And>ks. mset (hash_order ks) = mset ks" and sc: "rw_sidecar w = None"
  shows "\<exists>idx pg'. initialize_or_recover wops ops xops hash_order page_size hot_set_pages w =
      Some (Inr (idx, wal_end, max_page_id_of fs), w\<lparr>rw_pager := pg'\<rparr>) \<and>
    index_view idx D = replay (committed fs) D \<and> pager_ok inv content pg' \<and> pg_file pg' = pg_file (rw_pager w)"
proof -
  obtain st where "recovery_inv inv content (take (unat wal_end) (wcontent (rw_wal w))) page_size (pg_file (rw_pager w)) D fs st"
    "initialize_or_recover wops ops xops hash_order page_size hot_set_pages w =
      (case spill_recovered_latest_versions xops (rv_index st) hot_set_pages (rw_sidecar w) of
         None \<Rightarrow> None
       | Some (r, idx, sc) \<Rightarrow>
           Some (rmap (\<lambda>_. (idx, wal_end, max_page_id_of fs)) r, w\<lparr>rw_pager := rv_pager st, rw_sidecar := sc\<rparr>))"
    using recover_ok [OF f h log pg ho] by blast
  then show ?thesis using sc
    by (intro exI [of _ "rv_index st"] exI [of _ "rv_pager st"], cases w)
       (auto simp: spill_recovered_latest_versions_def recovery_inv_def dest!: index_holds_view)
qed

end

interpretation memworld: wal_world mem_file_ops mem_inv "\<lambda>data. data" mem_file_ops mem_inv "\<lambda>data. data"
  by unfold_locales

section \<open>Logs as the writer lays them out\<close>

definition log_bytes :: "u32 \<Rightarrow> WalFrame list \<Rightarrow> bytes" where
  "log_bytes page_size fs =
     wal_header_encode \<lparr>wh_page_size = page_size, wh_wal_end_offset = of_nat (32 + log_length page_size fs)\<rparr> @
     concat (map frame_bytes fs)"

lemma length_frames: "\<forall>fr \<in> set fs. frame_ok page_size fr \<Longrightarrow> length (concat (map frame_bytes fs)) = log_length page_size fs"
  by (induction fs) (auto simp: length_frame_bytes)

lemma frames_at_bytes:
  "\<forall>fr \<in> set fs. frame_ok page_size fr \<Longrightarrow>
     frames_at (pre @ concat (map frame_bytes fs) @ post) (length pre) page_size fs"
proof (induction fs arbitrary: pre)
  case (Cons fr fs)
  have "frame_at (pre @ frame_bytes fr @ concat (map frame_bytes fs) @ post) (length pre) page_size fr"
    using Cons.prems by (intro frame_at_append) simp
  then show ?case using Cons.IH [of "pre @ frame_bytes fr"] Cons.prems length_frame_bytes [of page_size fr] by simp
qed simp

lemma log_bytes_hold:
  assumes "\<forall>fr \<in> set fs. frame_valid page_size fr" "pending_within fs" "32 + log_length page_size fs < 2 ^ 63"
  shows "log_holds (log_bytes page_size fs) page_size fs" "length (log_bytes page_size fs) = 32 + log_length page_size fs"
    "wal_header_decode (take 32 (log_bytes page_size fs)) =
       Inr \<lparr>wh_page_size = page_size, wh_wal_end_offset = of_nat (32 + log_length page_size fs)\<rparr>"
proof -
  have ok: "\<forall>fr \<in> set fs. frame_ok page_size fr" using assms(1) by (simp add: frame_valid_def)
  show len: "length (log_bytes page_size fs) = 32 + log_length page_size fs"
    using length_frames [OF ok] by (simp add: log_bytes_def)
  have "frames_at (log_bytes page_size fs) 32 page_size fs"
    using frames_at_bytes [OF ok, of "wal_header_encode h" "[]" for h] by (simp add: log_bytes_def)
  then show "log_holds (log_bytes page_size fs) page_size fs"
    using assms(1,2) len by (simp add: log_holds_def log_ends_def)
  have "unat (of_nat (32 + log_length page_size fs) :: u64) = 32 + log_length page_size fs"
    using assms(3) by (intro unat_of_nat_small(3)) simp
  then have "\<not> (of_nat (32 + log_length page_size fs) :: u64) < 32" by (simp add: word_less_nat_alt)
  then show "wal_header_decode (take 32 (log_bytes page_size fs)) =
       Inr \<lparr>wh_page_size = page_size, wh_wal_end_offset = of_nat (32 + log_length page_size fs)\<rparr>"
    by (simp add: log_bytes_def wal_header_decode_def wal_header_fields Let_def WAL_HEADER_SIZE_def)
qed

lemma length_open_from: "length (open_from op fs) \<le> length op + length fs"
proof (induction fs arbitrary: op)
  case (Cons fr fs)
  then show ?case using Cons.IH [of "op @ [fr]"] Cons.IH [of "[]"] by auto
qed simp

lemma pending_within_short: "length fs \<le> MAX_PENDING_RECOVERY_FRAMES \<Longrightarrow> pending_within fs"
  unfolding pending_within_def
proof (intro allI impI)
  fix k assume "length fs \<le> MAX_PENDING_RECOVERY_FRAMES" "k < length fs"
  then show "length (open_from [] (take k fs)) < MAX_PENDING_RECOVERY_FRAMES"
    using length_open_from [of "[]" "take k fs"] by simp
qed

text \<open>A log with a committed and an open transaction.\<close>

definition sample_log :: "WalFrame list" where
  "sample_log =
     [\<lparr>wf_frame_type = Page, wf_page_id = 3, wf_payload = replicate 2048 9 @ replicate 2048 0\<rparr>,
      \<lparr>wf_frame_type = Commit, wf_page_id = 0, wf_payload = []\<rparr>,
      \<lparr>wf_frame_type = Page, wf_page_id = 4, wf_payload = replicate 4096 1\<rparr>]"

lemma sample_log_facts:
  "\<forall>fr \<in> set sample_log. frame_valid 4096 fr" "pending_within sample_log" "log_length 4096 sample_log = 8231"
  "committed sample_log = [\<lparr>wf_frame_type = Page, wf_page_id = 3, wf_payload = replicate 2048 9 @ replicate 2048 0\<rparr>]"
  "replay (committed sample_log) D = D(3 := replicate 2048 9 @ replicate 2048 0)"
  by (simp_all add: sample_log_def frame_valid_def frame_ok_def is_page_frame_def pending_within_short
      MAX_PENDING_RECOVERY_FRAMES_def frame_encoded_len_def FRAME_HEADER_SIZE_def FRAME_TRAILER_SIZE_def
      committed_def apply_frame_def)

definition sample_wal :: bytes where "sample_wal = log_bytes 4096 sample_log"

lemma sample_wal_facts:
  "mem_inv sample_wal" "32 \<le> length sample_wal" "unat (8263 :: u64) \<le> length sample_wal"
  "wal_header_decode (take 32 sample_wal) = Inr \<lparr>wh_page_size = 4096, wh_wal_end_offset = 8263\<rparr>"
  "log_holds (take (unat (8263 :: u64)) sample_wal) 4096 sample_log"
proof -
  have l: "32 + log_length 4096 sample_log < 2 ^ 63" by (simp add: sample_log_facts)
  note h = log_bytes_hold [OF sample_log_facts(1,2) l]
  have len: "length sample_wal = 8263" using h(2) by (simp add: sample_wal_def sample_log_facts)
  show "mem_inv sample_wal" "32 \<le> length sample_wal" "unat (8263 :: u64) \<le> length sample_wal"
    using len by (simp_all add: mem_inv_def)
  show "wal_header_decode (take 32 sample_wal) = Inr \<lparr>wh_page_size = 4096, wh_wal_end_offset = 8263\<rparr>"
    using h(3) by (simp add: sample_wal_def sample_log_facts)
  show "log_holds (take (unat (8263 :: u64)) sample_wal) 4096 sample_log"
    using h(1) len by (simp add: sample_wal_def)
qed

lemma empty_pager_page: "pager_page (\<lambda>d. d) empty_pager p = replicate 4096 0"
  using empty_pager_ok(2)
  by (simp add: pager_page_def disk_page_def empty_pager_def open_with_known_page_count_def Let_def pget_def map_replicate_const)

section \<open>Properties\<close>

text \<open>
  C5: Recovery is replay.  For a log whose frames up to the logical end are well-formed, possibly followed by
  the beginning of one more frame, recovery without a spill file returns, whatever order hash maps drain
  in; the recovered index laid over the database pages is exactly the effect of the frames of
  the committed transactions in log order, so that transactions without a commit frame and
  transactions ended by a checkpoint frame leave no trace; the database file is not written, and
  the reported logical end and largest page id are those of the log.
\<close>

theorem recovery_replays_log:
  assumes "mem_inv wal" "32 \<le> length wal" "unat wal_end \<le> length wal"
    and "wal_header_decode (take 32 wal) = Inr \<lparr>wh_page_size = page_size, wh_wal_end_offset = wal_end\<rparr>"
    and "log_holds (take (unat wal_end) wal) page_size fs"
    and "pager_ok mem_inv (\<lambda>d. d) pg" "pg_page_size pg = page_size"
    and "\<And>ks. mset (hash_order ks) = mset ks"
  shows "\<exists>idx pg'. initialize_or_recover mem_file_ops mem_file_ops (mem_file_ops :: bytes vfs_file_ops) hash_order page_size hot_set_pages
      \<lparr>rw_wal = wal, rw_pager = pg, rw_sidecar = None\<rparr> =
        Some (Inr (idx, wal_end, max_page_id_of fs), \<lparr>rw_wal = wal, rw_pager = pg', rw_sidecar = None\<rparr>) \<and>
    index_view idx (pager_page (\<lambda>d. d) pg) = replay (committed fs) (pager_page (\<lambda>d. d) pg) \<and>
    pager_ok mem_inv (\<lambda>d. d) pg' \<and> pg_file pg' = pg_file pg"
  using memworld.recover_no_sidecar [of "\<lparr>rw_wal = wal, rw_pager = pg, rw_sidecar = None\<rparr>" wal_end page_size fs
      "pager_page (\<lambda>d. d) pg" hash_order mem_file_ops hot_set_pages] assms by simp

theorem recovery_replays_log_witness:
  "\<exists>idx w. initialize_or_recover mem_file_ops mem_file_ops (mem_file_ops :: bytes vfs_file_ops) rev 4096 0
      \<lparr>rw_wal = sample_wal, rw_pager = empty_pager, rw_sidecar = None\<rparr> = Some (Inr (idx, 8263, 4), w) \<and>
    index_view idx (pager_page (\<lambda>d. d) empty_pager) 3 = replicate 2048 9 @ replicate 2048 0 \<and>
    index_view idx (pager_page (\<lambda>d. d) empty_pager) 4 = replicate 4096 0"
proof -
  have "max_page_id_of sample_log = 4" by (simp add: max_page_id_of_def sample_log_def is_page_frame_def)
  then show ?thesis
    using recovery_replays_log [OF sample_wal_facts empty_pager_ok, of rev 0] sample_log_facts(5) empty_pager_page by auto
qed

text \<open>
  C6: A database file caught in the middle of a copyback recovers.  Let every byte of every database page be either
  its old byte or the byte that some prefix of the committed frames gives it, which is what an
  interrupted checkpoint leaves behind while the log is still in place.  Recovery of the same log over these damaged
  pages gives the same pages as over the undamaged ones.
\<close>

theorem recovery_repairs_torn_copyback:
  assumes "mem_inv wal" "32 \<le> length wal" "unat wal_end \<le> length wal"
    and "wal_header_decode (take 32 wal) = Inr \<lparr>wh_page_size = page_size, wh_wal_end_offset = wal_end\<rparr>"
    and "log_holds (take (unat wal_end) wal) page_size fs"
    and "pager_ok mem_inv (\<lambda>d. d) pg'" "pg_page_size pg' = page_size"
    and "pages_sized page_size D" "torn_pages page_size (committed fs) D (pager_page (\<lambda>d. d) pg')"
    and "\<And>ks. mset (hash_order ks) = mset ks"
  shows "\<exists>idx w'. initialize_or_recover mem_file_ops mem_file_ops (mem_file_ops :: bytes vfs_file_ops) hash_order page_size hot_set_pages
      \<lparr>rw_wal = wal, rw_pager = pg', rw_sidecar = None\<rparr> = Some (Inr (idx, wal_end, max_page_id_of fs), w') \<and>
    index_view idx (pager_page (\<lambda>d. d) pg') = replay (committed fs) D"
proof -
  have "replay (committed fs) (pager_page (\<lambda>d. d) pg') = replay (committed fs) D"
    using assms(5) committed_subset [of "[]" fs]
    by (intro replay_torn [OF _ assms(8,9)]) (auto simp: log_holds_def committed_def)
  then show ?thesis
    using memworld.recover_no_sidecar [of "\<lparr>rw_wal = wal, rw_pager = pg', rw_sidecar = None\<rparr>" wal_end page_size fs
        "pager_page (\<lambda>d. d) pg'" hash_order mem_file_ops hot_set_pages] assms by auto
qed

theorem recovery_repairs_torn_copyback_witness:
  "\<exists>idx w. initialize_or_recover mem_file_ops mem_file_ops (mem_file_ops :: bytes vfs_file_ops) rev 4096 0
      \<lparr>rw_wal = sample_wal, rw_pager = empty_pager, rw_sidecar = None\<rparr> = Some (Inr (idx, 8263, max_page_id_of sample_log), w) \<and>
    index_view idx (pager_page (\<lambda>d. d) empty_pager) 3 = replicate 2048 9 @ replicate 2048 0"
proof -
  let ?old = "(\<lambda>_. replicate 4096 0)(3 := replicate 2048 0 @ replicate 2048 8) :: pages"
  have sized: "pages_sized 4096 ?old" by (simp add: pages_sized_def)
  have "torn_pages 4096 (committed sample_log) ?old (pager_page (\<lambda>d. d) empty_pager)"
    unfolding torn_pages_def
  proof (intro conjI allI impI)
    show "pages_sized 4096 (pager_page (\<lambda>d. d) empty_pager)" by (simp add: pages_sized_def empty_pager_page)
    fix p j assume j: "j < unat (4096 :: u32)"
    have "pager_page (\<lambda>d. d) empty_pager p ! j =
        replay (take (if p = 3 \<and> 2048 \<le> j then 1 else 0) (committed sample_log)) ?old p ! j"
      using j by (auto simp: empty_pager_page sample_log_facts(4) apply_frame_def nth_append)
    then show "\<exists>k. pager_page (\<lambda>d. d) empty_pager p ! j = replay (take k (committed sample_log)) ?old p ! j" ..
  qed
  from recovery_repairs_torn_copyback [OF sample_wal_facts empty_pager_ok sized this, of rev 0]
  show ?thesis using sample_log_facts(5) by auto
qed

end
