(* ===== verification/Readers.thy ===== *)
theory Readers
  imports Prelude
begin

text \<open>
  The registry of active readers, \<open>wal/reader_registry.rs\<close>.  Readers live in slots that are reused
  through a free list; the writer and the checkpoint ask for the number of readers and for the oldest
  snapshot.  Locks are not poisoned, since nothing panics; time is a number of seconds
  passed as an argument; the guards of other processes are not part of the registry.
\<close>

section \<open>Definitions\<close>

record ReaderInfo =
  ri_reader_id :: u64
  ri_snapshot_lsn :: u64
  ri_started_at :: nat

text \<open>A warning holds the reader id, the snapshot and the age that the message prints.\<close>

type_synonym reader_warning = "u64 \<times> u64 \<times> nat"

record ReaderRegistry =
  rr_next_id :: u64
  rr_active_count :: u64
  rr_slots :: "ReaderInfo option list"
  rr_free :: "nat list"
  rr_warnings :: "reader_warning list"

record ReaderGuard =
  rg_reader_id :: u64
  rg_slot_index :: nat
  rg_snapshot_lsn :: u64

definition registry_default :: ReaderRegistry where
  "registry_default = \<lparr>rr_next_id = 0, rr_active_count = 0, rr_slots = [], rr_free = [], rr_warnings = []\<rparr>"

definition next_reader_id :: "ReaderRegistry \<Rightarrow> u64" where
  "next_reader_id reg = rr_next_id reg + 1"

text \<open>The vector \<open>free\<close> is a stack: \<open>pop\<close> takes the last element.\<close>

definition register_with_process_guard :: "u64 \<Rightarrow> nat \<Rightarrow> ReaderRegistry \<Rightarrow> ReaderGuard \<times> ReaderRegistry" where
  "register_with_process_guard snapshot_lsn now reg =
     (let reader_id = rr_next_id reg + 1;
          info = \<lparr>ri_reader_id = reader_id, ri_snapshot_lsn = snapshot_lsn, ri_started_at = now\<rparr>;
          reg = reg\<lparr>rr_next_id := reader_id\<rparr>;
          (slot_index, reg) =
            (if rr_free reg \<noteq> []
             then let slot_index = last (rr_free reg)
                  in (slot_index, reg\<lparr>rr_free := butlast (rr_free reg), rr_slots := (rr_slots reg)[slot_index := Some info]\<rparr>)
             else (length (rr_slots reg), reg\<lparr>rr_slots := rr_slots reg @ [Some info]\<rparr>))
      in (\<lparr>rg_reader_id = reader_id, rg_slot_index = slot_index, rg_snapshot_lsn = snapshot_lsn\<rparr>,
          reg\<lparr>rr_active_count := rr_active_count reg + 1\<rparr>))"

definition active_reader_count :: "ReaderRegistry \<Rightarrow> nat" where
  "active_reader_count reg = unat (rr_active_count reg)"

fun iter_min :: "u64 list \<Rightarrow> u64 option" where
  "iter_min [] = None"
| "iter_min (x # xs) = (case iter_min xs of None \<Rightarrow> Some x | Some y \<Rightarrow> Some (min x y))"

definition min_snapshot_lsn :: "ReaderRegistry \<Rightarrow> u64 option" where
  "min_snapshot_lsn reg = iter_min (map ri_snapshot_lsn (List.map_filter id (rr_slots reg)))"

definition capture_long_reader_warnings :: "nat \<Rightarrow> nat \<Rightarrow> ReaderRegistry \<Rightarrow> reader_warning list \<times> ReaderRegistry" where
  "capture_long_reader_warnings timeout_sec now reg =
     (let warnings = map (\<lambda>r. (ri_reader_id r, ri_snapshot_lsn r, now - ri_started_at r))
            (filter (\<lambda>r. now - ri_started_at r \<ge> timeout_sec) (List.map_filter id (rr_slots reg)))
      in (warnings, if warnings \<noteq> [] then reg\<lparr>rr_warnings := rr_warnings reg @ warnings\<rparr> else reg))"

definition reader_warnings :: "ReaderRegistry \<Rightarrow> reader_warning list" where
  "reader_warnings reg = rr_warnings reg"

definition guard_drop :: "ReaderGuard \<Rightarrow> ReaderRegistry \<Rightarrow> ReaderRegistry" where
  "guard_drop g reg =
     (if rg_slot_index g < length (rr_slots reg) \<and>
         (case rr_slots reg ! rg_slot_index g of None \<Rightarrow> False | Some info \<Rightarrow> ri_reader_id info = rg_reader_id g)
      then reg\<lparr>rr_slots := (rr_slots reg)[rg_slot_index g := None], rr_free := rr_free reg @ [rg_slot_index g],
               rr_active_count := rr_active_count reg - 1\<rparr>
      else reg)"

section \<open>Histories of a registry\<close>

text \<open>A registry after \<open>n\<close> registrations, with the guards that are still alive.\<close>

inductive registry_history :: "nat \<Rightarrow> ReaderRegistry \<Rightarrow> ReaderGuard list \<Rightarrow> bool" where
  start: "registry_history 0 registry_default []"
| begin_reader: "registry_history n reg gs \<Longrightarrow> register_with_process_guard snapshot now reg = (g, reg') \<Longrightarrow>
    registry_history (Suc n) reg' (g # gs)"
| end_reader: "registry_history n reg gs \<Longrightarrow> g \<in> set gs \<Longrightarrow> registry_history n (guard_drop g reg) (remove1 g gs)"
| warn: "registry_history n reg gs \<Longrightarrow> capture_long_reader_warnings timeout now reg = (ws, reg') \<Longrightarrow>
    registry_history n reg' gs"

inductive_cases history_start: "registry_history 0 reg gs"

text \<open>
  The slots hold exactly the live guards, each in its slot, the free list exactly the empty slots, and no two
  guards share an id.
\<close>

definition registry_inv :: "nat \<Rightarrow> ReaderRegistry \<Rightarrow> ReaderGuard list \<Rightarrow> bool" where
  "registry_inv n reg gs \<longleftrightarrow>
     rr_next_id reg = of_nat n \<and> rr_active_count reg = of_nat (length gs) \<and> length gs \<le> n \<and>
     distinct (map rg_slot_index gs) \<and>
     (\<forall>g \<in> set gs. unat (rg_reader_id g) \<le> n \<and> rg_slot_index g < length (rr_slots reg) \<and>
        (\<exists>t. rr_slots reg ! rg_slot_index g =
          Some \<lparr>ri_reader_id = rg_reader_id g, ri_snapshot_lsn = rg_snapshot_lsn g, ri_started_at = t\<rparr>)) \<and>
     (\<forall>i < length (rr_slots reg). rr_slots reg ! i \<noteq> None \<longrightarrow> i \<in> rg_slot_index ` set gs) \<and>
     distinct (rr_free reg) \<and> set (rr_free reg) = {i. i < length (rr_slots reg) \<and> rr_slots reg ! i = None}"

lemma registry_inv_register:
  assumes inv: "registry_inv n reg gs" and r: "register_with_process_guard snapshot now reg = (g, reg')" and n: "Suc n < 2 ^ 64"
  shows "registry_inv (Suc n) reg' (g # gs)"
proof -
  let ?id = "of_nat n + 1 :: u64"
  let ?info = "Some \<lparr>ri_reader_id = ?id, ri_snapshot_lsn = snapshot, ri_started_at = now\<rparr>"
  have id: "unat ?id = Suc n" using n unat_of_nat_small(3) [of "Suc n"] by (simp add: add.commute)
  have free: "set (rr_free reg) = {i. i < length (rr_slots reg) \<and> rr_slots reg ! i = None}" "distinct (rr_free reg)"
    and slot: "\<And>h. h \<in> set gs \<Longrightarrow> rg_slot_index h < length (rr_slots reg) \<and> rr_slots reg ! rg_slot_index h \<noteq> None"
    using inv by (auto simp: registry_inv_def)
  show ?thesis
  proof (cases "rr_free reg = []")
    case True
    then have e: "rg_slot_index g = length (rr_slots reg)" "rr_slots reg' = rr_slots reg @ [?info]" "rr_free reg' = []"
      "rr_next_id reg' = ?id" "rr_active_count reg' = rr_active_count reg + 1" "rg_reader_id g = ?id" "rg_snapshot_lsn g = snapshot"
      using r inv by (auto simp: register_with_process_guard_def Let_def registry_inv_def)
    have "rg_slot_index g \<notin> rg_slot_index ` set gs" using slot e(1) by fastforce
    then show ?thesis using inv e id True
      by (auto simp: registry_inv_def nth_append less_Suc_eq split: if_splits)
  next
    case False
    let ?i = "last (rr_free reg)"
    have i: "?i < length (rr_slots reg)" "rr_slots reg ! ?i = None" using free(1) last_in_set [OF False] by auto
    have e: "rg_slot_index g = ?i" "rr_slots reg' = (rr_slots reg)[?i := ?info]" "rr_free reg' = butlast (rr_free reg)"
      "rr_next_id reg' = ?id" "rr_active_count reg' = rr_active_count reg + 1" "rg_reader_id g = ?id" "rg_snapshot_lsn g = snapshot"
      using r inv False by (auto simp: register_with_process_guard_def Let_def registry_inv_def)
    have ni: "?i \<notin> rg_slot_index ` set gs" using slot i(2) by fastforce
    have sp: "rr_free reg = butlast (rr_free reg) @ [?i]" using False by simp
    then have "distinct (butlast (rr_free reg) @ [?i])" "set (rr_free reg) = set (butlast (rr_free reg) @ [?i])"
      using free(2) by simp_all
    then have fr: "distinct (butlast (rr_free reg))" "set (butlast (rr_free reg)) = set (rr_free reg) - {?i}" by auto
    show ?thesis using inv e id i ni fr free(1)
      by (auto simp: registry_inv_def nth_list_update split: if_splits)
  qed
qed

lemma registry_inv_drop:
  assumes inv: "registry_inv n reg gs" and g: "g \<in> set gs" and n: "n < 2 ^ 64"
  shows "registry_inv n (guard_drop g reg) (remove1 g gs)"
proof -
  let ?i = "rg_slot_index g"
  have slot: "?i < length (rr_slots reg)" "\<exists>t. rr_slots reg ! ?i =
      Some \<lparr>ri_reader_id = rg_reader_id g, ri_snapshot_lsn = rg_snapshot_lsn g, ri_started_at = t\<rparr>"
    using inv g by (auto simp: registry_inv_def)
  then have d: "guard_drop g reg = reg\<lparr>rr_slots := (rr_slots reg)[?i := None], rr_free := rr_free reg @ [?i],
      rr_active_count := rr_active_count reg - 1\<rparr>" by (auto simp: guard_drop_def)
  have dm: "distinct (map rg_slot_index gs)" using inv by (simp add: registry_inv_def)
  then have dg: "distinct gs" by (rule distinct_map [THEN iffD1, THEN conjunct1])
  have set': "set (remove1 g gs) = set gs - {g}" using dg by (rule set_remove1_eq)
  have inj: "inj_on rg_slot_index (set gs)" using dm by (simp add: distinct_map)
  have "distinct (map rg_slot_index (remove1 g gs))"
    using dg inj set' by (simp add: distinct_map distinct_remove1 inj_on_diff)
  moreover have img: "rg_slot_index ` set (remove1 g gs) = rg_slot_index ` set gs - {?i}"
    using inj g set' by (auto simp: inj_on_def)
  moreover have "rr_active_count reg - 1 = of_nat (length (remove1 g gs))"
  proof -
    obtain k where "length gs = Suc k" using g by (cases gs) auto
    then show ?thesis using inv g by (simp add: registry_inv_def length_remove1)
  qed
  moreover have "length (remove1 g gs) \<le> n" using inv length_remove1 [of g gs] by (auto simp: registry_inv_def)
  moreover have "\<forall>h \<in> set (remove1 g gs). rg_slot_index h \<noteq> ?i" using img by auto
  ultimately show ?thesis using inv slot set' unfolding d registry_inv_def
    by (auto simp: nth_list_update split: if_splits)
qed

lemma history_inv: "registry_history n reg gs \<Longrightarrow> n < 2 ^ 64 \<Longrightarrow> registry_inv n reg gs"
proof (induction rule: registry_history.induct)
  case start
  then show ?case by (simp add: registry_inv_def registry_default_def)
next
  case (begin_reader n reg gs snapshot now g reg')
  then show ?case by (intro registry_inv_register [where snapshot = snapshot]) simp_all
next
  case (end_reader n reg gs g)
  then show ?case by (intro registry_inv_drop) simp_all
next
  case (warn n reg gs timeout now ws reg')
  then show ?case
    by (auto simp: capture_long_reader_warnings_def registry_inv_def Let_def split: if_splits)
qed

lemma iter_min_Min: "iter_min xs = (if xs = [] then None else Some (Min (set xs)))"
  by (induction xs) (auto split: option.splits)

lemma slots_are_guards:
  assumes "registry_inv n reg gs"
  shows "ri_snapshot_lsn ` set (List.map_filter id (rr_slots reg)) = rg_snapshot_lsn ` set gs"
proof -
  have "set (List.map_filter id (rr_slots reg)) = {r. Some r \<in> set (rr_slots reg)}"
    by (force simp: List.map_filter_def image_iff)
  moreover have "ri_snapshot_lsn ` {r. Some r \<in> set (rr_slots reg)} = rg_snapshot_lsn ` set gs"
  proof (intro equalityI subsetI)
    fix x assume "x \<in> ri_snapshot_lsn ` {r. Some r \<in> set (rr_slots reg)}"
    then obtain r i where r: "x = ri_snapshot_lsn r" "i < length (rr_slots reg)" "rr_slots reg ! i = Some r"
      by (auto simp: in_set_conv_nth)
    then obtain g where "g \<in> set gs" "i = rg_slot_index g" using assms by (auto simp: registry_inv_def)
    then show "x \<in> rg_snapshot_lsn ` set gs" using r assms by (fastforce simp: registry_inv_def)
  next
    fix x assume "x \<in> rg_snapshot_lsn ` set gs"
    then obtain g where g: "g \<in> set gs" "x = rg_snapshot_lsn g" by auto
    then obtain t where "rg_slot_index g < length (rr_slots reg)" "rr_slots reg ! rg_slot_index g =
        Some \<lparr>ri_reader_id = rg_reader_id g, ri_snapshot_lsn = rg_snapshot_lsn g, ri_started_at = t\<rparr>"
      using assms by (auto simp: registry_inv_def)
    then have "Some \<lparr>ri_reader_id = rg_reader_id g, ri_snapshot_lsn = rg_snapshot_lsn g, ri_started_at = t\<rparr> \<in> set (rr_slots reg)"
      by (metis nth_mem)
    then show "x \<in> ri_snapshot_lsn ` {r. Some r \<in> set (rr_slots reg)}" using g(2) by force
  qed
  ultimately show ?thesis by simp
qed

lemma registry_min:
  assumes "registry_inv n reg gs"
  shows "min_snapshot_lsn reg = (if gs = [] then None else Some (Min (rg_snapshot_lsn ` set gs)))"
proof -
  have "List.map_filter id (rr_slots reg) = [] \<longleftrightarrow> gs = []"
    using slots_are_guards [OF assms] by (metis image_is_empty set_empty)
  then show ?thesis using slots_are_guards [OF assms] by (simp add: min_snapshot_lsn_def iter_min_Min)
qed

lemma registry_count: "registry_inv n reg gs \<Longrightarrow> n < 2 ^ 64 \<Longrightarrow> active_reader_count reg = length gs"
  by (simp add: active_reader_count_def registry_inv_def unat_of_nat)

section \<open>Properties\<close>

text \<open>
  C10: After any interleaving of fewer than \<open>2 ^ 64\<close> registrations, drops and warning scans, the registry knows
  its readers: the count is the number of guards alive, the smallest snapshot is the
  smallest snapshot of a guard alive (none without guards), no two live guards have the same
  slot, and every live guard's slot still holds its own reader.
\<close>

theorem registry_tracks_live_readers:
  assumes "registry_history n reg gs" "n < 2 ^ 64"
  shows "active_reader_count reg = length gs \<and>
    min_snapshot_lsn reg = (if gs = [] then None else Some (Min (rg_snapshot_lsn ` set gs))) \<and>
    distinct (map rg_slot_index gs) \<and>
    (\<forall>g \<in> set gs. \<exists>t. rr_slots reg ! rg_slot_index g =
       Some \<lparr>ri_reader_id = rg_reader_id g, ri_snapshot_lsn = rg_snapshot_lsn g, ri_started_at = t\<rparr>)"
proof -
  note inv = history_inv [OF assms]
  show ?thesis using inv registry_min [OF inv] registry_count [OF inv assms(2)] by (simp add: registry_inv_def)
qed

theorem registry_tracks_live_readers_witness:
  "let (a, r1) = register_with_process_guard 90 0 registry_default;
       (b, r2) = register_with_process_guard 40 1 r1;
       r3 = guard_drop a r2;
       (c, r4) = register_with_process_guard 70 2 r3
   in registry_history 3 r4 [c, b] \<and> min_snapshot_lsn r4 = Some 40 \<and> rg_slot_index c = 0"
proof -
  obtain a r1 where r1: "register_with_process_guard 90 0 registry_default = (a, r1)" by fastforce
  obtain b r2 where r2: "register_with_process_guard 40 1 r1 = (b, r2)" by fastforce
  obtain c r4 where r4: "register_with_process_guard 70 2 (guard_drop a r2) = (c, r4)" by fastforce
  have ab: "a \<noteq> b" and sn: "rg_snapshot_lsn b = 40" "rg_snapshot_lsn c = 70" "rg_slot_index c = 0"
    using r1 r2 r4 by (auto simp: register_with_process_guard_def registry_default_def Let_def guard_drop_def)
  have "registry_history 2 r2 [b, a]"
    using begin_reader [OF begin_reader [OF start r1] r2] by (simp add: numeral_2_eq_2)
  from end_reader [OF this, of a] ab have "registry_history 2 (guard_drop a r2) [b]" by simp
  from begin_reader [OF this r4] have h: "registry_history 3 r4 [c, b]" by (simp add: numeral_3_eq_3)
  from registry_tracks_live_readers [OF h] have "min_snapshot_lsn r4 = Some 40" by (simp add: sn)
  with h sn r1 r2 r4 show ?thesis by (simp add: Let_def)
qed

end
