(* ===== verification/AsyncCommit.thy ===== *)
theory AsyncCommit
  imports WalFormat Vfs
begin

text \<open>
  The asynchronous commit mode, \<open>wal/async_commit.rs\<close>: two watermarks, the end of what the writer has
  written and the end of what is known to be on stable storage, and the flush that moves the second
  up to the first.  The flusher thread is a transition of the system that may happen at any time,
  as is the final flush when the state is dropped; the condition variable only wakes threads up and has no state.
\<close>

section \<open>Definitions\<close>

record AsyncCommitInner =
  as_dirty_lsn :: u64
  as_durable_lsn :: u64
  as_shutdown :: bool
  as_interval_ms :: u32

definition async_new :: "u64 \<Rightarrow> u32 \<Rightarrow> AsyncCommitInner" where
  "async_new initial_lsn interval_ms =
     \<lparr>as_dirty_lsn = initial_lsn, as_durable_lsn = initial_lsn, as_shutdown = False, as_interval_ms = max interval_ms 1\<rparr>"

definition note_write :: "u64 \<Rightarrow> AsyncCommitInner \<Rightarrow> AsyncCommitInner" where
  "note_write new_end_lsn st = st\<lparr>as_dirty_lsn := max (as_dirty_lsn st) new_end_lsn\<rparr>"

text \<open>
  A flush reads the end of the log, syncs the file and then publishes what it read; the writer may go on
  between these steps, other flushes may not.
\<close>

definition flush_target :: "AsyncCommitInner \<Rightarrow> u64 option" where
  "flush_target st = (let target = as_dirty_lsn st in if as_durable_lsn st \<ge> target then None else Some target)"

definition flush_publish :: "u64 \<Rightarrow> AsyncCommitInner \<Rightarrow> AsyncCommitInner" where
  "flush_publish target st = st\<lparr>as_durable_lsn := max (as_durable_lsn st) target\<rparr>"

definition perform_flush :: "'f vfs_file_ops \<Rightarrow> (AsyncCommitInner \<times> 'f, unit) prog" where
  "perform_flush ops = (\<lambda>(st, f).
     case flush_target st of
       None \<Rightarrow> Some (Inr (), st, f)
     | Some target \<Rightarrow>
         (case vf_sync_data ops f of
            (Inl e, f) \<Rightarrow> Some (Inl e, st, f)
          | (Inr _, f) \<Rightarrow> Some (Inr (), flush_publish target st, f)))"

partial_function (option) flush_loop ::
  "'f vfs_file_ops \<Rightarrow> u64 \<Rightarrow> bool \<Rightarrow> AsyncCommitInner \<times> 'f \<Rightarrow> (bool result \<times> AsyncCommitInner \<times> 'f) option"
where
  "flush_loop ops target flushed sf =
     (if as_durable_lsn (fst sf) < target
      then if as_shutdown (fst sf) then Some (Inr flushed, sf)
           else case perform_flush ops sf of
                  None \<Rightarrow> None
                | Some (Inl e, sf) \<Rightarrow> Some (Inl e, sf)
                | Some (Inr _, sf) \<Rightarrow> flush_loop ops target True sf
      else Some (Inr flushed, sf))"

definition async_flush_to_durable :: "'f vfs_file_ops \<Rightarrow> (AsyncCommitInner \<times> 'f, bool) prog" where
  "async_flush_to_durable ops sf =
     (let target = as_dirty_lsn (fst sf)
      in if as_durable_lsn (fst sf) \<ge> target then Some (Inr False, sf)
         else flush_loop ops target False sf)"

definition rebase_clean_lsn :: "u64 \<Rightarrow> AsyncCommitInner \<Rightarrow> AsyncCommitInner" where
  "rebase_clean_lsn clean_lsn st = st\<lparr>as_dirty_lsn := clean_lsn, as_durable_lsn := clean_lsn\<rparr>"

definition sync_for_checkpoint_tail :: "'f vfs_file_ops \<Rightarrow> (AsyncCommitInner \<times> 'f, unit) prog" where
  "sync_for_checkpoint_tail ops = (\<lambda>(st, f). let (r, f) = vf_sync_data ops f in Some (r, st, f))"

definition durable_lsn :: "AsyncCommitInner \<Rightarrow> u64" where
  "durable_lsn st = as_durable_lsn st"

definition async_drop :: "'f vfs_file_ops \<Rightarrow> AsyncCommitInner \<times> 'f \<Rightarrow> (AsyncCommitInner \<times> 'f) option" where
  "async_drop ops = (\<lambda>(st, f). map_option snd (perform_flush ops (st\<lparr>as_shutdown := True\<rparr>, f)))"

text \<open>One turn of the loop of the flusher thread after its wait; the error of a failed flush is dropped.\<close>

definition flusher_turn :: "'f vfs_file_ops \<Rightarrow> AsyncCommitInner \<times> 'f \<Rightarrow> (AsyncCommitInner \<times> 'f) option" where
  "flusher_turn ops sf = (if as_shutdown (fst sf) then Some sf else map_option snd (perform_flush ops sf))"

section \<open>Flushing\<close>

context vfs_file
begin

lemma flush_returns:
  assumes "inv f"
  shows "\<exists>flushed st' f'. async_flush_to_durable ops (st, f) = Some (Inr flushed, st', f') \<and> inv f' \<and> content f' = content f \<and>
    as_dirty_lsn st' = as_dirty_lsn st \<and> as_shutdown st' = as_shutdown st \<and> as_durable_lsn st \<le> as_durable_lsn st' \<and>
    (\<not> as_shutdown st \<longrightarrow> as_dirty_lsn st \<le> as_durable_lsn st')"
proof (cases "as_durable_lsn st \<ge> as_dirty_lsn st \<or> as_shutdown st")
  case True
  then show ?thesis using assms
    by (auto simp: async_flush_to_durable_def Let_def flush_loop.simps)
next
  case False
  obtain f' where f': "vf_sync_data ops f = (Inr (), f')" "inv f'" "content f' = content f" using file_sync [OF assms] by blast
  let ?st = "st\<lparr>as_durable_lsn := as_dirty_lsn st\<rparr>"
  have lt: "as_durable_lsn st < as_dirty_lsn st" "\<not> as_shutdown st" "\<not> as_dirty_lsn st \<le> as_durable_lsn st" using False by auto
  then have p: "perform_flush ops (st, f) = Some (Inr (), ?st, f')" using f' by (simp add: perform_flush_def flush_target_def flush_publish_def Let_def)
  have "flush_loop ops (as_dirty_lsn st) True (?st, f') = Some (Inr True, ?st, f')" by (subst flush_loop.simps) simp
  then have "async_flush_to_durable ops (st, f) = Some (Inr True, ?st, f')"
    using lt p by (simp add: async_flush_to_durable_def Let_def) (subst flush_loop.simps, simp)
  then show ?thesis using f' lt by (intro exI [of _ True] exI [of _ ?st] exI [of _ f']) simp
qed

end

section \<open>Stable storage\<close>

text \<open>
  What \<open>VfsFile\<close> documents of durability, on a file with a cached content and the bytes that stable storage
  holds: a successful sync makes the whole content durable, its length included; before that, any byte may or may not have reached
  stable storage; a failing write changes nothing outside its range.
\<close>

definition stored_byte :: "bytes \<Rightarrow> nat \<Rightarrow> u8 option" where
  "stored_byte bs i = (if i < length bs then Some (bs ! i) else None)"

definition seeps :: "bytes \<Rightarrow> bytes \<Rightarrow> bytes \<Rightarrow> bool" where
  "seeps old cached new \<longleftrightarrow> (\<forall>i. stored_byte new i = stored_byte old i \<or> stored_byte new i = stored_byte cached i)"

locale durable_file =
  fixes ops :: "'f vfs_file_ops" and inv :: "'f \<Rightarrow> bool" and content :: "'f \<Rightarrow> bytes" and platter :: "'f \<Rightarrow> bytes"
  assumes disk_write: "inv f \<Longrightarrow> buf \<noteq> [] \<Longrightarrow> unat off + length buf < 2 ^ 63 \<Longrightarrow> vf_write_at ops off buf f = (r, f') \<Longrightarrow>
      inv f' \<and> length (content f) \<le> length (content f') \<and> seeps (platter f) (content f') (platter f') \<and>
      (\<forall>i < length (content f). i < unat off \<or> unat off + length buf \<le> i \<longrightarrow> content f' ! i = content f ! i)"
    and disk_sync: "inv f \<Longrightarrow> vf_sync_data ops f = (r', f') \<Longrightarrow>
      inv f' \<and> content f' = content f \<and> seeps (platter f) (content f) (platter f') \<and> (r' = Inr () \<longrightarrow> platter f' = content f)"
    and disk_set_len: "inv f \<Longrightarrow> unat n < 2 ^ 63 \<Longrightarrow> vf_set_len ops n f = (r', f') \<Longrightarrow>
      inv f' \<and> seeps (platter f) (content f') (platter f') \<and>
      (content f' = content f \<or> content f' = vec_resize (content f) (unat n))"

text \<open>The log below \<open>t\<close>, behind the file header, is on stable storage as it was written.\<close>

definition log_stored :: "bytes \<Rightarrow> bytes \<Rightarrow> nat \<Rightarrow> bool" where
  "log_stored stored cached t \<longleftrightarrow>
     (\<forall>i. unat WAL_HEADER_SIZE \<le> i \<and> i < t \<longrightarrow> i < length cached \<and> stored_byte stored i = stored_byte cached i)"

lemma log_stored_mono: "log_stored stored cached t \<Longrightarrow> t' \<le> t \<Longrightarrow> log_stored stored cached t'"
  by (auto simp: log_stored_def)

lemma log_stored_same: "t \<le> length c \<Longrightarrow> log_stored c c t"
  by (auto simp: log_stored_def)

lemma log_stored_step:
  assumes "log_stored stored cached t" "seeps stored cached' stored'"
    and "\<And>i. unat WAL_HEADER_SIZE \<le> i \<Longrightarrow> i < t \<Longrightarrow> i < length cached \<Longrightarrow> i < length cached' \<and> cached' ! i = cached ! i"
  shows "log_stored stored' cached' t"
  unfolding log_stored_def
proof (intro allI impI)
  fix i assume i: "unat WAL_HEADER_SIZE \<le> i \<and> i < t"
  with assms(1) have "i < length cached" "stored_byte stored i = stored_byte cached i" by (auto simp: log_stored_def)
  moreover from this have "i < length cached'" "stored_byte cached' i = stored_byte cached i"
    using assms(3) [of i] i by (auto simp: stored_byte_def)
  ultimately show "i < length cached' \<and> stored_byte stored' i = stored_byte cached' i"
    using assms(2) unfolding seeps_def by metis
qed

section \<open>Interleavings\<close>

text \<open>
  The writer, the flusher thread, barriers and checkpoints take turns on such a file.  The writer appends behind the end it has announced, or
  rewrites the file header; it announces an end only once the bytes before it are in the file; it never cuts the file before
  that end.  A flush in progress is its target and whether its sync has succeeded; it holds the flush lock, so that
  it excludes other flushes and a rebase of the watermarks, and nothing else.
\<close>

inductive async_run :: "'f vfs_file_ops \<Rightarrow> ('f \<Rightarrow> bool) \<Rightarrow> ('f \<Rightarrow> bytes) \<Rightarrow> ('f \<Rightarrow> bytes) \<Rightarrow>
  AsyncCommitInner \<Rightarrow> 'f \<Rightarrow> (u64 \<times> bool) option \<Rightarrow> bool" for ops ok content platter where
  started: "ok f \<Longrightarrow> unat lsn \<le> length (content f) \<Longrightarrow> log_stored (platter f) (content f) (unat lsn) \<Longrightarrow>
    async_run ops ok content platter (async_new lsn interval) f None"
| wrote: "async_run ops ok content platter st f flushing \<Longrightarrow> buf \<noteq> [] \<Longrightarrow> unat off + length buf < 2 ^ 63 \<Longrightarrow>
    as_dirty_lsn st \<le> off \<or> unat off + length buf \<le> unat WAL_HEADER_SIZE \<Longrightarrow> vf_write_at ops off buf f = (r, f') \<Longrightarrow>
    async_run ops ok content platter st f' flushing"
| resized: "async_run ops ok content platter st f flushing \<Longrightarrow> unat n < 2 ^ 63 \<Longrightarrow> as_dirty_lsn st \<le> n \<Longrightarrow>
    vf_set_len ops n f = (r', f') \<Longrightarrow> async_run ops ok content platter st f' flushing"
| noted: "async_run ops ok content platter st f flushing \<Longrightarrow> unat lsn \<le> length (content f) \<Longrightarrow>
    async_run ops ok content platter (note_write lsn st) f flushing"
| began: "async_run ops ok content platter st f None \<Longrightarrow> flush_target st = Some target \<Longrightarrow>
    async_run ops ok content platter st f (Some (target, False))"
| synced: "async_run ops ok content platter st f (Some (target, False)) \<Longrightarrow> vf_sync_data ops f = (Inr (), f') \<Longrightarrow>
    async_run ops ok content platter st f' (Some (target, True))"
| failed: "async_run ops ok content platter st f (Some (target, False)) \<Longrightarrow> vf_sync_data ops f = (Inl e, f') \<Longrightarrow>
    async_run ops ok content platter st f' None"
| published: "async_run ops ok content platter st f (Some (target, True)) \<Longrightarrow>
    async_run ops ok content platter (flush_publish target st) f None"
| rebased: "async_run ops ok content platter st f None \<Longrightarrow> lsn \<le> as_durable_lsn st \<Longrightarrow>
    async_run ops ok content platter (rebase_clean_lsn lsn st) f None"
| closing: "async_run ops ok content platter st f flushing \<Longrightarrow>
    async_run ops ok content platter (st\<lparr>as_shutdown := True\<rparr>) f flushing"

text \<open>A whole flush is such a sequence of steps.\<close>

lemma perform_flush_runs:
  assumes "async_run ops ok content platter st f None" "perform_flush ops (st, f) = Some (r, st', f')"
  shows "async_run ops ok content platter st' f' None"
proof (cases "flush_target st")
  case None
  then show ?thesis using assms by (simp add: perform_flush_def)
next
  case (Some target)
  note b = began [OF assms(1) Some]
  obtain q f1 where q: "vf_sync_data ops f = (q, f1)" by fastforce
  show ?thesis
  proof (cases q)
    case (Inl e)
    then show ?thesis using failed [OF b, of e f1] q assms(2) Some by (simp add: perform_flush_def)
  next
    case (Inr u)
    then show ?thesis using published [OF synced [OF b, of f1]] q assms(2) Some by (simp add: perform_flush_def)
  qed
qed

definition watermarks_ok :: "('f \<Rightarrow> bytes) \<Rightarrow> ('f \<Rightarrow> bytes) \<Rightarrow> AsyncCommitInner \<Rightarrow> 'f \<Rightarrow> (u64 \<times> bool) option \<Rightarrow> bool" where
  "watermarks_ok content platter st f flushing \<longleftrightarrow>
     as_durable_lsn st \<le> as_dirty_lsn st \<and> unat (as_dirty_lsn st) \<le> length (content f) \<and>
     log_stored (platter f) (content f) (unat (as_durable_lsn st)) \<and>
     (case flushing of
        None \<Rightarrow> True
      | Some (target, done) \<Rightarrow>
          target \<le> as_dirty_lsn st \<and> (done \<longrightarrow> log_stored (platter f) (content f) (unat target)))"

lemma watermarks_file_step:
  assumes "watermarks_ok content platter st f flushing" "seeps (platter f) (content f') (platter f')"
    and "unat (as_dirty_lsn st) \<le> length (content f')"
    and "\<And>i. unat WAL_HEADER_SIZE \<le> i \<Longrightarrow> i < unat (as_dirty_lsn st) \<Longrightarrow> content f' ! i = content f ! i"
  shows "watermarks_ok content platter st f' flushing"
proof -
  have "log_stored (platter f') (content f') (unat t)" if "log_stored (platter f) (content f) (unat t)" "t \<le> as_dirty_lsn st" for t
    by (rule log_stored_step [OF that(1) assms(2)]) (use that(2) assms(3,4) in \<open>fastforce simp: word_le_nat_alt\<close>)
  then show ?thesis using assms(1,3) by (auto simp: watermarks_ok_def split: option.splits)
qed

context durable_file
begin

lemma run_watermarks: "async_run ops inv content platter st f flushing \<Longrightarrow> inv f \<and> watermarks_ok content platter st f flushing"
proof (induction rule: async_run.induct)
  case (started f lsn interval)
  then show ?case by (simp add: async_new_def watermarks_ok_def)
next
  case (wrote st f flushing buf off r f')
  note d = disk_write [OF conjunct1 [OF wrote.IH] wrote.hyps(2,3,5)]
  have len: "unat (as_dirty_lsn st) \<le> length (content f)" using wrote.IH by (simp add: watermarks_ok_def)
  have "watermarks_ok content platter st f' flushing"
    by (rule watermarks_file_step [OF conjunct2 [OF wrote.IH]])
       (use d len wrote.hyps(4) in \<open>auto simp: word_le_nat_alt\<close>)
  then show ?case using d by blast
next
  case (resized st f flushing n r' f')
  note d = disk_set_len [OF conjunct1 [OF resized.IH] resized.hyps(2,4)]
  have len: "unat (as_dirty_lsn st) \<le> length (content f)" using resized.IH by (simp add: watermarks_ok_def)
  have "watermarks_ok content platter st f' flushing"
    by (rule watermarks_file_step [OF conjunct2 [OF resized.IH]])
       (use d len resized.hyps(3) in \<open>auto simp: word_le_nat_alt vec_resize_def nth_append\<close>)
  then show ?case using d by blast
next
  case (noted st f flushing lsn)
  then show ?case by (auto simp: watermarks_ok_def note_write_def max_def word_le_nat_alt split: option.splits)
next
  case (began st f target)
  then show ?case by (auto simp: watermarks_ok_def flush_target_def Let_def split: if_splits)
next
  case (synced st f target f')
  note d = disk_sync [OF conjunct1 [OF synced.IH] synced.hyps(2)]
  then show ?case using synced.IH log_stored_same [of _ "content f"]
    by (auto simp: watermarks_ok_def word_le_nat_alt)
next
  case (failed st f target e f')
  note d = disk_sync [OF conjunct1 [OF failed.IH] failed.hyps(2)]
  have "watermarks_ok content platter st f' (Some (target, False))"
    by (rule watermarks_file_step [OF conjunct2 [OF failed.IH]]) (use d failed.IH in \<open>auto simp: watermarks_ok_def\<close>)
  then show ?case using d by (auto simp: watermarks_ok_def)
next
  case (published st f target)
  then show ?case by (auto simp: watermarks_ok_def flush_publish_def max_def)
next
  case (rebased st f lsn)
  then show ?case by (auto simp: watermarks_ok_def rebase_clean_lsn_def word_le_nat_alt intro: log_stored_mono)
next
  case (closing st f flushing)
  then show ?case by (auto simp: watermarks_ok_def split: option.splits)
qed

end

section \<open>Barriers\<close>

text \<open>A barrier flushes once, and reports the error of that sync.\<close>

lemma barrier_flushes:
  assumes "\<not> as_shutdown st"
  shows "\<exists>r st' f'. perform_flush ops (st, f) = Some (r, st', f') \<and> as_dirty_lsn st' = as_dirty_lsn st \<and>
    (case r of
       Inl e \<Rightarrow> async_flush_to_durable ops (st, f) = Some (Inl e, st', f') \<and> st' = st \<and> vf_sync_data ops f = (Inl e, f')
     | Inr _ \<Rightarrow> (\<exists>flushed. async_flush_to_durable ops (st, f) = Some (Inr flushed, st', f')) \<and> as_dirty_lsn st \<le> as_durable_lsn st')"
proof (cases "as_durable_lsn st \<ge> as_dirty_lsn st")
  case True
  then show ?thesis
    by (intro exI [of _ "Inr ()"] exI [of _ st] exI [of _ f])
       (auto simp: async_flush_to_durable_def perform_flush_def flush_target_def)
next
  case False
  then have lt: "as_durable_lsn st < as_dirty_lsn st" "flush_target st = Some (as_dirty_lsn st)"
    by (auto simp: flush_target_def)
  obtain q f1 where q: "vf_sync_data ops f = (q, f1)" by fastforce
  show ?thesis
  proof (cases q)
    case (Inl e)
    then have "perform_flush ops (st, f) = Some (Inl e, st, f1)" using lt(2) q by (simp add: perform_flush_def)
    moreover from this have "async_flush_to_durable ops (st, f) = Some (Inl e, st, f1)"
      using lt(1) assms False by (simp add: async_flush_to_durable_def flush_loop.simps)
    ultimately show ?thesis using q Inl by simp
  next
    case (Inr u)
    let ?st = "flush_publish (as_dirty_lsn st) st"
    have p: "perform_flush ops (st, f) = Some (Inr (), ?st, f1)" using lt(2) q Inr by (simp add: perform_flush_def)
    have d: "as_durable_lsn ?st = as_dirty_lsn st" "as_dirty_lsn ?st = as_dirty_lsn st" using lt(1) by (simp_all add: flush_publish_def)
    then have "flush_loop ops (as_dirty_lsn st) True (?st, f1) = Some (Inr True, ?st, f1)" by (subst flush_loop.simps) simp
    then have "async_flush_to_durable ops (st, f) = Some (Inr True, ?st, f1)"
      using lt(1) assms False p by (simp add: async_flush_to_durable_def) (subst flush_loop.simps, simp)
    then show ?thesis using p d by auto
  qed
qed

text \<open>
  A barrier whose target lies behind both watermarks, as when a checkpoint rebases them between the
  load of the target and the loop, never returns: no flush has anything to do.
\<close>

lemma flush_loop_diverges:
  assumes "as_durable_lsn st = as_dirty_lsn st" "as_dirty_lsn st < target" "\<not> as_shutdown st"
  shows "flush_loop ops target flushed (st, f) = None"
proof (cases "flush_loop ops target flushed (st, f)")
  case (Some y)
  have "\<not> (target = target \<and> (st, f) = (st, f))"
    by (rule flush_loop.raw_induct [OF _ Some, where P = "\<lambda>_ t _ sf _. \<not> (t = target \<and> sf = (st, f))"])
       (use assms in \<open>auto simp: perform_flush_def flush_target_def, blast\<close>)
  then show ?thesis by simp
qed

section \<open>Files\<close>

text \<open>In-memory files have nothing more stable than their content.\<close>

interpretation memdisk: durable_file mem_file_ops mem_inv "\<lambda>data. data" "\<lambda>data. data"
proof (unfold_locales, goal_cases)
  case (1 f buf off r f')
  then have "f' = file_patch f (unat off) buf" by (simp add: mem_file_ops_def mem_write_patch)
  with 1 show ?case by (auto simp: mem_inv_def seeps_def file_patch_def nth_append)
next
  case (2 f r' f')
  then show ?case by (simp add: mem_file_ops_def mem_sync_data_def seeps_def)
next
  case (3 f n r' f')
  then show ?case by (auto simp: mem_file_ops_def mem_set_len_def mem_inv_def seeps_def)
qed

text \<open>
  A disk with a write cache: writes change the cache, a sync moves it to the platter or fails, in
  the order that \<open>ds_syncs\<close> lists.
\<close>

record disk =
  ds_cache :: bytes
  ds_platter :: bytes
  ds_syncs :: "bool list"

definition disk_sync_data :: "disk \<Rightarrow> unit result \<times> disk" where
  "disk_sync_data d =
     (case ds_syncs d of
        [] \<Rightarrow> (Inr (), d\<lparr>ds_platter := ds_cache d\<rparr>)
      | works # rest \<Rightarrow>
          if works then (Inr (), d\<lparr>ds_platter := ds_cache d, ds_syncs := rest\<rparr>)
          else (Inl (Io ''sync''), d\<lparr>ds_syncs := rest\<rparr>))"

definition disk_ops :: "disk vfs_file_ops" where
  "disk_ops = \<lparr>vf_read_at = \<lambda>off len d. mem_read_at off len (ds_cache d),
     vf_write_at = \<lambda>off buf d. let (r, c) = mem_write_at off buf (ds_cache d) in (r, d\<lparr>ds_cache := c\<rparr>),
     vf_sync_data = disk_sync_data, vf_file_size = \<lambda>d. mem_file_size (ds_cache d),
     vf_set_len = \<lambda>n d. let (r, c) = mem_set_len n (ds_cache d) in (r, d\<lparr>ds_cache := c\<rparr>)\<rparr>"

interpretation cachedisk: durable_file disk_ops "\<lambda>d. mem_inv (ds_cache d)" ds_cache ds_platter
proof (unfold_locales, goal_cases)
  case (1 f buf off r f')
  then have "f' = f\<lparr>ds_cache := file_patch (ds_cache f) (unat off) buf\<rparr>" by (simp add: disk_ops_def mem_write_patch)
  with 1 show ?case by (auto simp: mem_inv_def seeps_def file_patch_def nth_append)
next
  case (2 f r' f')
  then show ?case by (auto simp: disk_ops_def disk_sync_data_def seeps_def split: list.splits if_splits)
next
  case (3 f n r' f')
  then show ?case by (auto simp: disk_ops_def mem_set_len_def mem_inv_def seeps_def)
qed

section \<open>Properties\<close>



end
