(* ===== verification/WalHandle.thy ===== *)
theory WalHandle
  imports WalRecovery Readers AsyncCommit
begin

text \<open>
  The handle of the write-ahead log, \<open>wal/mod.rs\<close>: its state, readers, and the read path that turns a
  version of a page into bytes.  It is the single-process configuration (no process coordinator), one thread
  at a time; locks are therefore free and unpoisoned, and scratch buffers have no
  content between calls.
\<close>

section \<open>Definitions\<close>

datatype WalSyncMode = Full | Normal | AsyncCommit u32 | TestingOnlyUnsafeNoSync

record AutoCheckpointConfig =
  ac_threshold_pages :: u32
  ac_threshold_bytes :: u64
  ac_checkpoint_timeout_sec :: nat
  ac_release_freed_after_checkpoint :: bool

record ('w, 'x) SharedWalInner =
  si_canonical_path :: "string option"
  si_file :: 'w
  si_page_size :: u32
  si_sync_mode :: WalSyncMode
  si_index :: WalIndex
  si_index_sidecar :: "'x WalIndexSidecar option"
  si_hot_set_pages :: u32
  si_wal_end_lsn :: u64
  si_max_page_count :: u32
  si_allocated_len :: u64
  si_reader_registry :: ReaderRegistry
  si_retained_snapshot_lsn :: u64
  si_checkpoint_pending :: bool
  si_checkpoint_tail_sync_needed :: bool
  si_checkpoint_tail_locally_synced :: bool
  si_checkpoint_epoch :: u64
  si_async_commit :: "AsyncCommitInner option"
  si_resident_versions_per_page :: u32
  si_auto_checkpoint :: AutoCheckpointConfig
  si_pages_since_checkpoint :: u32
  si_background_checkpoint_worker :: bool

text \<open>
  The operations take the handle and a pager; together they are the state, with the thread-local flag of a
  group commit whose sync is deferred.
\<close>

record ('w, 'x, 'f) wal_sys = "('w, 'x) SharedWalInner" +
  ws_pager :: "'f Pager"
  ws_deferred_group_commit :: "bool option"

definition NO_RETAINED_SNAPSHOT_LSN :: u64 where "NO_RETAINED_SNAPSHOT_LSN = - 1"

definition with_pager :: "('f Pager, 'a) prog \<Rightarrow> (('w, 'x, 'f) wal_sys, 'a) prog" where
  "with_pager m w = (case m (ws_pager w) of None \<Rightarrow> None | Some (r, pg) \<Rightarrow> Some (r, w\<lparr>ws_pager := pg\<rparr>))"

definition with_wal_file :: "('w \<Rightarrow> 'a result \<times> 'w) \<Rightarrow> (('w, 'x, 'f) wal_sys, 'a) prog" where
  "with_wal_file m w = (let (r, f) = m (si_file w) in Some (r, w\<lparr>si_file := f\<rparr>))"

definition wal_upd :: "(('w, 'x, 'f) wal_sys \<Rightarrow> ('w, 'x, 'f) wal_sys) \<Rightarrow> (('w, 'x, 'f) wal_sys, unit) prog" where
  "wal_upd g w = Some (Inr (), g w)"

definition latest_snapshot :: "('w, 'x, 'f) wal_sys \<Rightarrow> u64" where
  "latest_snapshot w = si_wal_end_lsn w"

definition checkpoint_epoch :: "('w, 'x, 'f) wal_sys \<Rightarrow> u64" where
  "checkpoint_epoch w = si_checkpoint_epoch w"

definition observed_current_snapshot_lsn :: "('w, 'x, 'f) wal_sys \<Rightarrow> u64 option" where
  "observed_current_snapshot_lsn w = Some (latest_snapshot w)"

definition set_max_page_count :: "u32 \<Rightarrow> ('w, 'x, 'f) wal_sys \<Rightarrow> ('w, 'x, 'f) wal_sys" where
  "set_max_page_count page_count w = w\<lparr>si_max_page_count := max (si_max_page_count w) page_count\<rparr>"

definition reset_max_page_count :: "u32 \<Rightarrow> ('w, 'x, 'f) wal_sys \<Rightarrow> ('w, 'x, 'f) wal_sys" where
  "reset_max_page_count page_count w = w\<lparr>si_max_page_count := page_count\<rparr>"

definition handle_max_page_count :: "('w, 'x, 'f) wal_sys \<Rightarrow> u32" where
  "handle_max_page_count w = si_max_page_count w"

definition handle_reader_count :: "('w, 'x, 'f) wal_sys \<Rightarrow> nat" where
  "handle_reader_count w = active_reader_count (si_reader_registry w)"

definition set_retained_snapshot_lsn :: "u64 option \<Rightarrow> ('w, 'x, 'f) wal_sys \<Rightarrow> ('w, 'x, 'f) wal_sys" where
  "set_retained_snapshot_lsn snapshot_lsn w =
     w\<lparr>si_retained_snapshot_lsn := (case snapshot_lsn of None \<Rightarrow> NO_RETAINED_SNAPSHOT_LSN | Some l \<Rightarrow> l)\<rparr>"

definition retained_snapshot_lsn :: "('w, 'x, 'f) wal_sys \<Rightarrow> u64 option" where
  "retained_snapshot_lsn w =
     (if si_retained_snapshot_lsn w = NO_RETAINED_SNAPSHOT_LSN then None else Some (si_retained_snapshot_lsn w))"

definition handle_warnings :: "('w, 'x, 'f) wal_sys \<Rightarrow> reader_warning list" where
  "handle_warnings w = reader_warnings (si_reader_registry w)"

text \<open>A reader waits while a checkpoint is pending; with nothing else running it would wait forever.\<close>

definition begin_reader :: "nat \<Rightarrow> (('w, 'x, 'f) wal_sys, ReaderGuard) prog" where
  "begin_reader now w =
     (if si_checkpoint_pending w then None
      else let (g, reg) = register_with_process_guard (latest_snapshot w) now (si_reader_registry w)
           in Some (Inr g, w\<lparr>si_reader_registry := reg\<rparr>))"

definition end_reader :: "ReaderGuard \<Rightarrow> ('w, 'x, 'f) wal_sys \<Rightarrow> ('w, 'x, 'f) wal_sys" where
  "end_reader g w = w\<lparr>si_reader_registry := guard_drop g (si_reader_registry w)\<rparr>"

definition handle_version_count :: "('w, 'x, 'f) wal_sys \<Rightarrow> nat" where
  "handle_version_count w =
     version_count (si_index w) + (case si_index_sidecar w of None \<Rightarrow> 0 | Some sc \<Rightarrow> sidecar_version_count sc)"

definition handle_version_counts_by_payload :: "('w, 'x, 'f) wal_sys \<Rightarrow> nat \<times> nat" where
  "handle_version_counts_by_payload w =
     (let (resident, on_disk) = version_counts_by_payload (si_index w);
          (sidecar_resident, sidecar_on_disk) =
            (case si_index_sidecar w of None \<Rightarrow> (0, 0) | Some sc \<Rightarrow> sidecar_version_counts_by_payload sc)
      in (resident + sidecar_resident, on_disk + sidecar_on_disk))"

definition demote_resident_versions_if_reader_free ::
  "nat \<Rightarrow> ('w, 'x, 'f) wal_sys \<Rightarrow> nat \<times> ('w, 'x, 'f) wal_sys"
where
  "demote_resident_versions_if_reader_free target_bytes w =
     (if active_reader_count (si_reader_registry w) > 0 \<or> retained_snapshot_lsn w \<noteq> None then (0, w)
      else let (idx, n) = demote_high_page_ids_resident_bytes target_bytes (si_index w) in (n, w\<lparr>si_index := idx\<rparr>))"

subsection \<open>Spilled versions\<close>

text \<open>A version whose publication in the spill file fails is put back into the index.\<close>

function spill_excess_loop ::
  "'x vfs_file_ops \<Rightarrow> nat \<Rightarrow> WalIndex \<Rightarrow> 'x WalIndexSidecar \<Rightarrow> (unit result \<times> WalIndex \<times> 'x WalIndexSidecar) option"
where
  "spill_excess_loop xops hot_set_pages idx sc =
     (case spill_one_cold_latest hot_set_pages idx of
        (None, idx') \<Rightarrow> Some (Inr (), idx', sc)
      | (Some (page_id, version), idx') \<Rightarrow>
          (case write_latest xops page_id version sc of
             None \<Rightarrow> None
           | Some (Inl e, sc') \<Rightarrow> Some (Inl e, seed_latest page_id version idx', sc')
           | Some (Inr _, sc') \<Rightarrow> spill_excess_loop xops hot_set_pages idx' sc'))"
  by pat_completeness auto
termination
  by (relation "measure (\<lambda>(_, _, idx, _). length (wi_access_order idx))")
     (auto simp: spill_one_cold_latest_def dest: spill_loop_shorter [OF sym])

declare spill_excess_loop.simps [simp del]

definition spill_excess_hot_pages_locked ::
  "'x vfs_file_ops \<Rightarrow> u32 \<Rightarrow> WalIndex \<Rightarrow> 'x WalIndexSidecar \<Rightarrow> (unit result \<times> WalIndex \<times> 'x WalIndexSidecar) option"
where
  "spill_excess_hot_pages_locked xops hot_set_pages idx sc =
     (if hot_set_pages = 0 then Some (Inr (), idx, sc)
      else spill_excess_loop xops (unat hot_set_pages) idx sc)"

definition promote_spilled_latest_locked ::
  "'x vfs_file_ops \<Rightarrow> page_id \<Rightarrow> u64 \<Rightarrow> (('w, 'x, 'f) wal_sys, unit) prog"
where
  "promote_spilled_latest_locked xops page_id snapshot_lsn w =
     (case si_index_sidecar w of
        None \<Rightarrow> Some (Inr (), w)
      | Some sc \<Rightarrow>
          if contains_page (si_index w) page_id then Some (Inr (), w)
          else case read_latest xops page_id sc of
                 Inl e \<Rightarrow> Some (Inl e, w)
               | Inr None \<Rightarrow> Some (Inr (), w)
               | Inr (Some version) \<Rightarrow>
                   if wv_lsn version > snapshot_lsn then Some (Inr (), w)
                   else case clear_latest xops page_id sc of
                          None \<Rightarrow> None
                        | Some (Inl e, sc) \<Rightarrow>
                            Some (Inl e, w\<lparr>si_index := seed_latest page_id version (si_index w), si_index_sidecar := Some sc\<rparr>)
                        | Some (Inr _, sc) \<Rightarrow>
                            let idx = seed_latest page_id version (si_index w)
                            in if active_reader_count (si_reader_registry w) = 0
                               then case spill_excess_hot_pages_locked xops (si_hot_set_pages w) idx sc of
                                      None \<Rightarrow> None
                                    | Some (r, idx, sc) \<Rightarrow> Some (r, w\<lparr>si_index := idx, si_index_sidecar := Some sc\<rparr>)
                               else Some (Inr (), w\<lparr>si_index := idx, si_index_sidecar := Some sc\<rparr>))"

subsection \<open>Materialisation\<close>

definition on_disk_frame ::
  "'w vfs_file_ops \<Rightarrow> ('w, 'x, 'f) wal_sys \<Rightarrow> page_id \<Rightarrow> u64 \<Rightarrow> u32 \<Rightarrow> FrameEncoding \<Rightarrow> WalFrame result"
where
  "on_disk_frame wops w page_id wal_offset frame_len encoding =
     rbind (decode_from_file_with_len wops (si_file w) wal_offset frame_len (si_page_size w) (latest_snapshot w)) (\<lambda>found.
     rbind (ok_or (Corruption ''WAL frame for page is truncated'') found) (\<lambda>frame.
       if wf_page_id frame \<noteq> page_id then Inl (Corruption ''WAL frame belongs to another page'')
       else if wf_frame_type frame \<noteq> encoding_frame_type encoding then Inl (Corruption ''WAL frame encoding mismatch'')
       else Inr frame))"

definition materialize_delta_page_with_scratch :: "bytes \<Rightarrow> bytes \<Rightarrow> bytes result" where
  "materialize_delta_page_with_scratch base delta_payload =
     (case apply_page_delta_in_place base delta_payload of
        (Inl e, _) \<Rightarrow> Inl e
      | (Inr _, page) \<Rightarrow> Inr page)"

text \<open>
  The base of a delta is the version before it, which may itself be a delta in the log.  At sequence number 0
  the saturating subtraction would find the version itself again and the recursion would not end.
\<close>

partial_function (option) materialize_version_locked ::
  "'w vfs_file_ops \<Rightarrow> 'f vfs_file_ops \<Rightarrow> page_id \<Rightarrow> WalVersion \<Rightarrow> ('w, 'x, 'f) wal_sys \<Rightarrow>
   (bytes result \<times> ('w, 'x, 'f) wal_sys) option"
where
  "materialize_version_locked wops ops page_id version w =
     (case wv_payload version of
        Resident data _ _ _ \<Rightarrow> Some (Inr data, w)
      | OnDisk wal_offset frame_len encoding \<Rightarrow>
          (case on_disk_frame wops w page_id wal_offset frame_len encoding of
             Inl e \<Rightarrow> Some (Inl e, w)
           | Inr frame \<Rightarrow>
               (case encoding of
                  EncPage \<Rightarrow> Some (Inr (wf_payload frame), w)
                | EncPageDelta \<Rightarrow>
                    Option.bind
                      (case latest_visible (si_index w) page_id (u64_saturating_sub (wv_lsn version) 1) of
                         Some previous \<Rightarrow> materialize_version_locked wops ops page_id previous w
                       | None \<Rightarrow> with_pager (read_page_from_disk ops page_id) w)
                      (\<lambda>(r, w). Some (rbind r (\<lambda>base. materialize_delta_page_with_scratch base (wf_payload frame)), w)))))"

definition materialize_latest_visible_locked ::
  "'w vfs_file_ops \<Rightarrow> 'f vfs_file_ops \<Rightarrow> page_id \<Rightarrow> u64 \<Rightarrow> (('w, 'x, 'f) wal_sys, bytes option) prog"
where
  "materialize_latest_visible_locked wops ops page_id snapshot_lsn w =
     (case latest_visible (si_index w) page_id snapshot_lsn of
        None \<Rightarrow> Some (Inr None, w)
      | Some version \<Rightarrow> pbind (materialize_version_locked wops ops page_id version) (\<lambda>page. pret (Some page)) w)"

definition read_page_at_snapshot ::
  "'w vfs_file_ops \<Rightarrow> 'f vfs_file_ops \<Rightarrow> 'x vfs_file_ops \<Rightarrow> page_id \<Rightarrow> u64 \<Rightarrow> (('w, 'x, 'f) wal_sys, bytes option) prog"
where
  "read_page_at_snapshot wops ops xops page_id snapshot_lsn =
     pbind (\<lambda>w. if latest_visible (si_index w) page_id snapshot_lsn = None
                then promote_spilled_latest_locked xops page_id snapshot_lsn w else Some (Inr (), w)) (\<lambda>_.
     pbind (wal_upd (\<lambda>w. if latest_visible (si_index w) page_id snapshot_lsn \<noteq> None
                         then w\<lparr>si_index := touch page_id (si_index w)\<rparr> else w)) (\<lambda>_.
       materialize_latest_visible_locked wops ops page_id snapshot_lsn))"

definition flush_to_durable :: "'w vfs_file_ops \<Rightarrow> (('w, 'x, 'f) wal_sys, unit) prog" where
  "flush_to_durable wops w =
     (case si_async_commit w of
        None \<Rightarrow> Some (Inr (), w)
      | Some st \<Rightarrow>
          (case async_flush_to_durable wops (st, si_file w) of
             None \<Rightarrow> None
           | Some (Inl e, st, f) \<Rightarrow> Some (Inl e, w\<lparr>si_async_commit := Some st, si_file := f\<rparr>)
           | Some (Inr flushed, st, f) \<Rightarrow>
               let w = w\<lparr>si_async_commit := Some st, si_file := f\<rparr>
               in Some (Inr (),
                    if flushed \<and> durable_lsn st \<ge> latest_snapshot w
                    then w\<lparr>si_checkpoint_tail_sync_needed := False, si_checkpoint_tail_locally_synced := True\<rparr>
                    else w)))"

text \<open>\<open>SnapshotPageStore::read_page\<close> of the executor: what the log does not have is in the database file.\<close>

definition snapshot_read_page ::
  "'w vfs_file_ops \<Rightarrow> 'f vfs_file_ops \<Rightarrow> 'x vfs_file_ops \<Rightarrow> u64 \<Rightarrow> page_id \<Rightarrow> (('w, 'x, 'f) wal_sys, bytes) prog"
where
  "snapshot_read_page wops ops xops snapshot_lsn page_id =
     pbind (read_page_at_snapshot wops ops xops page_id snapshot_lsn) (\<lambda>found.
       case found of Some page \<Rightarrow> pret page | None \<Rightarrow> with_pager (read_page_from_disk ops page_id))"

section \<open>What a handle stands for\<close>

text \<open>
  The logical end of a log that holds \<open>fs\<close>; an empty log has end 0.  A running log consists of whole
  transactions without checkpoint frames.
\<close>

definition log_end :: "u32 \<Rightarrow> WalFrame list \<Rightarrow> nat" where
  "log_end page_size fs = (if fs = [] then 0 else 32 + log_length page_size fs)"

definition closed_log :: "WalFrame list \<Rightarrow> bool" where
  "closed_log fs \<longleftrightarrow> open_from [] fs = [] \<and> (\<forall>fr \<in> set fs. wf_frame_type fr \<noteq> Checkpoint)"

definition wal_log :: "('w \<Rightarrow> bool) \<Rightarrow> ('w \<Rightarrow> bytes) \<Rightarrow> WalFrame list \<Rightarrow> ('w, 'x, 'f) wal_sys \<Rightarrow> bool" where
  "wal_log wok wcontent fs w \<longleftrightarrow> wok (si_file w) \<and> is_supported_page_size (si_page_size w) \<and>
     unat (si_allocated_len w) = length (wcontent (si_file w)) \<and> 32 \<le> length (wcontent (si_file w)) \<and>
     wal_header_decode (take 32 (wcontent (si_file w))) =
       Inr \<lparr>wh_page_size = si_page_size w, wh_wal_end_offset = si_wal_end_lsn w\<rparr> \<and>
     unat (si_wal_end_lsn w) = log_end (si_page_size w) fs \<and>
     unat (si_wal_end_lsn w) \<le> length (wcontent (si_file w)) \<and>
     frames_at (take (log_end (si_page_size w) fs) (wcontent (si_file w))) 32 (si_page_size w) fs \<and>
     (\<forall>fr \<in> set fs. frame_valid (si_page_size w) fr) \<and> pending_within fs \<and> closed_log fs"

text \<open>The frames that end at or before position \<open>s\<close>, and the pages a snapshot at \<open>s\<close> is to see.\<close>

fun frames_upto :: "u32 \<Rightarrow> nat \<Rightarrow> nat \<Rightarrow> WalFrame list \<Rightarrow> WalFrame list" where
  "frames_upto page_size o' s [] = []"
| "frames_upto page_size o' s (fr # fs) =
     (if o' + frame_encoded_len fr page_size \<le> s then fr # frames_upto page_size (o' + frame_encoded_len fr page_size) s fs
      else [])"

definition pages_at :: "u32 \<Rightarrow> WalFrame list \<Rightarrow> pages \<Rightarrow> u64 \<Rightarrow> pages" where
  "pages_at page_size fs D s = replay (frames_upto page_size 32 (unat s) fs) D"

text \<open>
  \<open>version_at\<close>: a version of page \<open>p\<close> stands for frame \<open>j\<close> of the log.  \<open>version_yields\<close>: materialising it gives the page,
  since it has the bytes, or its frame has and leaves the page so, or its frame is a delta against the page in the database file.
\<close>

definition version_at :: "u32 \<Rightarrow> WalFrame list \<Rightarrow> page_id \<Rightarrow> WalVersion \<Rightarrow> nat \<Rightarrow> bool" where
  "version_at page_size fs p v j \<longleftrightarrow> j < length fs \<and> wf_page_id (fs ! j) = p \<and>
     (case wal_metadata (wv_payload v) of (wal_offset, frame_len, encoding) \<Rightarrow>
        wf_frame_type (fs ! j) = encoding_frame_type encoding \<and>
        unat wal_offset = 32 + log_length page_size (take j fs) \<and>
        unat frame_len = frame_encoded_len (fs ! j) page_size \<and>
        unat (wv_lsn v) = 32 + log_length page_size (take (Suc j) fs))"

definition version_yields :: "u32 \<Rightarrow> WalFrame list \<Rightarrow> pages \<Rightarrow> WalIndex \<Rightarrow> page_id \<Rightarrow> WalVersion \<Rightarrow> bytes \<Rightarrow> bool" where
  "version_yields page_size fs D idx p v page \<longleftrightarrow> p \<noteq> 0 \<and> length page = unat page_size \<and>
     (case wv_payload v of
        Resident data _ _ _ \<Rightarrow> data = page
      | OnDisk _ _ enc \<Rightarrow>
          (\<exists>j. version_at page_size fs p v j \<and> page = replay (take (Suc j) fs) D p \<and>
             (enc = EncPageDelta \<longrightarrow>
                latest_visible idx p (u64_saturating_sub (wv_lsn v) 1) = None \<and> replay (take j fs) D p = D p)))"

definition snapshot_holds :: "u32 \<Rightarrow> WalFrame list \<Rightarrow> pages \<Rightarrow> WalIndex \<Rightarrow> u64 \<Rightarrow> bool" where
  "snapshot_holds page_size fs D idx s \<longleftrightarrow> unat s \<le> log_end page_size fs \<and>
     (\<forall>p. case latest_visible idx p s of
        None \<Rightarrow> pages_at page_size fs D s p = D p
      | Some v \<Rightarrow> version_yields page_size fs D idx p v (pages_at page_size fs D s p))"

definition held_snapshots :: "ReaderGuard list \<Rightarrow> ('w, 'x, 'f) wal_sys \<Rightarrow> u64 set" where
  "held_snapshots gs w = insert (si_wal_end_lsn w) (rg_snapshot_lsn ` set gs \<union> set_option (retained_snapshot_lsn w))"

text \<open>
  The invariant of the default configuration, without a spill file and keeping the newest version of a page
  resident: log, database file and registry are in order, and the index serves every snapshot somebody holds as well
  as the current end of the log.  Older versions that nobody can see any more are not constrained.
\<close>

definition wal_ok ::
  "('w \<Rightarrow> bool) \<Rightarrow> ('w \<Rightarrow> bytes) \<Rightarrow> ('f \<Rightarrow> bool) \<Rightarrow> ('f \<Rightarrow> bytes) \<Rightarrow> nat \<Rightarrow> ReaderGuard list \<Rightarrow> WalFrame list \<Rightarrow>
   ('w, 'x, 'f) wal_sys \<Rightarrow> bool"
where
  "wal_ok wok wcontent ok content n gs fs w \<longleftrightarrow> wal_log wok wcontent fs w \<and>
     pager_ok ok content (ws_pager w) \<and> pg_page_size (ws_pager w) = si_page_size w \<and>
     si_index_sidecar w = None \<and> si_hot_set_pages w = 0 \<and> si_resident_versions_per_page w > 0 \<and>
     registry_inv n (si_reader_registry w) gs \<and> n < 2 ^ 64 \<and>
     (\<forall>p. \<forall>v \<in> set (page_versions (si_index w) p). unat (wv_lsn v) \<le> log_end (si_page_size w) fs) \<and>
     (\<forall>s \<in> held_snapshots gs w.
        snapshot_holds (si_page_size w) fs (pager_page content (ws_pager w)) (si_index w) s)"

subsection \<open>Logs and prefixes\<close>

lemma closed_replay_from:
  "\<forall>fr \<in> set fs. wf_frame_type fr \<noteq> Checkpoint \<Longrightarrow>
     replay (open_from op fs) (replay (committed_from op fs) D) = replay fs (replay op D)"
proof (induction fs arbitrary: op D)
  case (Cons fr fs)
  then show ?case by (cases "wf_frame_type fr") (simp_all add: is_page_frame_def apply_frame_def)
qed simp

lemma closed_replay: "closed_log fs \<Longrightarrow> replay (committed fs) D = replay fs D"
  using closed_replay_from [of fs "[]" D] by (simp add: closed_log_def committed_def)

lemma log_end_le: "log_end page_size fs \<le> 32 + log_length page_size fs"
  by (simp add: log_end_def)

lemma frame_len_pos: "13 \<le> frame_encoded_len fr page_size"
  by (simp add: frame_encoded_len_def FRAME_HEADER_SIZE_def FRAME_TRAILER_SIZE_def)

lemma frames_upto_all: "o' + log_length page_size fs \<le> s \<Longrightarrow> frames_upto page_size o' s fs = fs"
  by (induction fs arbitrary: o') simp_all

lemma frames_upto_append:
  assumes "s \<le> o' + log_length page_size fs"
  shows "frames_upto page_size o' s (fs @ gs) = frames_upto page_size o' s fs"
  using assms
proof (induction fs arbitrary: o')
  case Nil
  have "\<not> o' + frame_encoded_len fr page_size \<le> s" for fr using Nil frame_len_pos [of fr page_size] by simp
  then show ?case by (cases gs) simp_all
qed simp

lemma pages_at_end: "unat s = log_end page_size fs \<Longrightarrow> pages_at page_size fs D s = replay fs D"
  by (cases "fs = []") (simp_all add: pages_at_def log_end_def frames_upto_all)

lemma pages_at_append: "unat s \<le> log_end page_size fs \<Longrightarrow> pages_at page_size (fs @ gs) D s = pages_at page_size fs D s"
  unfolding pages_at_def
  by (subst frames_upto_append) (auto simp: log_end_def split: if_splits)

lemma frames_at_nth:
  "frames_at c o' page_size fs \<Longrightarrow> j < length fs \<Longrightarrow> frame_at c (o' + log_length page_size (take j fs)) page_size (fs ! j)"
proof (induction fs arbitrary: o' j)
  case (Cons fr fs)
  then show ?case using Cons.IH [of "o' + frame_encoded_len fr page_size" "j - 1"] by (cases j) (simp_all add: add.assoc)
qed simp

lemma version_yields_append:
  assumes "version_yields page_size fs D idx p v page"
  shows "version_yields page_size (fs @ gs) D idx p v page"
proof -
  have "version_at page_size (fs @ gs) p v j" "take j (fs @ gs) = take j fs" "take (Suc j) (fs @ gs) = take (Suc j) fs"
    if "version_at page_size fs p v j" for j
    using that by (auto simp: version_at_def nth_append split: prod.splits)
  note e = this
  show ?thesis
  proof (cases "wv_payload v")
    case (OnDisk off len enc)
    then obtain j where j: "version_at page_size fs p v j" "page = replay (take (Suc j) fs) D p"
      "enc = EncPageDelta \<longrightarrow> latest_visible idx p (u64_saturating_sub (wv_lsn v) 1) = None \<and> replay (take j fs) D p = D p"
      using assms by (auto simp: version_yields_def)
    show ?thesis using assms OnDisk j e [OF j(1)] by (auto simp: version_yields_def intro!: exI [of _ j])
  qed (use assms in \<open>simp add: version_yields_def\<close>)
qed

lemma latest_visible_touch [simp]: "latest_visible (touch q idx) = latest_visible idx"
  by (simp add: fun_eq_iff latest_visible_eq)

lemma version_yields_cong:
  "latest_visible idx = latest_visible idx' \<Longrightarrow> version_yields page_size fs D idx = version_yields page_size fs D idx'"
  by (intro ext) (simp only: version_yields_def)

lemma snapshot_holds_cong:
  "latest_visible idx = latest_visible idx' \<Longrightarrow> snapshot_holds page_size fs D idx = snapshot_holds page_size fs D idx'"
  by (intro ext) (simp only: snapshot_holds_def version_yields_cong [of idx idx'])

lemma held_snapshots_simps [simp]:
  "held_snapshots gs (w\<lparr>ws_pager := pg\<rparr>) = held_snapshots gs w"
  "held_snapshots gs (w\<lparr>si_index := idx\<rparr>) = held_snapshots gs w"
  "held_snapshots gs (w\<lparr>si_reader_registry := reg\<rparr>) = held_snapshots gs w"
  by (simp_all add: held_snapshots_def retained_snapshot_lsn_def)

lemma log_holds_of:
  assumes "wal_log wok wcontent fs w"
  shows "log_holds (take (unat (si_wal_end_lsn w)) (wcontent (si_file w))) (si_page_size w) fs"
  using assms log_end_le [of "si_page_size w" fs] by (auto simp: wal_log_def log_holds_def log_ends_def min_def)

text \<open>What no operation on the log changes.\<close>

definition wal_config :: "('w, 'x, 'f) wal_sys \<Rightarrow>
  string option \<times> u32 \<times> WalSyncMode \<times> u32 \<times> u32 \<times> AutoCheckpointConfig \<times> bool \<times> u64"
where
  "wal_config w = (si_canonical_path w, si_page_size w, si_sync_mode w, si_hot_set_pages w, si_resident_versions_per_page w,
     si_auto_checkpoint w, si_background_checkpoint_worker w, si_retained_snapshot_lsn w)"

text \<open>The invariant speaks about the content of the log file, the versions and the database file, and little else.\<close>

lemma wal_ok_same:
  assumes "wal_ok wok wcontent ok content n gs fs w"
    and "wok (si_file w')" "wcontent (si_file w') = wcontent (si_file w)" "si_page_size w' = si_page_size w"
    and "si_allocated_len w' = si_allocated_len w" "si_wal_end_lsn w' = si_wal_end_lsn w"
    and "page_versions (si_index w') = page_versions (si_index w)" "si_index_sidecar w' = None"
    and "si_hot_set_pages w' = si_hot_set_pages w" "si_resident_versions_per_page w' = si_resident_versions_per_page w"
    and "si_reader_registry w' = si_reader_registry w" "retained_snapshot_lsn w' = retained_snapshot_lsn w"
    and "pager_ok ok content (ws_pager w')" "pg_file (ws_pager w') = pg_file (ws_pager w)"
      "pg_page_size (ws_pager w') = pg_page_size (ws_pager w)"
  shows "wal_ok wok wcontent ok content n gs fs w'"
proof -
  have lv: "latest_visible (si_index w') = latest_visible (si_index w)" using assms(7) by (simp add: fun_eq_iff latest_visible_eq)
  have "pager_page content (ws_pager w') = pager_page content (ws_pager w)" using assms(14,15) by (simp add: pager_page_def)
  moreover have "held_snapshots gs w' = held_snapshots gs w" using assms(6,12) by (simp add: held_snapshots_def)
  ultimately show ?thesis using assms snapshot_holds_cong [OF lv] by (simp add: wal_ok_def wal_log_def)
qed

section \<open>Reading\<close>

context wal_world
begin

lemma on_disk_frame_ok:
  assumes "wal_log winv wcontent fs w" "version_at (si_page_size w) fs p v j" "wv_payload v = OnDisk off len enc"
  shows "on_disk_frame wops w p off len enc = Inr (fs ! j)"
proof -
  have log: "winv (si_file w)" "unat (si_wal_end_lsn w) \<le> length (wcontent (si_file w))" "is_supported_page_size (si_page_size w)"
    "frames_at (take (unat (si_wal_end_lsn w)) (wcontent (si_file w))) 32 (si_page_size w) fs"
    using assms(1) by (auto simp: wal_log_def)
  have j: "j < length fs" "wf_page_id (fs ! j) = p" "wf_frame_type (fs ! j) = encoding_frame_type enc"
    "unat off = 32 + log_length (si_page_size w) (take j fs)" "unat len = frame_encoded_len (fs ! j) (si_page_size w)"
    using assms(2,3) by (simp_all add: version_at_def)
  have "frame_at (take (unat (si_wal_end_lsn w)) (wcontent (si_file w))) (unat off) (si_page_size w) (fs ! j)"
    using frames_at_nth [OF log(4) j(1)] j(4) by simp
  then have "decode_from_file_with_len wops (si_file w) off len (si_page_size w) (latest_snapshot w) = Inr (Some (fs ! j))"
    using wal.decode_with_len_iff [OF log(1-3), of off len "fs ! j"] j(5) by (simp add: latest_snapshot_def)
  then show ?thesis using j(2,3) by (simp add: on_disk_frame_def ok_or_def)
qed

lemma read_page_from_disk_ok:
  assumes "pager_disk inv content pg" "p \<noteq> 0"
  shows "\<exists>pool. read_page_from_disk ops p pg = Some (Inr (pager_page content pg p), pg\<lparr>pg_page_pool := pool\<rparr>)"
  using db.load_page_ok [OF assms] assms(2) by (auto simp: read_page_from_disk_def validate_page_id_def pstep_def)

lemma materialize_ok:
  assumes log: "wal_log winv wcontent fs w" and pg: "pager_disk inv content (ws_pager w)" "pg_page_size (ws_pager w) = si_page_size w"
    and y: "version_yields (si_page_size w) fs (pager_page content (ws_pager w)) (si_index w) p v page" and p: "p \<noteq> 0"
  shows "\<exists>pool. materialize_version_locked wops ops p v w =
    Some (Inr page, w\<lparr>ws_pager := (ws_pager w)\<lparr>pg_page_pool := pool\<rparr>\<rparr>)"
proof -
  let ?D = "pager_page content (ws_pager w)"
  have same: "w\<lparr>ws_pager := (ws_pager w)\<lparr>pg_page_pool := pg_page_pool (ws_pager w)\<rparr>\<rparr> = w" by simp
  show ?thesis
  proof (cases "wv_payload v")
    case (Resident data off len enc)
    then have "materialize_version_locked wops ops p v w = Some (Inr page, w)"
      using y by (subst materialize_version_locked.simps) (simp add: version_yields_def)
    then show ?thesis using same by (intro exI [of _ "pg_page_pool (ws_pager w)"]) simp
  next
    case (OnDisk off len enc)
    then obtain j where j: "version_at (si_page_size w) fs p v j" "page = replay (take (Suc j) fs) ?D p"
      and dl: "enc = EncPageDelta \<Longrightarrow> latest_visible (si_index w) p (u64_saturating_sub (wv_lsn v) 1) = None \<and> replay (take j fs) ?D p = ?D p"
      using y by (auto simp: version_yields_def)
    have jl: "j < length fs" using j(1) by (simp add: version_at_def)
    then have page: "page = apply_frame (fs ! j) (replay (take j fs) ?D) p" using j(2) by (simp add: take_Suc_conv_app_nth)
    note fr = on_disk_frame_ok [OF log j(1) OnDisk]
    have ty: "wf_frame_type (fs ! j) = encoding_frame_type enc" "wf_page_id (fs ! j) = p" using j(1) OnDisk by (simp_all add: version_at_def)
    show ?thesis
    proof (cases enc)
      case EncPage
      then have "page = wf_payload (fs ! j)" using ty page by (simp add: apply_frame_def)
      then have "materialize_version_locked wops ops p v w = Some (Inr page, w)"
        using OnDisk EncPage fr by (subst materialize_version_locked.simps) simp
      then show ?thesis using same by (intro exI [of _ "pg_page_pool (ws_pager w)"]) simp
    next
      case EncPageDelta
      have b: "latest_visible (si_index w) p (u64_saturating_sub (wv_lsn v) 1) = None" "replay (take j fs) ?D p = ?D p"
        using dl EncPageDelta by simp_all
      obtain pool where pool: "read_page_from_disk ops p (ws_pager w) = Some (Inr (?D p), (ws_pager w)\<lparr>pg_page_pool := pool\<rparr>)"
        using read_page_from_disk_ok pg(1) p by blast
      have "delta_valid (length (?D p)) (wf_payload (fs ! j))"
        using log jl ty EncPageDelta pg(2) by (simp add: wal_log_def frame_valid_def pager_page_def)
      then obtain page' where "apply_page_delta_in_place (?D p) (wf_payload (fs ! j)) = (Inr (), page')"
        using delta_valid_apply by blast
      moreover from this have "page = page'" using page ty EncPageDelta b(2) by (simp add: apply_frame_def)
      ultimately show ?thesis using OnDisk EncPageDelta fr b(1) pool
        by (intro exI [of _ pool], subst materialize_version_locked.simps)
           (simp add: with_pager_def materialize_delta_page_with_scratch_def)
    qed
  qed
qed

lemma wal_ok_cong:
  assumes "wal_ok winv wcontent inv content n gs fs w" "page_versions idx = page_versions (si_index w)"
    "pager_ok inv content pg" "pg_file pg = pg_file (ws_pager w)" "pg_page_size pg = pg_page_size (ws_pager w)"
  shows "wal_ok winv wcontent inv content n gs fs (w\<lparr>si_index := idx, ws_pager := pg\<rparr>)"
  using assms by (intro wal_ok_same [OF assms(1)]) (simp_all add: wal_ok_def wal_log_def retained_snapshot_lsn_def)

lemma read_page_at_snapshot_ok:
  assumes ok: "wal_ok winv wcontent inv content n gs fs w" and s: "s \<in> held_snapshots gs w" and p: "p \<noteq> 0"
  shows "\<exists>found w'. read_page_at_snapshot wops ops xops p s w = Some (Inr found, w') \<and>
    wal_ok winv wcontent inv content n gs fs w' \<and> pg_file (ws_pager w') = pg_file (ws_pager w) \<and>
    si_page_size w' = si_page_size w \<and> held_snapshots gs w' = held_snapshots gs w \<and>
    wal_config w' = wal_config w \<and> si_checkpoint_pending w' = si_checkpoint_pending w \<and>
    (case found of
       None \<Rightarrow> pages_at (si_page_size w) fs (pager_page content (ws_pager w)) s p = pager_page content (ws_pager w) p
     | Some page \<Rightarrow> page = pages_at (si_page_size w) fs (pager_page content (ws_pager w)) s p)"
proof -
  let ?D = "pager_page content (ws_pager w)" and ?idx = "touch p (si_index w)"
  have log: "wal_log winv wcontent fs w" and pg: "pager_ok inv content (ws_pager w)" "pg_page_size (ws_pager w) = si_page_size w"
    and sc: "si_index_sidecar w = None" and sh: "snapshot_holds (si_page_size w) fs ?D (si_index w) s"
    using ok s by (simp_all add: wal_ok_def)
  show ?thesis
  proof (cases "latest_visible (si_index w) p s")
    case None
    then have "pages_at (si_page_size w) fs ?D s p = ?D p"
      using sh [unfolded snapshot_holds_def, THEN conjunct2, rule_format, of p] by simp
    then show ?thesis using None sc ok
      by (simp add: read_page_at_snapshot_def promote_spilled_latest_locked_def wal_upd_def materialize_latest_visible_locked_def)
  next
    case (Some v)
    let ?w = "w\<lparr>si_index := ?idx\<rparr>" and ?page = "pages_at (si_page_size w) fs ?D s p"
    have ok': "wal_ok winv wcontent inv content n gs fs ?w" using wal_ok_cong [OF ok, of ?idx "ws_pager w"] pg(1) by simp
    have y: "version_yields (si_page_size w) fs ?D (si_index w) p v ?page"
      using sh [unfolded snapshot_holds_def, THEN conjunct2, rule_format, of p] Some by simp
    then have y': "version_yields (si_page_size ?w) fs (pager_page content (ws_pager ?w)) (si_index ?w) p v ?page"
      using version_yields_cong [of ?idx "si_index w"] by simp
    obtain pool where m: "materialize_version_locked wops ops p v ?w =
        Some (Inr ?page, ?w\<lparr>ws_pager := (ws_pager ?w)\<lparr>pg_page_pool := pool\<rparr>\<rparr>)"
      using materialize_ok [OF _ _ _ y' p] ok' by (auto simp: wal_ok_def pager_ok_def)
    have "wal_ok winv wcontent inv content n gs fs (w\<lparr>si_index := ?idx, ws_pager := (ws_pager w)\<lparr>pg_page_pool := pool\<rparr>\<rparr>)"
      using pg(1) by (intro wal_ok_cong [OF ok]) simp_all
    then show ?thesis using Some m
      by (simp add: read_page_at_snapshot_def wal_upd_def materialize_latest_visible_locked_def latest_visible_eq
          held_snapshots_def retained_snapshot_lsn_def wal_config_def)
  qed
qed

lemma snapshot_read_page_ok:
  assumes ok: "wal_ok winv wcontent inv content n gs fs w" and s: "s \<in> held_snapshots gs w" and p: "p \<noteq> 0"
  shows "\<exists>w'. snapshot_read_page wops ops xops s p w =
      Some (Inr (pages_at (si_page_size w) fs (pager_page content (ws_pager w)) s p), w') \<and>
    wal_ok winv wcontent inv content n gs fs w' \<and> pg_file (ws_pager w') = pg_file (ws_pager w) \<and>
    si_page_size w' = si_page_size w \<and> held_snapshots gs w' = held_snapshots gs w \<and>
    wal_config w' = wal_config w \<and> si_checkpoint_pending w' = si_checkpoint_pending w"
proof -
  let ?D = "pager_page content (ws_pager w)"
  obtain found w' where r: "read_page_at_snapshot wops ops xops p s w = Some (Inr found, w')"
    and w': "wal_ok winv wcontent inv content n gs fs w'" "pg_file (ws_pager w') = pg_file (ws_pager w)"
      "si_page_size w' = si_page_size w" "held_snapshots gs w' = held_snapshots gs w"
      "wal_config w' = wal_config w" "si_checkpoint_pending w' = si_checkpoint_pending w"
    and f: "case found of None \<Rightarrow> pages_at (si_page_size w) fs ?D s p = ?D p | Some page \<Rightarrow> page = pages_at (si_page_size w) fs ?D s p"
    using read_page_at_snapshot_ok [OF assms] by blast
  show ?thesis
  proof (cases found)
    case (Some page)
    then show ?thesis using r w' f by (simp add: snapshot_read_page_def)
  next
    case None
    have pg: "pager_ok inv content (ws_pager w')" "pager_disk inv content (ws_pager w')" using w'(1) by (simp_all add: wal_ok_def pager_ok_def)
    obtain pool where l: "read_page_from_disk ops p (ws_pager w') =
        Some (Inr (pager_page content (ws_pager w') p), (ws_pager w')\<lparr>pg_page_pool := pool\<rparr>)"
      using read_page_from_disk_ok [OF pg(2) p] by blast
    have "pager_page content (ws_pager w') = ?D" using w' ok by (simp add: pager_page_def wal_ok_def)
    moreover have "wal_ok winv wcontent inv content n gs fs (w'\<lparr>ws_pager := (ws_pager w')\<lparr>pg_page_pool := pool\<rparr>\<rparr>)"
      using wal_ok_cong [OF w'(1) refl, of "(ws_pager w')\<lparr>pg_page_pool := pool\<rparr>"] pg(1) by simp
    ultimately show ?thesis using None r l w'(2-6) f
      by (simp add: snapshot_read_page_def with_pager_def wal_config_def)
  qed
qed

end

subsection \<open>Readers come and go\<close>

lemma begin_reader_ok:
  assumes "wal_ok wok wcontent ok content n gs fs w" "\<not> si_checkpoint_pending w" "Suc n < 2 ^ 64"
  shows "\<exists>g w'. begin_reader now w = Some (Inr g, w') \<and> rg_snapshot_lsn g = si_wal_end_lsn w \<and>
    wal_ok wok wcontent ok content (Suc n) (g # gs) fs w' \<and> w' = w\<lparr>si_reader_registry := si_reader_registry w'\<rparr>"
proof -
  obtain g reg where r: "register_with_process_guard (latest_snapshot w) now (si_reader_registry w) = (g, reg)" by fastforce
  have ri: "registry_inv (Suc n) reg (g # gs)" using registry_inv_register [OF _ r assms(3)] assms(1) by (simp add: wal_ok_def)
  have sn: "rg_snapshot_lsn g = si_wal_end_lsn w"
    using r by (auto simp: register_with_process_guard_def Let_def latest_snapshot_def split: if_splits)
  let ?w = "w\<lparr>si_reader_registry := reg\<rparr>"
  have "held_snapshots (g # gs) ?w = held_snapshots gs w" using sn by (simp add: held_snapshots_def retained_snapshot_lsn_def)
  then have "wal_ok wok wcontent ok content (Suc n) (g # gs) fs ?w"
    using assms ri by (simp add: wal_ok_def wal_log_def)
  then show ?thesis using r sn assms(2) by (intro exI [of _ g] exI [of _ ?w]) (simp add: begin_reader_def)
qed

lemma end_reader_ok:
  assumes "wal_ok wok wcontent ok content n gs fs w" "g \<in> set gs"
  shows "wal_ok wok wcontent ok content n (remove1 g gs) fs (end_reader g w)"
proof -
  have "registry_inv n (guard_drop g (si_reader_registry w)) (remove1 g gs)"
    using registry_inv_drop [OF _ assms(2)] assms(1) by (simp add: wal_ok_def)
  moreover have "held_snapshots (remove1 g gs) (end_reader g w) \<subseteq> held_snapshots gs w"
    using set_remove1_subset [of g gs] by (auto simp: held_snapshots_def end_reader_def retained_snapshot_lsn_def)
  ultimately show ?thesis using assms(1) by (auto simp: wal_ok_def wal_log_def end_reader_def)
qed

end
