(* ===== verification/WalCheckpoint.thy ===== *)
theory WalCheckpoint
  imports WalHandle
begin

text \<open>
  The checkpoint, \<open>wal/checkpoint.rs\<close>, with the parts of \<open>wal/mod.rs\<close> and \<open>wal/writer.rs\<close> that only it uses:
  the latest version of every page is copied back into the database file in page order, header and freelist are
  brought up to date, the file is synced, and the log is cut back to its header.
  The worker thread of the pipelined copyback writes batches in the order in which they are sent, and its
  result is looked at before the next batch is sent; a batch is written here when it is sent.
\<close>

section \<open>Definitions\<close>

subsection \<open>Reading ahead in the log\<close>

definition CHECKPOINT_WAL_READ_AHEAD_BYTES :: nat where "CHECKPOINT_WAL_READ_AHEAD_BYTES = 256 * 1024"

record CheckpointWalReadAhead =
  ra_start_offset :: u64
  ra_bytes :: bytes
  ra_last_request_end :: "u64 option"

definition read_ahead_default :: CheckpointWalReadAhead where
  "read_ahead_default = \<lparr>ra_start_offset = 0, ra_bytes = [], ra_last_request_end = None\<rparr>"

definition u64_saturating_add :: "u64 \<Rightarrow> u64 \<Rightarrow> u64" where
  "u64_saturating_add a b = (if unat a + unat b < 2 ^ 64 then a + b else - 1)"

definition u64_saturating_mul :: "u64 \<Rightarrow> u64 \<Rightarrow> u64" where
  "u64_saturating_mul a b = (if unat a * unat b < 2 ^ 64 then a * b else - 1)"

text \<open>How many bytes a miss reads: a window at first and when reading on, else just the frame.\<close>

definition read_ahead_desired :: "CheckpointWalReadAhead \<Rightarrow> u64 \<Rightarrow> nat \<Rightarrow> u64" where
  "read_ahead_desired ra wal_offset frame_len =
     (let nearby_forward =
            (case ra_last_request_end ra of
               None \<Rightarrow> False
             | Some previous_end \<Rightarrow> wal_offset \<ge> previous_end \<and>
                 u64_saturating_sub wal_offset previous_end \<le> u64_saturating_mul (of_nat frame_len) 4)
      in if ra_last_request_end ra = None \<or> nearby_forward then of_nat CHECKPOINT_WAL_READ_AHEAD_BYTES
         else of_nat frame_len)"

definition read_ahead_serve :: "u64 \<Rightarrow> nat \<Rightarrow> u64 \<Rightarrow> CheckpointWalReadAhead \<Rightarrow> bytes result \<times> CheckpointWalReadAhead" where
  "read_ahead_serve wal_offset frame_len frame_end ra =
     (let ra = ra\<lparr>ra_last_request_end := Some frame_end\<rparr>;
          relative = unat (u64_saturating_sub wal_offset (ra_start_offset ra))
      in case usize_checked_add relative frame_len of
           None \<Rightarrow> (Inl (Corruption ''cached WAL frame end overflows''), ra)
         | Some relative_end \<Rightarrow>
             (ok_or (Corruption ''cached WAL frame is outside the read-ahead window'')
                (get_range (ra_bytes ra) relative relative_end), ra))"

text \<open>A failed read ends the checkpoint, and with it the window, whose bytes are then not looked at.\<close>

definition read_ahead_frame_bytes ::
  "'w vfs_file_ops \<Rightarrow> 'w \<Rightarrow> u64 \<Rightarrow> u32 \<Rightarrow> u64 \<Rightarrow> CheckpointWalReadAhead \<Rightarrow> bytes result \<times> CheckpointWalReadAhead"
where
  "read_ahead_frame_bytes wops file wal_offset frame_len logical_end ra =
     (let frame_len = unat frame_len
      in case u64_checked_add wal_offset (of_nat frame_len) of
           None \<Rightarrow> (Inl (Corruption ''WAL frame end offset overflows''), ra)
         | Some frame_end \<Rightarrow>
             if frame_end > logical_end then (Inl (Corruption ''WAL frame is truncated at logical end''), ra)
             else
               let cached_end = u64_saturating_add (ra_start_offset ra) (of_nat (length (ra_bytes ra)));
                   cached = wal_offset \<ge> ra_start_offset ra \<and> frame_end \<le> cached_end
               in if cached then read_ahead_serve wal_offset frame_len frame_end ra
                  else
                    let available = u64_saturating_sub logical_end wal_offset;
                        read_len = unat (min available (read_ahead_desired ra wal_offset frame_len))
                    in if read_len < frame_len then (Inl (Corruption ''WAL frame is truncated''), ra)
                       else
                         let ra = ra\<lparr>ra_bytes := replicate read_len 0, ra_start_offset := wal_offset\<rparr>
                         in case read_exact_at wops wal_offset read_len file of
                              Inl e \<Rightarrow> (Inl e, ra)
                            | Inr bs \<Rightarrow> read_ahead_serve wal_offset frame_len frame_end (ra\<lparr>ra_bytes := bs\<rparr>))"

subsection \<open>Copyback\<close>

definition append_checkpoint_version_to ::
  "'w vfs_file_ops \<Rightarrow> 'f vfs_file_ops \<Rightarrow> page_id \<Rightarrow> WalVersion \<Rightarrow> u64 \<Rightarrow> CheckpointWalReadAhead \<Rightarrow> bytes \<Rightarrow>
   (('w, 'x, 'f) wal_sys, CheckpointWalReadAhead \<times> bytes) prog"
where
  "append_checkpoint_version_to wops ops page_id version logical_end read_ahead output w =
     (let page_size = unat (si_page_size w)
      in case wv_payload version of
           Resident data _ _ _ \<Rightarrow>
             if length data \<noteq> page_size then Some (Inl (Corruption ''checkpoint page has the wrong size''), w)
             else Some (Inr (read_ahead, output @ data), w)
         | OnDisk wal_offset frame_len EncPage \<Rightarrow>
             (case read_ahead_frame_bytes wops (si_file w) wal_offset frame_len logical_end read_ahead of
                (Inl e, _) \<Rightarrow> Some (Inl e, w)
              | (Inr frame, read_ahead) \<Rightarrow>
                  Some (rmap (\<lambda>payload. (read_ahead, output @ payload))
                    (page_payload_from_encoded_with_len frame page_id frame_len (si_page_size w)), w))
         | OnDisk _ _ EncPageDelta \<Rightarrow>
             pbind (materialize_version_locked wops ops page_id version) (\<lambda>payload.
               if length payload \<noteq> page_size then pfail (Corruption ''checkpoint page has the wrong size'')
               else pret (read_ahead, output @ payload)) w)"

definition append_checkpoint_page ::
  "'w vfs_file_ops \<Rightarrow> 'f vfs_file_ops \<Rightarrow> u64 \<Rightarrow> nat \<Rightarrow> page_id \<Rightarrow> WalVersion \<Rightarrow> CheckpointWalReadAhead \<Rightarrow> bytes \<Rightarrow>
   (('w, 'x, 'f) wal_sys, CheckpointWalReadAhead \<times> bytes) prog"
where
  "append_checkpoint_page wops ops safe_lsn page_size page_id version wal_read_ahead output =
     pbind (append_checkpoint_version_to wops ops page_id version safe_lsn wal_read_ahead output) (\<lambda>(ra, output').
       if length output' \<noteq> length output + page_size
       then pfail (Corruption ''checkpoint page did not append exactly one page'')
       else pret (ra, output'))"

definition flush_copyback_run ::
  "'f vfs_file_ops \<Rightarrow> page_id option \<Rightarrow> bytes \<Rightarrow> (('w, 'x, 'f) wal_sys, bytes) prog"
where
  "flush_copyback_run ops run_start_page coalesce =
     (case run_start_page of
        None \<Rightarrow> pret coalesce
      | Some start_page_id \<Rightarrow>
          pbind (with_pager (write_pages_contiguous_no_cache ops start_page_id coalesce)) (\<lambda>_. pret []))"

fun copyback_sequential_loop ::
  "'w vfs_file_ops \<Rightarrow> 'f vfs_file_ops \<Rightarrow> u64 \<Rightarrow> nat \<Rightarrow> nat \<Rightarrow> (page_id \<times> WalVersion) list \<Rightarrow>
   page_id option \<Rightarrow> page_id option \<Rightarrow> bytes \<Rightarrow> CheckpointWalReadAhead \<Rightarrow> (('w, 'x, 'f) wal_sys, unit) prog"
where
  "copyback_sequential_loop wops ops safe_lsn page_size batch_capacity [] run_start run_next coalesce ra =
     pbind (flush_copyback_run ops run_start coalesce) (\<lambda>_. pret ())"
| "copyback_sequential_loop wops ops safe_lsn page_size batch_capacity ((page_id, version) # rest) run_start run_next coalesce ra =
     (let continues_run = (run_next = Some page_id);
          fits_batch = (length coalesce \<le> batch_capacity - page_size)
      in pbind (if run_start \<noteq> None \<and> (\<not> continues_run \<or> \<not> fits_batch)
                then pbind (flush_copyback_run ops run_start coalesce) (\<lambda>coalesce. pret (None, coalesce))
                else pret (run_start, coalesce)) (\<lambda>(run_start, coalesce).
         let run_start = (case run_start of None \<Rightarrow> Some page_id | Some p \<Rightarrow> Some p)
         in pbind (append_checkpoint_page wops ops safe_lsn page_size page_id version ra coalesce) (\<lambda>(ra, coalesce).
            copyback_sequential_loop wops ops safe_lsn page_size batch_capacity rest run_start
              (u32_checked_add page_id 1) coalesce ra)))"

definition copyback_sequential ::
  "'w vfs_file_ops \<Rightarrow> 'f vfs_file_ops \<Rightarrow> u64 \<Rightarrow> nat \<Rightarrow> nat \<Rightarrow> (page_id \<times> WalVersion) list \<Rightarrow>
   (('w, 'x, 'f) wal_sys, unit) prog"
where
  "copyback_sequential wops ops safe_lsn page_size batch_capacity latest_versions =
     copyback_sequential_loop wops ops safe_lsn page_size batch_capacity latest_versions None None [] read_ahead_default"

text \<open>The outstanding batch is represented by the result that the worker will report for it.\<close>

definition dispatch_copyback_batch ::
  "'f vfs_file_ops \<Rightarrow> bytes \<Rightarrow> page_id option \<Rightarrow> unit result option \<Rightarrow> (('w, 'x, 'f) wal_sys, unit result option) prog"
where
  "dispatch_copyback_batch ops current current_start_page outstanding =
     pbind (plift (ok_or (Internal ''checkpoint copyback batch has no starting page'') current_start_page)) (\<lambda>start_page_id.
     pbind (case outstanding of None \<Rightarrow> pret () | Some result \<Rightarrow> plift result) (\<lambda>_ w.
       case with_pager (write_pages_contiguous_no_cache ops start_page_id current) w of
         None \<Rightarrow> None
       | Some (result, w) \<Rightarrow> Some (Inr (Some result), w)))"

fun produce_copyback_batches_loop ::
  "'w vfs_file_ops \<Rightarrow> 'f vfs_file_ops \<Rightarrow> u64 \<Rightarrow> nat \<Rightarrow> nat \<Rightarrow> (page_id \<times> WalVersion) list \<Rightarrow>
   bytes \<Rightarrow> page_id option \<Rightarrow> unit result option \<Rightarrow> CheckpointWalReadAhead \<Rightarrow> (('w, 'x, 'f) wal_sys, unit) prog"
where
  "produce_copyback_batches_loop wops ops safe_lsn page_size batch_capacity [] current start outstanding ra =
     pbind (if current \<noteq> [] then dispatch_copyback_batch ops current start outstanding else pret outstanding)
       (\<lambda>outstanding. case outstanding of None \<Rightarrow> pret () | Some result \<Rightarrow> plift result)"
| "produce_copyback_batches_loop wops ops safe_lsn page_size batch_capacity ((page_id, version) # rest) current start outstanding ra =
     pbind (if length current > batch_capacity - page_size
            then pbind (dispatch_copyback_batch ops current start outstanding) (\<lambda>outstanding. pret ([], Some page_id, outstanding))
            else pret (current, start, outstanding)) (\<lambda>(current, start, outstanding).
     pbind (append_checkpoint_page wops ops safe_lsn page_size page_id version ra current) (\<lambda>(ra, current).
       produce_copyback_batches_loop wops ops safe_lsn page_size batch_capacity rest current start outstanding ra))"

definition produce_copyback_batches ::
  "'w vfs_file_ops \<Rightarrow> 'f vfs_file_ops \<Rightarrow> u64 \<Rightarrow> nat \<Rightarrow> nat \<Rightarrow> (page_id \<times> WalVersion) list \<Rightarrow>
   (('w, 'x, 'f) wal_sys, unit) prog"
where
  "produce_copyback_batches wops ops safe_lsn page_size batch_capacity latest_versions =
     produce_copyback_batches_loop wops ops safe_lsn page_size batch_capacity latest_versions []
       (case latest_versions of [] \<Rightarrow> None | (page_id, _) # _ \<Rightarrow> Some page_id) None read_ahead_default"

text \<open>Whether the worker thread can be started is up to the operating system: \<open>spawn_ok\<close>.\<close>

definition copyback_contiguous_pipelined ::
  "bool \<Rightarrow> 'w vfs_file_ops \<Rightarrow> 'f vfs_file_ops \<Rightarrow> u64 \<Rightarrow> nat \<Rightarrow> nat \<Rightarrow> (page_id \<times> WalVersion) list \<Rightarrow>
   (('w, 'x, 'f) wal_sys, unit) prog"
where
  "copyback_contiguous_pipelined spawn_ok wops ops safe_lsn page_size batch_capacity latest_versions =
     (if spawn_ok then produce_copyback_batches wops ops safe_lsn page_size batch_capacity latest_versions
      else copyback_sequential wops ops safe_lsn page_size batch_capacity latest_versions)"

definition COPYBACK_BATCH_BYTES :: nat where "COPYBACK_BATCH_BYTES = 8 * 1024 * 1024"

fun is_one_contiguous_run :: "(page_id \<times> WalVersion) list \<Rightarrow> bool" where
  "is_one_contiguous_run (a # b # rest) = (u32_checked_add (fst a) 1 = Some (fst b) \<and> is_one_contiguous_run (b # rest))"
| "is_one_contiguous_run _ = True"

definition copyback_latest_versions ::
  "bool \<Rightarrow> 'w vfs_file_ops \<Rightarrow> 'f vfs_file_ops \<Rightarrow> u64 \<Rightarrow> nat \<Rightarrow> (page_id \<times> WalVersion) list \<Rightarrow>
   (('w, 'x, 'f) wal_sys, unit) prog"
where
  "copyback_latest_versions spawn_ok wops ops safe_lsn page_size latest_versions =
     (let batch_pages = max (COPYBACK_BATCH_BYTES div page_size) 1;
          batch_capacity = batch_pages * page_size;
          total_copyback_bytes = min (length latest_versions * page_size) (2 ^ 64 - 1)
      in if total_copyback_bytes > batch_capacity \<and> is_one_contiguous_run latest_versions
         then copyback_contiguous_pipelined spawn_ok wops ops safe_lsn page_size batch_capacity latest_versions
         else copyback_sequential wops ops safe_lsn page_size batch_capacity latest_versions)"

subsection \<open>Cutting the log back\<close>

record TruncateToHeaderOutcome =
  tr_post_logical_error :: "db_error option"
  tr_final_sync_succeeded :: bool

definition truncate_to_header_before_sync :: "'w vfs_file_ops \<Rightarrow> (('w, 'x, 'f) wal_sys, TruncateToHeaderOutcome) prog" where
  "truncate_to_header_before_sync wops =
     pbind (wal_upd (\<lambda>w. w\<lparr>si_async_commit := map_option (rebase_clean_lsn 0) (si_async_commit w)\<rparr>)) (\<lambda>_.
     pbind (\<lambda>w. with_wal_file (persist_wal_header wops (si_page_size w) 0) w) (\<lambda>_.
     pbind (wal_upd (\<lambda>w. w\<lparr>si_wal_end_lsn := 0, si_checkpoint_tail_sync_needed := False,
                            si_checkpoint_tail_locally_synced := True\<rparr>)) (\<lambda>_ w.
       case vf_set_len wops WAL_HEADER_SIZE (si_file w) of
         (Inr _, f) \<Rightarrow>
           Some (Inr \<lparr>tr_post_logical_error = None, tr_final_sync_succeeded = False\<rparr>,
                 w\<lparr>si_file := f, si_allocated_len := WAL_HEADER_SIZE\<rparr>)
       | (Inl e, f) \<Rightarrow>
           Some (Inr \<lparr>tr_post_logical_error = Some e, tr_final_sync_succeeded = False\<rparr>, w\<lparr>si_file := f\<rparr>))))"

definition sync_truncated_wal :: "'w vfs_file_ops \<Rightarrow> (('w, 'x, 'f) wal_sys, unit) prog" where
  "sync_truncated_wal wops = with_wal_file (vf_sync_data wops)"

definition finish_truncate_to_header :: "TruncateToHeaderOutcome \<Rightarrow> unit result \<Rightarrow> TruncateToHeaderOutcome" where
  "finish_truncate_to_header outcome sync_result =
     (case sync_result of
        Inr _ \<Rightarrow> outcome\<lparr>tr_final_sync_succeeded := True\<rparr>
      | Inl error \<Rightarrow>
          outcome\<lparr>tr_post_logical_error :=
                    (case tr_post_logical_error outcome of None \<Rightarrow> Some error | Some e \<Rightarrow> Some e),
                  tr_final_sync_succeeded := False\<rparr>)"

definition sync_durably :: "'w vfs_file_ops \<Rightarrow> (('w, 'x, 'f) wal_sys, unit) prog" where
  "sync_durably wops = with_wal_file (vf_sync_data wops)"

definition sync_checkpoint_tail :: "'w vfs_file_ops \<Rightarrow> (('w, 'x, 'f) wal_sys, unit) prog" where
  "sync_checkpoint_tail wops w =
     (if latest_snapshot w = 0 then Some (Inr (), w)
      else case si_async_commit w of
             Some st \<Rightarrow>
               (case sync_for_checkpoint_tail wops (st, si_file w) of
                  None \<Rightarrow> None
                | Some (r, st, f) \<Rightarrow> Some (r, w\<lparr>si_async_commit := Some st, si_file := f\<rparr>))
           | None \<Rightarrow> sync_durably wops w)"

subsection \<open>The checkpoint\<close>

definition checkpoint_tail_barrier :: "'w vfs_file_ops \<Rightarrow> (('w, 'x, 'f) wal_sys, unit) prog" where
  "checkpoint_tail_barrier wops w =
     (if si_checkpoint_tail_sync_needed w
      then case sync_checkpoint_tail wops w of
             None \<Rightarrow> None
           | Some (Inl e, w) \<Rightarrow>
               Some (Inl e, w\<lparr>si_checkpoint_tail_sync_needed := True, si_checkpoint_tail_locally_synced := False\<rparr>)
           | Some (Inr _, w) \<Rightarrow>
               Some (Inr (), w\<lparr>si_checkpoint_tail_sync_needed := False, si_checkpoint_tail_locally_synced := True\<rparr>)
      else Some (Inr (), w))"

definition collect_latest_versions ::
  "'x vfs_file_ops \<Rightarrow> (page_id list \<Rightarrow> page_id list) \<Rightarrow> u64 \<Rightarrow> ('w, 'x, 'f) wal_sys \<Rightarrow> (page_id \<times> WalVersion) list result"
where
  "collect_latest_versions xops hash_order safe_lsn w =
     (let latest = populate_latest_versions_at_or_before hash_order safe_lsn (si_index w)
      in rmap (sort_key fst)
           (case si_index_sidecar w of
              None \<Rightarrow> Inr latest
            | Some sc \<Rightarrow> (case sidecar_populate xops safe_lsn sc latest of (Inl e, _) \<Rightarrow> Inl e | (Inr _, out) \<Rightarrow> Inr out)))"

text \<open>From the copyback to the sync of the database file.\<close>

definition checkpoint_database ::
  "crc_cpu \<Rightarrow> bool \<Rightarrow> 'w vfs_file_ops \<Rightarrow> 'f vfs_file_ops \<Rightarrow> u64 \<Rightarrow> (page_id \<times> WalVersion) list \<Rightarrow>
   (('w, 'x, 'f) wal_sys, unit) prog"
where
  "checkpoint_database cpu spawn_ok wops ops safe_lsn latest_versions w =
     (let page_size = unat (pg_page_size (ws_pager w))
      in if page_size = 0 then Some (Inl (Corruption ''checkpoint pager has zero page size''), w)
         else
           pbind (copyback_latest_versions spawn_ok wops ops safe_lsn page_size latest_versions) (\<lambda>_.
           pbind (with_pager (pager_upd invalidate_cache_after_local_checkpoint)) (\<lambda>_.
           pbind (with_pager (pstep (refresh_header_from_disk_after_local_checkpoint cpu ops))) (\<lambda>_.
           pbind (with_pager (truncate_freelist_tail cpu ops)) (\<lambda>truncated.
           pbind (wal_upd (\<lambda>w. reset_max_page_count
                    (case truncated of Some page_count \<Rightarrow> page_count | None \<Rightarrow> cached_page_count (ws_pager w)) w)) (\<lambda>_.
           pbind (with_pager (set_last_checkpoint_lsn cpu ops safe_lsn)) (\<lambda>_.
           with_pager (pager_sync_data ops))))))) w)"

text \<open>The index and the spill file are cleared even when the spill file reports an error, which is returned last.\<close>

definition clear_sidecar :: "'x vfs_file_ops \<Rightarrow> ('w, 'x, 'f) wal_sys \<Rightarrow> (db_error option \<times> ('w, 'x, 'f) wal_sys) option" where
  "clear_sidecar xops w =
     (case si_index_sidecar w of
        None \<Rightarrow> Some (None, w)
      | Some sc \<Rightarrow>
          (case sidecar_clear xops sc of
             None \<Rightarrow> None
           | Some (Inl e, sc) \<Rightarrow> Some (Some e, w\<lparr>si_index_sidecar := Some sc\<rparr>)
           | Some (Inr _, sc) \<Rightarrow> Some (None, w\<lparr>si_index_sidecar := Some sc\<rparr>)))"

definition finish_checkpoint ::
  "'w vfs_file_ops \<Rightarrow> 'x vfs_file_ops \<Rightarrow> TruncateToHeaderOutcome \<Rightarrow> (('w, 'x, 'f) wal_sys, unit) prog"
where
  "finish_checkpoint wops xops pending_truncate w =
     (case clear_sidecar xops (w\<lparr>si_index := index_clear (si_index w)\<rparr>) of
        None \<Rightarrow> None
      | Some (cleanup_error, w) \<Rightarrow>
          (case sync_truncated_wal wops
                  (w\<lparr>si_checkpoint_epoch := si_checkpoint_epoch w + 1, si_pages_since_checkpoint := 0\<rparr>) of
             None \<Rightarrow> None
           | Some (final_sync_result, w) \<Rightarrow>
               (case tr_post_logical_error (finish_truncate_to_header pending_truncate final_sync_result) of
                  Some e \<Rightarrow> Some (Inl e, w)
                | None \<Rightarrow> (case cleanup_error of Some e \<Rightarrow> Some (Inl e, w) | None \<Rightarrow> Some (Inr (), w)))))"

definition checkpoint_body ::
  "crc_cpu \<Rightarrow> bool \<Rightarrow> (page_id list \<Rightarrow> page_id list) \<Rightarrow> 'w vfs_file_ops \<Rightarrow> 'f vfs_file_ops \<Rightarrow> 'x vfs_file_ops \<Rightarrow>
   nat \<Rightarrow> nat \<Rightarrow> (('w, 'x, 'f) wal_sys, unit) prog"
where
  "checkpoint_body cpu spawn_ok hash_order wops ops xops timeout_sec now w =
     (let current_lsn = latest_snapshot w;
          named_snapshot_retained =
            (case retained_snapshot_lsn w of None \<Rightarrow> False | Some snapshot_lsn \<Rightarrow> snapshot_lsn < current_lsn)
      in if min_snapshot_lsn (si_reader_registry w) \<noteq> None \<or> named_snapshot_retained
         then Some (Inr (), w\<lparr>si_reader_registry :=
                snd (capture_long_reader_warnings timeout_sec now (si_reader_registry w))\<rparr>)
         else
           let safe_lsn = current_lsn
           in pbind (flush_to_durable wops) (\<lambda>_.
              pbind (checkpoint_tail_barrier wops) (\<lambda>_.
              pbind (\<lambda>w. Some (collect_latest_versions xops hash_order safe_lsn w, w)) (\<lambda>latest_versions.
              pbind (checkpoint_database cpu spawn_ok wops ops safe_lsn latest_versions) (\<lambda>_.
              pbind (truncate_to_header_before_sync wops) (\<lambda>pending_truncate.
              finish_checkpoint wops xops pending_truncate))))) w)"

text \<open>The flag that keeps readers out is reset on every way out.\<close>

definition checkpoint ::
  "crc_cpu \<Rightarrow> bool \<Rightarrow> (page_id list \<Rightarrow> page_id list) \<Rightarrow> 'w vfs_file_ops \<Rightarrow> 'f vfs_file_ops \<Rightarrow> 'x vfs_file_ops \<Rightarrow>
   nat \<Rightarrow> nat \<Rightarrow> (('w, 'x, 'f) wal_sys, unit) prog"
where
  "checkpoint cpu spawn_ok hash_order wops ops xops timeout_sec now w =
     map_option (\<lambda>(r, w). (r, w\<lparr>si_checkpoint_pending := False\<rparr>))
       (checkpoint_body cpu spawn_ok hash_order wops ops xops timeout_sec now (w\<lparr>si_checkpoint_pending := True\<rparr>))"

section \<open>The read-ahead window\<close>

definition window_ok :: "bytes \<Rightarrow> CheckpointWalReadAhead \<Rightarrow> bool" where
  "window_ok c ra \<longleftrightarrow> unat (ra_start_offset ra) + length (ra_bytes ra) \<le> length c \<and>
     ra_bytes ra = bslice c (unat (ra_start_offset ra)) (unat (ra_start_offset ra) + length (ra_bytes ra))"

lemma unat_saturating_sub: "unat (u64_saturating_sub a b) = unat a - unat b"
  by (auto simp: u64_saturating_sub_def unat_sub word_le_nat_alt)

lemma read_ahead_serve_ok:
  assumes "window_ok c ra" "unat (ra_start_offset ra) \<le> unat off" "unat off + n \<le> unat (ra_start_offset ra) + length (ra_bytes ra)"
    and "length c < 2 ^ 63"
  shows "read_ahead_serve off n fe ra = (Inr (bslice c (unat off) (unat off + n)), ra\<lparr>ra_last_request_end := Some fe\<rparr>)"
proof -
  let ?s = "unat (ra_start_offset ra)" and ?r = "unat off - unat (ra_start_offset ra)"
  have w: "?s + length (ra_bytes ra) \<le> length c" "ra_bytes ra = bslice c ?s (?s + length (ra_bytes ra))"
    using assms(1) by (simp_all add: window_ok_def)
  have le: "?r + n \<le> length (ra_bytes ra)" using assms(2,3) by simp
  have "bslice (ra_bytes ra) ?r (?r + n) = bslice (bslice c ?s (?s + length (ra_bytes ra))) ?r (?r + n)" using w(2) by simp
  also have "\<dots> = bslice c (unat off) (unat off + n)"
    using le assms(2) bslice_bslice [of "?r + n" "?s + length (ra_bytes ra)" ?s c ?r] by simp
  finally have e: "bslice (ra_bytes ra) ?r (?r + n) = bslice c (unat off) (unat off + n)" .
  have "usize_checked_add ?r n = Some (?r + n)" using le w(1) assms(4) by (simp add: usize_checked_add_def)
  then show ?thesis using le e by (simp add: read_ahead_serve_def Let_def unat_saturating_sub ok_or_def get_range_def)
qed

context vfs_file
begin

lemma read_ahead_ok:
  assumes "inv f" "unat off + unat len \<le> unat logical_end" "unat logical_end \<le> length (content f)" "unat len \<le> 262144"
    and "window_ok (content f) ra"
  shows "\<exists>ra'. read_ahead_frame_bytes ops f off len logical_end ra =
      (Inr (bslice (content f) (unat off) (unat off + unat len)), ra') \<and> window_ok (content f) ra'"
proof -
  let ?c = "content f" and ?n = "unat len" and ?s = "unat (ra_start_offset ra)"
  let ?fe = "off + of_nat (unat len) :: u64" and ?ce = "u64_saturating_add (ra_start_offset ra) (of_nat (length (ra_bytes ra)))"
  have L: "length ?c < 2 ^ 63" using content_len [OF assms(1)] .
  have n: "unat (of_nat ?n :: u64) = ?n" using assms(4) by (simp add: unat_of_nat)
  have fe: "unat ?fe = unat off + ?n" using assms(2,3) L by (intro unat_offset) simp
  have add: "u64_checked_add off (of_nat ?n) = Some ?fe" using assms(2,3) L n by (simp add: u64_checked_add_def)
  have ngt: "\<not> ?fe > logical_end" using fe assms(2) by (simp add: word_less_nat_alt)
  have wl: "?s + length (ra_bytes ra) \<le> length ?c" using assms(5) by (simp add: window_ok_def)
  have "unat (of_nat (length (ra_bytes ra)) :: u64) = length (ra_bytes ra)" using wl L by (simp add: unat_of_nat)
  then have ce: "unat ?ce = ?s + length (ra_bytes ra)"
    using wl L unat_offset [of "ra_start_offset ra" "length (ra_bytes ra)"] by (simp add: u64_saturating_add_def)
  show ?thesis
  proof (cases "off \<ge> ra_start_offset ra \<and> ?fe \<le> ?ce")
    case True
    then have "?s \<le> unat off" "unat off + ?n \<le> ?s + length (ra_bytes ra)" using fe ce by (simp_all add: word_le_nat_alt)
    from read_ahead_serve_ok [OF assms(5) this L] True add ngt assms(5) show ?thesis
      by (simp add: read_ahead_frame_bytes_def Let_def window_ok_def)
  next
    case False
    let ?des = "read_ahead_desired ra off ?n"
    let ?k = "unat (min (u64_saturating_sub logical_end off) ?des)"
    have "unat ?des = 262144 \<or> unat ?des = ?n"
      using n by (auto simp: read_ahead_desired_def Let_def CHECKPOINT_WAL_READ_AHEAD_BYTES_def)
    then have k: "?n \<le> ?k" "?k \<le> unat logical_end - unat off"
      using assms(2,4) by (auto simp: min_def word_le_nat_alt unat_saturating_sub)
    then have in_file: "unat off + ?k \<le> length ?c" using assms(2,3) by simp
    let ?bs = "bslice ?c (unat off) (unat off + ?k)"
    let ?ra = "ra\<lparr>ra_start_offset := off, ra_bytes := ?bs\<rparr>"
    have rd: "read_exact_at ops off ?k f = Inr ?bs" using read_exact_ok [OF assms(1) in_file] .
    have lb: "length ?bs = ?k" using in_file by simp
    then have wo: "window_ok ?c ?ra" using in_file by (simp add: window_ok_def)
    have "read_ahead_serve off ?n ?fe ?ra = (Inr (bslice ?c (unat off) (unat off + ?n)), ?ra\<lparr>ra_last_request_end := Some ?fe\<rparr>)"
      using read_ahead_serve_ok [OF wo _ _ L, of off ?n ?fe] k(1) lb by simp
    moreover have "read_ahead_frame_bytes ops f off len logical_end ra = read_ahead_serve off ?n ?fe ?ra"
      using False add ngt k(1) rd by (auto simp: read_ahead_frame_bytes_def Let_def)
    ultimately show ?thesis using wo by (simp add: window_ok_def)
  qed
qed

end

section \<open>Copyback\<close>

lemma page_payload_at:
  assumes "frame_at c o' page_size fr" "wf_frame_type fr = Page" "wf_page_id fr = p" "unat len = frame_encoded_len fr page_size"
    "is_supported_page_size page_size"
  shows "page_payload_from_encoded_with_len (bslice c o' (o' + unat len)) p len page_size = Inr (wf_payload fr)"
proof -
  have n: "unat len = 13 + unat page_size" "o' + unat len \<le> length c"
    using assms by (auto simp: frame_at_def frame_encoded_len_def FRAME_HEADER_SIZE_def FRAME_TRAILER_SIZE_def)
  let ?b = "bslice c o' (o' + unat len)"
  have "?b ! 0 = c ! o'" using n by (simp add: nth_bslice)
  moreover have "bslice ?b 1 5 = bslice c (o' + 1) (o' + 5)" "bslice ?b 5 (5 + unat page_size) = bslice c (o' + 5) (o' + 5 + unat page_size)"
    using n bslice_bslice [of 5 "o' + unat len" o' c 1] bslice_bslice [of "5 + unat page_size" "o' + unat len" o' c 5]
    by (simp_all add: add.assoc)
  ultimately show ?thesis using assms n
    by (auto simp: page_payload_from_encoded_with_len_def frame_at_def Let_def FRAME_HEADER_SIZE_def FRAME_TRAILER_SIZE_def
        is_page_frame_def)
qed

text \<open>
  The pages that a run of bytes stands for, and the state of a copyback that has dealt with the pages \<open>dn\<close>: the database
  file with the run laid over it has the new content of these pages and the old content of the others.
\<close>

definition run_page :: "nat \<Rightarrow> page_id option \<Rightarrow> bytes \<Rightarrow> page_id \<Rightarrow> bytes option" where
  "run_page ps start buf q =
     (case start of
        None \<Rightarrow> None
      | Some s \<Rightarrow> if unat s \<le> unat q \<and> unat q < unat s + length buf div ps
                  then Some (bslice buf ((unat q - unat s) * ps) ((unat q - unat s) * ps + ps)) else None)"

definition run_ok :: "nat \<Rightarrow> page_id option \<Rightarrow> bytes \<Rightarrow> bool" where
  "run_ok ps start buf \<longleftrightarrow>
     (case start of
        None \<Rightarrow> buf = []
      | Some s \<Rightarrow> s \<noteq> 0 \<and> length buf mod ps = 0 \<and> unat s + length buf div ps \<le> 2 ^ 32)"

definition copy_state ::
  "('f \<Rightarrow> bool) \<Rightarrow> ('f \<Rightarrow> bytes) \<Rightarrow> ('w, 'x, 'f) wal_sys \<Rightarrow> pages \<Rightarrow> page_id set \<Rightarrow> page_id option \<Rightarrow> bytes \<Rightarrow>
   ('w, 'x, 'f) wal_sys \<Rightarrow> bool"
where
  "copy_state ok content w0 E dn start buf w \<longleftrightarrow>
     (\<exists>f n pool. w = w0\<lparr>ws_pager := (ws_pager w0)\<lparr>pg_file := f, pg_page_pool := pool, pg_db_page_count := n\<rparr>\<rparr>) \<and>
     pager_disk ok content (ws_pager w) \<and> unat (pg_db_page_count (ws_pager w0)) \<le> unat (pg_db_page_count (ws_pager w)) \<and>
     run_ok (unat (pg_page_size (ws_pager w0))) start buf \<and>
     (\<forall>q. q \<noteq> 0 \<longrightarrow>
        (case run_page (unat (pg_page_size (ws_pager w0))) start buf q of
           Some b \<Rightarrow> q \<in> dn \<and> b = E q
         | None \<Rightarrow> pager_page content (ws_pager w) q = (if q \<in> dn then E q else pager_page content (ws_pager w0) q)))"

lemma run_page_empty [simp]: "run_page ps start [] q = None"
  by (auto simp: run_page_def split: option.split)

lemma unat_checked_succ: "u32_checked_add p 1 = Some q \<Longrightarrow> unat q = unat p + 1"
  by (auto simp: u32_checked_add_def unat_word_ariths split: if_splits)

lemma copy_state_restart:
  "copy_state ok content w0 E dn start [] w \<Longrightarrow> p \<noteq> 0 \<Longrightarrow> copy_state ok content w0 E dn (Some p) [] w"
  using unsigned_less [of p, where ?'a = nat] by (auto simp: copy_state_def run_ok_def)

context wal_world
begin

lemma copy_flush:
  assumes cs: "copy_state inv content w0 E dn (Some s) buf w" and ne: "buf \<noteq> []"
  shows "\<exists>w'. with_pager (write_pages_contiguous_no_cache ops s buf) w = Some (Inr (), w') \<and>
    copy_state inv content w0 E dn None [] w'"
proof -
  let ?ps = "unat (pg_page_size (ws_pager w0))" and ?k = "length buf div unat (pg_page_size (ws_pager w0))"
  obtain f n pool where w: "w = w0\<lparr>ws_pager := (ws_pager w0)\<lparr>pg_file := f, pg_page_pool := pool, pg_db_page_count := n\<rparr>\<rparr>"
    using cs by (auto simp: copy_state_def)
  have pd: "pager_disk inv content (ws_pager w)" "pg_page_size (ws_pager w) = pg_page_size (ws_pager w0)"
    "unat (pg_db_page_count (ws_pager w0)) \<le> unat (pg_db_page_count (ws_pager w))"
    using cs w by (simp_all add: copy_state_def)
  have run: "s \<noteq> 0" "length buf mod ?ps = 0" "unat s + ?k \<le> 2 ^ 32" using cs by (simp_all add: copy_state_def run_ok_def)
  have ps: "0 < ?ps" using pd page_size_bounds(1) [of "pg_page_size (ws_pager w)"] by (simp add: pager_disk_def)
  have len: "length buf = ?k * ?ps" using run(2) by (metis add.right_neutral div_mult_mod_eq)
  then have k: "0 < ?k" using ne by (cases ?k) auto
  obtain g m where g: "write_pages_contiguous_no_cache ops s buf (ws_pager w) = Some (Inr (), (ws_pager w)\<lparr>pg_file := g, pg_db_page_count := m\<rparr>)"
    "pager_disk inv content ((ws_pager w)\<lparr>pg_file := g, pg_db_page_count := m\<rparr>)"
    "content g = file_patch (content (pg_file (ws_pager w))) ((unat s - 1) * ?ps) buf"
    using db.write_contig_ok [OF pd(1) run(1) _ k run(3), of buf] len pd(2) by auto
  let ?w = "w\<lparr>ws_pager := (ws_pager w)\<lparr>pg_file := g, pg_db_page_count := m\<rparr>\<rparr>"
  have "length (content (pg_file (ws_pager w))) \<le> length (content g)" using g(3) by simp
  then have "unat (pg_db_page_count (ws_pager w)) * ?ps \<le> unat m * ?ps" using pd(1,2) g(2) by (simp add: pager_disk_def)
  then have m: "unat (pg_db_page_count (ws_pager w)) \<le> unat m" using ps by simp
  have pages: "pager_page content (ws_pager ?w) q = (if q \<in> dn then E q else pager_page content (ws_pager w0) q)" if "q \<noteq> 0" for q
  proof -
    have "pager_page content (ws_pager ?w) q = (case run_page ?ps (Some s) buf q of Some b \<Rightarrow> b | None \<Rightarrow> pager_page content (ws_pager w) q)"
      using disk_page_patch_run [OF len run(1) that, of "content (pg_file (ws_pager w))"] g(3) pd(2)
      by (simp add: pager_page_def run_page_def)
    moreover have "case run_page ?ps (Some s) buf q of Some b \<Rightarrow> q \<in> dn \<and> b = E q
        | None \<Rightarrow> pager_page content (ws_pager w) q = (if q \<in> dn then E q else pager_page content (ws_pager w0) q)"
      using cs that by (simp add: copy_state_def)
    ultimately show ?thesis by (cases "run_page ?ps (Some s) buf q") simp_all
  qed
  have "copy_state inv content w0 E dn None [] ?w"
    unfolding copy_state_def
  proof (intro conjI)
    show "\<exists>f n pool. ?w = w0\<lparr>ws_pager := (ws_pager w0)\<lparr>pg_file := f, pg_page_pool := pool, pg_db_page_count := n\<rparr>\<rparr>"
      by (intro exI [of _ g] exI [of _ m] exI [of _ pool]) (simp add: w)
  qed (use g(2) m pd(3) pages in \<open>simp_all add: run_ok_def\<close>)
  then show ?thesis using g(1) by (simp add: with_pager_def)
qed

lemma version_yields_local:
  assumes "version_yields page_size fs D idx p v page" "D' p = D p"
  shows "version_yields page_size fs D' idx p v page"
  using assms replay_local [of D' p D, OF assms(2)] by (cases "wv_payload v") (simp_all add: version_yields_def)

lemma append_page_ok:
  assumes log: "wal_log winv wcontent fs w" and pg: "pager_disk inv content (ws_pager w)" "pg_page_size (ws_pager w) = si_page_size w"
    and y: "version_yields (si_page_size w) fs (pager_page content (ws_pager w)) (si_index w) p v page" and p: "p \<noteq> 0"
    and win: "window_ok (wcontent (si_file w)) ra"
  shows "\<exists>ra' pool. append_checkpoint_page wops ops (si_wal_end_lsn w) (unat (si_page_size w)) p v ra buf w =
      Some (Inr (ra', buf @ page), w\<lparr>ws_pager := (ws_pager w)\<lparr>pg_page_pool := pool\<rparr>\<rparr>) \<and>
    window_ok (wcontent (si_file w)) ra' \<and> length page = unat (si_page_size w)"
proof -
  let ?D = "pager_page content (ws_pager w)" and ?c = "wcontent (si_file w)"
  have same: "w\<lparr>ws_pager := (ws_pager w)\<lparr>pg_page_pool := pg_page_pool (ws_pager w)\<rparr>\<rparr> = w" by simp
  have log': "winv (si_file w)" "unat (si_wal_end_lsn w) = log_end (si_page_size w) fs" "is_supported_page_size (si_page_size w)"
    "log_end (si_page_size w) fs \<le> length ?c" "frames_at (take (log_end (si_page_size w) fs) ?c) 32 (si_page_size w) fs"
    "\<forall>fr \<in> set fs. frame_valid (si_page_size w) fr"
    using log by (auto simp: wal_log_def)
  have len: "length page = unat (si_page_size w)" using y by (simp add: version_yields_def)
  show ?thesis
  proof (cases "wv_payload v")
    case (Resident data off n enc)
    then have "data = page" using y by (simp add: version_yields_def)
    then show ?thesis using Resident len win same
      by (intro exI [of _ ra] exI [of _ "pg_page_pool (ws_pager w)"])
         (simp add: append_checkpoint_page_def append_checkpoint_version_to_def Let_def)
  next
    case (OnDisk off n enc)
    then obtain j where j: "version_at (si_page_size w) fs p v j" "page = replay (take (Suc j) fs) ?D p"
      using y by (auto simp: version_yields_def)
    show ?thesis
    proof (cases enc)
      case EncPage
      have jj: "j < length fs" "wf_page_id (fs ! j) = p" "wf_frame_type (fs ! j) = Page" "unat off = 32 + log_length (si_page_size w) (take j fs)"
        "unat n = frame_encoded_len (fs ! j) (si_page_size w)"
        using j(1) OnDisk EncPage by (simp_all add: version_at_def)
      have at: "frame_at (take (log_end (si_page_size w) fs) ?c) (unat off) (si_page_size w) (fs ! j)"
        using frames_at_nth [OF log'(5) jj(1)] jj(4) by simp
      have pay: "page = wf_payload (fs ! j)" using j(2) jj by (simp add: take_Suc_conv_app_nth apply_frame_def)
      have le: "unat off + unat n \<le> unat (si_wal_end_lsn w)" using at jj(5) log'(2,4) by (simp add: frame_at_def)
      have n: "unat n \<le> 262144"
        using jj(3,5) page_size_bounds(2) [OF log'(3)] by (simp add: frame_encoded_len_def FRAME_HEADER_SIZE_def FRAME_TRAILER_SIZE_def)
      obtain ra' where ra: "read_ahead_frame_bytes wops (si_file w) off n (si_wal_end_lsn w) ra =
          (Inr (bslice ?c (unat off) (unat off + unat n)), ra')" "window_ok ?c ra'"
        using wal.read_ahead_ok [OF log'(1) le _ n win] log'(2,4) by auto
      have "bslice (take (log_end (si_page_size w) fs) ?c) (unat off) (unat off + unat n) = bslice ?c (unat off) (unat off + unat n)"
        using le log'(2) by (intro bslice_take) simp
      with page_payload_at [OF at jj(3,2,5) log'(3)] pay
      have "page_payload_from_encoded_with_len (bslice ?c (unat off) (unat off + unat n)) p n (si_page_size w) = Inr page" by simp
      then show ?thesis using OnDisk EncPage ra len same
        by (intro exI [of _ ra'] exI [of _ "pg_page_pool (ws_pager w)"])
           (simp add: append_checkpoint_page_def append_checkpoint_version_to_def Let_def)
    next
      case EncPageDelta
      obtain pool where "materialize_version_locked wops ops p v w = Some (Inr page, w\<lparr>ws_pager := (ws_pager w)\<lparr>pg_page_pool := pool\<rparr>\<rparr>)"
        using materialize_ok [OF log pg y p] by blast
      then show ?thesis using OnDisk EncPageDelta len win
        by (intro exI [of _ ra] exI [of _ pool])
           (simp add: append_checkpoint_page_def append_checkpoint_version_to_def Let_def)
    qed
  qed
qed

lemma copy_append:
  assumes cs: "copy_state inv content w0 E dn (Some s) buf w" and log: "wal_log winv wcontent fs w0"
    and ps: "pg_page_size (ws_pager w0) = si_page_size w0"
    and y: "version_yields (si_page_size w0) fs (pager_page content (ws_pager w0)) (si_index w0) p v (E p)"
    and p: "p \<noteq> 0" "p \<notin> dn" "unat p = unat s + length buf div unat (si_page_size w0)"
    and win: "window_ok (wcontent (si_file w0)) ra"
  shows "\<exists>ra' w'. append_checkpoint_page wops ops (si_wal_end_lsn w0) (unat (si_page_size w0)) p v ra buf w = Some (Inr (ra', buf @ E p), w') \<and>
    window_ok (wcontent (si_file w0)) ra' \<and> copy_state inv content w0 E (insert p dn) (Some s) (buf @ E p) w' \<and>
    length (buf @ E p) div unat (si_page_size w0) = Suc (length buf div unat (si_page_size w0)) \<and> E p \<noteq> []"
proof -
  let ?ps = "unat (si_page_size w0)"
  obtain f n pool where w: "w = w0\<lparr>ws_pager := (ws_pager w0)\<lparr>pg_file := f, pg_page_pool := pool, pg_db_page_count := n\<rparr>\<rparr>"
    using cs by (auto simp: copy_state_def)
  have pd: "pager_disk inv content (ws_pager w)" and st: "\<And>q. q \<noteq> 0 \<Longrightarrow> case run_page ?ps (Some s) buf q of Some b \<Rightarrow> q \<in> dn \<and> b = E q
      | None \<Rightarrow> pager_page content (ws_pager w) q = (if q \<in> dn then E q else pager_page content (ws_pager w0) q)"
    and run: "s \<noteq> 0" "length buf mod ?ps = 0"
    using cs ps by (simp_all add: copy_state_def run_ok_def)
  have p0: "0 < ?ps" using log page_size_bounds(1) [of "si_page_size w0"] by (simp add: wal_log_def)
  have len: "length buf = length buf div ?ps * ?ps" using run(2) by (metis add.right_neutral div_mult_mod_eq)
  have "run_page ?ps (Some s) buf p = None" using p(3) by (simp add: run_page_def)
  then have dp: "pager_page content (ws_pager w) p = pager_page content (ws_pager w0) p" using st [OF p(1)] p(2) by simp
  have log': "wal_log winv wcontent fs w" using log by (simp add: wal_log_def w)
  have y': "version_yields (si_page_size w) fs (pager_page content (ws_pager w)) (si_index w) p v (E p)"
    using version_yields_local [where D' = "pager_page content (ws_pager w)", OF y dp] by (simp add: w)
  obtain ra' pool' where a: "append_checkpoint_page wops ops (si_wal_end_lsn w) (unat (si_page_size w)) p v ra buf w =
      Some (Inr (ra', buf @ E p), w\<lparr>ws_pager := (ws_pager w)\<lparr>pg_page_pool := pool'\<rparr>\<rparr>)"
    "window_ok (wcontent (si_file w)) ra'" "length (E p) = unat (si_page_size w)"
    using append_page_ok [OF log' pd _ y' p(1), of ra buf] win ps by (auto simp: w)
  have lE: "length (E p) = ?ps" using a(3) by (simp add: w)
  have k: "length (buf @ E p) div ?ps = Suc (length buf div ?ps)" using lE p0 by (simp add: div_add_self2)
  have rp: "run_page ?ps (Some s) (buf @ E p) q = (if q = p then Some (E p) else run_page ?ps (Some s) buf q)" for q
  proof (cases "q = p")
    case True
    have "bslice (buf @ E p) (length buf) (length buf + ?ps) = E p" using lE by (simp add: bslice_def)
    then show ?thesis using True k p(3) len by (simp add: run_page_def)
  next
    case False
    then have ne: "unat q \<noteq> unat p" using word_unat_eq_iff by blast
    show ?thesis
    proof (cases "unat s \<le> unat q \<and> unat q < unat s + length buf div ?ps")
      case True
      then have "Suc (unat q - unat s) * ?ps \<le> length buf div ?ps * ?ps" by (intro mult_le_mono1) linarith
      then have "(unat q - unat s) * ?ps + ?ps \<le> length buf" using len by simp
      then have "bslice (buf @ E p) ((unat q - unat s) * ?ps) ((unat q - unat s) * ?ps + ?ps) =
          bslice buf ((unat q - unat s) * ?ps) ((unat q - unat s) * ?ps + ?ps)" by (simp add: bslice_def)
      then show ?thesis using True False k by (simp add: run_page_def)
    qed (use False ne k p(3) in \<open>auto simp: run_page_def\<close>)
  qed
  let ?w = "w\<lparr>ws_pager := (ws_pager w)\<lparr>pg_page_pool := pool'\<rparr>\<rparr>"
  have "copy_state inv content w0 E (insert p dn) (Some s) (buf @ E p) ?w"
    unfolding copy_state_def
  proof (intro conjI allI impI)
    show "\<exists>f n pool. ?w = w0\<lparr>ws_pager := (ws_pager w0)\<lparr>pg_file := f, pg_page_pool := pool, pg_db_page_count := n\<rparr>\<rparr>"
      by (intro exI [of _ f] exI [of _ n] exI [of _ pool']) (simp add: w)
    show "pager_disk inv content (ws_pager ?w)" using pd by simp
    show "unat (pg_db_page_count (ws_pager w0)) \<le> unat (pg_db_page_count (ws_pager ?w))" using cs by (simp add: copy_state_def)
    have "length (buf @ E p) mod ?ps = 0" using run(2) lE by simp
    moreover have "unat s + length (buf @ E p) div ?ps \<le> 2 ^ 32" using k p(3) unsigned_less [of p, where ?'a = nat] by simp
    ultimately show "run_ok (unat (pg_page_size (ws_pager w0))) (Some s) (buf @ E p)" using run(1) ps by (simp add: run_ok_def)
  next
    fix q :: page_id assume "q \<noteq> 0"
    then show "case run_page (unat (pg_page_size (ws_pager w0))) (Some s) (buf @ E p) q of Some b \<Rightarrow> q \<in> insert p dn \<and> b = E q
        | None \<Rightarrow> pager_page content (ws_pager ?w) q = (if q \<in> insert p dn then E q else pager_page content (ws_pager w0) q)"
      using st [of q] rp [of q] ps by (auto split: option.splits)
  qed
  moreover have "E p \<noteq> []" using lE p0 by auto
  ultimately show ?thesis using a k by (intro exI [of _ ra'] exI [of _ ?w]) (simp add: w)
qed

lemma copyback_sequential_loop_ok:
  assumes log: "wal_log winv wcontent fs w0" and ps: "pg_page_size (ws_pager w0) = si_page_size w0"
  shows "copy_state inv content w0 E dn start buf w \<Longrightarrow>
    \<forall>(p, v) \<in> set vs. p \<noteq> 0 \<and> version_yields (si_page_size w0) fs (pager_page content (ws_pager w0)) (si_index w0) p v (E p) \<Longrightarrow>
    distinct (map fst vs) \<Longrightarrow> fst ` set vs \<inter> dn = {} \<Longrightarrow>
    \<forall>s. start = Some s \<longrightarrow> buf \<noteq> [] \<and> (\<forall>p. run_next = Some p \<longrightarrow> unat p = unat s + length buf div unat (si_page_size w0)) \<Longrightarrow>
    window_ok (wcontent (si_file w0)) ra \<Longrightarrow>
    \<exists>w'. copyback_sequential_loop wops ops (si_wal_end_lsn w0) (unat (si_page_size w0)) cap vs start run_next buf ra w = Some (Inr (), w') \<and>
      copy_state inv content w0 E (dn \<union> fst ` set vs) None [] w'"
proof (induction vs arbitrary: dn start run_next buf ra w)
  case Nil
  show ?case
  proof (cases start)
    case None
    then have "buf = []" using Nil.prems(1) by (simp add: copy_state_def run_ok_def)
    then show ?thesis using None Nil.prems(1) by (simp add: flush_copyback_run_def)
  next
    case (Some s)
    then show ?thesis using copy_flush [of w0 E dn s buf w] Nil.prems(1,5) by (auto simp: flush_copyback_run_def)
  qed
next
  case (Cons pv vs)
  obtain p v where pv: "pv = (p, v)" by fastforce
  have p: "p \<noteq> 0" "p \<notin> dn" "p \<notin> fst ` set vs"
    and y: "version_yields (si_page_size w0) fs (pager_page content (ws_pager w0)) (si_index w0) p v (E p)"
    using Cons.prems(2-4) by (auto simp: pv)
  let ?flush = "start \<noteq> None \<and> (run_next \<noteq> Some p \<or> \<not> length buf \<le> cap - unat (si_page_size w0))"
  let ?pre = "(if ?flush then pbind (flush_copyback_run ops start buf) (\<lambda>buf. pret (None, buf)) else pret (start, buf))"
  have "\<exists>start1 s1 buf1 w1. ?pre w = Some (Inr (start1, buf1), w1) \<and> s1 = (case start1 of None \<Rightarrow> p | Some s \<Rightarrow> s) \<and>
      copy_state inv content w0 E dn (Some s1) buf1 w1 \<and> unat p = unat s1 + length buf1 div unat (si_page_size w0)"
  proof (cases start)
    case None
    then have b: "buf = []" using Cons.prems(1) by (simp add: copy_state_def run_ok_def)
    then have "copy_state inv content w0 E dn (Some p) [] w" using copy_state_restart [OF _ p(1)] Cons.prems(1) by blast
    then show ?thesis using None b by simp
  next
    case (Some s)
    show ?thesis
    proof (cases ?flush)
      case True
      obtain w1 where w1: "with_pager (write_pages_contiguous_no_cache ops s buf) w = Some (Inr (), w1)"
        "copy_state inv content w0 E dn None [] w1"
        using copy_flush Cons.prems(1,5) Some by blast
      have "copy_state inv content w0 E dn (Some p) [] w1" by (rule copy_state_restart [OF w1(2) p(1)])
      moreover have "?pre w = Some (Inr (None, []), w1)" unfolding if_P [OF True] using w1(1) Some by (simp add: flush_copyback_run_def)
      ultimately show ?thesis by auto
    next
      case False
      then have "unat p = unat s + length buf div unat (si_page_size w0)" using Cons.prems(5) Some by auto
      moreover have "?pre w = Some (Inr (start, buf), w)" unfolding if_not_P [OF False] by simp
      ultimately show ?thesis using Some Cons.prems(1) by auto
    qed
  qed
  then obtain start1 s1 buf1 w1 where pre: "?pre w = Some (Inr (start1, buf1), w1)" "s1 = (case start1 of None \<Rightarrow> p | Some s \<Rightarrow> s)"
    "copy_state inv content w0 E dn (Some s1) buf1 w1" "unat p = unat s1 + length buf1 div unat (si_page_size w0)" by blast
  obtain ra' w2 where a: "append_checkpoint_page wops ops (si_wal_end_lsn w0) (unat (si_page_size w0)) p v ra buf1 w1 =
      Some (Inr (ra', buf1 @ E p), w2)" "window_ok (wcontent (si_file w0)) ra'"
    "copy_state inv content w0 E (insert p dn) (Some s1) (buf1 @ E p) w2"
    "length (buf1 @ E p) div unat (si_page_size w0) = Suc (length buf1 div unat (si_page_size w0))" "E p \<noteq> []"
    using copy_append [OF pre(3) log ps y p(1,2) pre(4) Cons.prems(6)] by blast
  have nx: "unat p' = unat s1 + length (buf1 @ E p) div unat (si_page_size w0)" if "u32_checked_add p 1 = Some p'" for p'
    using unat_checked_succ [OF that] a(4) pre(4) by simp
  obtain w' where "copyback_sequential_loop wops ops (si_wal_end_lsn w0) (unat (si_page_size w0)) cap vs (Some s1)
      (u32_checked_add p 1) (buf1 @ E p) ra' w2 = Some (Inr (), w')"
    "copy_state inv content w0 E (insert p dn \<union> fst ` set vs) None [] w'"
    using Cons.IH [OF a(3) _ _ _ _ a(2), of "u32_checked_add p 1"] Cons.prems(2-4) p(3) a(5) nx by (auto simp: pv)
  moreover have "(case start1 of None \<Rightarrow> Some p | Some s \<Rightarrow> Some s) = Some s1" using pre(2) by (simp split: option.split)
  ultimately show ?case using pre(1) a(1) by (simp add: pv Let_def pbind_def)
qed

lemma produce_copyback_batches_ok:
  assumes log: "wal_log winv wcontent fs w0" and ps: "pg_page_size (ws_pager w0) = si_page_size w0"
  shows "copy_state inv content w0 E dn (Some s) buf w \<Longrightarrow>
    \<forall>(p, v) \<in> set vs. p \<noteq> 0 \<and> version_yields (si_page_size w0) fs (pager_page content (ws_pager w0)) (si_index w0) p v (E p) \<Longrightarrow>
    distinct (map fst vs) \<Longrightarrow> fst ` set vs \<inter> dn = {} \<Longrightarrow> is_one_contiguous_run vs \<Longrightarrow>
    vs \<noteq> [] \<longrightarrow> unat (fst (hd vs)) = unat s + length buf div unat (si_page_size w0) \<Longrightarrow>
    outstanding = None \<or> outstanding = Some (Inr ()) \<Longrightarrow> window_ok (wcontent (si_file w0)) ra \<Longrightarrow>
    \<exists>w'. produce_copyback_batches_loop wops ops (si_wal_end_lsn w0) (unat (si_page_size w0)) cap vs buf (Some s) outstanding ra w =
        Some (Inr (), w') \<and>
      copy_state inv content w0 E (dn \<union> fst ` set vs) None [] w'"
proof (induction vs arbitrary: dn s buf outstanding ra w)
  case Nil
  show ?case
  proof (cases "buf = []")
    case True
    then have "copy_state inv content w0 E dn None [] w" using Nil.prems(1) by (auto simp: copy_state_def run_ok_def)
    then show ?thesis using True Nil.prems(7) by auto
  next
    case False
    obtain w1 where "with_pager (write_pages_contiguous_no_cache ops s buf) w = Some (Inr (), w1)"
      "copy_state inv content w0 E dn None [] w1" using copy_flush [OF Nil.prems(1) False] by blast
    then show ?thesis using False Nil.prems(7) by (auto simp: dispatch_copyback_batch_def ok_or_def)
  qed
next
  case (Cons pv vs)
  obtain p v where pv: "pv = (p, v)" by fastforce
  have p: "p \<noteq> 0" "p \<notin> dn" "p \<notin> fst ` set vs" "unat p = unat s + length buf div unat (si_page_size w0)"
    and y: "version_yields (si_page_size w0) fs (pager_page content (ws_pager w0)) (si_index w0) p v (E p)"
    using Cons.prems(2-4,6) by (auto simp: pv)
  let ?full = "length buf > cap - unat (si_page_size w0)"
  let ?pre = "(if ?full then pbind (dispatch_copyback_batch ops buf (Some s) outstanding) (\<lambda>outstanding. pret ([], Some p, outstanding))
    else pret (buf, Some s, outstanding))"
  have "\<exists>s1 buf1 o1 w1. ?pre w = Some (Inr (buf1, Some s1, o1), w1) \<and> (o1 = None \<or> o1 = Some (Inr ())) \<and>
      copy_state inv content w0 E dn (Some s1) buf1 w1 \<and> unat p = unat s1 + length buf1 div unat (si_page_size w0)"
  proof (cases ?full)
    case True
    then have "buf \<noteq> []" by auto
    then obtain w1 where w1: "with_pager (write_pages_contiguous_no_cache ops s buf) w = Some (Inr (), w1)"
      "copy_state inv content w0 E dn None [] w1" using copy_flush [OF Cons.prems(1)] by blast
    have "?pre w = Some (Inr ([], Some p, Some (Inr ())), w1)"
      unfolding if_P [OF True] using w1(1) Cons.prems(7) by (auto simp: dispatch_copyback_batch_def ok_or_def)
    then show ?thesis using copy_state_restart [OF w1(2) p(1)] by auto
  next
    case False
    have "?pre w = Some (Inr (buf, Some s, outstanding), w)" unfolding if_not_P [OF False] by simp
    then show ?thesis using Cons.prems(1,7) p(4) by auto
  qed
  then obtain s1 buf1 o1 w1 where pre: "?pre w = Some (Inr (buf1, Some s1, o1), w1)" "o1 = None \<or> o1 = Some (Inr ())"
    "copy_state inv content w0 E dn (Some s1) buf1 w1" "unat p = unat s1 + length buf1 div unat (si_page_size w0)" by blast
  obtain ra' w2 where a: "append_checkpoint_page wops ops (si_wal_end_lsn w0) (unat (si_page_size w0)) p v ra buf1 w1 =
      Some (Inr (ra', buf1 @ E p), w2)" "window_ok (wcontent (si_file w0)) ra'"
    "copy_state inv content w0 E (insert p dn) (Some s1) (buf1 @ E p) w2"
    "length (buf1 @ E p) div unat (si_page_size w0) = Suc (length buf1 div unat (si_page_size w0))"
    using copy_append [OF pre(3) log ps y p(1,2) pre(4) Cons.prems(8)] by blast
  have run: "is_one_contiguous_run vs" and "vs \<noteq> [] \<longrightarrow> u32_checked_add p 1 = Some (fst (hd vs))"
    using Cons.prems(5) by (cases vs; simp add: pv)+
  then have nx: "vs \<noteq> [] \<longrightarrow> unat (fst (hd vs)) = unat s1 + length (buf1 @ E p) div unat (si_page_size w0)"
    using a(4) pre(4) unat_checked_succ by fastforce
  obtain w' where "produce_copyback_batches_loop wops ops (si_wal_end_lsn w0) (unat (si_page_size w0)) cap vs (buf1 @ E p) (Some s1)
      o1 ra' w2 = Some (Inr (), w')" "copy_state inv content w0 E (insert p dn \<union> fst ` set vs) None [] w'"
    using Cons.IH [OF a(3) _ _ _ run nx pre(2) a(2)] Cons.prems(2-4) p(3) by (auto simp: pv)
  then show ?case using pre(1) a(1) by (simp add: pv pbind_def)
qed

lemma copyback_ok:
  assumes log: "wal_log winv wcontent fs w" and pg: "pager_disk inv content (ws_pager w)" "pg_page_size (ws_pager w) = si_page_size w"
    and vs: "\<forall>(p, v) \<in> set vs. p \<noteq> 0 \<and> version_yields (si_page_size w) fs (pager_page content (ws_pager w)) (si_index w) p v (E p)"
      "distinct (map fst vs)"
  shows "\<exists>w'. copyback_latest_versions spawn_ok wops ops (si_wal_end_lsn w) (unat (si_page_size w)) vs w = Some (Inr (), w') \<and>
    copy_state inv content w E (fst ` set vs) None [] w'"
proof -
  let ?ps = "unat (si_page_size w)"
  let ?cap = "max (COPYBACK_BATCH_BYTES div ?ps) 1 * ?ps"
  have start: "copy_state inv content w E {} None [] w"
    using pg by (auto simp: copy_state_def run_ok_def intro!: exI [of _ "pg_file (ws_pager w)"] exI [of _ "pg_db_page_count (ws_pager w)"]
        exI [of _ "pg_page_pool (ws_pager w)"])
  have win: "window_ok c read_ahead_default" for c by (simp add: window_ok_def read_ahead_default_def)
  have sq: "\<exists>w'. copyback_sequential wops ops (si_wal_end_lsn w) ?ps ?cap vs w = Some (Inr (), w') \<and>
      copy_state inv content w E (fst ` set vs) None [] w'"
    using copyback_sequential_loop_ok [OF log pg(2) start vs _ _ win] by (simp add: copyback_sequential_def)
  have pl: "\<exists>w'. produce_copyback_batches wops ops (si_wal_end_lsn w) ?ps ?cap vs w = Some (Inr (), w') \<and>
      copy_state inv content w E (fst ` set vs) None [] w'" if "is_one_contiguous_run vs" "vs \<noteq> []"
  proof -
    obtain p v vs' where e: "vs = (p, v) # vs'" using \<open>vs \<noteq> []\<close> by (cases vs) auto
    have "copy_state inv content w E {} (Some p) [] w" using copy_state_restart [OF start] vs(1) e by auto
    then show ?thesis
      using produce_copyback_batches_ok [OF log pg(2) _ vs _ that(1) _ _ win, of "{}" p "[]" w None ?cap] e
      by (simp add: produce_copyback_batches_def)
  qed
  show ?thesis using sq pl
    by (cases "vs = []"; cases spawn_ok)
       (simp_all add: copyback_latest_versions_def copyback_contiguous_pipelined_def Let_def)
qed

end

section \<open>The header page\<close>

text \<open>Page 1 as the pager writes it, with an empty freelist.\<close>

definition header_image :: "crc_cpu \<Rightarrow> u32 \<Rightarrow> DatabaseHeader \<Rightarrow> bytes" where
  "header_image cpu page_size h = header_encode cpu h @ replicate (unat page_size - 128) 0"

definition plain_header :: "u32 \<Rightarrow> DatabaseHeader \<Rightarrow> bool" where
  "plain_header page_size h \<longleftrightarrow> header_wf h \<and> h_page_size h = page_size \<and>
     (fl_head_page_id (h_freelist h) = 0 \<or> fl_page_count (h_freelist h) = 0)"

text \<open>The header after a checkpoint at \<open>lsn\<close>.\<close>

definition stamped :: "crc_cpu \<Rightarrow> u64 \<Rightarrow> DatabaseHeader \<Rightarrow> DatabaseHeader" where
  "stamped cpu lsn h = h\<lparr>h_header_checksum := compute_checksum cpu h, h_last_checkpoint_lsn := lsn\<rparr>"

lemma stamped_plain: "plain_header page_size h \<Longrightarrow> plain_header page_size (stamped cpu lsn h)"
  by (auto simp: plain_header_def stamped_def header_wf_def)

lemma length_encode: "header_wf h \<Longrightarrow> length (header_encode cpu h) = 128"
  by (simp add: header_encode_fields length_header_fields)

context vfs_file
begin

lemma header_on_disk:
  assumes "pager_disk inv content pg" "0 < unat (pg_db_page_count pg)" "header_wf h"
    and "pager_page content pg 1 = header_image cpu (pg_page_size pg) h"
  shows "header_from_disk cpu ops pg = Inr (h\<lparr>h_header_checksum := compute_checksum cpu h\<rparr>)"
proof -
  let ?c = "content (pg_file pg)" and ?ps = "unat (pg_page_size pg)"
  have d: "inv (pg_file pg)" "length ?c = unat (pg_db_page_count pg) * ?ps" "4096 \<le> ?ps"
    using assms(1) page_size_bounds(1) by (auto simp: pager_disk_def)
  have "1 * 4096 \<le> length ?c" unfolding d(2) using assms(2) d(3) by (intro mult_le_mono) simp_all
  then have l: "4096 \<le> length ?c" by simp
  have "take 128 ?c = take 128 (pager_page content pg 1)"
    using l d(3) by (intro nth_equalityI) (simp_all add: pager_page_def disk_page_def pget_def)
  also have "\<dots> = header_encode cpu h" using assms(4) length_encode [OF assms(3)] by (simp add: header_image_def)
  finally show ?thesis
    using l d(1) header_decode_encode [OF assms(3)] by (simp add: header_from_disk_def DB_HEADER_SIZE_def read_exact_ok)
qed

lemma stamp_header_ok:
  assumes "pager_disk inv content pg" "0 < unat (pg_db_page_count pg)" "cache_view (pg_cache pg) = Map.empty"
    and "header_wf h" "pager_page content pg 1 = header_image cpu (pg_page_size pg) h0" "header_wf h0"
    and "pg_header pg = h\<lparr>h_last_checkpoint_lsn := l0\<rparr>" "h2 = h\<lparr>h_last_checkpoint_lsn := lsn\<rparr>"
  shows "\<exists>f c. set_last_checkpoint_lsn cpu ops lsn pg = Some (Inr (), pg\<lparr>pg_file := f, pg_cache := c, pg_header := h2\<rparr>) \<and>
    pager_ok inv content (pg\<lparr>pg_file := f, pg_cache := c, pg_header := h2\<rparr>) \<and>
    (\<forall>q. q \<noteq> 0 \<longrightarrow> pager_page content (pg\<lparr>pg_file := f, pg_cache := c, pg_header := h2\<rparr>) q =
       (if q = 1 then header_image cpu (pg_page_size pg) h2 else pager_page content pg q))"
proof -
  let ?ps = "unat (pg_page_size pg)" and ?pg = "pg\<lparr>pg_header := h2\<rparr>"
  have ps: "4096 \<le> ?ps" using assms(1) page_size_bounds(1) by (auto simp: pager_disk_def)
  have wf: "header_wf h2" using assms(4,8) by (simp add: header_wf_def)
  have d: "pager_disk inv content ?pg" "0 < unat (pg_db_page_count ?pg)" using assms(1,2) by (simp_all add: pager_disk_def)
  obtain f c where f: "persist_header cpu ops h2 ?pg = Some (Inr (), ?pg\<lparr>pg_file := f, pg_cache := c\<rparr>)"
    "pager_disk inv content (?pg\<lparr>pg_file := f, pg_cache := c\<rparr>)"
    "content f = file_patch (content (pg_file pg)) 0 (header_encode cpu h2)"
    "cache_view c \<subseteq>\<^sub>m [HEADER_PAGE_ID \<mapsto> header_page cpu h2 ?pg]"
    using persist_header_ok [OF d(1) wf d(2), of cpu] assms(3) by auto
  let ?q = "pg\<lparr>pg_file := f, pg_cache := c, pg_header := h2\<rparr>"
  have same: "?pg\<lparr>pg_file := f, pg_cache := c\<rparr> = ?q" by simp
  have len: "length (header_encode cpu h2) = 128" using length_encode [OF wf] .
  have pages: "pager_page content ?q q = (if q = 1 then header_image cpu (pg_page_size pg) h2 else pager_page content pg q)"
    if "q \<noteq> 0" for q
  proof (cases "q = 1")
    case True
    have "pager_page content ?q 1 ! j = header_image cpu (pg_page_size pg) h2 ! j" if j: "j < ?ps" for j
    proof (cases "j < 128")
      case True
      then show ?thesis using j len f(3) by (simp add: pager_page_def disk_page_def pget_file_patch header_image_def nth_append)
    next
      case False
      have "pager_page content pg 1 ! j = 0"
        using False j length_encode [OF assms(6)] by (simp add: assms(5) header_image_def nth_append)
      then show ?thesis using False j len f(3)
        by (simp add: pager_page_def disk_page_def pget_file_patch header_image_def nth_append)
    qed
    moreover have "length (header_image cpu (pg_page_size pg) h2) = ?ps" using len ps by (simp add: header_image_def)
    ultimately show ?thesis using True by (auto intro!: nth_equalityI simp: pager_page_def)
  next
    case False
    have "unat q \<noteq> 0" "unat q \<noteq> 1" using that False word_unat_eq_iff [of q 0] word_unat_eq_iff [of q 1] by simp_all
    then have "1 * ?ps \<le> (unat q - 1) * ?ps" by (intro mult_le_mono1) linarith
    then have "128 \<le> (unat q - 1) * ?ps" using ps by linarith
    then have "pget (content f) ((unat q - 1) * ?ps + j) = pget (content (pg_file pg)) ((unat q - 1) * ?ps + j)" for j
      using f(3) len by (simp add: pget_file_patch)
    then show ?thesis using False by (simp add: pager_page_def disk_page_def)
  qed
  have "header_page cpu h2 ?pg = header_image cpu (pg_page_size pg) h2"
    using len ps by (simp add: header_page_def header_image_def copy_at_def zeroed_page_def)
  then have "cache_view c \<subseteq>\<^sub>m (\<lambda>p. Some (pager_page content ?q p))"
    using f(4) pages [of 1] by (auto simp: map_le_def HEADER_PAGE_ID_def split: if_splits)
  then have "pager_ok inv content ?q" using f(2) same by (simp add: pager_ok_def)
  moreover have "set_last_checkpoint_lsn cpu ops lsn pg = Some (Inr (), ?q)"
    using f(1) assms(7,8) by (simp add: set_last_checkpoint_lsn_def Let_def)
  ultimately show ?thesis using pages by blast
qed

end

section \<open>The checkpoint\<close>

context wal_world
begin

lemma latest_versions_ok:
  assumes ok: "wal_ok winv wcontent inv content n gs fs w" and ho: "\<And>ks. mset (hash_order ks) = mset ks"
  shows "\<exists>vs. collect_latest_versions xops hash_order (si_wal_end_lsn w) w = Inr vs \<and> distinct (map fst vs) \<and>
    (\<forall>(p, v) \<in> set vs. p \<noteq> 0 \<and> version_yields (si_page_size w) fs (pager_page content (ws_pager w)) (si_index w) p v
       (replay fs (pager_page content (ws_pager w)) p)) \<and>
    (\<forall>p. p \<notin> fst ` set vs \<longrightarrow> replay fs (pager_page content (ws_pager w)) p = pager_page content (ws_pager w) p)"
proof -
  let ?D = "pager_page content (ws_pager w)" and ?e = "si_wal_end_lsn w"
  let ?l = "populate_latest_versions_at_or_before hash_order ?e (si_index w)"
  let ?vs = "sort_key fst ?l"
  have c: "collect_latest_versions xops hash_order ?e w = Inr ?vs"
    using ok by (simp add: collect_latest_versions_def Let_def wal_ok_def)
  have "distinct (map fst ?vs)"
    using populate_latest(1) [OF ho, of ?e "si_index w"] by (simp add: distinct_map distinct_sort)
  moreover have log: "unat ?e = log_end (si_page_size w) fs" "\<forall>fr \<in> set fs. frame_valid (si_page_size w) fr"
    and sh: "snapshot_holds (si_page_size w) fs ?D (si_index w) ?e"
    using ok by (auto simp: wal_ok_def wal_log_def held_snapshots_def)
  note pe = pages_at_end [OF log(1), of ?D]
  have "p \<noteq> 0 \<and> version_yields (si_page_size w) fs ?D (si_index w) p v (replay fs ?D p)" if "(p, v) \<in> set ?vs" for p v
  proof -
    have "latest_visible (si_index w) p ?e = Some v" using that populate_latest(2) [OF ho] by simp
    then have y: "version_yields (si_page_size w) fs ?D (si_index w) p v (replay fs ?D p)"
      using sh [unfolded snapshot_holds_def, THEN conjunct2, rule_format, of p] pe by simp
    then show ?thesis by (simp add: version_yields_def)
  qed
  moreover have "replay fs ?D p = ?D p" if "p \<notin> fst ` set ?vs" for p
  proof -
    have "latest_visible (si_index w) p ?e = None"
    proof (cases "latest_visible (si_index w) p ?e")
      case (Some v)
      then have "(p, v) \<in> set ?vs" using populate_latest(2) [OF ho] by simp
      then show ?thesis using that by force
    qed simp
    then show ?thesis using sh [unfolded snapshot_holds_def, THEN conjunct2, rule_format, of p] pe by simp
  qed
  ultimately show ?thesis using c by blast
qed

lemma checkpoint_database_ok:
  assumes ok: "wal_ok winv wcontent inv content n gs fs w" and ho: "\<And>ks. mset (hash_order ks) = mset ks"
    and cnt: "0 < unat (pg_db_page_count (ws_pager w))"
    and hd: "replay fs (pager_page content (ws_pager w)) 1 = header_image cpu (si_page_size w) h" "plain_header (si_page_size w) h"
    and vs: "collect_latest_versions xops hash_order (si_wal_end_lsn w) w = Inr vs"
  shows "\<exists>pg k. checkpoint_database cpu spawn_ok wops ops (si_wal_end_lsn w) vs w = Some (Inr (), w\<lparr>si_max_page_count := k, ws_pager := pg\<rparr>) \<and>
    pager_ok inv content pg \<and> pg_page_size pg = pg_page_size (ws_pager w) \<and> 0 < unat (pg_db_page_count pg) \<and>
    (\<forall>q. q \<noteq> 0 \<longrightarrow> pager_page content pg q =
       (if q = 1 then header_image cpu (si_page_size w) (stamped cpu (si_wal_end_lsn w) h)
        else replay fs (pager_page content (ws_pager w)) q))"
proof -
  let ?D = "pager_page content (ws_pager w)" and ?h = "h\<lparr>h_header_checksum := compute_checksum cpu h\<rparr>"
  let ?E = "replay fs ?D" and ?h2 = "stamped cpu (si_wal_end_lsn w) h"
  have log: "wal_log winv wcontent fs w" and pg: "pager_disk inv content (ws_pager w)" "pg_page_size (ws_pager w) = si_page_size w"
    using ok by (simp_all add: wal_ok_def pager_ok_def)
  have v: "\<forall>(p, v) \<in> set vs. p \<noteq> 0 \<and> version_yields (si_page_size w) fs ?D (si_index w) p v (?E p)" "distinct (map fst vs)"
    "\<And>p. p \<notin> fst ` set vs \<Longrightarrow> ?E p = ?D p"
    using latest_versions_ok [OF ok ho, of xops] vs by auto
  obtain w1 where w1: "copyback_latest_versions spawn_ok wops ops (si_wal_end_lsn w) (unat (si_page_size w)) vs w = Some (Inr (), w1)"
    "copy_state inv content w ?E (fst ` set vs) None [] w1"
    using copyback_ok [OF log pg v(1,2)] by blast
  obtain f m pool where w1e: "w1 = w\<lparr>ws_pager := (ws_pager w)\<lparr>pg_file := f, pg_page_pool := pool, pg_db_page_count := m\<rparr>\<rparr>"
    using w1(2) by (auto simp: copy_state_def)
  define pg1 where "pg1 = ws_pager w1"
  have d1: "pager_disk inv content pg1" "0 < unat (pg_db_page_count pg1)" "pg_page_size pg1 = si_page_size w"
    and p1: "\<And>q. q \<noteq> 0 \<Longrightarrow> pager_page content pg1 q = ?E q"
    using w1(2) cnt v(3) pg(2) by (auto simp: copy_state_def run_page_def pg1_def w1e)
  define pg2 where "pg2 = pg1\<lparr>pg_cache := cache_clear (pg_cache pg1)\<rparr>"
  have "0 < pc_capacity_pages (pg_cache pg1)" using d1(1) by (simp add: pager_disk_def cache_idle_def cache_ok_def)
  then have d2: "pager_disk inv content pg2" "pager_page content pg2 = pager_page content pg1" "cache_view (pg_cache pg2) = Map.empty"
    using d1(1) by (simp_all add: pg2_def pager_disk_def pager_page_def)
  have hd1: "pager_page content pg2 1 = header_image cpu (pg_page_size pg2) h" using d2(2) p1 [of 1] hd(1) d1(3) by (simp add: pg2_def)
  have wf: "header_wf h" "header_wf ?h" using hd(2) by (auto simp: plain_header_def header_wf_def)
  have hfd: "header_from_disk cpu ops pg2 = Inr ?h"
    using db.header_on_disk [OF d2(1) _ wf(1) hd1] d1(2) by (simp add: pg2_def)
  define pg3 where "pg3 = pg2\<lparr>pg_header := ?h\<rparr>"
  have rf: "refresh_header_from_disk_after_local_checkpoint cpu ops pg2 = (Inr (), pg3)"
    using hfd hd(2) d1(3) by (simp add: refresh_header_from_disk_after_local_checkpoint_def pg3_def plain_header_def pg2_def)
  have tr: "truncate_freelist_tail cpu ops pg3 = Some (Inr None, pg3)"
    using hd(2) by (auto simp: truncate_freelist_tail_def header_snapshot_def pg3_def plain_header_def Let_def)
  have pp3: "pager_page content pg3 = pager_page content pg1" using d2(2) by (simp add: pg3_def pager_page_def)
  have sz: "pg_page_size pg3 = si_page_size w" "pg_page_size pg2 = si_page_size w" "pg_db_page_count pg3 = pg_db_page_count pg1"
    using d1(3) by (simp_all add: pg3_def pg2_def)
  have d3: "pager_disk inv content pg3" "0 < unat (pg_db_page_count pg3)" "cache_view (pg_cache pg3) = Map.empty"
    "pager_page content pg3 1 = header_image cpu (pg_page_size pg3) h" "pg_header pg3 = ?h\<lparr>h_last_checkpoint_lsn := h_last_checkpoint_lsn h\<rparr>"
    using d1(2) hd1 d2 sz pp3 by (auto simp: pg3_def pager_disk_def)
  obtain g c where st: "set_last_checkpoint_lsn cpu ops (si_wal_end_lsn w) pg3 = Some (Inr (), pg3\<lparr>pg_file := g, pg_cache := c, pg_header := ?h2\<rparr>)"
    "pager_ok inv content (pg3\<lparr>pg_file := g, pg_cache := c, pg_header := ?h2\<rparr>)"
    "\<And>q. q \<noteq> 0 \<Longrightarrow> pager_page content (pg3\<lparr>pg_file := g, pg_cache := c, pg_header := ?h2\<rparr>) q =
       (if q = 1 then header_image cpu (pg_page_size pg3) ?h2 else pager_page content pg3 q)"
    using db.stamp_header_ok [OF d3(1-3) wf(2) d3(4) wf(1) d3(5), of ?h2 "si_wal_end_lsn w"] by (auto simp: stamped_def)
  have "inv g" using st(2) by (simp add: pager_ok_def pager_disk_def)
  then obtain g' where g': "vf_sync_data ops g = (Inr (), g')" "inv g'" "content g' = content g" using db.file_sync by blast
  define pg4 where "pg4 = pg3\<lparr>pg_file := g', pg_cache := c, pg_header := ?h2\<rparr>"
  have pp4: "pager_page content pg4 = pager_page content (pg3\<lparr>pg_file := g, pg_cache := c, pg_header := ?h2\<rparr>)"
    using g'(3) by (simp add: pg4_def pager_page_def)
  have ok4: "pager_ok inv content pg4"
    using st(2) g'(2,3) unfolding pager_ok_def pp4 by (simp add: pg4_def pager_disk_def)
  have e2: "(ws_pager w)\<lparr>pg_file := f, pg_page_pool := pool, pg_db_page_count := m, pg_cache := cache_clear (pg_cache (ws_pager w))\<rparr> = pg2"
    by (simp add: pg2_def pg1_def w1e)
  have "0 < unat (si_page_size w)" using page_size_bounds(1) [of "si_page_size w"] log by (simp add: wal_log_def)
  then have "checkpoint_database cpu spawn_ok wops ops (si_wal_end_lsn w) vs w =
      Some (Inr (), w\<lparr>si_max_page_count := pg_db_page_count pg3, ws_pager := pg4\<rparr>)"
    using w1(1) rf tr st(1) g'(1) pg(2)
    by (simp add: checkpoint_database_def with_pager_def pager_upd_def invalidate_cache_after_local_checkpoint_def pstep_def
        wal_upd_def reset_max_page_count_def cached_page_count_def pager_sync_data_def with_file_def w1e e2 pg4_def)
  moreover have "pg_page_size pg4 = pg_page_size (ws_pager w)" "0 < unat (pg_db_page_count pg4)"
    using sz d3(2) pg(2) by (simp_all add: pg4_def)
  moreover have "pager_page content pg4 q = (if q = 1 then header_image cpu (si_page_size w) ?h2 else ?E q)" if "q \<noteq> 0" for q
    using st(3) [OF that] p1 [OF that] pp3 pp4 sz(1) by simp
  ultimately show ?thesis using ok4 by blast
qed

lemma wal_ok_retarget:
  assumes "wal_ok winv wcontent inv content n gs fs w" "winv f" "wcontent f = wcontent (si_file w)"
  shows "wal_ok winv wcontent inv content n gs fs
    (w\<lparr>si_file := f, si_checkpoint_tail_sync_needed := b, si_checkpoint_tail_locally_synced := c, si_async_commit := a\<rparr>)"
  using assms by (intro wal_ok_same [OF assms(1)]) (simp_all add: wal_ok_def retained_snapshot_lsn_def)

lemma flush_to_durable_ok:
  assumes "winv (si_file w)"
  shows "\<exists>f a b c. flush_to_durable wops w = Some (Inr (),
      w\<lparr>si_file := f, si_checkpoint_tail_sync_needed := b, si_checkpoint_tail_locally_synced := c, si_async_commit := a\<rparr>) \<and>
    winv f \<and> wcontent f = wcontent (si_file w)"
proof (cases "si_async_commit w")
  case None
  then show ?thesis using assms
    by (intro exI [of _ "si_file w"] exI [of _ "si_async_commit w"] exI [of _ "si_checkpoint_tail_sync_needed w"]
        exI [of _ "si_checkpoint_tail_locally_synced w"]) (simp add: flush_to_durable_def)
next
  case (Some st)
  obtain fl st' f where fl: "async_flush_to_durable wops (st, si_file w) = Some (Inr fl, st', f)" "winv f" "wcontent f = wcontent (si_file w)"
    using wal.flush_returns [OF assms, of st] by blast
  let ?d = "fl \<and> durable_lsn st' \<ge> si_wal_end_lsn w"
  show ?thesis
    by (rule exI [of _ f], rule exI [of _ "Some st'"], rule exI [of _ "if ?d then False else si_checkpoint_tail_sync_needed w"],
        rule exI [of _ "if ?d then True else si_checkpoint_tail_locally_synced w"])
       (use Some fl in \<open>auto simp: flush_to_durable_def Let_def latest_snapshot_def\<close>)
qed

lemma tail_barrier_ok:
  assumes "winv (si_file w)"
  shows "\<exists>f a b c. checkpoint_tail_barrier wops w = Some (Inr (),
      w\<lparr>si_file := f, si_checkpoint_tail_sync_needed := b, si_checkpoint_tail_locally_synced := c, si_async_commit := a\<rparr>) \<and>
    winv f \<and> wcontent f = wcontent (si_file w)"
proof -
  obtain f where f: "vf_sync_data wops (si_file w) = (Inr (), f)" "winv f" "wcontent f = wcontent (si_file w)"
    using wal.file_sync [OF assms] by blast
  show ?thesis
  proof (cases "si_checkpoint_tail_sync_needed w")
    case False
    then show ?thesis using assms
      by (intro exI [of _ "si_file w"] exI [of _ "si_async_commit w"] exI [of _ "si_checkpoint_tail_sync_needed w"]
          exI [of _ "si_checkpoint_tail_locally_synced w"]) (simp add: checkpoint_tail_barrier_def)
  next
    case True
    show ?thesis
    proof (cases "si_wal_end_lsn w = 0")
      case z: True
      show ?thesis
        by (rule exI [of _ "si_file w"], rule exI [of _ "si_async_commit w"], rule exI [of _ False], rule exI [of _ True])
           (use True z assms in \<open>simp add: checkpoint_tail_barrier_def sync_checkpoint_tail_def latest_snapshot_def\<close>)
    next
      case z: False
      show ?thesis
        by (rule exI [of _ f], rule exI [of _ "si_async_commit w"], rule exI [of _ False], rule exI [of _ True])
           (use True z f in \<open>auto simp: checkpoint_tail_barrier_def sync_checkpoint_tail_def latest_snapshot_def sync_durably_def
             with_wal_file_def sync_for_checkpoint_tail_def split: option.split\<close>)
    qed
  qed
qed

lemma truncate_ok:
  assumes "winv (si_file w)" "32 \<le> length (wcontent (si_file w))"
  shows "\<exists>f a. truncate_to_header_before_sync wops w = Some (Inr \<lparr>tr_post_logical_error = None, tr_final_sync_succeeded = False\<rparr>,
      w\<lparr>si_async_commit := a, si_wal_end_lsn := 0, si_checkpoint_tail_sync_needed := False, si_checkpoint_tail_locally_synced := True,
        si_file := f, si_allocated_len := WAL_HEADER_SIZE\<rparr>) \<and>
    winv f \<and> wcontent f = wal_header_encode \<lparr>wh_page_size = si_page_size w, wh_wal_end_offset = 0\<rparr>"
proof -
  let ?h = "wal_header_encode \<lparr>wh_page_size = si_page_size w, wh_wal_end_offset = 0\<rparr>"
  have ne: "?h \<noteq> []" by (metis length_wal_header_encode list.size(3) zero_neq_numeral)
  obtain f where f: "write_all_at wops 0 ?h (si_file w) = (Inr (), f)" "winv f" "wcontent f = file_patch (wcontent (si_file w)) 0 ?h"
    using wal.write_all_ok [OF assms(1), of 0 ?h] ne by auto
  obtain g where g: "vf_set_len wops WAL_HEADER_SIZE f = (Inr (), g)" "winv g" "wcontent g = vec_resize (wcontent f) 32"
    using wal.file_set_len [OF f(2), of WAL_HEADER_SIZE] by (auto simp: WAL_HEADER_SIZE_def)
  have "wcontent g = ?h" using g(3) f(3) assms(2) by (simp add: vec_resize_def file_patch_def)
  then show ?thesis using f(1) g(1,2)
    by (intro exI [of _ g] exI [of _ "map_option (rebase_clean_lsn 0) (si_async_commit w)"])
       (simp add: truncate_to_header_before_sync_def wal_upd_def with_wal_file_def persist_wal_header_def)
qed

lemma finish_ok:
  assumes "winv (si_file w)" "si_index_sidecar w = None"
  shows "\<exists>f. finish_checkpoint wops xops \<lparr>tr_post_logical_error = None, tr_final_sync_succeeded = False\<rparr> w =
      Some (Inr (), w\<lparr>si_index := index_clear (si_index w), si_checkpoint_epoch := si_checkpoint_epoch w + 1,
        si_pages_since_checkpoint := 0, si_file := f\<rparr>) \<and>
    winv f \<and> wcontent f = wcontent (si_file w)"
  using wal.file_sync [OF assms(1)] assms(2)
  by (auto simp: finish_checkpoint_def clear_sidecar_def sync_truncated_wal_def with_wal_file_def finish_truncate_to_header_def)

lemma wal_ok_empty:
  assumes "winv (si_file w)" "wcontent (si_file w) = wal_header_encode \<lparr>wh_page_size = si_page_size w, wh_wal_end_offset = 0\<rparr>"
    and "is_supported_page_size (si_page_size w)" "si_allocated_len w = WAL_HEADER_SIZE" "si_wal_end_lsn w = 0"
    and "pager_ok inv content (ws_pager w)" "pg_page_size (ws_pager w) = si_page_size w"
    and "si_index_sidecar w = None" "si_hot_set_pages w = 0" "si_resident_versions_per_page w > 0"
    and "registry_inv n (si_reader_registry w) []" "n < 2 ^ 64" "page_versions (si_index w) = (\<lambda>_. [])" "retained_snapshot_lsn w = None"
  shows "wal_ok winv wcontent inv content n [] [] w"
proof -
  have "wal_header_decode (wal_header_encode \<lparr>wh_page_size = si_page_size w, wh_wal_end_offset = 0\<rparr>) =
      Inr \<lparr>wh_page_size = si_page_size w, wh_wal_end_offset = 0\<rparr>"
    by (simp add: wal_header_decode_def wal_header_fields Let_def)
  then have "wal_log winv wcontent [] w"
    using assms by (simp add: wal_log_def log_end_def WAL_HEADER_SIZE_def pending_within_def closed_log_def)
  then show ?thesis using assms
    by (simp add: wal_ok_def held_snapshots_def snapshot_holds_def log_end_def latest_visible_eq pages_at_def)
qed

lemma checkpoint_ok:
  assumes ok: "wal_ok winv wcontent inv content n [] fs w" and ret: "retained_snapshot_lsn w = None"
    and ho: "\<And>ks. mset (hash_order ks) = mset ks" and cnt: "0 < unat (pg_db_page_count (ws_pager w))"
    and hd: "replay fs (pager_page content (ws_pager w)) 1 = header_image cpu (si_page_size w) h" "plain_header (si_page_size w) h"
  shows "\<exists>w'. checkpoint cpu spawn_ok hash_order wops ops xops timeout now w = Some (Inr (), w') \<and>
    wal_ok winv wcontent inv content n [] [] w' \<and> wal_config w' = wal_config w \<and> \<not> si_checkpoint_pending w' \<and>
    si_checkpoint_epoch w' = si_checkpoint_epoch w + 1 \<and> si_wal_end_lsn w' = 0 \<and>
    0 < unat (pg_db_page_count (ws_pager w')) \<and>
    (\<forall>q. q \<noteq> 0 \<longrightarrow> pager_page content (ws_pager w') q =
       (if q = 1 then header_image cpu (si_page_size w) (stamped cpu (si_wal_end_lsn w) h)
        else replay fs (pager_page content (ws_pager w)) q))"
proof -
  define w0 where "w0 = w\<lparr>si_checkpoint_pending := True\<rparr>"
  have ret0: "retained_snapshot_lsn w0 = None" using ret by (simp add: w0_def retained_snapshot_lsn_def split: if_splits)
  have same0: "ws_pager w0 = ws_pager w" "si_wal_end_lsn w0 = si_wal_end_lsn w" "si_page_size w0 = si_page_size w"
    by (simp_all add: w0_def)
  have ok0: "wal_ok winv wcontent inv content n [] fs w0"
    using ok ret ret0 by (intro wal_ok_same [OF ok]) (simp_all add: w0_def wal_ok_def wal_log_def)
  then have reg: "min_snapshot_lsn (si_reader_registry w0) = None"
    using registry_min [of n "si_reader_registry w0" "[]"] by (simp add: wal_ok_def)
  have wi: "winv (si_file w0)" using ok0 by (simp add: wal_ok_def wal_log_def)
  obtain f1 a1 b1 c1 where s1: "flush_to_durable wops w0 = Some (Inr (), w0\<lparr>si_file := f1, si_checkpoint_tail_sync_needed := b1,
      si_checkpoint_tail_locally_synced := c1, si_async_commit := a1\<rparr>)" "winv f1" "wcontent f1 = wcontent (si_file w0)"
    using flush_to_durable_ok [OF wi] by blast
  define w1 where "w1 = w0\<lparr>si_file := f1, si_checkpoint_tail_sync_needed := b1, si_checkpoint_tail_locally_synced := c1, si_async_commit := a1\<rparr>"
  have ok1: "wal_ok winv wcontent inv content n [] fs w1" unfolding w1_def by (rule wal_ok_retarget [OF ok0 s1(2,3)])
  have "winv (si_file w1)" using s1(2) by (simp add: w1_def)
  then obtain f2 a2 b2 c2 where s2: "checkpoint_tail_barrier wops w1 = Some (Inr (), w1\<lparr>si_file := f2, si_checkpoint_tail_sync_needed := b2,
      si_checkpoint_tail_locally_synced := c2, si_async_commit := a2\<rparr>)" "winv f2" "wcontent f2 = wcontent (si_file w1)"
    using tail_barrier_ok by blast
  define w2 where "w2 = w1\<lparr>si_file := f2, si_checkpoint_tail_sync_needed := b2, si_checkpoint_tail_locally_synced := c2, si_async_commit := a2\<rparr>"
  have ok2: "wal_ok winv wcontent inv content n [] fs w2" unfolding w2_def by (rule wal_ok_retarget [OF ok1 s2(2,3)])
  have same2: "ws_pager w2 = ws_pager w" "si_wal_end_lsn w2 = si_wal_end_lsn w" "si_page_size w2 = si_page_size w"
    by (simp_all add: w2_def w1_def w0_def)
  obtain vs where vs: "collect_latest_versions xops hash_order (si_wal_end_lsn w2) w2 = Inr vs"
    using latest_versions_ok [OF ok2 ho] by blast
  obtain pg k where s3: "checkpoint_database cpu spawn_ok wops ops (si_wal_end_lsn w2) vs w2 = Some (Inr (), w2\<lparr>si_max_page_count := k, ws_pager := pg\<rparr>)"
    "pager_ok inv content pg" "pg_page_size pg = pg_page_size (ws_pager w)" "0 < unat (pg_db_page_count pg)"
    "\<And>q. q \<noteq> 0 \<Longrightarrow> pager_page content pg q = (if q = 1 then header_image cpu (si_page_size w) (stamped cpu (si_wal_end_lsn w) h)
        else replay fs (pager_page content (ws_pager w)) q)"
    using checkpoint_database_ok [OF ok2 ho, of cpu h xops vs spawn_ok] cnt hd vs same2 by auto
  define w3 where "w3 = w2\<lparr>si_max_page_count := k, ws_pager := pg\<rparr>"
  have "winv (si_file w3)" "32 \<le> length (wcontent (si_file w3))" using ok2 by (simp_all add: w3_def wal_ok_def wal_log_def)
  then obtain f4 a4 where s4: "truncate_to_header_before_sync wops w3 = Some (Inr \<lparr>tr_post_logical_error = None, tr_final_sync_succeeded = False\<rparr>,
      w3\<lparr>si_async_commit := a4, si_wal_end_lsn := 0, si_checkpoint_tail_sync_needed := False, si_checkpoint_tail_locally_synced := True,
        si_file := f4, si_allocated_len := WAL_HEADER_SIZE\<rparr>)"
    "winv f4" "wcontent f4 = wal_header_encode \<lparr>wh_page_size = si_page_size w3, wh_wal_end_offset = 0\<rparr>"
    using truncate_ok by blast
  define w4 where "w4 = w3\<lparr>si_async_commit := a4, si_wal_end_lsn := 0, si_checkpoint_tail_sync_needed := False,
      si_checkpoint_tail_locally_synced := True, si_file := f4, si_allocated_len := WAL_HEADER_SIZE\<rparr>"
  have "winv (si_file w4)" "si_index_sidecar w4 = None" using s4(2) ok2 by (simp_all add: w4_def w3_def wal_ok_def)
  then obtain f5 where s5: "finish_checkpoint wops xops \<lparr>tr_post_logical_error = None, tr_final_sync_succeeded = False\<rparr> w4 =
      Some (Inr (), w4\<lparr>si_index := index_clear (si_index w4), si_checkpoint_epoch := si_checkpoint_epoch w4 + 1,
        si_pages_since_checkpoint := 0, si_file := f5\<rparr>)" "winv f5" "wcontent f5 = wcontent (si_file w4)"
    using finish_ok by blast
  define w5 where "w5 = w4\<lparr>si_index := index_clear (si_index w4), si_checkpoint_epoch := si_checkpoint_epoch w4 + 1,
      si_pages_since_checkpoint := 0, si_file := f5, si_checkpoint_pending := False\<rparr>"
  have run: "checkpoint cpu spawn_ok hash_order wops ops xops timeout now w = Some (Inr (), w5)"
    using reg ret0 s1(1) s2(1) vs s3(1) s4(1) s5(1) same0 same2
    by (simp add: checkpoint_def checkpoint_body_def w0_def [symmetric] Let_def latest_snapshot_def w1_def [symmetric]
        w2_def [symmetric] w3_def [symmetric] w4_def [symmetric] w5_def)
  have "wal_ok winv wcontent inv content n [] [] w5"
  proof (rule wal_ok_empty)
    show "page_versions (si_index w5) = (\<lambda>_. [])" by (simp add: w5_def index_clear_def page_versions_def fun_eq_iff)
  qed (use s5(2,3) s4(3) s3(2,3) ok ret in
       \<open>simp_all add: w5_def w4_def w3_def w2_def w1_def w0_def wal_ok_def wal_log_def retained_snapshot_lsn_def split: if_splits\<close>)
  moreover have "wal_config w5 = wal_config w" by (simp add: wal_config_def w5_def w4_def w3_def w2_def w1_def w0_def)
  ultimately show ?thesis using run s3(4,5) by (intro exI [of _ w5]) (simp add: w5_def w4_def w3_def w2_def w1_def w0_def)
qed

lemma checkpoint_blocked:
  assumes ok: "wal_ok winv wcontent inv content n gs fs w" and bl: "gs \<noteq> []"
  shows "\<exists>reg. checkpoint cpu spawn_ok hash_order wops ops xops timeout now w =
      Some (Inr (), w\<lparr>si_reader_registry := reg, si_checkpoint_pending := False\<rparr>) \<and> registry_inv n reg gs"
proof -
  have ri: "registry_inv n (si_reader_registry w) gs" using ok by (simp add: wal_ok_def)
  then have "min_snapshot_lsn (si_reader_registry w) \<noteq> None" using registry_min bl by fastforce
  moreover have "registry_inv n (snd (capture_long_reader_warnings timeout now (si_reader_registry w))) gs"
    using ri by (auto simp: capture_long_reader_warnings_def registry_inv_def Let_def)
  ultimately show ?thesis by (auto simp: checkpoint_def checkpoint_body_def Let_def)
qed

end

end
