(* ===== verification/WalWriter.thy ===== *)
theory WalWriter
  imports WalCheckpoint
begin

text \<open>
  The writer of the log, \<open>wal/writer.rs\<close>: a transaction's pages are encoded in bounded batches, as deltas
  against their current content where that is possible, written behind the logical end, and published by the
  commit marker and the end offset in the log header; then the index learns the new versions.
  Allocations do not fail, since the model's lists have no capacity.
\<close>

section \<open>Definitions\<close>

definition WAL_PREALLOC_CHUNK_BYTES :: nat where "WAL_PREALLOC_CHUNK_BYTES = 16777216"
definition WAL_PREPARE_BATCH_BYTES :: nat where "WAL_PREPARE_BATCH_BYTES = 4194304"
definition COMMIT_FRAME_BYTES :: bytes where
  "COMMIT_FRAME_BYTES = [frame_type_byte Commit, 0, 0, 0, 0, 0, 0, 0, 0, 0, 0, 0, 0]"

datatype WalBaseSource = MainDatabase | ResidentWal | OnDiskWal

type_synonym WalBasePage = "(bytes \<times> WalBaseSource) option"

datatype PreparedWalPayload = OnDiskFullPage | PreparedResident bytes FrameEncoding

record PreparedWalPage =
  pp_page_id :: page_id
  pp_encoded_len :: nat
  pp_frame_offset :: u64
  pp_payload :: PreparedWalPayload

record PreparedWalCommit =
  pc_commit_start_lsn :: u64
  pc_end_lsn :: u64
  pc_retain_history_hint :: bool

subsection \<open>Group commits\<close>

definition begin_deferred_group_commit :: "('w, 'x, 'f) wal_sys \<Rightarrow> ('w, 'x, 'f) wal_sys" where
  "begin_deferred_group_commit w = w\<lparr>ws_deferred_group_commit := Some False\<rparr>"

definition drop_deferred_group_commit :: "('w, 'x, 'f) wal_sys \<Rightarrow> ('w, 'x, 'f) wal_sys" where
  "drop_deferred_group_commit w = w\<lparr>ws_deferred_group_commit := None\<rparr>"

definition clear_checkpoint_tail_sync_needed :: "('w, 'x, 'f) wal_sys \<Rightarrow> ('w, 'x, 'f) wal_sys" where
  "clear_checkpoint_tail_sync_needed w =
     w\<lparr>si_checkpoint_tail_sync_needed := False, si_checkpoint_tail_locally_synced := True\<rparr>"

definition sync_and_clear :: "'w vfs_file_ops \<Rightarrow> (('w, 'x, 'f) wal_sys, unit) prog" where
  "sync_and_clear wops = pbind (with_wal_file (vf_sync_data wops)) (\<lambda>_. wal_upd clear_checkpoint_tail_sync_needed)"

definition flush_deferred_group_commit :: "'w vfs_file_ops \<Rightarrow> (('w, 'x, 'f) wal_sys, bool) prog" where
  "flush_deferred_group_commit wops w =
     (if ws_deferred_group_commit w = Some True
      then pbind (case si_sync_mode w of
                    Full \<Rightarrow> sync_and_clear wops
                  | Normal \<Rightarrow> sync_and_clear wops
                  | AsyncCommit _ \<Rightarrow> pret ()
                  | TestingOnlyUnsafeNoSync \<Rightarrow> pret ()) (\<lambda>_.
           pbind (wal_upd (\<lambda>w. w\<lparr>ws_deferred_group_commit := map_option (\<lambda>_. False) (ws_deferred_group_commit w)\<rparr>)) (\<lambda>_.
           pret True)) w
      else Some (Inr False, w))"

definition defer_sync_if_active :: "('w, 'x, 'f) wal_sys \<Rightarrow> bool \<times> ('w, 'x, 'f) wal_sys" where
  "defer_sync_if_active w =
     (case ws_deferred_group_commit w of
        None \<Rightarrow> (False, w)
      | Some _ \<Rightarrow> (True, w\<lparr>ws_deferred_group_commit := Some True\<rparr>))"

definition sync_unless_deferred :: "'w vfs_file_ops \<Rightarrow> (('w, 'x, 'f) wal_sys, unit) prog" where
  "sync_unless_deferred wops w =
     (case defer_sync_if_active w of
        (True, w) \<Rightarrow> Some (Inr (), w)
      | (False, w) \<Rightarrow> sync_and_clear wops w)"

definition sync_for_mode :: "'w vfs_file_ops \<Rightarrow> u64 \<Rightarrow> (('w, 'x, 'f) wal_sys, unit) prog" where
  "sync_for_mode wops new_end_lsn w =
     (case si_sync_mode w of
        Full \<Rightarrow> sync_unless_deferred wops w
      | Normal \<Rightarrow> sync_unless_deferred wops w
      | AsyncCommit _ \<Rightarrow> Some (Inr (), w\<lparr>si_async_commit := map_option (note_write new_end_lsn) (si_async_commit w)\<rparr>)
      | TestingOnlyUnsafeNoSync \<Rightarrow> Some (Inr (), w))"

subsection \<open>Frames\<close>

definition append_page_frame :: "bytes \<Rightarrow> page_id \<Rightarrow> bytes \<Rightarrow> u32 \<Rightarrow> (nat \<times> bytes) result" where
  "append_page_frame output page_id payload page_size =
     (if page_id = 0 then Inl (Corruption ''page WAL frames must have a non-zero page id'')
      else if length payload \<noteq> unat page_size
      then Inl (Internal ''WAL frame payload length does not match expected payload length'')
      else Inr (FRAME_HEADER_SIZE + length payload + FRAME_TRAILER_SIZE,
                output @ [frame_type_byte Page] @ u32_le page_id @ payload @ replicate FRAME_TRAILER_SIZE 0))"

definition append_page_delta_frame :: "bytes \<Rightarrow> page_id \<Rightarrow> bytes \<Rightarrow> (nat \<times> bytes) result" where
  "append_page_delta_frame output page_id payload =
     (if page_id = 0 then Inl (Corruption ''page WAL frames must have a non-zero page id'')
      else Inr (FRAME_HEADER_SIZE + length payload + FRAME_TRAILER_SIZE,
                output @ [frame_type_byte PageDelta] @ u32_le page_id @ payload @ replicate FRAME_TRAILER_SIZE 0))"

definition can_encode_against_resident_wal_base :: "('w, 'x, 'f) wal_sys \<Rightarrow> bool" where
  "can_encode_against_resident_wal_base w = (si_resident_versions_per_page w > 0 \<and> si_hot_set_pages w = 0)"

definition append_best_page_frame_with_base ::
  "bytes \<Rightarrow> ('w, 'x, 'f) wal_sys \<Rightarrow> page_id \<Rightarrow> bytes \<Rightarrow> WalBasePage \<Rightarrow> ((nat \<times> bytes) \<times> FrameEncoding) result"
where
  "append_best_page_frame_with_base output w page_id payload base_page =
     (let full = rmap (\<lambda>r. (r, EncPage)) (append_page_frame output page_id payload (si_page_size w))
      in if page_id = HEADER_PAGE_ID then full
         else case base_page of
                None \<Rightarrow> full
              | Some (base, source) \<Rightarrow>
                  if source = MainDatabase \<or> source = ResidentWal \<and> can_encode_against_resident_wal_base w
                  then case encode_page_delta_into base payload of
                         Some delta \<Rightarrow> rmap (\<lambda>r. (r, EncPageDelta)) (append_page_delta_frame output page_id delta)
                       | None \<Rightarrow> full
                  else full)"

definition lookup_base_page ::
  "'w vfs_file_ops \<Rightarrow> 'f vfs_file_ops \<Rightarrow> 'x vfs_file_ops \<Rightarrow> u64 \<Rightarrow> page_id \<Rightarrow> (('w, 'x, 'f) wal_sys, WalBasePage) prog"
where
  "lookup_base_page wops ops xops snapshot_lsn page_id =
     pbind (\<lambda>w. if latest_visible (si_index w) page_id snapshot_lsn = None
                then promote_spilled_latest_locked xops page_id snapshot_lsn w
                else case si_index_sidecar w of
                       None \<Rightarrow> Some (Inr (), w)
                     | Some sc \<Rightarrow>
                         (case clear_latest xops page_id sc of
                            None \<Rightarrow> None
                          | Some (r, sc) \<Rightarrow> Some (r, w\<lparr>si_index_sidecar := Some sc\<rparr>))) (\<lambda>_ w.
       case latest_visible (si_index w) page_id snapshot_lsn of
         Some version \<Rightarrow>
           let source = (case wv_payload version of Resident _ _ _ _ \<Rightarrow> ResidentWal | OnDisk _ _ _ \<Rightarrow> OnDiskWal)
           in pbind (materialize_version_locked wops ops page_id version) (\<lambda>page. pret (Some (page, source))) w
       | None \<Rightarrow>
           (case with_pager (read_page ops page_id) w of
              None \<Rightarrow> None
            | Some (Inr page, w) \<Rightarrow> Some (Inr (Some (page, MainDatabase)), w)
            | Some (Inl _, w) \<Rightarrow> Some (Inr None, w)))"

definition lookup_base_pages_batch ::
  "'w vfs_file_ops \<Rightarrow> 'f vfs_file_ops \<Rightarrow> 'x vfs_file_ops \<Rightarrow> (page_id \<times> bytes) list \<Rightarrow> u64 \<Rightarrow>
   (('w, 'x, 'f) wal_sys, bool \<times> WalBasePage list) prog"
where
  "lookup_base_pages_batch wops ops xops pages snapshot_lsn w =
     (let retain_history_hint = (active_reader_count (si_reader_registry w) > 0 \<or> retained_snapshot_lsn w \<noteq> None)
      in pbind (pmapM (\<lambda>(page_id, _). lookup_base_page wops ops xops snapshot_lsn page_id) pages)
           (\<lambda>base_pages. pret (retain_history_hint, base_pages)) w)"

text \<open>The frames of one batch; the base pages are those of the batch, in its order.\<close>

fun prepare_frames ::
  "('w, 'x, 'f) wal_sys \<Rightarrow> u64 \<Rightarrow> bool \<Rightarrow> (page_id \<times> bytes) list \<Rightarrow> WalBasePage list \<Rightarrow> page_id set \<Rightarrow> bytes \<Rightarrow>
   PreparedWalPage list \<Rightarrow> (bytes \<times> page_id set \<times> PreparedWalPage list) result"
where
  "prepare_frames w offset retain_history_hint [] bases seen page_batch prepared = Inr (page_batch, seen, prepared)"
| "prepare_frames w offset retain_history_hint ((page_id, payload) # page_chunk) bases seen page_batch prepared =
     (let frame_offset = offset + of_nat (length page_batch);
          duplicate_in_commit = page_id \<in> seen;
          base = (case bases of [] \<Rightarrow> None | b # _ \<Rightarrow> b)
      in rbind (if duplicate_in_commit
                then rmap (\<lambda>r. (r, EncPage)) (append_page_frame page_batch page_id payload (si_page_size w))
                else append_best_page_frame_with_base page_batch w page_id payload base) (\<lambda>((encoded_len, page_batch), encoding).
           let prepared_payload =
                 (if encoding = EncPage \<and> \<not> retain_history_hint then OnDiskFullPage else PreparedResident payload encoding)
           in prepare_frames w offset retain_history_hint page_chunk (tl bases) (insert page_id seen) page_batch
                (prepared @ [\<lparr>pp_page_id = page_id, pp_encoded_len = encoded_len, pp_frame_offset = frame_offset,
                              pp_payload = prepared_payload\<rparr>])))"

subsection \<open>Writing a transaction\<close>

definition ensure_capacity :: "'w vfs_file_ops \<Rightarrow> u64 \<Rightarrow> (('w, 'x, 'f) wal_sys, bool) prog" where
  "ensure_capacity wops required_len w =
     (if si_allocated_len w \<ge> required_len then Some (Inr False, w)
      else
        let target_len = u64_saturating_mul (of_nat (div_ceil (unat required_len) WAL_PREALLOC_CHUNK_BYTES))
              (of_nat WAL_PREALLOC_CHUNK_BYTES)
        in pbind (with_wal_file (vf_set_len wops target_len)) (\<lambda>_.
           pbind (wal_upd (\<lambda>w. w\<lparr>si_allocated_len := target_len\<rparr>)) (\<lambda>_. pret True)) w)"

text \<open>A batch is written behind the logical end; the last one carries the commit marker and is published in the header.\<close>

definition write_batch :: "'w vfs_file_ops \<Rightarrow> u64 \<Rightarrow> bytes \<Rightarrow> (('w, 'x, 'f) wal_sys, u64) prog" where
  "write_batch wops offset page_batch =
     (let batch_end_lsn = offset + of_nat (length page_batch)
      in pbind (ensure_capacity wops batch_end_lsn) (\<lambda>_.
         pbind (with_wal_file (write_all_at_many wops [(offset, page_batch)])) (\<lambda>_. pret batch_end_lsn)))"

definition write_commit_group :: "'w vfs_file_ops \<Rightarrow> u64 \<Rightarrow> bytes \<Rightarrow> (('w, 'x, 'f) wal_sys, u64) prog" where
  "write_commit_group wops offset page_batch =
     (let page_batch = page_batch @ COMMIT_FRAME_BYTES;
          end_lsn = offset + of_nat (length page_batch)
      in pbind (ensure_capacity wops end_lsn) (\<lambda>_.
         pbind (with_wal_file (write_all_at_many wops [(offset, page_batch), (16, u64_le end_lsn)])) (\<lambda>_. pret end_lsn)))"

definition wal_prepare_batch_page_limit :: "u32 \<Rightarrow> nat" where
  "wal_prepare_batch_page_limit page_size =
     max (WAL_PREPARE_BATCH_BYTES div (FRAME_HEADER_SIZE + unat page_size + FRAME_TRAILER_SIZE)) 1"

function prepare_loop ::
  "'w vfs_file_ops \<Rightarrow> 'f vfs_file_ops \<Rightarrow> 'x vfs_file_ops \<Rightarrow> u64 \<Rightarrow> u32 \<Rightarrow> (page_id \<times> bytes) list \<Rightarrow> page_id set \<Rightarrow>
   PreparedWalPage list \<Rightarrow> u64 \<Rightarrow> bool \<Rightarrow> (('w, 'x, 'f) wal_sys, PreparedWalPage list \<times> u64 \<times> bool) prog"
where
  "prepare_loop wops ops xops snapshot_lsn page_size pages seen prepared offset hint =
     (if pages = [] then pbind (write_commit_group wops offset []) (\<lambda>end_lsn. pret (prepared, end_lsn, hint))
      else
        let page_chunk = take (wal_prepare_batch_page_limit page_size) pages;
            rest = drop (wal_prepare_batch_page_limit page_size) pages
        in pbind (lookup_base_pages_batch wops ops xops page_chunk snapshot_lsn) (\<lambda>(retain, base_pages).
           let hint = (hint \<or> retain)
           in pbind (\<lambda>w. Some (prepare_frames w offset hint page_chunk base_pages seen [] prepared, w))
                (\<lambda>(page_batch, seen, prepared).
                if rest = []
                then pbind (write_commit_group wops offset page_batch) (\<lambda>end_lsn. pret (prepared, end_lsn, hint))
                else pbind (write_batch wops offset page_batch) (\<lambda>offset.
                       prepare_loop wops ops xops snapshot_lsn page_size rest seen prepared offset hint))))"
  by pat_completeness auto
termination
  by (relation "measure (\<lambda>(_, _, _, _, _, pages, _). length pages)") (auto simp: wal_prepare_batch_page_limit_def)

declare prepare_loop.simps [simp del]

definition prepare_and_write_commit ::
  "'w vfs_file_ops \<Rightarrow> 'f vfs_file_ops \<Rightarrow> 'x vfs_file_ops \<Rightarrow> (page_id \<times> bytes) list \<Rightarrow> u64 \<Rightarrow> u64 \<Rightarrow>
   (('w, 'x, 'f) wal_sys, PreparedWalCommit \<times> PreparedWalPage list) prog"
where
  "prepare_and_write_commit wops ops xops pages commit_start_lsn snapshot_lsn w =
     pbind (prepare_loop wops ops xops snapshot_lsn (si_page_size w) pages {} [] commit_start_lsn False)
       (\<lambda>(prepared, end_lsn, hint).
       pret (\<lparr>pc_commit_start_lsn = commit_start_lsn, pc_end_lsn = end_lsn, pc_retain_history_hint = hint\<rparr>, prepared)) w"

subsection \<open>Publishing a transaction\<close>

definition prepared_page_version :: "PreparedWalPage \<Rightarrow> u64 \<Rightarrow> WalVersion \<times> bool" where
  "prepared_page_version prepared version_lsn =
     (case pp_payload prepared of
        OnDiskFullPage \<Rightarrow>
          (version_on_disk version_lsn (pp_frame_offset prepared) (of_nat (pp_encoded_len prepared)) EncPage, False)
      | PreparedResident data encoding \<Rightarrow>
          (version_resident version_lsn (pp_frame_offset prepared) (of_nat (pp_encoded_len prepared)) encoding data, True))"

fun publish_versions :: "bool \<Rightarrow> bool \<Rightarrow> u64 \<Rightarrow> PreparedWalPage list \<Rightarrow> WalIndex \<Rightarrow> WalIndex" where
  "publish_versions retain_history residents_kept version_lsn [] idx = idx"
| "publish_versions retain_history residents_kept version_lsn (prepared # rest) idx =
     (let version_lsn = version_lsn + of_nat (pp_encoded_len prepared);
          page_id = pp_page_id prepared;
          (version, is_resident) = prepared_page_version prepared version_lsn;
          idx = add_version page_id version retain_history idx;
          idx = (if \<not> retain_history \<and> (\<not> is_resident \<or> residents_kept) then unmark_dirty_since_demote page_id idx else idx)
      in publish_versions retain_history residents_kept version_lsn rest idx)"

definition publish_commit ::
  "u32 \<Rightarrow> PreparedWalCommit \<Rightarrow> PreparedWalPage list \<Rightarrow> ('w, 'x, 'f) wal_sys \<Rightarrow> bool \<times> ('w, 'x, 'f) wal_sys"
where
  "publish_commit max_page_count commit prepared w =
     (let retain_history = (pc_retain_history_hint commit \<or> active_reader_count (si_reader_registry w) > 0 \<or>
            retained_snapshot_lsn w \<noteq> None);
          idx = publish_versions retain_history (si_resident_versions_per_page w > 0) (pc_commit_start_lsn commit)
            prepared (si_index w);
          prepared_count = (case u32_try_from (length prepared) of Some n \<Rightarrow> n | None \<Rightarrow> - 1)
      in (si_hot_set_pages w \<noteq> 0 \<or> has_dirty_since_demote idx,
          w\<lparr>si_index := idx, si_max_page_count := max (si_max_page_count w) max_page_count,
            si_wal_end_lsn := pc_end_lsn commit,
            si_pages_since_checkpoint := si_pages_since_checkpoint w + prepared_count\<rparr>))"

definition min_retained_snapshot :: "('w, 'x, 'f) wal_sys \<Rightarrow> u64 option" where
  "min_retained_snapshot w =
     (case (min_snapshot_lsn (si_reader_registry w), retained_snapshot_lsn w) of
        (Some reader_lsn, Some retained_lsn) \<Rightarrow> Some (min reader_lsn retained_lsn)
      | (Some reader_lsn, None) \<Rightarrow> Some reader_lsn
      | (None, r) \<Rightarrow> r)"

definition demote_cold_versions :: "'x vfs_file_ops \<Rightarrow> (('w, 'x, 'f) wal_sys, unit) prog" where
  "demote_cold_versions xops w =
     (if min_retained_snapshot w \<noteq> None then Some (Inr (), w)
      else
        let idx = fst (demote_cold None (si_resident_versions_per_page w) (si_index w))
        in case si_index_sidecar w of
             None \<Rightarrow> Some (Inr (), w\<lparr>si_index := idx\<rparr>)
           | Some sc \<Rightarrow>
               (case spill_excess_hot_pages_locked xops (si_hot_set_pages w) idx sc of
                  None \<Rightarrow> None
                | Some (r, idx, sc) \<Rightarrow> Some (r, w\<lparr>si_index := idx, si_index_sidecar := Some sc\<rparr>)))"

text \<open>A threshold hit with the background worker configured only wakes that thread.\<close>

definition maybe_auto_checkpoint ::
  "crc_cpu \<Rightarrow> bool \<Rightarrow> (page_id list \<Rightarrow> page_id list) \<Rightarrow> 'w vfs_file_ops \<Rightarrow> 'f vfs_file_ops \<Rightarrow> 'x vfs_file_ops \<Rightarrow>
   nat \<Rightarrow> (('w, 'x, 'f) wal_sys, unit) prog"
where
  "maybe_auto_checkpoint cpu spawn_ok hash_order wops ops xops now w =
     (let cfg = si_auto_checkpoint w;
          pages_hit = (ac_threshold_pages cfg \<noteq> 0 \<and> si_pages_since_checkpoint w \<ge> ac_threshold_pages cfg);
          bytes_since = u64_saturating_sub (latest_snapshot w) WAL_HEADER_SIZE;
          bytes_hit = (ac_threshold_bytes cfg \<noteq> 0 \<and> bytes_since \<ge> ac_threshold_bytes cfg)
      in if ac_threshold_pages cfg = 0 \<and> ac_threshold_bytes cfg = 0 then Some (Inr (), w)
         else if \<not> pages_hit \<and> \<not> bytes_hit then Some (Inr (), w)
         else if si_checkpoint_pending w then Some (Inr (), w)
         else if si_canonical_path w \<noteq> None then Some (Inr (), w)
         else if si_background_checkpoint_worker w then Some (Inr (), w)
         else if active_reader_count (si_reader_registry w) > 0 \<or> retained_snapshot_lsn w \<noteq> None then Some (Inr (), w)
         else checkpoint cpu spawn_ok hash_order wops ops xops (ac_checkpoint_timeout_sec cfg) now w)"

definition pignore :: "('s, 'a) prog \<Rightarrow> ('s, unit) prog" where
  "pignore m s = (case m s of None \<Rightarrow> None | Some (_, s) \<Rightarrow> Some (Inr (), s))"

text \<open>What both commit functions do once the position is known.\<close>

definition commit_at ::
  "crc_cpu \<Rightarrow> bool \<Rightarrow> (page_id list \<Rightarrow> page_id list) \<Rightarrow> 'w vfs_file_ops \<Rightarrow> 'f vfs_file_ops \<Rightarrow> 'x vfs_file_ops \<Rightarrow>
   nat \<Rightarrow> (page_id \<times> bytes) list \<Rightarrow> u32 \<Rightarrow> u64 \<Rightarrow> (('w, 'x, 'f) wal_sys, u64) prog"
where
  "commit_at cpu spawn_ok hash_order wops ops xops now pages max_page_count latest =
     (let offset = (if latest = 0 then WAL_HEADER_SIZE else latest)
      in pbind (prepare_and_write_commit wops ops xops pages offset latest) (\<lambda>(commit, prepared).
         pbind (sync_for_mode wops (pc_end_lsn commit)) (\<lambda>_.
         pbind (pstep (\<lambda>w. let (demote, w) = publish_commit max_page_count commit prepared w in (Inr demote, w))) (\<lambda>demote.
         pbind (if demote then pignore (demote_cold_versions xops) else pret ()) (\<lambda>_.
         pbind (pignore (maybe_auto_checkpoint cpu spawn_ok hash_order wops ops xops now)) (\<lambda>_.
         pret (pc_end_lsn commit)))))))"

definition commit_pages ::
  "crc_cpu \<Rightarrow> bool \<Rightarrow> (page_id list \<Rightarrow> page_id list) \<Rightarrow> 'w vfs_file_ops \<Rightarrow> 'f vfs_file_ops \<Rightarrow> 'x vfs_file_ops \<Rightarrow>
   nat \<Rightarrow> (page_id \<times> bytes) list \<Rightarrow> u32 \<Rightarrow> (('w, 'x, 'f) wal_sys, u64) prog"
where
  "commit_pages cpu spawn_ok hash_order wops ops xops now pages max_page_count w =
     commit_at cpu spawn_ok hash_order wops ops xops now pages max_page_count (latest_snapshot w) w"

definition commit_pages_if_latest ::
  "crc_cpu \<Rightarrow> bool \<Rightarrow> (page_id list \<Rightarrow> page_id list) \<Rightarrow> 'w vfs_file_ops \<Rightarrow> 'f vfs_file_ops \<Rightarrow> 'x vfs_file_ops \<Rightarrow>
   nat \<Rightarrow> (page_id \<times> bytes) list \<Rightarrow> u32 \<Rightarrow> u64 \<Rightarrow> u64 \<Rightarrow> (('w, 'x, 'f) wal_sys, u64) prog"
where
  "commit_pages_if_latest cpu spawn_ok hash_order wops ops xops now pages max_page_count expected_latest_lsn
       expected_checkpoint_epoch w =
     (let latest = latest_snapshot w
      in if latest \<noteq> expected_latest_lsn \<and> si_checkpoint_epoch w = expected_checkpoint_epoch
         then Some (Inl (Transaction ''transaction conflict: WAL advanced''), w)
         else commit_at cpu spawn_ok hash_order wops ops xops now pages max_page_count latest w)"

end
