(* ===== verification/WalCommit.thy ===== *)
theory WalCommit
  imports WalWriter
begin

text \<open>
  What a commit does to the log, the index and the pages (\<open>wal/writer.rs\<close>): the invariant of the handle survives it,
  and the pages of the transaction replace the current ones.
\<close>

section \<open>Writing behind the end of a file\<close>

context vfs_file
begin

lemma write_many_loop_ok:
  "inv f \<Longrightarrow> cursor \<le> length buf \<Longrightarrow> unat off + length buf < 2 ^ 63 \<Longrightarrow> buf \<noteq> [] \<Longrightarrow>
   content f = (if cursor = 0 then c else file_patch c (unat off) (take cursor buf)) \<Longrightarrow>
     \<exists>f'. write_many_loop ops off buf cursor f = (Inr (), f') \<and> inv f' \<and>
       content f' = file_patch c (unat off) buf"
proof (induction "length buf - cursor" arbitrary: cursor f rule: less_induct)
  case less
  show ?case
  proof (cases "cursor = length buf")
    case True
    then show ?thesis using less.prems by (subst write_many_loop.simps) simp
  next
    case False
    let ?o = "off + of_nat cursor"
    have o: "unat ?o = unat off + cursor" using less.prems by (intro unat_off_add) simp
    have "drop cursor buf \<noteq> []" "unat ?o + length (drop cursor buf) < 2 ^ 63"
      using False less.prems(2,3) o by auto
    then obtain n f1 where n: "vf_write_at ops ?o (drop cursor buf) f = (Inr n, f1)" "inv f1" "0 < n"
      "n \<le> length (drop cursor buf)" "content f1 = file_patch (content f) (unat ?o) (take n (drop cursor buf))"
      using file_write [OF less.prems(1)] by blast
    have "content f1 = file_patch c (unat off) (take (cursor + n) buf)"
      using n(5) less.prems(2,5) o file_patch_join [of c "unat off" "take cursor buf" "take n (drop cursor buf)"]
      by (cases "cursor = 0") (auto simp: take_add min_absorb2)
    moreover have "length buf - (cursor + n) < length buf - cursor" "cursor + n \<le> length buf"
      using n(3,4) False less.prems(2) by auto
    ultimately obtain f' where "write_many_loop ops off buf (cursor + n) f1 = (Inr (), f')" "inv f'"
      "content f' = file_patch c (unat off) buf"
      using less.hyps [of "cursor + n" f1] n(2,3) less.prems(3,4) by auto
    then show ?thesis using n False less.prems(2) by (subst write_many_loop.simps) auto
  qed
qed

lemma write_many_ok:
  assumes "inv f" "unat off + length buf < 2 ^ 63" "buf \<noteq> []"
  shows "\<exists>f'. write_all_at_many ops ((off, buf) # ws) f = write_all_at_many ops ws f' \<and> inv f' \<and>
    content f' = file_patch (content f) (unat off) buf"
  using write_many_loop_ok [of f 0 buf off "content f"] assms by auto

end

lemma file_patch_nth:
  "off + length b \<le> length c \<Longrightarrow> i < length c \<Longrightarrow>
     file_patch c off b ! i = (if off \<le> i \<and> i < off + length b then b ! (i - off) else c ! i)"
  by (auto simp: file_patch_def nth_append)

section \<open>Frames in a file\<close>

lemma frame_at_cong:
  assumes "frame_at c o' page_size fr" "\<And>i. o' \<le> i \<Longrightarrow> i < o' + frame_encoded_len fr page_size \<Longrightarrow> c' ! i = c ! i"
    "o' + frame_encoded_len fr page_size \<le> length c'"
  shows "frame_at c' o' page_size fr"
proof -
  let ?n = "length (frame_bytes fr)"
  have ok: "frame_ok page_size fr" and len: "o' + ?n \<le> length c"
    using assms(1) frame_at_ok length_frame_bytes by (force simp: frame_at_def)+
  note n = length_frame_bytes [OF ok]
  have b: "bslice c' i j = bslice c i j" if "o' \<le> i" "j \<le> o' + ?n" for i j
    using that assms(2,3) len n by (intro nth_equalityI) (auto simp: nth_bslice)
  have m: "?n = 13 + payload_size (wf_frame_type fr) page_size"
    using n by (simp add: frame_encoded_len_def FRAME_HEADER_SIZE_def FRAME_TRAILER_SIZE_def)
  have "c' ! o' = c ! o'" using assms(2) [of o'] frame_len_pos [of fr page_size] by simp
  moreover have "bslice c' (o' + 1) (o' + 5) = bslice c (o' + 1) (o' + 5)" using m by (intro b) simp_all
  moreover have "bslice c' (o' + 5) (o' + 5 + payload_size (wf_frame_type fr) page_size) =
      bslice c (o' + 5) (o' + 5 + payload_size (wf_frame_type fr) page_size)" using m by (intro b) simp_all
  ultimately show ?thesis using assms(1,3) unfolding frame_at_def by argo
qed

lemma frames_at_cong:
  "frames_at c o' page_size fs \<Longrightarrow> (\<And>i. o' \<le> i \<Longrightarrow> i < o' + log_length page_size fs \<Longrightarrow> c' ! i = c ! i) \<Longrightarrow>
   o' + log_length page_size fs \<le> length c' \<Longrightarrow> frames_at c' o' page_size fs"
proof (induction fs arbitrary: o')
  case (Cons fr fs)
  have eq: "c' ! i = c ! i" if "o' \<le> i" "i < o' + (frame_encoded_len fr page_size + log_length page_size fs)" for i
    using that by (intro Cons.prems(2)) simp_all
  have at: "frame_at c o' page_size fr" "frames_at c (o' + frame_encoded_len fr page_size) page_size fs"
    and len: "o' + (frame_encoded_len fr page_size + log_length page_size fs) \<le> length c'" using Cons.prems(1,3) by simp_all
  have "frame_at c' o' page_size fr" by (rule frame_at_cong [OF at(1)], rule eq) (use len in simp_all)
  moreover have "frames_at c' (o' + frame_encoded_len fr page_size) page_size fs"
    by (rule Cons.IH [OF at(2)], rule eq) (use len in simp_all)
  ultimately show ?case by simp
qed simp

lemma frames_at_slice:
  "\<forall>fr \<in> set fs. frame_ok page_size fr \<Longrightarrow> bslice c o' (o' + log_length page_size fs) = concat (map frame_bytes fs) \<Longrightarrow>
   o' + log_length page_size fs \<le> length c \<Longrightarrow> frames_at c o' page_size fs"
proof (induction fs arbitrary: o')
  case (Cons fr fs)
  let ?n = "frame_encoded_len fr page_size" and ?m = "log_length page_size fs"
  have n: "length (frame_bytes fr) = ?n" using Cons.prems(1) by (simp add: length_frame_bytes)
  have s: "bslice c o' (o' + ?n) @ bslice c (o' + ?n) (o' + ?n + ?m) = frame_bytes fr @ concat (map frame_bytes fs)"
    using Cons.prems(2) bslice_append_bslice [of o' "o' + ?n" "o' + ?n + ?m" c] by (simp add: add.assoc)
  have "length (bslice c o' (o' + ?n)) = length (frame_bytes fr)" using Cons.prems(3) n by simp
  then have "bslice c o' (o' + ?n) = frame_bytes fr \<and> bslice c (o' + ?n) (o' + ?n + ?m) = concat (map frame_bytes fs)"
    using s append_eq_append_conv by blast
  then show ?case using Cons.IH [of "o' + ?n"] Cons.prems frame_at_bytes [of page_size fr c o'] n by (simp add: add.assoc)
qed simp

lemma commit_frame_bytes: "frame_bytes \<lparr>wf_frame_type = Commit, wf_page_id = 0, wf_payload = []\<rparr> = COMMIT_FRAME_BYTES"
  by code_simp

lemma header_patch:
  assumes "wal_header_decode (take 32 c) = Inr \<lparr>wh_page_size = page_size, wh_wal_end_offset = e\<rparr>" "32 \<le> length c" "32 \<le> unat e'"
  shows "wal_header_decode (take 32 (file_patch c 16 (u64_le e'))) = Inr \<lparr>wh_page_size = page_size, wh_wal_end_offset = e'\<rparr>"
proof -
  let ?c = "file_patch c 16 (u64_le e')"
  have b: "bslice (take 32 ?c) i j = bslice (take 32 c) i j" if "j \<le> 16" for i j
    using that assms(2) by (simp add: bslice_take bslice_file_patch_other)
  have "bslice (take 32 ?c) 16 24 = u64_le e'" using bslice_file_patch [of c 16 "u64_le e'"] by (simp add: bslice_take)
  moreover have "\<not> e' < 32" using assms(3) by (simp add: word_less_nat_alt)
  ultimately show ?thesis using assms(1) b
    by (simp add: wal_header_decode_def Let_def WAL_HEADER_SIZE_def del: bslice_0 split: if_splits)
qed

section \<open>The frames of a transaction\<close>

text \<open>The pages of a transaction replace the current ones, in order.\<close>

definition page_updates :: "(page_id \<times> bytes) list \<Rightarrow> pages \<Rightarrow> pages" where
  "page_updates ps E = fold (\<lambda>(p, b) E. E(p := b)) ps E"

lemma page_updates_simps [simp]:
  "page_updates [] E = E" "page_updates ((p, b) # ps) E = page_updates ps (E(p := b))"
  "page_updates (ps @ qs) E = page_updates qs (page_updates ps E)"
  by (simp_all add: page_updates_def)

text \<open>The prepared pages describe consecutive frames from position \<open>o\<close> on.\<close>

fun prepared_for :: "u32 \<Rightarrow> nat \<Rightarrow> WalFrame list \<Rightarrow> (page_id \<times> bytes) list \<Rightarrow> PreparedWalPage list \<Rightarrow> bool" where
  "prepared_for page_size o' [] [] [] = True"
| "prepared_for page_size o' (fr # frs) ((p, b) # ps) (pp # pps) =
     (frame_valid page_size fr \<and> wf_page_id fr = p \<and> length b = unat page_size \<and> pp_page_id pp = p \<and>
      pp_encoded_len pp = frame_encoded_len fr page_size \<and> unat (pp_frame_offset pp) = o' \<and>
      (case pp_payload pp of
         OnDiskFullPage \<Rightarrow> wf_frame_type fr = Page
       | PreparedResident data enc \<Rightarrow> data = b \<and> wf_frame_type fr = encoding_frame_type enc) \<and>
      prepared_for page_size (o' + frame_encoded_len fr page_size) frs ps pps)"
| "prepared_for page_size o' frs ps pps = False"

lemma prepared_for_append:
  "prepared_for page_size o' frs ps pps \<Longrightarrow> prepared_for page_size (o' + log_length page_size frs) frs' ps' pps' \<Longrightarrow>
     prepared_for page_size o' (frs @ frs') (ps @ ps') (pps @ pps')"
  by (induction page_size o' frs ps pps rule: prepared_for.induct) (auto simp: add.assoc)

lemma prepared_for_frames:
  "prepared_for page_size o' frs ps pps \<Longrightarrow> (\<forall>fr \<in> set frs. frame_valid page_size fr \<and> is_page_frame (wf_frame_type fr)) \<and>
     length frs = length ps \<and> length pps = length ps"
proof (induction page_size o' frs ps pps rule: prepared_for.induct)
  case (2 page_size o' fr frs p b ps pp pps)
  have "is_page_frame (encoding_frame_type enc)" for enc by (cases enc) (simp_all add: is_page_frame_def)
  with 2 show ?case by (auto simp: is_page_frame_def split: PreparedWalPayload.splits)
qed simp_all

text \<open>The frames write the pages: each one turns the current state into the one with its page replaced.\<close>

fun frames_write :: "WalFrame list \<Rightarrow> (page_id \<times> bytes) list \<Rightarrow> pages \<Rightarrow> bool" where
  "frames_write [] [] F = True"
| "frames_write (fr # frs) ((p, b) # ps) F = (apply_frame fr F = F(p := b) \<and> frames_write frs ps (F(p := b)))"
| "frames_write frs ps F = False"

lemma frames_write_append:
  "frames_write frs ps F \<Longrightarrow> frames_write frs' ps' (page_updates ps F) \<Longrightarrow> frames_write (frs @ frs') (ps @ ps') F"
  by (induction frs ps F rule: frames_write.induct) auto

lemma frames_write_replay: "frames_write frs ps F \<Longrightarrow> replay frs F = page_updates ps F"
  by (induction frs ps F rule: frames_write.induct) auto

lemma u64_le_0: "u64_le 0 = replicate 8 0"
  by code_simp

text \<open>One frame: it turns the page of any state that agrees with the base into the new page.\<close>

definition frame_for :: "u32 \<Rightarrow> page_id \<Rightarrow> bytes \<Rightarrow> bytes \<Rightarrow> FrameEncoding \<Rightarrow> WalFrame \<Rightarrow> bool" where
  "frame_for page_size p base b enc fr \<longleftrightarrow> frame_valid page_size fr \<and> wf_page_id fr = p \<and>
     wf_frame_type fr = encoding_frame_type enc \<and> frame_encoded_len fr page_size \<le> 13 + unat page_size \<and>
     (\<forall>F. enc = EncPage \<or> F p = base \<longrightarrow> apply_frame fr F = F(p := b))"

lemma append_page_frame_ok:
  assumes "p \<noteq> 0" "length b = unat page_size"
  shows "\<exists>fr. append_page_frame out p b page_size = Inr (frame_encoded_len fr page_size, out @ frame_bytes fr) \<and>
    frame_for page_size p base b EncPage fr"
  using assms
  by (intro exI [of _ "\<lparr>wf_frame_type = Page, wf_page_id = p, wf_payload = b\<rparr>"])
     (simp add: append_page_frame_def frame_for_def frame_valid_def frame_ok_def frame_encoded_len_def frame_bytes_def
       FRAME_HEADER_SIZE_def FRAME_TRAILER_SIZE_def is_page_frame_def apply_frame_def u64_le_0)

lemma append_delta_frame_ok:
  assumes "p \<noteq> 0" "length base = unat page_size" "512 \<le> unat page_size" "encode_page_delta_into base b = Some delta"
  shows "\<exists>fr. append_page_delta_frame out p delta = Inr (frame_encoded_len fr page_size, out @ frame_bytes fr) \<and>
    frame_for page_size p base b EncPageDelta fr"
proof -
  have d: "length delta = 512" "apply_page_delta_in_place base delta = (Inr (), b)"
    using encode_page_delta_ok [of base b delta] assms(4) by (simp_all add: encode_page_delta_def)
  then have "delta_valid (unat page_size) delta"
    using assms(2) by (auto simp: apply_page_delta_in_place_def delta_valid_def Let_def split: if_splits sum.splits)
  then show ?thesis using assms d
    by (intro exI [of _ "\<lparr>wf_frame_type = PageDelta, wf_page_id = p, wf_payload = delta\<rparr>"])
       (simp add: append_page_delta_frame_def frame_for_def frame_valid_def frame_ok_def frame_encoded_len_def frame_bytes_def
         FRAME_HEADER_SIZE_def FRAME_TRAILER_SIZE_def DELTA_FRAME_PAYLOAD_SIZE_def is_page_frame_def apply_frame_def u64_le_0)
qed

lemma append_best_ok:
  assumes "p \<noteq> 0" "length b = unat (si_page_size w)" "length base = unat (si_page_size w)" "512 \<le> unat (si_page_size w)"
  shows "\<exists>fr enc. append_best_page_frame_with_base out w p b (Some (base, source)) =
      Inr ((frame_encoded_len fr (si_page_size w), out @ frame_bytes fr), enc) \<and> frame_for (si_page_size w) p base b enc fr"
proof -
  obtain fr where full: "append_page_frame out p b (si_page_size w) = Inr (frame_encoded_len fr (si_page_size w), out @ frame_bytes fr)"
    "frame_for (si_page_size w) p base b EncPage fr" using append_page_frame_ok [OF assms(1,2)] by blast
  show ?thesis
  proof (cases "append_best_page_frame_with_base out w p b (Some (base, source)) =
      rmap (\<lambda>r. (r, EncPage)) (append_page_frame out p b (si_page_size w))")
    case True
    then show ?thesis using full by auto
  next
    case False
    then obtain delta where delta: "encode_page_delta_into base b = Some delta"
      "append_best_page_frame_with_base out w p b (Some (base, source)) =
         rmap (\<lambda>r. (r, EncPageDelta)) (append_page_delta_frame out p delta)"
      by (auto simp: append_best_page_frame_with_base_def Let_def split: if_splits option.splits)
    then show ?thesis using append_delta_frame_ok [OF assms(1,3,4) delta(1), of out] by auto
  qed
qed

definition pages_wf :: "u32 \<Rightarrow> (page_id \<times> bytes) list \<Rightarrow> bool" where
  "pages_wf page_size ps \<longleftrightarrow> (\<forall>(p, b) \<in> set ps. p \<noteq> 0 \<and> length b = unat page_size)"

definition bases_of :: "pages \<Rightarrow> (page_id \<times> bytes) list \<Rightarrow> WalBasePage list \<Rightarrow> bool" where
  "bases_of E ps bases \<longleftrightarrow> list_all2 (\<lambda>(p, _) base. \<exists>source. base = Some (E p, source)) ps bases"

lemma pages_wf_simps [simp]:
  "pages_wf page_size []" "pages_wf page_size ((p, b) # ps) \<longleftrightarrow> p \<noteq> 0 \<and> length b = unat page_size \<and> pages_wf page_size ps"
  "pages_wf page_size (ps @ qs) \<longleftrightarrow> pages_wf page_size ps \<and> pages_wf page_size qs"
  by (auto simp: pages_wf_def)

lemma prepare_frames_ok:
  assumes "pages_wf (si_page_size w) pages" "bases_of E pages bases" "pages_sized (si_page_size w) E" "512 \<le> unat (si_page_size w)"
    and "\<And>p. p \<notin> seen \<Longrightarrow> F p = E p"
    and "unat offset + length out + length pages * (13 + unat (si_page_size w)) < 2 ^ 63"
  shows "\<exists>new prs. prepare_frames w offset hint pages bases seen out pr =
      Inr (out @ concat (map frame_bytes new), seen \<union> fst ` set pages, pr @ prs) \<and>
    prepared_for (si_page_size w) (unat offset + length out) new pages prs \<and> frames_write new pages F \<and>
    log_length (si_page_size w) new \<le> length pages * (13 + unat (si_page_size w))"
  using assms(1,2,5,6)
proof (induction pages arbitrary: bases seen out pr F)
  case Nil
  then show ?case by (intro exI [of _ "[]"]) simp
next
  case (Cons pb pages)
  let ?ps = "si_page_size w"
  obtain p b where pb: "pb = (p, b)" by fastforce
  obtain source bases' where bases: "bases = Some (E p, source) # bases'" "bases_of E pages bases'"
    using Cons.prems(2) by (auto simp: bases_of_def pb list_all2_Cons1)
  have wf: "p \<noteq> 0" "length b = unat ?ps" "pages_wf ?ps pages" using Cons.prems(1) by (simp_all add: pb)
  have base: "length (E p) = unat ?ps" using assms(3) by (simp add: pages_sized_def)
  obtain fr enc where fr: "(if p \<in> seen then rmap (\<lambda>r. (r, EncPage)) (append_page_frame out p b ?ps)
        else append_best_page_frame_with_base out w p b (Some (E p, source))) =
      Inr ((frame_encoded_len fr ?ps, out @ frame_bytes fr), enc)" "frame_for ?ps p (E p) b enc fr" "p \<in> seen \<Longrightarrow> enc = EncPage"
  proof (cases "p \<in> seen")
    case True
    then show ?thesis using append_page_frame_ok [OF wf(1,2), of out "E p"] that by auto
  next
    case False
    then show ?thesis using append_best_ok [OF wf(1,2) base assms(4), of out source] that by auto
  qed
  have ap: "apply_frame fr F = F(p := b)" using fr(2,3) Cons.prems(3) by (auto simp: frame_for_def)
  have len: "length (frame_bytes fr) = frame_encoded_len fr ?ps" "frame_encoded_len fr ?ps \<le> 13 + unat ?ps"
    using fr(2) by (simp_all add: frame_for_def frame_valid_def length_frame_bytes)
  let ?pp = "\<lparr>pp_page_id = p, pp_encoded_len = frame_encoded_len fr ?ps, pp_frame_offset = offset + of_nat (length out),
    pp_payload = (if enc = EncPage \<and> \<not> hint then OnDiskFullPage else PreparedResident b enc)\<rparr>"
  have agree: "(F(p := b)) q = E q" if "q \<notin> insert p seen" for q using that Cons.prems(3) by simp
  have bound: "unat offset + length (out @ frame_bytes fr) + length pages * (13 + unat ?ps) < 2 ^ 63"
    using Cons.prems(4) len by simp
  obtain new prs where ih: "prepare_frames w offset hint pages bases' (insert p seen) (out @ frame_bytes fr) (pr @ [?pp]) =
      Inr ((out @ frame_bytes fr) @ concat (map frame_bytes new), insert p seen \<union> fst ` set pages, (pr @ [?pp]) @ prs)"
    "prepared_for ?ps (unat offset + length (out @ frame_bytes fr)) new pages prs" "frames_write new pages (F(p := b))"
    "log_length ?ps new \<le> length pages * (13 + unat ?ps)"
    using Cons.IH [OF wf(3) bases(2) agree bound] by blast
  have "unat (offset + of_nat (length out)) = unat offset + length out" using Cons.prems(4) by (intro memfile.unat_off_add) simp
  then show ?case using ih fr bases(1) ap len wf(2)
    by (intro exI [of _ "fr # new"] exI [of _ "?pp # prs"]) (auto simp: pb frame_for_def Let_def add.assoc)
qed

section \<open>Looking up the bases\<close>

text \<open>Reading pages changes the cache and the buffer pool of the pager at most.\<close>

definition pager_kept :: "('f \<Rightarrow> bool) \<Rightarrow> ('f \<Rightarrow> bytes) \<Rightarrow> 'f Pager \<Rightarrow> 'f Pager \<Rightarrow> bool" where
  "pager_kept ok content pg pg' \<longleftrightarrow> pager_ok ok content pg' \<and> pg_file pg' = pg_file pg \<and>
     pg_page_size pg' = pg_page_size pg \<and> pg_db_page_count pg' = pg_db_page_count pg"

lemma pager_kept_trans: "pager_kept ok content pg pg' \<Longrightarrow> pager_kept ok content pg' pg'' \<Longrightarrow> pager_kept ok content pg pg''"
  by (simp add: pager_kept_def)

lemma pager_kept_page: "pager_kept ok content pg pg' \<Longrightarrow> pager_page content pg' = pager_page content pg"
  by (simp add: pager_kept_def pager_page_def)

definition retaining :: "('w, 'x, 'f) wal_sys \<Rightarrow> bool" where
  "retaining w \<longleftrightarrow> active_reader_count (si_reader_registry w) > 0 \<or> retained_snapshot_lsn w \<noteq> None"

lemma wal_ok_pager_kept:
  assumes "wal_ok wok wcontent ok content n gs fs w" "pager_kept ok content (ws_pager w) pg"
  shows "wal_ok wok wcontent ok content n gs fs (w\<lparr>ws_pager := pg\<rparr>)"
  using assms by (intro wal_ok_same [OF assms(1)]) (simp_all add: wal_ok_def wal_log_def retained_snapshot_lsn_def pager_kept_def)

context wal_world
begin

lemma lookup_base_page_ok:
  assumes ok: "wal_ok winv wcontent inv content n gs fs w" and p: "p \<noteq> 0"
  shows "\<exists>pg source. lookup_base_page wops ops xops (si_wal_end_lsn w) p w =
      Some (Inr (Some (replay fs (pager_page content (ws_pager w)) p, source)), w\<lparr>ws_pager := pg\<rparr>) \<and>
    pager_kept inv content (ws_pager w) pg"
proof -
  let ?D = "pager_page content (ws_pager w)" and ?s = "si_wal_end_lsn w"
  have log: "wal_log winv wcontent fs w" and pg: "pager_ok inv content (ws_pager w)" "pg_page_size (ws_pager w) = si_page_size w"
    and sc: "si_index_sidecar w = None" and sh: "snapshot_holds (si_page_size w) fs ?D (si_index w) ?s"
    using ok by (simp_all add: wal_ok_def held_snapshots_def)
  have at: "pages_at (si_page_size w) fs ?D ?s = replay fs ?D" using log by (intro pages_at_end) (simp add: wal_log_def)
  show ?thesis
  proof (cases "latest_visible (si_index w) p ?s")
    case None
    then have D: "replay fs ?D p = ?D p"
      using sh [unfolded snapshot_holds_def, THEN conjunct2, rule_format, of p] by (simp add: at)
    obtain c pool where r: "read_page ops p (ws_pager w) = Some (Inr (?D p), (ws_pager w)\<lparr>pg_cache := c, pg_page_pool := pool\<rparr>)"
      "pager_ok inv content ((ws_pager w)\<lparr>pg_cache := c, pg_page_pool := pool\<rparr>)" using db.read_page_ok [OF pg(1) p] by blast
    show ?thesis using None sc D r
      by (intro exI [of _ "(ws_pager w)\<lparr>pg_cache := c, pg_page_pool := pool\<rparr>"] exI [of _ MainDatabase])
         (simp add: lookup_base_page_def promote_spilled_latest_locked_def with_pager_def pager_kept_def)
  next
    case (Some v)
    have y: "version_yields (si_page_size w) fs ?D (si_index w) p v (replay fs ?D p)"
      using sh [unfolded snapshot_holds_def, THEN conjunct2, rule_format, of p] Some by (simp add: at)
    have "pager_disk inv content (ws_pager w)" using pg(1) by (simp add: pager_ok_def)
    then obtain pool where m: "materialize_version_locked wops ops p v w =
        Some (Inr (replay fs ?D p), w\<lparr>ws_pager := (ws_pager w)\<lparr>pg_page_pool := pool\<rparr>\<rparr>)"
      using materialize_ok [OF log _ pg(2) y p] by blast
    then show ?thesis using Some sc pg(1)
      by (intro exI [of _ "(ws_pager w)\<lparr>pg_page_pool := pool\<rparr>"]) (simp add: lookup_base_page_def Let_def pager_kept_def)
  qed
qed

lemma lookup_bases_ok:
  assumes "wal_ok winv wcontent inv content n gs fs w" "pages_wf (si_page_size w) pages"
  shows "\<exists>pg bases. pmapM (\<lambda>(p, _). lookup_base_page wops ops xops (si_wal_end_lsn w) p) pages w =
      Some (Inr bases, w\<lparr>ws_pager := pg\<rparr>) \<and> pager_kept inv content (ws_pager w) pg \<and>
    bases_of (replay fs (pager_page content (ws_pager w))) pages bases"
  using assms
proof (induction pages arbitrary: w)
  case Nil
  then show ?case by (intro exI [of _ "ws_pager w"]) (simp add: bases_of_def pager_kept_def wal_ok_def)
next
  case (Cons pb pages)
  obtain p b where pb: "pb = (p, b)" by fastforce
  obtain pg source where l: "lookup_base_page wops ops xops (si_wal_end_lsn w) p w =
      Some (Inr (Some (replay fs (pager_page content (ws_pager w)) p, source)), w\<lparr>ws_pager := pg\<rparr>)"
    "pager_kept inv content (ws_pager w) pg" using lookup_base_page_ok [OF Cons.prems(1), of p xops] Cons.prems(2) by (auto simp: pb)
  have "wal_ok winv wcontent inv content n gs fs (w\<lparr>ws_pager := pg\<rparr>)" by (rule wal_ok_pager_kept [OF Cons.prems(1) l(2)])
  then obtain pg' bases where r: "pmapM (\<lambda>(p, _). lookup_base_page wops ops xops (si_wal_end_lsn w) p) pages (w\<lparr>ws_pager := pg\<rparr>) =
      Some (Inr bases, w\<lparr>ws_pager := pg'\<rparr>)" "pager_kept inv content pg pg'"
    "bases_of (replay fs (pager_page content pg)) pages bases"
    using Cons.IH [of "w\<lparr>ws_pager := pg\<rparr>"] Cons.prems(2) by (auto simp: pb)
  then show ?case using l pager_kept_trans [OF l(2) r(2)] pager_kept_page [OF l(2)]
    by (auto simp: pb bases_of_def)
qed

lemma lookup_batch_ok:
  assumes "wal_ok winv wcontent inv content n gs fs w" "pages_wf (si_page_size w) pages"
  shows "\<exists>pg bases. lookup_base_pages_batch wops ops xops pages (si_wal_end_lsn w) w =
      Some (Inr (retaining w, bases), w\<lparr>ws_pager := pg\<rparr>) \<and> pager_kept inv content (ws_pager w) pg \<and>
    bases_of (replay fs (pager_page content (ws_pager w))) pages bases"
proof -
  obtain pg bases where "pmapM (\<lambda>(p, _). lookup_base_page wops ops xops (si_wal_end_lsn w) p) pages w =
      Some (Inr bases, w\<lparr>ws_pager := pg\<rparr>)" "pager_kept inv content (ws_pager w) pg"
    "bases_of (replay fs (pager_page content (ws_pager w))) pages bases" using lookup_bases_ok [OF assms, of xops] by blast
  then show ?thesis
    by (intro exI [of _ pg] exI [of _ bases]) (simp add: lookup_base_pages_batch_def retaining_def Let_def)
qed

end

section \<open>Writing the frames\<close>

text \<open>The file of the log after \<open>bs\<close> was written from position \<open>start\<close> on, everything before being as in \<open>c\<close>.\<close>

definition log_tail :: "('w \<Rightarrow> bool) \<Rightarrow> ('w \<Rightarrow> bytes) \<Rightarrow> bytes \<Rightarrow> nat \<Rightarrow> bytes \<Rightarrow> ('w, 'x, 'f) wal_sys \<Rightarrow> bool" where
  "log_tail wok wcontent c start bs w \<longleftrightarrow> wok (si_file w) \<and> unat (si_allocated_len w) = length (wcontent (si_file w)) \<and>
     start + length bs \<le> length (wcontent (si_file w)) \<and> take (start + length bs) (wcontent (si_file w)) = take start c @ bs"

text \<open>The file once the header points behind \<open>bs\<close>.\<close>

definition log_written :: "('w \<Rightarrow> bool) \<Rightarrow> ('w \<Rightarrow> bytes) \<Rightarrow> bytes \<Rightarrow> nat \<Rightarrow> bytes \<Rightarrow> u64 \<Rightarrow> ('w, 'x, 'f) wal_sys \<Rightarrow> bool" where
  "log_written wok wcontent c start bs e w \<longleftrightarrow> unat e = start + length bs \<and> wok (si_file w) \<and>
     unat (si_allocated_len w) = length (wcontent (si_file w)) \<and>
     (\<exists>c1. wcontent (si_file w) = file_patch c1 16 (u64_le e) \<and> take (unat e) c1 = take start c @ bs \<and> unat e \<le> length c1)"

lemma wal_sys_order:
  fixes w :: "('w, 'x, 'f) wal_sys"
  shows "w\<lparr>ws_pager := pg, si_file := f, si_allocated_len := a\<rparr> = w\<lparr>si_file := f, si_allocated_len := a, ws_pager := pg\<rparr>"
  by simp

lemma wal_ok_sized:
  assumes "wal_ok wok wcontent ok content n gs fs w"
  shows "pages_sized (si_page_size w) (replay fs (pager_page content (ws_pager w)))" "4096 \<le> unat (si_page_size w)"
proof -
  show "pages_sized (si_page_size w) (replay fs (pager_page content (ws_pager w)))"
    using assms by (intro replay_sized) (simp_all add: wal_ok_def wal_log_def pages_sized_def pager_page_def)
  show "4096 \<le> unat (si_page_size w)" using assms by (intro page_size_bounds) (simp add: wal_ok_def wal_log_def)
qed

lemma frames_length: "\<forall>fr \<in> set fs. frame_valid page_size fr \<Longrightarrow> length (concat (map frame_bytes fs)) = log_length page_size fs"
  by (intro length_frames) (simp add: frame_valid_def)

lemma page_updates_other: "p \<notin> fst ` set ps \<Longrightarrow> page_updates ps E p = E p"
  by (induction ps arbitrary: E) auto

lemma take_file_patch:
  assumes "off + length b \<le> length c"
  shows "take (off + length b) (file_patch c off b) = take off c @ b"
  using assms by (simp add: file_patch_def)

context wal_world
begin

lemma ensure_capacity_ok:
  assumes f: "winv (si_file w)" "unat (si_allocated_len w) = length (wcontent (si_file w))" and req: "unat req < 2 ^ 62"
  shows "\<exists>b f a. ensure_capacity wops req w = Some (Inr b, w\<lparr>si_file := f, si_allocated_len := a\<rparr>) \<and> winv f \<and>
    unat a = length (wcontent f) \<and> unat req \<le> length (wcontent f) \<and> length (wcontent (si_file w)) \<le> length (wcontent f) \<and>
    take (length (wcontent (si_file w))) (wcontent f) = wcontent (si_file w)"
proof (cases "si_allocated_len w \<ge> req")
  case True
  then show ?thesis using f
    by (intro exI [of _ False] exI [of _ "si_file w"] exI [of _ "si_allocated_len w"])
       (simp add: ensure_capacity_def word_le_nat_alt)
next
  case False
  let ?k = "div_ceil (unat req) WAL_PREALLOC_CHUNK_BYTES"
  let ?t = "u64_saturating_mul (of_nat ?k) (of_nat WAL_PREALLOC_CHUNK_BYTES)"
  have k: "unat req \<le> ?k * 16777216" "?k * 16777216 < unat req + 16777216"
    by (simp_all add: div_ceil_def WAL_PREALLOC_CHUNK_BYTES_def)
  then have "unat (of_nat ?k :: u64) = ?k" using req by (intro unat_of_nat_small(3)) simp
  then have t: "unat ?t = ?k * 16777216" using k req
    by (simp add: u64_saturating_mul_def WAL_PREALLOC_CHUNK_BYTES_def unat_word_ariths)
  then have "unat ?t < 2 ^ 63" using k req by simp
  then obtain f' where f': "vf_set_len wops ?t (si_file w) = (Inr (), f')" "winv f'"
    "wcontent f' = vec_resize (wcontent (si_file w)) (unat ?t)" using wal.file_set_len [OF f(1)] by blast
  have "length (wcontent (si_file w)) \<le> unat req" using False f(2) by (simp add: word_le_nat_alt)
  then show ?thesis using False f' t k
    by (intro exI [of _ True] exI [of _ f'] exI [of _ ?t])
       (simp add: ensure_capacity_def with_wal_file_def wal_upd_def Let_def vec_resize_def)
qed

lemma write_behind_ok:
  assumes tail: "log_tail winv wcontent c start bs w" and off: "unat offset = start + length bs"
    and bound: "unat offset + length batch < 2 ^ 62" "batch \<noteq> []"
  shows "\<exists>b f0 f a. ensure_capacity wops (offset + of_nat (length batch)) w = Some (Inr b, w\<lparr>si_file := f0, si_allocated_len := a\<rparr>) \<and>
    (\<forall>ws. write_all_at_many wops ((offset, batch) # ws) f0 = write_all_at_many wops ws f) \<and>
    log_tail winv wcontent c start (bs @ batch) (w\<lparr>si_file := f, si_allocated_len := a\<rparr>)"
proof -
  have f: "winv (si_file w)" "unat (si_allocated_len w) = length (wcontent (si_file w))"
    "start + length bs \<le> length (wcontent (si_file w))" "take (start + length bs) (wcontent (si_file w)) = take start c @ bs"
    using tail by (simp_all add: log_tail_def)
  have e: "unat (offset + of_nat (length batch)) = unat offset + length batch" using bound by (intro wal.unat_off_add) simp
  obtain b f0 a where c0: "ensure_capacity wops (offset + of_nat (length batch)) w = Some (Inr b, w\<lparr>si_file := f0, si_allocated_len := a\<rparr>)"
    "winv f0" "unat a = length (wcontent f0)" "unat offset + length batch \<le> length (wcontent f0)"
    "length (wcontent (si_file w)) \<le> length (wcontent f0)" "take (length (wcontent (si_file w))) (wcontent f0) = wcontent (si_file w)"
    using ensure_capacity_ok [OF f(1,2), of "offset + of_nat (length batch)"] e bound by auto
  have b63: "unat offset + length batch < 2 ^ 63" using bound by simp
  obtain f' where f': "write_many_loop wops offset batch 0 f0 = (Inr (), f')" "winv f'"
      "wcontent f' = file_patch (wcontent f0) (unat offset) batch"
    using wal.write_many_loop_ok [OF c0(2) _ b63 bound(2), of 0] by auto
  have "take (unat offset) (wcontent f0) = take (unat offset) (wcontent (si_file w))"
    using f(3) off by (subst c0(6) [symmetric]) (simp add: min_absorb1)
  then have "take (unat offset + length batch) (wcontent f') = take start c @ bs @ batch"
    using take_file_patch [OF c0(4)] f'(3) f(4) off by simp
  then have "log_tail winv wcontent c start (bs @ batch) (w\<lparr>si_file := f', si_allocated_len := a\<rparr>)"
    using f' c0(3,4) off by (simp add: log_tail_def add.assoc)
  moreover have "\<forall>ws. write_all_at_many wops ((offset, batch) # ws) f0 = write_all_at_many wops ws f'" using f'(1) by simp
  ultimately show ?thesis using c0(1) by blast
qed

lemma write_batch_ok:
  assumes "log_tail winv wcontent c start bs w" "unat offset = start + length bs" "unat offset + length batch < 2 ^ 62" "batch \<noteq> []"
  shows "\<exists>f a. write_batch wops offset batch w =
      Some (Inr (offset + of_nat (length batch)), w\<lparr>si_file := f, si_allocated_len := a\<rparr>) \<and>
    log_tail winv wcontent c start (bs @ batch) (w\<lparr>si_file := f, si_allocated_len := a\<rparr>)"
proof -
  obtain b f0 f a where w: "ensure_capacity wops (offset + of_nat (length batch)) w = Some (Inr b, w\<lparr>si_file := f0, si_allocated_len := a\<rparr>)"
    "\<forall>ws. write_all_at_many wops ((offset, batch) # ws) f0 = write_all_at_many wops ws f"
    "log_tail winv wcontent c start (bs @ batch) (w\<lparr>si_file := f, si_allocated_len := a\<rparr>)"
    using write_behind_ok [OF assms] by blast
  from w(2) have "write_all_at_many wops [(offset, batch)] f0 = (Inr (), f)" by simp
  then show ?thesis using w(1,3)
    by (intro exI [of _ f] exI [of _ a]) (simp add: write_batch_def Let_def with_wal_file_def del: write_all_at_many.simps)
qed

lemma write_commit_group_ok:
  assumes tail: "log_tail winv wcontent c start bs w" and off: "unat offset = start + length bs"
    and bound: "unat offset + length batch + 13 < 2 ^ 62" "32 \<le> start"
  shows "\<exists>e f a. write_commit_group wops offset batch w = Some (Inr e, w\<lparr>si_file := f, si_allocated_len := a\<rparr>) \<and>
    log_written winv wcontent c start (bs @ batch @ COMMIT_FRAME_BYTES) e (w\<lparr>si_file := f, si_allocated_len := a\<rparr>)"
proof -
  let ?b = "batch @ COMMIT_FRAME_BYTES" and ?e = "offset + of_nat (length (batch @ COMMIT_FRAME_BYTES))"
  have lc: "length COMMIT_FRAME_BYTES = 13" by (simp add: COMMIT_FRAME_BYTES_def)
  have bd: "unat offset + length ?b < 2 ^ 62" "?b \<noteq> []" using bound(1) lc by auto
  have e: "unat ?e = start + length (bs @ ?b)" using bd(1) off wal.unat_off_add [of offset "length ?b"] by simp
  obtain x f0 f a where w: "ensure_capacity wops ?e w = Some (Inr x, w\<lparr>si_file := f0, si_allocated_len := a\<rparr>)"
    "\<forall>ws. write_all_at_many wops ((offset, ?b) # ws) f0 = write_all_at_many wops ws f"
    "log_tail winv wcontent c start (bs @ ?b) (w\<lparr>si_file := f, si_allocated_len := a\<rparr>)"
    using write_behind_ok [OF tail off bd] by blast
  have wf: "winv f" "unat a = length (wcontent f)" "unat ?e \<le> length (wcontent f)" "take (unat ?e) (wcontent f) = take start c @ bs @ ?b"
    using w(3) e by (simp_all add: log_tail_def)
  have "u64_le ?e \<noteq> []" "unat (16 :: u64) + length (u64_le ?e) < 2 ^ 63" by (simp_all flip: length_0_conv)
  then obtain f' where f': "write_many_loop wops 16 (u64_le ?e) 0 f = (Inr (), f')" "winv f'"
      "wcontent f' = file_patch (wcontent f) 16 (u64_le ?e)"
    using wal.write_many_loop_ok [OF wf(1), of 0 "u64_le ?e" 16] by auto
  have "write_all_at_many wops [(offset, ?b), (16, u64_le ?e)] f0 = (Inr (), f')" using w(2) f'(1) by simp
  then have "write_commit_group wops offset batch w = Some (Inr ?e, w\<lparr>si_file := f', si_allocated_len := a\<rparr>)"
    using w(1) by (simp add: write_commit_group_def Let_def with_wal_file_def del: write_all_at_many.simps length_append)
  moreover have "log_written winv wcontent c start (bs @ ?b) ?e (w\<lparr>si_file := f', si_allocated_len := a\<rparr>)"
    using e f' wf bound(2) unfolding log_written_def by (intro conjI exI [of _ "wcontent f"]) simp_all
  ultimately show ?thesis by blast
qed

lemma wal_ok_tail:
  assumes ok: "wal_ok winv wcontent inv content n gs fs w" and pg: "pager_kept inv content (ws_pager w) pg"
    and tail: "log_tail winv wcontent (wcontent (si_file w)) (32 + log_length (si_page_size w) fs) bs
      (w\<lparr>si_file := f, si_allocated_len := a, ws_pager := pg\<rparr>)"
  shows "wal_ok winv wcontent inv content n gs fs (w\<lparr>si_file := f, si_allocated_len := a, ws_pager := pg\<rparr>)"
proof -
  let ?s = "32 + log_length (si_page_size w) fs" and ?c = "wcontent (si_file w)" and ?e = "log_end (si_page_size w) fs"
  have log: "wal_log winv wcontent fs w" using ok by (simp add: wal_ok_def)
  then have l: "?s \<le> length ?c" by (cases "fs = []") (simp_all add: wal_log_def log_end_def)
  have t: "take ?s (take (?s + length bs) (wcontent f)) = take ?s (take ?s ?c @ bs)" "?s + length bs \<le> length (wcontent f)"
    using tail by (simp_all add: log_tail_def)
  then have eq: "take ?s (wcontent f) = take ?s ?c" using l by simp
  have "take 32 (wcontent f) = take 32 ?c" "take ?e (wcontent f) = take ?e ?c"
    using arg_cong [OF eq, of "take 32"] arg_cong [OF eq, of "take ?e"] log_end_le [of "si_page_size w" fs] by (simp_all add: min_def)
  then have "wal_log winv wcontent fs (w\<lparr>si_file := f, si_allocated_len := a, ws_pager := pg\<rparr>)"
    using log tail t(2) log_end_le [of "si_page_size w" fs] by (simp add: wal_log_def log_tail_def)
  then show ?thesis using ok pg pager_kept_page [OF pg]
    by (simp add: wal_ok_def pager_kept_def held_snapshots_def retained_snapshot_lsn_def)
qed

lemma prepare_chunk_ok:
  assumes ok: "wal_ok winv wcontent inv content n gs fs w" and E: "E = replay fs (pager_page content (ws_pager w))"
    and wf: "pages_wf (si_page_size w) chunk" and F: "\<And>p. p \<notin> seen \<Longrightarrow> F p = E p"
    and bound: "unat offset + length chunk * (13 + unat (si_page_size w)) < 2 ^ 63"
  shows "\<exists>pg bases new prs. lookup_base_pages_batch wops ops xops chunk (si_wal_end_lsn w) w =
      Some (Inr (retaining w, bases), w\<lparr>ws_pager := pg\<rparr>) \<and> pager_kept inv content (ws_pager w) pg \<and>
    prepare_frames (w\<lparr>ws_pager := pg\<rparr>) offset hint chunk bases seen [] prepared =
      Inr (concat (map frame_bytes new), seen \<union> fst ` set chunk, prepared @ prs) \<and>
    prepared_for (si_page_size w) (unat offset) new chunk prs \<and> frames_write new chunk F \<and>
    log_length (si_page_size w) new \<le> length chunk * (13 + unat (si_page_size w))"
proof -
  obtain pg bases where l: "lookup_base_pages_batch wops ops xops chunk (si_wal_end_lsn w) w =
      Some (Inr (retaining w, bases), w\<lparr>ws_pager := pg\<rparr>)" "pager_kept inv content (ws_pager w) pg" "bases_of E chunk bases"
    using lookup_batch_ok [OF ok wf, of xops] by (auto simp: E)
  let ?w = "w\<lparr>ws_pager := pg\<rparr>"
  have "pages_wf (si_page_size ?w) chunk" "pages_sized (si_page_size ?w) E" "512 \<le> unat (si_page_size ?w)"
    "unat offset + length ([] :: bytes) + length chunk * (13 + unat (si_page_size ?w)) < 2 ^ 63"
    using wf wal_ok_sized [OF ok] bound by (simp_all add: E)
  from prepare_frames_ok [OF this(1) l(3) this(2,3) F this(4)]
  obtain new prs where "prepare_frames ?w offset hint chunk bases seen [] prepared =
      Inr ([] @ concat (map frame_bytes new), seen \<union> fst ` set chunk, prepared @ prs)"
    "prepared_for (si_page_size ?w) (unat offset + length ([] :: bytes)) new chunk prs" "frames_write new chunk F"
    "log_length (si_page_size ?w) new \<le> length chunk * (13 + unat (si_page_size ?w))" by blast
  then have "prepare_frames ?w offset hint chunk bases seen [] prepared =
      Inr (concat (map frame_bytes new), seen \<union> fst ` set chunk, prepared @ prs)"
    "prepared_for (si_page_size w) (unat offset) new chunk prs" "frames_write new chunk F"
    "log_length (si_page_size w) new \<le> length chunk * (13 + unat (si_page_size w))" by simp_all
  with l(1,2) show ?thesis by blast
qed

lemma prepare_loop_ok:
  assumes ok: "wal_ok winv wcontent inv content n gs fs w" and E: "E = replay fs (pager_page content (ws_pager w))"
    and start: "start = 32 + log_length (si_page_size w) fs"
  shows "pages_wf (si_page_size w) pages \<Longrightarrow> \<forall>fr \<in> set frs. frame_valid (si_page_size w) fr \<Longrightarrow>
    log_tail winv wcontent (wcontent (si_file w)) start (concat (map frame_bytes frs)) (w\<lparr>si_file := f, si_allocated_len := a, ws_pager := pg\<rparr>) \<Longrightarrow>
    pager_kept inv content (ws_pager w) pg \<Longrightarrow> unat offset = start + log_length (si_page_size w) frs \<Longrightarrow>
    unat offset + length pages * (13 + unat (si_page_size w)) + 13 < 2 ^ 62 \<Longrightarrow>
    \<exists>new prs e hint' f' a' pg'. prepare_loop wops ops xops (si_wal_end_lsn w) (si_page_size w) pages (fst ` set pre) prepared offset hint
        (w\<lparr>si_file := f, si_allocated_len := a, ws_pager := pg\<rparr>) =
      Some (Inr (prepared @ prs, e, hint'), w\<lparr>si_file := f', si_allocated_len := a', ws_pager := pg'\<rparr>) \<and>
      prepared_for (si_page_size w) (unat offset) new pages prs \<and>
      frames_write new pages (page_updates pre E) \<and> pager_kept inv content (ws_pager w) pg' \<and>
      log_written winv wcontent (wcontent (si_file w)) start (concat (map frame_bytes (frs @ new)) @ COMMIT_FRAME_BYTES) e
        (w\<lparr>si_file := f', si_allocated_len := a', ws_pager := pg'\<rparr>)"
proof (induction "length pages" arbitrary: pages frs f a pg offset pre prepared hint rule: less_induct)
  case less
  let ?ps = "si_page_size w" and ?w = "w\<lparr>si_file := f, si_allocated_len := a, ws_pager := pg\<rparr>" and ?c = "wcontent (si_file w)"
  have lf: "length (concat (map frame_bytes frs)) = log_length ?ps frs" by (rule frames_length [OF less.prems(2)])
  have st: "32 \<le> start" by (simp add: start)
  show ?case
  proof (cases "pages = []")
    case True
    have off: "unat offset = start + length (concat (map frame_bytes frs))" and bd: "unat offset + length [] + 13 < 2 ^ 62"
      using lf less.prems(5,6) by simp_all
    obtain e f' a' where g: "write_commit_group wops offset [] ?w = Some (Inr e, ?w\<lparr>si_file := f', si_allocated_len := a'\<rparr>)"
      "log_written winv wcontent ?c start (concat (map frame_bytes frs) @ [] @ COMMIT_FRAME_BYTES) e (?w\<lparr>si_file := f', si_allocated_len := a'\<rparr>)"
      using write_commit_group_ok [OF less.prems(3) off bd st] by blast
    let ?w' = "w\<lparr>si_file := f', si_allocated_len := a', ws_pager := pg\<rparr>"
    have "prepare_loop wops ops xops (si_wal_end_lsn w) ?ps pages (fst ` set pre) prepared offset hint ?w = Some (Inr (prepared @ [], e, hint), ?w')"
      using True g(1) by (subst prepare_loop.simps) simp
    moreover have "log_written winv wcontent ?c start (concat (map frame_bytes (frs @ [])) @ COMMIT_FRAME_BYTES) e ?w'"
      using g(2) by (simp add: wal_sys_order)
    moreover have "prepared_for ?ps (unat offset) [] pages []" "frames_write [] pages (page_updates pre E)"
      using True by simp_all
    ultimately show ?thesis using less.prems(4) by blast
  next
    case False
    let ?k = "wal_prepare_batch_page_limit ?ps" and ?F = "page_updates pre E"
    let ?chunk = "take ?k pages" and ?rest = "drop ?k pages"
    have k: "?k > 0" by (simp add: wal_prepare_batch_page_limit_def)
    have okw: "wal_ok winv wcontent inv content n gs fs ?w" using less.prems(3,4) unfolding start by (intro wal_ok_tail [OF ok])
    have wfs: "pages_wf ?ps ?chunk" "pages_wf ?ps ?rest" using less.prems(1) append_take_drop_id [of ?k pages] pages_wf_simps(3) by metis+
    have len: "length ?chunk * (13 + unat ?ps) + length ?rest * (13 + unat ?ps) = length pages * (13 + unat ?ps)"
      by (simp add: add_mult_distrib [symmetric] del: length_take length_drop add: length_append [symmetric])
    have Ew: "E = replay fs (pager_page content (ws_pager ?w))" using pager_kept_page [OF less.prems(4)] by (simp add: E)
    have wfc: "pages_wf (si_page_size ?w) ?chunk" and bdc: "unat offset + length ?chunk * (13 + unat (si_page_size ?w)) < 2 ^ 63"
      using wfs(1) less.prems(6) len by simp_all
    obtain pg1 bases new prs where c: "lookup_base_pages_batch wops ops xops ?chunk (si_wal_end_lsn ?w) ?w =
        Some (Inr (retaining ?w, bases), ?w\<lparr>ws_pager := pg1\<rparr>)" "pager_kept inv content (ws_pager ?w) pg1"
      "prepare_frames (?w\<lparr>ws_pager := pg1\<rparr>) offset (hint \<or> retaining ?w) ?chunk bases (fst ` set pre) [] prepared =
        Inr (concat (map frame_bytes new), fst ` set pre \<union> fst ` set ?chunk, prepared @ prs)"
      "prepared_for (si_page_size ?w) (unat offset) new ?chunk prs" "frames_write new ?chunk ?F"
      "log_length (si_page_size ?w) new \<le> length ?chunk * (13 + unat (si_page_size ?w))"
      using prepare_chunk_ok [where w = ?w and F = ?F and seen = "fst ` set pre" and xops = xops and
          hint = "hint \<or> retaining ?w" and prepared = prepared, OF okw Ew wfc page_updates_other bdc] by blast
    let ?w1 = "w\<lparr>si_file := f, si_allocated_len := a, ws_pager := pg1\<rparr>"
    have kept1: "pager_kept inv content (ws_pager w) pg1" using pager_kept_trans [OF less.prems(4)] c(2) by simp
    have l: "lookup_base_pages_batch wops ops xops ?chunk (si_wal_end_lsn w) ?w = Some (Inr (retaining ?w, bases), ?w1)" using c(1) by simp
    have p: "prepare_frames ?w1 offset (hint \<or> retaining ?w) ?chunk bases (fst ` set pre) [] prepared =
        Inr (concat (map frame_bytes new), fst ` set pre \<union> fst ` set ?chunk, prepared @ prs)"
      "prepared_for ?ps (unat offset) new ?chunk prs" "frames_write new ?chunk ?F"
      "log_length ?ps new \<le> length ?chunk * (13 + unat ?ps)" using c by simp_all
    have frs': "\<forall>fr \<in> set (frs @ new). frame_valid ?ps fr" using less.prems(2) prepared_for_frames [OF p(2)] by auto
    have ln: "length (concat (map frame_bytes new)) = log_length ?ps new" using frs' by (intro frames_length) simp
    have tail1: "log_tail winv wcontent ?c start (concat (map frame_bytes frs)) ?w1" using less.prems(3) by (simp add: log_tail_def)
    have off: "unat offset = start + length (concat (map frame_bytes frs))" using lf less.prems(5) by simp
    let ?loop = "prepare_loop wops ops xops (si_wal_end_lsn w) ?ps"
    show ?thesis
    proof (cases "?rest = []")
      case True
      then have all: "?chunk = pages" by simp
      have bd: "unat offset + length (concat (map frame_bytes new)) + 13 < 2 ^ 62" using ln p(4) len less.prems(6) by simp
      obtain e f' a' where g: "write_commit_group wops offset (concat (map frame_bytes new)) ?w1 = Some (Inr e, ?w1\<lparr>si_file := f', si_allocated_len := a'\<rparr>)"
        "log_written winv wcontent ?c start (concat (map frame_bytes frs) @ concat (map frame_bytes new) @ COMMIT_FRAME_BYTES) e
           (?w1\<lparr>si_file := f', si_allocated_len := a'\<rparr>)"
        using write_commit_group_ok [OF tail1 off bd st] by blast
      let ?w' = "w\<lparr>si_file := f', si_allocated_len := a', ws_pager := pg1\<rparr>"
      have "?loop pages (fst ` set pre) prepared offset hint ?w = Some (Inr (prepared @ prs, e, hint \<or> retaining ?w), ?w')"
        using False True g(1) l p(1) by (subst prepare_loop.simps) (simp add: Let_def)
      moreover have "log_written winv wcontent ?c start (concat (map frame_bytes (frs @ new)) @ COMMIT_FRAME_BYTES) e ?w'"
        using g(2) by (simp add: wal_sys_order)
      moreover have "prepared_for ?ps (unat offset) new pages prs" "frames_write new pages (page_updates pre E)"
        using p(2,3) all by simp_all
      ultimately show ?thesis using kept1 by blast
    next
      case rest: False
      have "new \<noteq> []" using prepared_for_frames [OF p(2)] False k by (auto simp: min_def split: if_splits)
      then have bd: "unat offset + length (concat (map frame_bytes new)) < 2 ^ 62" "concat (map frame_bytes new) \<noteq> []"
        using ln p(4) len less.prems(6) frame_len_pos [of "hd new" ?ps] by (cases new; simp add: frame_bytes_def)+
      obtain f2 a2 where g: "write_batch wops offset (concat (map frame_bytes new)) ?w1 =
          Some (Inr (offset + of_nat (length (concat (map frame_bytes new)))), ?w1\<lparr>si_file := f2, si_allocated_len := a2\<rparr>)"
        "log_tail winv wcontent ?c start (concat (map frame_bytes frs) @ concat (map frame_bytes new)) (?w1\<lparr>si_file := f2, si_allocated_len := a2\<rparr>)"
        using write_batch_ok [OF tail1 off bd] by blast
      let ?w2 = "w\<lparr>si_file := f2, si_allocated_len := a2, ws_pager := pg1\<rparr>" and ?o = "offset + of_nat (log_length ?ps new)"
      have tail2: "log_tail winv wcontent ?c start (concat (map frame_bytes (frs @ new))) ?w2" using g(2) by (simp add: wal_sys_order)
      have o: "unat ?o = unat offset + log_length ?ps new" using bd(1) ln by (intro wal.unat_off_add) simp
      have o': "unat ?o = start + log_length ?ps (frs @ new)" "unat ?o + length ?rest * (13 + unat ?ps) + 13 < 2 ^ 62"
        using o less.prems(5,6) p(4) len by simp_all
      have step: "?loop pages (fst ` set pre) prepared offset hint ?w =
          ?loop ?rest (fst ` set (pre @ ?chunk)) (prepared @ prs) ?o (hint \<or> retaining ?w) ?w2"
        using False rest g(1) l p(1) ln
        by (subst prepare_loop.simps) (simp add: Let_def image_Un wal_sys_order)
      have "length ?rest < length pages" using False k by simp
      from less.hyps [OF this wfs(2) frs' tail2 kept1 o', of "pre @ ?chunk" "prepared @ prs" "hint \<or> retaining ?w"]
      obtain new' prs' e hint' f' a' pg' where ih: "?loop ?rest (fst ` set (pre @ ?chunk)) (prepared @ prs) ?o (hint \<or> retaining ?w) ?w2 =
          Some (Inr ((prepared @ prs) @ prs', e, hint'), w\<lparr>si_file := f', si_allocated_len := a', ws_pager := pg'\<rparr>)"
        "prepared_for ?ps (unat ?o) new' ?rest prs'" "frames_write new' ?rest (page_updates (pre @ ?chunk) E)"
        "pager_kept inv content (ws_pager w) pg'"
        "log_written winv wcontent ?c start (concat (map frame_bytes ((frs @ new) @ new')) @ COMMIT_FRAME_BYTES) e
           (w\<lparr>si_file := f', si_allocated_len := a', ws_pager := pg'\<rparr>)" by blast
      have "prepared_for ?ps (unat offset) (new @ new') (?chunk @ ?rest) (prs @ prs')"
        using p(2) ih(2) o by (intro prepared_for_append) simp_all
      then have "prepared_for ?ps (unat offset) (new @ new') pages (prs @ prs')" by simp
      moreover have "frames_write (new @ new') (?chunk @ ?rest) (page_updates pre E)"
        using p(3) ih(3) by (intro frames_write_append) simp_all
      then have "frames_write (new @ new') pages (page_updates pre E)" by simp
      moreover have "?loop pages (fst ` set pre) prepared offset hint ?w =
          Some (Inr (prepared @ (prs @ prs'), e, hint'), w\<lparr>si_file := f', si_allocated_len := a', ws_pager := pg'\<rparr>)"
        using step ih(1) by simp
      moreover have "log_written winv wcontent ?c start (concat (map frame_bytes (frs @ (new @ new'))) @ COMMIT_FRAME_BYTES) e
           (w\<lparr>si_file := f', si_allocated_len := a', ws_pager := pg'\<rparr>)" using ih(5) by simp
      ultimately show ?thesis using ih(4) by blast
    qed
  qed
qed

end

end
