(* ===== verification/WalHistory.thy ===== *)
theory WalHistory
  imports WalCommit
begin

text \<open>
  Commits as a whole, and what sequences of commits, snapshots and checkpoints give: the pages a reader sees are those
  of the moment it began, and the files always recover to the pages committed last.
\<close>

section \<open>Publishing versions\<close>

lemma newest_at_last:
  "(\<And>v. v \<in> set vs \<Longrightarrow> wv_lsn v \<le> s) \<Longrightarrow> newest_at s vs = (if vs = [] then None else Some (last vs))"
  by (cases vs rule: rev_cases) simp_all

lemma newest_at_mem: "newest_at s vs = Some v \<Longrightarrow> v \<in> set vs \<and> wv_lsn v \<le> s"
  by (induction vs rule: rev_induct) (auto split: if_splits)

lemma version_yields_index:
  "(latest_visible idx' p (u64_saturating_sub (wv_lsn v) 1) = None) = (latest_visible idx p (u64_saturating_sub (wv_lsn v) 1) = None) \<Longrightarrow>
     version_yields page_size fs D idx' p v page \<longleftrightarrow> version_yields page_size fs D idx p v page"
  by (simp only: version_yields_def)

text \<open>The versions lie within the log, and its end is a snapshot that holds.\<close>

definition index_current :: "u32 \<Rightarrow> WalFrame list \<Rightarrow> pages \<Rightarrow> WalIndex \<Rightarrow> bool" where
  "index_current page_size fs D idx \<longleftrightarrow> (\<forall>p. \<forall>v \<in> set (page_versions idx p). unat (wv_lsn v) \<le> log_end page_size fs) \<and>
     (\<forall>p. if page_versions idx p = [] then replay fs D p = D p
          else version_yields page_size fs D idx p (last (page_versions idx p)) (replay fs D p))"

lemma snapshot_holds_end:
  assumes "unat e = log_end page_size fs" "\<forall>p. \<forall>v \<in> set (page_versions idx p). unat (wv_lsn v) \<le> log_end page_size fs"
  shows "snapshot_holds page_size fs D idx e \<longleftrightarrow> index_current page_size fs D idx"
proof -
  have "latest_visible idx p e = (if page_versions idx p = [] then None else Some (last (page_versions idx p)))" for p
    using assms unfolding latest_visible_eq by (intro newest_at_last) (simp add: word_le_nat_alt)
  then show ?thesis using assms by (simp add: snapshot_holds_def index_current_def pages_at_end cong: if_cong)
qed

lemma log_end_mono: "log_end page_size fs \<le> log_end page_size (fs @ gs)"
  by (simp add: log_end_def)

lemma log_end_snoc: "log_end page_size (fs @ [fr]) = 32 + log_length page_size fs + frame_encoded_len fr page_size"
  by (simp add: log_end_def)

text \<open>A frame that is not a page frame changes nothing.\<close>

lemma index_current_other:
  assumes "index_current page_size fs D idx" "\<not> is_page_frame (wf_frame_type fr)"
  shows "index_current page_size (fs @ [fr]) D idx"
proof -
  have "apply_frame fr E = E" for E using assms(2) by (auto simp: apply_frame_def is_page_frame_def split: FrameType.splits)
  then show ?thesis using assms(1) log_end_mono [of page_size fs "[fr]"]
    by (fastforce simp: index_current_def intro: version_yields_append split: if_splits)
qed

lemma snapshot_holds_append:
  assumes "snapshot_holds page_size fs D idx s"
  shows "snapshot_holds page_size (fs @ gs) D idx s"
  unfolding snapshot_holds_def
proof (intro conjI allI)
  have s: "unat s \<le> log_end page_size fs" using assms by (simp add: snapshot_holds_def)
  then show "unat s \<le> log_end page_size (fs @ gs)" using log_end_mono le_trans by blast
  fix p
  show "case latest_visible idx p s of None \<Rightarrow> pages_at page_size (fs @ gs) D s p = D p
    | Some v \<Rightarrow> version_yields page_size (fs @ gs) D idx p v (pages_at page_size (fs @ gs) D s p)"
    using assms [unfolded snapshot_holds_def, THEN conjunct2, rule_format, of p] pages_at_append [OF s] version_yields_append
    by (auto split: option.splits)
qed

text \<open>A version for the last frame of the log, carrying the page or pointing at a full image of it.\<close>

definition fresh_version :: "u32 \<Rightarrow> WalFrame list \<Rightarrow> pages \<Rightarrow> page_id \<Rightarrow> WalVersion \<Rightarrow> bool" where
  "fresh_version page_size fs D p v \<longleftrightarrow> fs \<noteq> [] \<and> p \<noteq> 0 \<and> length (replay fs D p) = unat page_size \<and>
     version_at page_size fs p v (length fs - 1) \<and>
     (case wv_payload v of Resident data _ _ _ \<Rightarrow> data = replay fs D p | OnDisk _ _ enc \<Rightarrow> enc = EncPage)"

lemma fresh_version_yields: "fresh_version page_size fs D p v \<Longrightarrow> version_yields page_size fs D idx p v (replay fs D p)"
  by (auto simp: version_yields_def fresh_version_def intro!: exI [of _ "length fs - 1"] split: WalVersionPayload.splits)

lemma fresh_version_lsn: "fresh_version page_size fs D p v \<Longrightarrow> unat (wv_lsn v) = log_end page_size fs"
  by (auto simp: fresh_version_def version_at_def log_end_def)

lemma publish_version_ok:
  assumes cur: "index_current page_size fs D idx" and fr: "wf_page_id fr = p" "is_page_frame (wf_frame_type fr)"
    and v: "fresh_version page_size (fs @ [fr]) D p v"
    and idx': "page_versions idx' = (page_versions idx)(p := if retain then page_versions idx p @ [v] else [v])"
  shows "index_current page_size (fs @ [fr]) D idx'"
    and "retain \<Longrightarrow> snapshot_holds page_size fs D idx s \<Longrightarrow> snapshot_holds page_size (fs @ [fr]) D idx' s"
proof -
  have lsn: "unat (wv_lsn v) = log_end page_size (fs @ [fr])" by (rule fresh_version_lsn [OF v])
  have lt: "log_end page_size fs < log_end page_size (fs @ [fr])"
    using frame_len_pos [of fr page_size] by (simp add: log_end_def)
  show "index_current page_size (fs @ [fr]) D idx'"
    unfolding index_current_def
  proof (intro conjI allI ballI)
    fix q u assume "u \<in> set (page_versions idx' q)"
    then have "u = v \<or> u \<in> set (page_versions idx q)" by (auto simp: idx' split: if_splits)
    then show "unat (wv_lsn u) \<le> log_end page_size (fs @ [fr])" using lsn lt cur by (fastforce simp: index_current_def)
  next
    fix q
    show "if page_versions idx' q = [] then replay (fs @ [fr]) D q = D q
      else version_yields page_size (fs @ [fr]) D idx' q (last (page_versions idx' q)) (replay (fs @ [fr]) D q)"
    proof (cases "q = p")
      case True
      then show ?thesis using fresh_version_yields [OF v] by (simp add: idx')
    next
      case False
      have "version_yields page_size (fs @ [fr]) D idx' q u page \<longleftrightarrow> version_yields page_size (fs @ [fr]) D idx q u page" for u page
        using False by (intro version_yields_index) (simp add: latest_visible_eq idx')
      moreover have "replay (fs @ [fr]) D q = replay fs D q" using False fr(1) by (simp add: apply_frame_other)
      ultimately show ?thesis using cur [unfolded index_current_def, THEN conjunct2, rule_format, of q] False
        by (auto simp: idx' intro: version_yields_append)
    qed
  qed
  assume retain and sh: "snapshot_holds page_size fs D idx s"
  have s: "unat s \<le> log_end page_size fs" using sh by (simp add: snapshot_holds_def)
  have same: "latest_visible idx' q t = latest_visible idx q t" if "unat t \<le> log_end page_size fs" for q t
    using that lsn lt \<open>retain\<close> by (simp add: latest_visible_eq idx' word_le_nat_alt)
  have "snapshot_holds page_size fs D idx' s"
    unfolding snapshot_holds_def
  proof (intro conjI allI)
    show "unat s \<le> log_end page_size fs" by (rule s)
    fix q
    have b: "unat (u64_saturating_sub (wv_lsn u) 1) \<le> log_end page_size fs" if "latest_visible idx q s = Some u" for u
      using newest_at_mem [OF that [unfolded latest_visible_eq]] s
      by (auto simp: u64_saturating_sub_def word_le_nat_alt unat_sub_if_size)
    show "case latest_visible idx' q s of None \<Rightarrow> pages_at page_size fs D s q = D q
      | Some v \<Rightarrow> version_yields page_size fs D idx' q v (pages_at page_size fs D s q)"
      using sh [unfolded snapshot_holds_def, THEN conjunct2, rule_format, of q] same [OF s] version_yields_index [of idx' q _ idx] same [OF b]
      by (auto split: option.splits)
  qed
  then show "snapshot_holds page_size (fs @ [fr]) D idx' s" by (rule snapshot_holds_append)
qed

text \<open>All versions of a transaction.\<close>

lemma frame_encoded_len_u32:
  assumes "is_supported_page_size page_size"
  shows "unat (of_nat (frame_encoded_len fr page_size) :: u32) = frame_encoded_len fr page_size"
proof -
  have "payload_size (wf_frame_type fr) page_size \<le> 16384"
    using payload_size_bound [of "wf_frame_type fr" page_size] page_size_bounds(2) [OF assms] by (simp add: DELTA_FRAME_PAYLOAD_SIZE_def)
  then show ?thesis by (intro unat_of_nat_small) (simp add: frame_encoded_len_def FRAME_HEADER_SIZE_def FRAME_TRAILER_SIZE_def)
qed

lemma prepared_version_fresh:
  assumes "is_supported_page_size page_size" "prepared_for page_size (32 + log_length page_size fs) (fr # frs) ((p, b) # ps) (pp # pps)"
    and "apply_frame fr (replay fs D) = (replay fs D)(p := b)" and "unat lsn = log_end page_size (fs @ [fr])"
  shows "fresh_version page_size (fs @ [fr]) D p (fst (prepared_page_version pp lsn))"
proof -
  have "p \<noteq> 0" using prepared_for_frames [OF assms(2)] assms(2) by (auto simp: frame_valid_def frame_ok_def)
  then show ?thesis using assms frame_encoded_len_u32 [OF assms(1), of fr]
    by (auto simp: fresh_version_def version_at_def prepared_page_version_def version_on_disk_def version_resident_def log_end_snoc
        split: PreparedWalPayload.splits)
qed

lemma publish_versions_ok:
  assumes "is_supported_page_size page_size" "prepared_for page_size (32 + log_length page_size fs) new ps prs"
    and "frames_write new ps (replay fs D)" "index_current page_size fs D idx" "unat lsn = 32 + log_length page_size fs"
    and "32 + log_length page_size (fs @ new) < 2 ^ 63"
  shows "index_current page_size (fs @ new) D (publish_versions retain kept lsn prs idx) \<and>
    (retain \<longrightarrow> snapshot_holds page_size fs D idx s \<longrightarrow> snapshot_holds page_size (fs @ new) D (publish_versions retain kept lsn prs idx) s)"
  using assms(2-)
proof (induction prs arbitrary: fs new ps idx lsn)
  case Nil
  then have "new = []" using prepared_for_frames [OF Nil(1)] by auto
  then show ?case using Nil by simp
next
  case (Cons pp prs)
  obtain fr new' p b ps' where e: "new = fr # new'" "ps = (p, b) # ps'"
    using prepared_for_frames [OF Cons.prems(1)] by (cases new; cases ps) auto
  let ?lsn = "lsn + of_nat (pp_encoded_len pp)" and ?v = "fst (prepared_page_version pp (lsn + of_nat (pp_encoded_len pp)))"
  have pf: "pp_page_id pp = p" "wf_page_id fr = p" "pp_encoded_len pp = frame_encoded_len fr page_size"
    "prepared_for page_size (32 + log_length page_size (fs @ [fr])) new' ps' prs" "is_page_frame (wf_frame_type fr)"
    using Cons.prems(1) prepared_for_frames [OF Cons.prems(1)] by (simp_all add: e add.assoc)
  have ap: "apply_frame fr (replay fs D) = (replay fs D)(p := b)" "frames_write new' ps' (replay (fs @ [fr]) D)"
    using Cons.prems(2) by (simp_all add: e)
  have lsn: "unat ?lsn = 32 + log_length page_size (fs @ [fr])"
    using Cons.prems(4,5) memfile.unat_off_add [of lsn "pp_encoded_len pp"] pf(3) by (simp add: e)
  then have le: "unat ?lsn = log_end page_size (fs @ [fr])" by (simp add: log_end_def)
  have fresh: "fresh_version page_size (fs @ [fr]) D p ?v"
    using prepared_version_fresh [OF assms(1) Cons.prems(1) [unfolded e] ap(1) le] .
  define idx' where "idx' = (let idx1 = add_version p ?v retain idx in
    if \<not> retain \<and> (\<not> snd (prepared_page_version pp ?lsn) \<or> kept) then unmark_dirty_since_demote p idx1 else idx1)"
  have pv: "page_versions idx' = (page_versions idx)(p := if retain then page_versions idx p @ [?v] else [?v])"
    by (simp add: idx'_def Let_def)
  note one = publish_version_ok [OF Cons.prems(3) pf(2,5) fresh pv]
  have bound: "32 + log_length page_size ((fs @ [fr]) @ new') < 2 ^ 63" using Cons.prems(5) by (simp add: e)
  have st: "publish_versions retain kept lsn (pp # prs) idx = publish_versions retain kept ?lsn prs idx'"
    by (simp add: idx'_def Let_def pf(1) split: prod.split)
  have "(fs @ [fr]) @ new' = fs @ new" by (simp add: e)
  then show ?case using Cons.IH [OF pf(4) ap(2) one(1) lsn bound] one(2) unfolding st by metis
qed

subsection \<open>Demotion after a commit\<close>

lemma index_current_demoted:
  assumes cur: "index_current page_size fs D idx" and k: "0 < k"
    and dem: "\<And>p. demoted (\<lambda>i v. reader_visible m v \<or> length (page_versions idx p) \<le> i + k) (page_versions idx p) (page_versions idx' p)"
  shows "index_current page_size fs D idx'"
proof -
  have meta: "map version_meta (page_versions idx' p) = map version_meta (page_versions idx p)" for p
    using demoted_meta [OF dem] .
  have lsns: "map wv_lsn (page_versions idx' p) = map wv_lsn (page_versions idx p)" for p
    using arg_cong [OF meta [of p], of "map fst"] by (simp add: version_meta_def comp_def)
  have len: "length (page_versions idx' p) = length (page_versions idx p)" for p using dem [of p] by (simp add: demoted_def)
  have last: "last (page_versions idx' p) = last (page_versions idx p)" if "page_versions idx p \<noteq> []" for p
  proof -
    let ?i = "length (page_versions idx p) - 1"
    have "?i < length (page_versions idx p)" "length (page_versions idx p) \<le> ?i + k" using that k by auto
    then have "page_versions idx' p ! ?i = page_versions idx p ! ?i" using dem [of p] unfolding demoted_def by blast
    moreover have "page_versions idx' p \<noteq> []" using that len [of p] by auto
    ultimately show ?thesis using that len [of p] by (simp add: last_conv_nth)
  qed
  have none: "latest_visible idx' p t = None \<longleftrightarrow> latest_visible idx p t = None" for p t
    using newest_at_meta [OF meta [of p], of t] by (cases "newest_at t (page_versions idx p)") (auto simp: latest_visible_eq)
  have "unat (wv_lsn v) \<le> log_end page_size fs" if "v \<in> set (page_versions idx' p)" for p v
  proof -
    have "wv_lsn v \<in> set (map wv_lsn (page_versions idx' p))" using that by simp
    then have "wv_lsn v \<in> set (map wv_lsn (page_versions idx p))" unfolding lsns .
    then show ?thesis using cur by (auto simp: index_current_def)
  qed
  moreover have "version_yields page_size fs D idx' p v page = version_yields page_size fs D idx p v page" for p v page
    by (rule version_yields_index [OF none])
  moreover have "page_versions idx' p = [] \<longleftrightarrow> page_versions idx p = []" for p using len [of p] by (metis length_0_conv)
  ultimately show ?thesis using cur last by (simp add: index_current_def)
qed

section \<open>The log after a commit\<close>

definition commit_frame :: WalFrame where
  "commit_frame = \<lparr>wf_frame_type = Commit, wf_page_id = 0, wf_payload = []\<rparr>"

lemma commit_frame_simps [simp]:
  "wf_frame_type commit_frame = Commit" "frame_valid page_size commit_frame" "frame_bytes commit_frame = COMMIT_FRAME_BYTES"
  "apply_frame commit_frame E = E" "frame_encoded_len commit_frame page_size = 13"
  using commit_frame_bytes
  by (simp_all add: commit_frame_def frame_valid_def frame_ok_def is_page_frame_def apply_frame_def frame_encoded_len_def
      FRAME_HEADER_SIZE_def FRAME_TRAILER_SIZE_def)

lemma closed_log_commit:
  assumes "closed_log fs" "\<forall>fr \<in> set new. is_page_frame (wf_frame_type fr)"
  shows "closed_log (fs @ new @ [commit_frame])"
  using assms by (auto simp: closed_log_def open_from_append is_page_frame_def)

lemma pending_within_commit:
  assumes "pending_within fs" "closed_log fs" "length new \<le> MAX_PENDING_RECOVERY_FRAMES"
  shows "pending_within (fs @ new @ [commit_frame])"
  unfolding pending_within_def
proof (intro allI impI)
  fix k assume k: "k < length (fs @ new @ [commit_frame])" "is_page_frame (wf_frame_type ((fs @ new @ [commit_frame]) ! k))"
  show "length (open_from [] (take k (fs @ new @ [commit_frame]))) < MAX_PENDING_RECOVERY_FRAMES"
  proof (cases "k < length fs")
    case True
    then show ?thesis using assms(1) k(2) by (simp add: pending_within_def nth_append)
  next
    case False
    have "k - length fs \<noteq> length new" using k(2) False by (auto simp: nth_append is_page_frame_def)
    then have "k - length fs < length new" using k(1) False by simp
    moreover have "length (open_from [] (take k (fs @ new @ [commit_frame]))) \<le> k - length fs"
      using assms(2) False length_open_from [of "[]" "take (k - length fs) (new @ [commit_frame])"]
      by (simp add: open_from_append closed_log_def)
    ultimately show ?thesis using assms(3) by simp
  qed
qed

lemma wal_log_extend:
  assumes log: "wal_log wok wcontent fs w" and new: "\<forall>fr \<in> set new. frame_valid (si_page_size w) fr \<and> is_page_frame (wf_frame_type fr)"
    and le: "length new \<le> MAX_PENDING_RECOVERY_FRAMES"
    and wr: "log_written wok wcontent (wcontent (si_file w)) (32 + log_length (si_page_size w) fs)
      (concat (map frame_bytes new) @ COMMIT_FRAME_BYTES) e w'"
    and w': "si_page_size w' = si_page_size w" "si_wal_end_lsn w' = e"
  shows "wal_log wok wcontent (fs @ new @ [commit_frame]) w'"
proof -
  let ?ps = "si_page_size w" and ?c = "wcontent (si_file w)" and ?c' = "wcontent (si_file w')" and ?fs = "fs @ new @ [commit_frame]"
  let ?s = "32 + log_length (si_page_size w) fs" and ?e = "log_end (si_page_size w) (fs @ new @ [commit_frame])"
  have old: "is_supported_page_size ?ps" "32 \<le> length ?c" "?s \<le> length ?c" "frames_at (take (log_end ?ps fs) ?c) 32 ?ps fs"
    "wal_header_decode (take 32 ?c) = Inr \<lparr>wh_page_size = ?ps, wh_wal_end_offset = si_wal_end_lsn w\<rparr>"
    "\<forall>fr \<in> set fs. frame_valid ?ps fr" "pending_within fs" "closed_log fs"
    using log by (cases "fs = []"; simp add: wal_log_def log_end_def)+
  have lc: "length COMMIT_FRAME_BYTES = 13" by (simp add: COMMIT_FRAME_BYTES_def)
  have ln: "length (concat (map frame_bytes new)) = log_length ?ps new" using new by (intro frames_length) simp
  obtain c1 where c1: "?c' = file_patch c1 16 (u64_le e)" "take (unat e) c1 = take ?s ?c @ concat (map frame_bytes (new @ [commit_frame]))"
    "unat e \<le> length c1" and e: "unat e = ?e" and f: "wok (si_file w')" "unat (si_allocated_len w') = length ?c'"
    using wr ln lc by (auto simp: log_written_def log_end_def)
  have e': "?e = ?s + log_length ?ps (new @ [commit_frame])" "32 \<le> unat e" by (simp_all add: log_end_def e)
  have nth1: "c1 ! i = ?c ! i" if "i < ?s" for i
    using arg_cong [OF c1(2), of "\<lambda>xs. xs ! i"] that old(3) e e' by (simp add: nth_append)
  have nth: "?c' ! i = c1 ! i" if "32 \<le> i" "i < unat e" for i
    using that c1(3) e'(2) by (subst c1(1), subst file_patch_nth) auto
  have len: "unat e \<le> length ?c'" using c1(1,3) e'(2) by simp
  have hdr: "wal_header_decode (take 32 ?c') = Inr \<lparr>wh_page_size = ?ps, wh_wal_end_offset = e\<rparr>"
  proof -
    have "take 32 c1 = take 32 ?c" using nth1 old(2) c1(3) e'(2) by (intro nth_equalityI) simp_all
    then show ?thesis using header_patch [of c1 ?ps "si_wal_end_lsn w" e] old(5) e'(2) c1(1,3) by simp
  qed
  have "frames_at (take ?e ?c') 32 ?ps fs"
  proof (cases "fs = []")
    case False
    then have le: "log_end ?ps fs = ?s" by (simp add: log_end_def)
    show ?thesis
    proof (rule frames_at_cong [OF old(4)])
      fix i assume i: "32 \<le> i" "i < ?s"
      then have "i < unat e" using e e' by simp
      then show "take ?e ?c' ! i = take (log_end ?ps fs) ?c ! i" using i nth nth1 e le by simp
    qed (use len e e' in simp)
  qed simp
  moreover have "frames_at (take ?e ?c') ?s ?ps (new @ [commit_frame])"
  proof (rule frames_at_slice)
    show "\<forall>fr \<in> set (new @ [commit_frame]). frame_ok ?ps fr" using new by (auto simp: frame_valid_def) (use commit_frame_simps(2) frame_valid_def in blast)
    have "bslice ?c' ?s ?e = bslice c1 ?s ?e" using nth len c1(3) e by (intro nth_equalityI) (simp_all add: nth_bslice)
    also have "\<dots> = bslice (take (unat e) c1) ?s ?e" by (simp add: bslice_def e drop_take)
    also have "\<dots> = concat (map frame_bytes (new @ [commit_frame]))"
      unfolding c1(2) using old(3) ln lc e'(1) by (simp add: bslice_append2)
    finally show "bslice (take ?e ?c') ?s (?s + log_length ?ps (new @ [commit_frame])) = concat (map frame_bytes (new @ [commit_frame]))"
      unfolding e'(1) [symmetric] by (subst bslice_take) simp_all
  qed (use len e e' in simp)
  ultimately have "frames_at (take ?e ?c') 32 ?ps ?fs" by (simp only: frames_at_append)
  then show ?thesis
    using f hdr len e e' old new w' pending_within_commit [OF old(7,8) le] closed_log_commit [OF old(8)]
    by (auto simp: wal_log_def)
qed

lemma log_length_bound:
  "\<forall>fr \<in> set fs. is_page_frame (wf_frame_type fr) \<Longrightarrow> 512 \<le> unat page_size \<Longrightarrow> log_length page_size fs \<le> length fs * (13 + unat page_size)"
proof (induction fs)
  case (Cons fr fs)
  have "frame_encoded_len fr page_size \<le> 13 + unat page_size"
    using Cons.prems by (cases "wf_frame_type fr")
      (simp_all add: is_page_frame_def frame_encoded_len_def FRAME_HEADER_SIZE_def FRAME_TRAILER_SIZE_def DELTA_FRAME_PAYLOAD_SIZE_def)
  then show ?case using Cons by simp
qed simp

section \<open>Commits\<close>

text \<open>A synchronisation leaves the content of the log alone.\<close>

context wal_world
begin

lemma sync_for_mode_ok:
  assumes "winv (si_file w)"
  shows "\<exists>f b c a d. sync_for_mode wops e w = Some (Inr (), w\<lparr>si_file := f, si_checkpoint_tail_sync_needed := b,
      si_checkpoint_tail_locally_synced := c, si_async_commit := a, ws_deferred_group_commit := d\<rparr>) \<and>
    winv f \<and> wcontent f = wcontent (si_file w)"
proof -
  obtain f' where f': "vf_sync_data wops (si_file w) = (Inr (), f')" "winv f'" "wcontent f' = wcontent (si_file w)"
    using wal.file_sync [OF assms] by blast
  let ?upd = "\<lambda>f b c a d. w\<lparr>si_file := f, si_checkpoint_tail_sync_needed := b, si_checkpoint_tail_locally_synced := c,
    si_async_commit := a, ws_deferred_group_commit := d\<rparr>"
  let ?b = "si_checkpoint_tail_sync_needed w" and ?c = "si_checkpoint_tail_locally_synced w" and ?a = "si_async_commit w"
  have "sync_unless_deferred wops w = Some (Inr (), ?upd f' False True ?a None) \<or>
      sync_unless_deferred wops w = Some (Inr (), ?upd (si_file w) ?b ?c ?a (Some True))"
    using f'(1) by (cases "ws_deferred_group_commit w")
      (simp_all add: sync_unless_deferred_def defer_sync_if_active_def sync_and_clear_def with_wal_file_def wal_upd_def
        clear_checkpoint_tail_sync_needed_def)
  then have "sync_for_mode wops e w = Some (Inr (), ?upd f' False True ?a None) \<or>
      sync_for_mode wops e w = Some (Inr (), ?upd (si_file w) ?b ?c ?a (Some True)) \<or>
      sync_for_mode wops e w = Some (Inr (), ?upd (si_file w) ?b ?c (map_option (note_write e) ?a) (ws_deferred_group_commit w)) \<or>
      sync_for_mode wops e w = Some (Inr (), ?upd (si_file w) ?b ?c ?a (ws_deferred_group_commit w))"
    by (cases "si_sync_mode w") (auto simp: sync_for_mode_def)
  then show ?thesis using assms f'(2,3) by blast
qed

lemma demote_after_commit_ok:
  assumes ok: "wal_ok winv wcontent inv content n gs fs w"
  shows "\<exists>idx. pignore (demote_cold_versions xops) w = Some (Inr (), w\<lparr>si_index := idx\<rparr>) \<and>
    wal_ok winv wcontent inv content n gs fs (w\<lparr>si_index := idx\<rparr>)"
proof (cases "min_retained_snapshot w = None")
  case False
  then have "pignore (demote_cold_versions xops) w = Some (Inr (), w\<lparr>si_index := si_index w\<rparr>)"
    by (auto simp: pignore_def demote_cold_versions_def)
  then show ?thesis using ok by (intro exI [of _ "si_index w"]) simp
next
  case True
  let ?D = "pager_page content (ws_pager w)" and ?idx = "fst (demote_cold None (si_resident_versions_per_page w) (si_index w))"
  have un: "gs = []" "retained_snapshot_lsn w = None"
    using True ok registry_min [of n "si_reader_registry w" gs]
    by (auto simp: min_retained_snapshot_def wal_ok_def split: option.splits if_splits)
  have sc: "si_index_sidecar w = None" and e: "unat (si_wal_end_lsn w) = log_end (si_page_size w) fs"
    and bd: "\<forall>p. \<forall>v \<in> set (page_versions (si_index w) p). unat (wv_lsn v) \<le> log_end (si_page_size w) fs"
    and k: "0 < unat (si_resident_versions_per_page w)"
    using ok by (simp_all add: wal_ok_def wal_log_def word_less_nat_alt)
  have "index_current (si_page_size w) fs ?D (si_index w)"
    using ok by (simp add: wal_ok_def held_snapshots_def flip: snapshot_holds_end [OF e bd])
  then have cur: "index_current (si_page_size w) fs ?D ?idx" by (rule index_current_demoted [OF _ k demote_cold_demotes])
  then have "\<forall>p. \<forall>v \<in> set (page_versions ?idx p). unat (wv_lsn v) \<le> log_end (si_page_size w) fs" by (simp add: index_current_def)
  moreover from this have "snapshot_holds (si_page_size w) fs ?D ?idx (si_wal_end_lsn w)" using cur snapshot_holds_end [OF e] by blast
  moreover have "held_snapshots gs w = {si_wal_end_lsn w}" using un by (simp add: held_snapshots_def)
  ultimately have "wal_ok winv wcontent inv content n gs fs (w\<lparr>si_index := ?idx\<rparr>)"
    using ok by (simp add: wal_ok_def wal_log_def)
  moreover have "pignore (demote_cold_versions xops) w = Some (Inr (), w\<lparr>si_index := ?idx\<rparr>)"
    using True sc by (simp add: pignore_def demote_cold_versions_def Let_def)
  ultimately show ?thesis by blast
qed

end

text \<open>What a commit keeps besides.\<close>

definition commit_kept :: "('f \<Rightarrow> bytes) \<Rightarrow> ('w, 'x, 'f) wal_sys \<Rightarrow> ('w, 'x, 'f) wal_sys \<Rightarrow> bool" where
  "commit_kept content w w' \<longleftrightarrow> wal_config w' = wal_config w \<and> si_reader_registry w' = si_reader_registry w \<and>
     si_checkpoint_pending w' = si_checkpoint_pending w \<and> si_checkpoint_epoch w' = si_checkpoint_epoch w \<and>
     pager_page content (ws_pager w') = pager_page content (ws_pager w) \<and>
     pg_db_page_count (ws_pager w') = pg_db_page_count (ws_pager w)"

context wal_world
begin

lemma publish_commit_ok:
  assumes ok: "wal_ok winv wcontent inv content n gs fs w" and pf: "prepared_for (si_page_size w) (32 + log_length (si_page_size w) fs) new ps prs"
    and fw: "frames_write new ps (replay fs (pager_page content (ws_pager w)))" and le: "length ps \<le> MAX_PENDING_RECOVERY_FRAMES"
    and wr: "log_written winv wcontent (wcontent (si_file w)) (32 + log_length (si_page_size w) fs)
      (concat (map frame_bytes new) @ COMMIT_FRAME_BYTES) e w1"
    and bound: "32 + log_length (si_page_size w) (fs @ new) < 2 ^ 63"
    and w1: "si_index w1 = si_index w" "si_index_sidecar w1 = None" "si_page_size w1 = si_page_size w" "wal_config w1 = wal_config w"
      "si_reader_registry w1 = si_reader_registry w" "pager_kept inv content (ws_pager w) (ws_pager w1)"
    and st: "unat start = 32 + log_length (si_page_size w) fs" and pub: "publish_commit max_page_count
      \<lparr>pc_commit_start_lsn = start, pc_end_lsn = e, pc_retain_history_hint = hint\<rparr> prs w1 = (demote, w2)"
  shows "wal_ok winv wcontent inv content n gs (fs @ new @ [commit_frame]) w2"
proof -
  let ?ps = "si_page_size w" and ?D = "pager_page content (ws_pager w)" and ?fs = "fs @ new @ [commit_frame]"
  let ?r = "hint \<or> active_reader_count (si_reader_registry w1) > 0 \<or> retained_snapshot_lsn w1 \<noteq> None"
  have log: "wal_log winv wcontent fs w" and ps: "is_supported_page_size ?ps" and reg: "registry_inv n (si_reader_registry w) gs" "n < 2 ^ 64"
    and en: "unat (si_wal_end_lsn w) = log_end ?ps fs"
    and bd: "\<forall>p. \<forall>v \<in> set (page_versions (si_index w) p). unat (wv_lsn v) \<le> log_end ?ps fs"
    using ok by (simp_all add: wal_ok_def wal_log_def)
  have cur: "index_current ?ps fs ?D (si_index w)" using ok by (simp add: wal_ok_def held_snapshots_def flip: snapshot_holds_end [OF en bd])
  note fr = prepared_for_frames [OF pf]
  obtain idx where w2: "si_index w2 = idx" "idx = publish_versions ?r (si_resident_versions_per_page w1 > 0) start prs (si_index w1)"
    "si_file w2 = si_file w1" "si_allocated_len w2 = si_allocated_len w1" "si_wal_end_lsn w2 = e" "ws_pager w2 = ws_pager w1"
    "si_page_size w2 = si_page_size w1" "si_reader_registry w2 = si_reader_registry w1" "wal_config w2 = wal_config w1" "si_index_sidecar w2 = None"
    using pub w1(2) by (auto simp: publish_commit_def Let_def wal_config_def)
  have ret: "retained_snapshot_lsn w1 = retained_snapshot_lsn w" "retained_snapshot_lsn w2 = retained_snapshot_lsn w"
    using w1(4) w2(9) by (simp_all add: wal_config_def retained_snapshot_lsn_def)
  note pubok = publish_versions_ok [OF ps pf fw cur st bound, of ?r "si_resident_versions_per_page w1 > 0"]
  have cur': "index_current ?ps ?fs ?D idx"
    using index_current_other [of ?ps "fs @ new" ?D idx commit_frame] pubok by (simp add: w2(2) w1(1) is_page_frame_def)
  have wl: "wal_log winv wcontent ?fs w2"
    using fr le wr w1(3) w2 by (intro wal_log_extend [OF log _ _ _]) (auto simp: log_written_def)
  then have e: "unat e = log_end ?ps ?fs" using w1(3) w2 by (simp add: wal_log_def)
  have bd': "\<forall>p. \<forall>v \<in> set (page_versions idx p). unat (wv_lsn v) \<le> log_end ?ps ?fs" using cur' by (simp add: index_current_def)
  have held: "snapshot_holds ?ps ?fs ?D idx s" if s: "s \<in> held_snapshots gs w2" for s
  proof (cases "s = e")
    case True
    then show ?thesis using cur' snapshot_holds_end [OF e bd'] by blast
  next
    case False
    then have "gs \<noteq> [] \<or> retained_snapshot_lsn w \<noteq> None" "s \<in> held_snapshots gs w"
      using s w2(5) ret by (auto simp: held_snapshots_def)
    then have "?r" "snapshot_holds ?ps fs ?D (si_index w) s" using registry_count [OF reg] ret w1(5) ok by (auto simp: wal_ok_def)
    then have "snapshot_holds ?ps (fs @ new) ?D idx s" using pubok unfolding w2(2) w1(1) by blast
    then show ?thesis using snapshot_holds_append [of ?ps "fs @ new" ?D idx s "[commit_frame]"] by simp
  qed
  then show ?thesis
    using ok wl w1 w2 bd' pager_kept_page [OF w1(6)] unfolding wal_ok_def by (simp add: wal_config_def pager_kept_def)
qed

lemma commit_at_ok:
  assumes ok: "wal_ok winv wcontent inv content n gs fs w" and wf: "pages_wf (si_page_size w) pages"
    and le: "length pages \<le> MAX_PENDING_RECOVERY_FRAMES"
    and bound: "45 + log_length (si_page_size w) fs + length pages * (13 + unat (si_page_size w)) < 2 ^ 62"
  shows "\<exists>new w'. commit_at cpu spawn_ok hash_order wops ops xops now pages max_page_count (latest_snapshot w) w =
      pbind (pignore (maybe_auto_checkpoint cpu spawn_ok hash_order wops ops xops now)) (\<lambda>_. pret (si_wal_end_lsn w')) w' \<and>
    wal_ok winv wcontent inv content n gs (fs @ new @ [commit_frame]) w' \<and> commit_kept content w w' \<and>
    replay (fs @ new @ [commit_frame]) (pager_page content (ws_pager w)) = page_updates pages (replay fs (pager_page content (ws_pager w)))"
proof -
  let ?ps = "si_page_size w" and ?D = "pager_page content (ws_pager w)" and ?c = "wcontent (si_file w)" and ?s = "32 + log_length (si_page_size w) fs"
  let ?start = "if si_wal_end_lsn w = 0 then WAL_HEADER_SIZE else si_wal_end_lsn w"
  have log: "wal_log winv wcontent fs w" using ok by (simp add: wal_ok_def)
  then have en: "unat (si_wal_end_lsn w) = log_end ?ps fs" by (simp add: wal_log_def)
  then have st: "unat ?start = ?s" by (auto simp: log_end_def WAL_HEADER_SIZE_def unat_eq_zero split: if_splits)
  have tail0: "log_tail winv wcontent ?c ?s (concat (map frame_bytes [])) (w\<lparr>si_file := si_file w, si_allocated_len := si_allocated_len w, ws_pager := ws_pager w\<rparr>)"
    using log by (cases "fs = []") (simp_all add: log_tail_def wal_log_def log_end_def)
  have kept0: "pager_kept inv content (ws_pager w) (ws_pager w)" using ok by (simp add: pager_kept_def wal_ok_def)
  have b0: "unat ?start = ?s + log_length ?ps []" "unat ?start + length pages * (13 + unat ?ps) + 13 < 2 ^ 62"
    unfolding st using bound by simp_all
  obtain new prs e hint f a pg where pl: "prepare_loop wops ops xops (si_wal_end_lsn w) ?ps pages (fst ` set []) [] ?start False
        (w\<lparr>si_file := si_file w, si_allocated_len := si_allocated_len w, ws_pager := ws_pager w\<rparr>) =
      Some (Inr ([] @ prs, e, hint), w\<lparr>si_file := f, si_allocated_len := a, ws_pager := pg\<rparr>)"
    "prepared_for ?ps (unat ?start) new pages prs" "frames_write new pages (page_updates [] (replay fs ?D))" "pager_kept inv content (ws_pager w) pg"
    "log_written winv wcontent ?c ?s (concat (map frame_bytes ([] @ new)) @ COMMIT_FRAME_BYTES) e (w\<lparr>si_file := f, si_allocated_len := a, ws_pager := pg\<rparr>)"
    using prepare_loop_ok [OF ok refl refl wf _ tail0 kept0 b0, where xops = xops and pre = "[]" and prepared = "[]" and hint = False] by auto
  define w1 where "w1 = w\<lparr>si_file := f, si_allocated_len := a, ws_pager := pg\<rparr>"
  let ?commit = "\<lparr>pc_commit_start_lsn = ?start, pc_end_lsn = e, pc_retain_history_hint = hint\<rparr>"
  have pc: "prepare_and_write_commit wops ops xops pages ?start (si_wal_end_lsn w) w = Some (Inr (?commit, prs), w1)"
    using pl(1) by (simp add: prepare_and_write_commit_def w1_def)
  have wr: "log_written winv wcontent ?c ?s (concat (map frame_bytes new) @ COMMIT_FRAME_BYTES) e w1" using pl(5) by (simp add: w1_def)
  then have "winv (si_file w1)" by (simp add: log_written_def)
  then obtain f2 b2 c2 a2 d2 where sy: "sync_for_mode wops e w1 = Some (Inr (), w1\<lparr>si_file := f2, si_checkpoint_tail_sync_needed := b2,
      si_checkpoint_tail_locally_synced := c2, si_async_commit := a2, ws_deferred_group_commit := d2\<rparr>)" "winv f2" "wcontent f2 = wcontent (si_file w1)"
    using sync_for_mode_ok by blast
  define w2 where "w2 = w1\<lparr>si_file := f2, si_checkpoint_tail_sync_needed := b2, si_checkpoint_tail_locally_synced := c2,
    si_async_commit := a2, ws_deferred_group_commit := d2\<rparr>"
  have wr2: "log_written winv wcontent ?c ?s (concat (map frame_bytes new) @ COMMIT_FRAME_BYTES) e w2"
    using wr sy(2,3) by (auto simp: log_written_def w2_def)
  obtain demote w3 where pub: "publish_commit max_page_count ?commit prs w2 = (demote, w3)" by fastforce
  have ll: "log_length ?ps new \<le> length pages * (13 + unat ?ps)"
    using log_length_bound [of new ?ps] prepared_for_frames [OF pl(2)] wal_ok_sized(2) [OF ok] by simp
  have ok3: "wal_ok winv wcontent inv content n gs (fs @ new @ [commit_frame]) w3"
  proof (rule publish_commit_ok [OF ok _ _ le wr2 _ _ _ _ _ _ _ st pub])
    show "prepared_for ?ps ?s new pages prs" using pl(2) unfolding st .
    show "frames_write new pages (replay fs ?D)" using pl(3) by simp
    show "32 + log_length ?ps (fs @ new) < 2 ^ 63" using ll bound by simp
  qed (use ok pl(4) in \<open>simp_all add: w2_def w1_def wal_ok_def wal_config_def\<close>)
  have k3: "commit_kept content w w3" "si_wal_end_lsn w3 = e"
    using pub pager_kept_page [OF pl(4)] pl(4)
    by (auto simp: publish_commit_def Let_def commit_kept_def w2_def w1_def wal_config_def pager_kept_def)
  obtain idx where dm: "pignore (demote_cold_versions xops) w3 = Some (Inr (), w3\<lparr>si_index := idx\<rparr>)"
    "wal_ok winv wcontent inv content n gs (fs @ new @ [commit_frame]) (w3\<lparr>si_index := idx\<rparr>)" using demote_after_commit_ok [OF ok3] by blast
  define w4 where "w4 = (if demote then w3\<lparr>si_index := idx\<rparr> else w3)"
  have "wal_ok winv wcontent inv content n gs (fs @ new @ [commit_frame]) w4" using ok3 dm(2) by (simp add: w4_def)
  moreover have "commit_kept content w w4" "si_wal_end_lsn w4 = e" using k3 by (simp_all add: w4_def commit_kept_def wal_config_def)
  moreover have "replay (fs @ new @ [commit_frame]) ?D = page_updates pages (replay fs ?D)" using frames_write_replay pl(3) by simp
  moreover have "commit_at cpu spawn_ok hash_order wops ops xops now pages max_page_count (latest_snapshot w) w =
      pbind (pignore (maybe_auto_checkpoint cpu spawn_ok hash_order wops ops xops now)) (\<lambda>_. pret e) w4"
    using pc sy(1) pub dm(1) by (simp add: commit_at_def Let_def latest_snapshot_def pstep_def w4_def flip: w2_def)
  ultimately show ?thesis by blast
qed

end

end
