(* ===== verification/WalOpen.thy ===== *)
theory WalOpen
  imports WalHistory
begin

text \<open>
  Opening a handle, \<open>wal/shared.rs\<close>: the log is initialised or recovered and the shared state is built around the
  result.  A handle opened on the files that another one left behind continues with the same pages.
\<close>

section \<open>Definitions\<close>

text \<open>The part of the configuration that concerns the log.\<close>

record DbConfig =
  cfg_page_size :: u32
  cfg_wal_sync_mode :: WalSyncMode
  cfg_wal_index_hot_set_pages :: u32
  cfg_wal_resident_versions_per_page :: u32
  cfg_wal_checkpoint_threshold_pages :: u32
  cfg_wal_checkpoint_threshold_bytes :: u64
  cfg_checkpoint_timeout_sec :: nat
  cfg_release_freed_memory_after_checkpoint :: bool
  cfg_background_checkpoint_worker :: bool

definition from_db_config :: "DbConfig \<Rightarrow> AutoCheckpointConfig" where
  "from_db_config cfg =
     \<lparr>ac_threshold_pages = cfg_wal_checkpoint_threshold_pages cfg,
      ac_threshold_bytes = cfg_wal_checkpoint_threshold_bytes cfg,
      ac_checkpoint_timeout_sec = cfg_checkpoint_timeout_sec cfg,
      ac_release_freed_after_checkpoint = cfg_release_freed_memory_after_checkpoint cfg\<rparr>"

definition open_sidecar :: "'x vfs_file_ops \<Rightarrow> DbConfig \<Rightarrow> 'x \<Rightarrow> 'x WalIndexSidecar option result option" where
  "open_sidecar xops cfg sidecar_file =
     (case for_runtime (cfg_wal_index_hot_set_pages cfg) False of
        InMemory \<Rightarrow> Some (Inr None)
      | PagedSidecar \<Rightarrow> map_option (\<lambda>(r, sc). rmap (\<lambda>_. Some sc) r) (sidecar_open xops sidecar_file))"

definition shared_wal_inner ::
  "string option \<Rightarrow> DbConfig \<Rightarrow> WalIndex \<Rightarrow> u64 \<Rightarrow> page_id \<Rightarrow> u64 \<Rightarrow> ('w, 'f, 'x) recovery_world \<Rightarrow> ('w, 'x, 'f) wal_sys"
where
  "shared_wal_inner canonical_path cfg index end_lsn recovered_max_page_id allocated_len rw =
     \<lparr>si_canonical_path = canonical_path, si_file = rw_wal rw, si_page_size = cfg_page_size cfg,
      si_sync_mode = cfg_wal_sync_mode cfg, si_index = index, si_index_sidecar = rw_sidecar rw,
      si_hot_set_pages = cfg_wal_index_hot_set_pages cfg, si_wal_end_lsn = end_lsn,
      si_max_page_count = recovered_max_page_id, si_allocated_len = allocated_len,
      si_reader_registry = registry_default, si_retained_snapshot_lsn = - 1, si_checkpoint_pending = False,
      si_checkpoint_tail_sync_needed = False, si_checkpoint_tail_locally_synced = True, si_checkpoint_epoch = 0,
      si_async_commit = (case cfg_wal_sync_mode cfg of AsyncCommit interval_ms \<Rightarrow> Some (async_new end_lsn interval_ms) | _ \<Rightarrow> None),
      si_resident_versions_per_page = cfg_wal_resident_versions_per_page cfg,
      si_auto_checkpoint = from_db_config cfg, si_pages_since_checkpoint = 0,
      si_background_checkpoint_worker = cfg_background_checkpoint_worker cfg,
      ws_pager = rw_pager rw, ws_deferred_group_commit = None\<rparr>"

text \<open>Opening fails before there is a handle, or gives one.\<close>

definition build_handle_from_file ::
  "'w vfs_file_ops \<Rightarrow> 'f vfs_file_ops \<Rightarrow> 'x vfs_file_ops \<Rightarrow> (page_id list \<Rightarrow> page_id list) \<Rightarrow> string option \<Rightarrow> DbConfig \<Rightarrow>
   'f Pager \<Rightarrow> 'w \<Rightarrow> 'x \<Rightarrow> ('w, 'x, 'f) wal_sys result option"
where
  "build_handle_from_file wops ops xops hash_order canonical_path cfg pager file sidecar_file =
     (case open_sidecar xops cfg sidecar_file of
        None \<Rightarrow> None
      | Some (Inl e) \<Rightarrow> Some (Inl e)
      | Some (Inr index_sidecar) \<Rightarrow>
          (case initialize_or_recover wops ops xops hash_order (cfg_page_size cfg) (cfg_wal_index_hot_set_pages cfg)
                  \<lparr>rw_wal = file, rw_pager = pager, rw_sidecar = index_sidecar\<rparr> of
             None \<Rightarrow> None
           | Some (Inl e, _) \<Rightarrow> Some (Inl e)
           | Some (Inr (index, end_lsn, recovered_max_page_id), rw) \<Rightarrow>
               (case vf_file_size wops (rw_wal rw) of
                  Inl e \<Rightarrow> Some (Inl e)
                | Inr allocated_len \<Rightarrow>
                    let inner = shared_wal_inner canonical_path cfg index end_lsn recovered_max_page_id allocated_len rw
                    in case si_index_sidecar inner of
                         None \<Rightarrow> Some (Inr inner)
                       | Some sc \<Rightarrow>
                           (case spill_excess_hot_pages_locked xops (si_hot_set_pages inner) (si_index inner) sc of
                              None \<Rightarrow> None
                            | Some (Inl e, _) \<Rightarrow> Some (Inl e)
                            | Some (Inr _, index, sc) \<Rightarrow> Some (Inr (inner\<lparr>si_index := index, si_index_sidecar := Some sc\<rparr>))))))"

section \<open>A handle on the files of another one\<close>

text \<open>The configuration the invariant of a handle is about.\<close>

definition default_config :: "u32 \<Rightarrow> DbConfig \<Rightarrow> bool" where
  "default_config page_size cfg \<longleftrightarrow> cfg_page_size cfg = page_size \<and> cfg_wal_index_hot_set_pages cfg = 0 \<and>
     cfg_wal_resident_versions_per_page cfg > 0"

lemma index_holds_current:
  assumes "index_holds c page_size idx D (replay fs D)" "length c \<le> log_end page_size fs"
  shows "index_current page_size fs D idx"
proof -
  have v: "unat (wv_lsn v) \<le> log_end page_size fs \<and> version_yields page_size fs D idx p v (replay fs D p)"
    if sl: "as_slice (wv_payload v) = Some (replay fs D p)" and vb: "version_backed c page_size p v" for p v
  proof -
    obtain data off len enc where pl: "wv_payload v = Resident data off len enc" using sl by (cases "wv_payload v") auto
    have "is_page_frame (encoding_frame_type enc)" by (cases enc) (simp_all add: is_page_frame_def)
    with sl vb pl assms(2) show ?thesis by (auto simp: version_backed_def version_yields_def frame_at_def)
  qed
  have "page_versions idx p = [] \<and> replay fs D p = D p \<or> (\<exists>v. page_versions idx p = [v] \<and>
      as_slice (wv_payload v) = Some (replay fs D p) \<and> version_backed c page_size p v)" for p
    using assms(1) by (simp add: index_holds_def)
  then show ?thesis using v unfolding index_current_def by (metis empty_iff last.simps list.set(1) list.set_intros(1) list.simps(15) singletonD)
qed

lemma registry_default_inv: "registry_inv 0 registry_default []"
  by (simp add: registry_inv_def registry_default_def)

lemma wal_ok_opened:
  assumes log: "wal_log wok wcontent fs w" and pg: "pager_ok ok content (ws_pager w)" "pg_page_size (ws_pager w) = si_page_size w"
    and c: "si_index_sidecar w = None" "si_hot_set_pages w = 0" "si_resident_versions_per_page w > 0"
      "si_reader_registry w = registry_default" "si_retained_snapshot_lsn w = - 1"
    and cur: "index_current (si_page_size w) fs (pager_page content (ws_pager w)) (si_index w)"
  shows "wal_ok wok wcontent ok content 0 [] fs w"
proof -
  have e: "unat (si_wal_end_lsn w) = log_end (si_page_size w) fs" using log by (simp add: wal_log_def)
  have bd: "\<forall>p. \<forall>v \<in> set (page_versions (si_index w) p). unat (wv_lsn v) \<le> log_end (si_page_size w) fs"
    using cur by (simp add: index_current_def)
  have "held_snapshots [] w = {si_wal_end_lsn w}"
    using c(5) by (simp add: held_snapshots_def retained_snapshot_lsn_def NO_RETAINED_SNAPSHOT_LSN_def)
  then show ?thesis using assms bd snapshot_holds_end [OF e bd] registry_default_inv by (simp add: wal_ok_def)
qed

lemma pager_same_count:
  assumes "pager_ok ok content pg" "pager_ok ok content pg'" "pg_file pg' = pg_file pg" "pg_page_size pg' = pg_page_size pg"
  shows "pg_db_page_count pg' = pg_db_page_count pg"
proof -
  have "4096 \<le> unat (pg_page_size pg)" using assms(1) by (intro page_size_bounds) (simp add: pager_ok_def pager_disk_def)
  moreover have "unat (pg_db_page_count pg') * unat (pg_page_size pg) = unat (pg_db_page_count pg) * unat (pg_page_size pg)"
    using assms by (auto simp: pager_ok_def pager_disk_def)
  ultimately show ?thesis by (simp add: word_unat_eq_iff)
qed

context wal_world
begin

lemma open_pager_ok:
  assumes "pager_ok inv content pg" "h_page_size h = pg_page_size pg"
  shows "\<exists>pg'. open_with_page_pool ops (pg_file pg) h mb pool = Inr pg' \<and> pager_kept inv content pg pg'"
proof -
  let ?n = "unat (pg_db_page_count pg)"
  have d: "inv (pg_file pg)" "is_supported_page_size (pg_page_size pg)" "length (content (pg_file pg)) = ?n * unat (pg_page_size pg)"
    using assms(1) by (simp_all add: pager_ok_def pager_disk_def)
  have len: "unat (of_nat (length (content (pg_file pg))) :: u64) = ?n * unat (pg_page_size pg)"
    using unat_of_nat_small(3) [of "length (content (pg_file pg))"] db.content_len [OF d(1)] d(3) by simp
  have "page_count_for_len (of_nat (length (content (pg_file pg)))) (pg_page_size pg) = pg_db_page_count pg"
    using page_count_for_len_unat [OF d(2) len] unsigned_less [of "pg_db_page_count pg", where ?'a = nat] word_unat_eq_iff by fastforce
  then show ?thesis using d assms(2) db.file_len [OF d(1)]
    by (simp add: open_with_page_pool_def open_with_known_page_count_def Let_def pager_kept_def pager_ok_def pager_disk_def)
qed

lemma reopen_ok:
  fixes xops :: "'x vfs_file_ops" and w :: "('w, 'x, 'f) wal_sys"
  assumes ok: "wal_ok winv wcontent inv content n gs fs w" and pg: "pager_kept inv content (ws_pager w) pg"
    and cfg: "default_config (si_page_size w) cfg" and ho: "\<And>ks. mset (hash_order ks) = mset ks"
  shows "\<exists>w'. build_handle_from_file wops ops xops hash_order path cfg pg (si_file w) xf = Some (Inr w') \<and>
    wal_ok winv wcontent inv content 0 [] fs w' \<and> pager_page content (ws_pager w') = pager_page content (ws_pager w) \<and>
    pg_db_page_count (ws_pager w') = pg_db_page_count (ws_pager w) \<and> si_page_size w' = si_page_size w \<and>
    si_wal_end_lsn w' = si_wal_end_lsn w \<and> retained_snapshot_lsn w' = None \<and> \<not> si_checkpoint_pending w'"
proof -
  let ?D = "pager_page content (ws_pager w)" and ?c = "wcontent (si_file w)" and ?ps = "si_page_size w"
  let ?rw = "\<lparr>rw_wal = si_file w, rw_pager = pg, rw_sidecar = None :: 'x WalIndexSidecar option\<rparr>"
  have log: "wal_log winv wcontent fs w" and psz: "pg_page_size (ws_pager w) = ?ps" using ok by (simp_all add: wal_ok_def)
  then have f: "winv (si_file w)" "32 \<le> length ?c" "unat (si_wal_end_lsn w) \<le> length ?c" "closed_log fs"
    "unat (si_wal_end_lsn w) = log_end ?ps fs" "unat (si_allocated_len w) = length ?c"
    "wal_header_decode (take 32 ?c) = Inr \<lparr>wh_page_size = ?ps, wh_wal_end_offset = si_wal_end_lsn w\<rparr>" by (simp_all add: wal_log_def)
  have p: "pager_ok inv content pg" "pg_page_size pg = ?ps" "pager_page content pg = ?D"
    using pg psz pager_kept_page [OF pg] by (simp_all add: pager_kept_def)
  have lh: "log_holds (take (unat (si_wal_end_lsn w)) (wcontent (rw_wal ?rw))) ?ps fs" using log_holds_of [OF log] by simp
  obtain st where st: "recovery_inv inv content (take (unat (si_wal_end_lsn w)) ?c) ?ps (pg_file pg) ?D fs st"
    "initialize_or_recover wops ops xops hash_order ?ps 0 ?rw =
      (case spill_recovered_latest_versions xops (rv_index st) 0 None of None \<Rightarrow> None
       | Some (r, idx, sc) \<Rightarrow> Some (rmap (\<lambda>_. (idx, si_wal_end_lsn w, max_page_id_of fs)) r, ?rw\<lparr>rw_pager := rv_pager st, rw_sidecar := sc\<rparr>))"
    using recover_ok [where w = ?rw and D = ?D and xops = xops and hot_set_pages = 0, OF _ _ _ _ lh _ _ _ ho] f p by auto
  have rs: "index_holds (take (unat (si_wal_end_lsn w)) ?c) ?ps (rv_index st) ?D (replay fs ?D)" "pager_ok inv content (rv_pager st)"
    "pg_file (rv_pager st) = pg_file pg" "pg_page_size (rv_pager st) = ?ps" "pager_page content (rv_pager st) = ?D"
    using st(1) closed_replay [OF f(4)] by (simp_all add: recovery_inv_def)
  define w' where "w' = shared_wal_inner path cfg (rv_index st) (si_wal_end_lsn w) (max_page_id_of fs) (of_nat (length ?c)) (?rw\<lparr>rw_pager := rv_pager st\<rparr>)"
  have "build_handle_from_file wops ops xops hash_order path cfg pg (si_file w) xf = Some (Inr w')"
    using st(2) cfg wal.file_len [OF f(1)]
    by (simp add: build_handle_from_file_def open_sidecar_def for_runtime_def for_hot_set_pages_def default_config_def
        spill_recovered_latest_versions_def w'_def shared_wal_inner_def Let_def)
  moreover have al: "unat (of_nat (length ?c) :: u64) = length ?c" using wal.content_len [OF f(1)] by (intro unat_of_nat_small(3)) simp
  have "index_current ?ps fs ?D (rv_index st)" by (rule index_holds_current [OF rs(1)]) (use f(3,5) in simp)
  then have "wal_ok winv wcontent inv content 0 [] fs w'"
    using log rs cfg al by (intro wal_ok_opened) (simp_all add: w'_def shared_wal_inner_def wal_log_def default_config_def)
  moreover have "pg_db_page_count (ws_pager w') = pg_db_page_count (ws_pager w)"
    using rs(2-4) pg psz ok pager_same_count [of inv content "ws_pager w" "rv_pager st"]
    by (simp add: w'_def shared_wal_inner_def pager_kept_def wal_ok_def)
  ultimately show ?thesis using rs(5) cfg
    by (intro exI [of _ w']) (simp add: w'_def shared_wal_inner_def default_config_def retained_snapshot_lsn_def NO_RETAINED_SNAPSHOT_LSN_def)
qed

text \<open>An empty file becomes an empty log.\<close>

lemma open_fresh_ok:
  fixes xops :: "'x vfs_file_ops"
  assumes f: "winv f" "wcontent f = []" and pg: "pager_ok inv content pg" and cfg: "default_config (pg_page_size pg) cfg"
  shows "\<exists>w' :: ('w, 'x, 'f) wal_sys. build_handle_from_file wops ops xops hash_order path cfg pg f xf = Some (Inr w') \<and>
    wal_ok winv wcontent inv content 0 [] [] w' \<and> ws_pager w' = pg \<and> si_page_size w' = pg_page_size pg \<and>
    retained_snapshot_lsn w' = None \<and> \<not> si_checkpoint_pending w' \<and> si_auto_checkpoint w' = from_db_config cfg"
proof -
  let ?hdr = "wal_header_encode \<lparr>wh_page_size = pg_page_size pg, wh_wal_end_offset = 0\<rparr>"
  have "?hdr \<noteq> []" by (simp flip: length_0_conv)
  then obtain f1 where f1: "write_all_at wops 0 ?hdr f = (Inr (), f1)" "winv f1" "wcontent f1 = file_patch [] 0 ?hdr"
    using wal.write_all_ok [OF f(1), of 0 ?hdr] f(2) by auto
  have u: "unat WAL_HEADER_SIZE = 32" by (simp add: WAL_HEADER_SIZE_def)
  obtain f2 where f2: "vf_set_len wops WAL_HEADER_SIZE f1 = (Inr (), f2)" "winv f2" "wcontent f2 = vec_resize (wcontent f1) 32"
    using wal.file_set_len [OF f1(2), of WAL_HEADER_SIZE] u by auto
  have c2: "wcontent f2 = ?hdr" using f1(3) f2(3) by (simp add: file_patch_def vec_resize_def)
  define w' where "w' = shared_wal_inner path cfg index_default 0 0 32 \<lparr>rw_wal = f2, rw_pager = pg, rw_sidecar = None :: 'x WalIndexSidecar option\<rparr>"
  have "build_handle_from_file wops ops xops hash_order path cfg pg f xf = Some (Inr w')"
    using f1(1) f2(1,2) c2 cfg wal.file_len [OF f(1)] f(2) wal.file_len [OF f2(2)]
    by (simp add: build_handle_from_file_def open_sidecar_def for_runtime_def for_hot_set_pages_def default_config_def
        initialize_or_recover_def w'_def shared_wal_inner_def Let_def)
  moreover have "index_current (pg_page_size pg) [] (pager_page content pg) index_default"
    by (simp add: index_current_def index_default_def page_versions_def)
  then have "wal_ok winv wcontent inv content 0 [] [] w'"
    using f2(2) c2 pg cfg
    by (intro wal_ok_opened) (simp_all add: w'_def shared_wal_inner_def wal_log_def log_end_def default_config_def
        wal_header_decode_def wal_header_fields Let_def WAL_HEADER_SIZE_def pager_ok_def pager_disk_def pending_within_def closed_log_def)
  ultimately show ?thesis using cfg
    by (intro exI [of _ w']) (simp add: w'_def shared_wal_inner_def default_config_def retained_snapshot_lsn_def NO_RETAINED_SNAPSHOT_LSN_def)
qed

end

end
