(* ===== verification/WalRun.thy ===== *)
theory WalRun
  imports WalOpen
begin

text \<open>
  Runs of the storage engine below the SQL layer: readers that come, read and go, transactions, checkpoints, and crashes
  after which the files are opened again (\<open>wal/mod.rs\<close>, \<open>wal/writer.rs\<close>, \<open>wal/checkpoint.rs\<close>, \<open>wal/shared.rs\<close>).
  A run carries the pages each reader is to see and the pages committed last; the theorems say that the code agrees with them.
  Page 1 is left out of the comparison since a checkpoint stamps its position into the header.
\<close>

section \<open>What a handle serves\<close>

definition holds_header :: "crc_cpu \<Rightarrow> u32 \<Rightarrow> bytes \<Rightarrow> bool" where
  "holds_header cpu page_size page \<longleftrightarrow> (\<exists>h. page = header_image cpu page_size h \<and> plain_header page_size h)"

definition same_data :: "pages \<Rightarrow> pages \<Rightarrow> bool" where
  "same_data D E \<longleftrightarrow> (\<forall>q. q \<noteq> 0 \<longrightarrow> q \<noteq> 1 \<longrightarrow> D q = E q)"

lemma same_data_refl [simp]: "same_data D D"
  by (simp add: same_data_def)

definition serves_log ::
  "crc_cpu \<Rightarrow> ('w \<Rightarrow> bool) \<Rightarrow> ('w \<Rightarrow> bytes) \<Rightarrow> ('f \<Rightarrow> bool) \<Rightarrow> ('f \<Rightarrow> bytes) \<Rightarrow> nat \<Rightarrow> (ReaderGuard \<times> pages) list \<Rightarrow> pages \<Rightarrow>
   WalFrame list \<Rightarrow> ('w, 'x, 'f) wal_sys \<Rightarrow> bool"
where
  "serves_log cpu wok wcontent ok content n live P fs w \<longleftrightarrow>
     wal_ok wok wcontent ok content n (map fst live) fs w \<and> retained_snapshot_lsn w = None \<and> \<not> si_checkpoint_pending w \<and>
     0 < unat (pg_db_page_count (ws_pager w)) \<and>
     holds_header cpu (si_page_size w) (replay fs (pager_page content (ws_pager w)) 1) \<and>
     same_data (replay fs (pager_page content (ws_pager w))) P \<and>
     (\<forall>(g, S) \<in> set live. same_data (pages_at (si_page_size w) fs (pager_page content (ws_pager w)) (rg_snapshot_lsn g)) S)"

definition serves ::
  "crc_cpu \<Rightarrow> ('w \<Rightarrow> bool) \<Rightarrow> ('w \<Rightarrow> bytes) \<Rightarrow> ('f \<Rightarrow> bool) \<Rightarrow> ('f \<Rightarrow> bytes) \<Rightarrow> nat \<Rightarrow> (ReaderGuard \<times> pages) list \<Rightarrow> pages \<Rightarrow>
   ('w, 'x, 'f) wal_sys \<Rightarrow> bool"
where
  "serves cpu wok wcontent ok content n live P w \<longleftrightarrow> (\<exists>fs. serves_log cpu wok wcontent ok content n live P fs w)"

text \<open>The transactions of a run: pages of the right size, header images on page 1, room in the log.\<close>

definition commit_wf :: "crc_cpu \<Rightarrow> (page_id \<times> bytes) list \<Rightarrow> ('w, 'x, 'f) wal_sys \<Rightarrow> bool" where
  "commit_wf cpu pages w \<longleftrightarrow> pages_wf (si_page_size w) pages \<and> (\<forall>b. (1, b) \<in> set pages \<longrightarrow> holds_header cpu (si_page_size w) b) \<and>
     length pages \<le> MAX_PENDING_RECOVERY_FRAMES \<and>
     45 + unat (si_wal_end_lsn w) + length pages * (13 + unat (si_page_size w)) < 2 ^ 62"

lemma page_updates_cases: "page_updates ps E p = E p \<or> (p, page_updates ps E p) \<in> set ps"
proof (induction ps arbitrary: E)
  case (Cons pb ps)
  obtain q b where "pb = (q, b)" by fastforce
  then show ?case using Cons [of "E(q := b)"] by (auto simp: fun_upd_def split: if_splits)
qed simp

lemma page_updates_same_data: "same_data D E \<Longrightarrow> same_data (page_updates ps D) (page_updates ps E)"
proof (induction ps arbitrary: D E)
  case (Cons pb ps)
  obtain q b where "pb = (q, b)" by fastforce
  then show ?case using Cons by (simp add: same_data_def)
qed simp

lemma map_fst_remove1: "distinct (map fst xs) \<Longrightarrow> (a, b) \<in> set xs \<Longrightarrow> map fst (remove1 (a, b) xs) = remove1 a (map fst xs)"
  by (induction xs) force+

lemma wal_config_simps:
  "wal_config w' = wal_config w \<Longrightarrow> si_page_size w' = si_page_size w \<and> retained_snapshot_lsn w' = retained_snapshot_lsn w \<and>
     si_auto_checkpoint w' = si_auto_checkpoint w"
  by (simp add: wal_config_def retained_snapshot_lsn_def)

lemma serves_distinct: "wal_ok wok wcontent ok content n (map fst live) fs w \<Longrightarrow> distinct (map fst live)"
  by (auto simp: wal_ok_def registry_inv_def simp flip: map_map intro: distinct_map [THEN iffD1, THEN conjunct1])

section \<open>Every operation keeps serving\<close>

context wal_world
begin

lemma serves_begin:
  assumes "serves cpu winv wcontent inv content n live P w" "Suc n < 2 ^ 64"
  shows "\<exists>g w'. begin_reader now w = Some (Inr g, w') \<and> serves cpu winv wcontent inv content (Suc n) ((g, P) # live) P w'"
proof -
  obtain fs where s: "serves_log cpu winv wcontent inv content n live P fs w" using assms(1) by (auto simp: serves_def)
  then have ok: "wal_ok winv wcontent inv content n (map fst live) fs w" "\<not> si_checkpoint_pending w" by (simp_all add: serves_log_def)
  obtain g w' where g: "begin_reader now w = Some (Inr g, w')" "rg_snapshot_lsn g = si_wal_end_lsn w"
    "wal_ok winv wcontent inv content (Suc n) (g # map fst live) fs w'" "w' = w\<lparr>si_reader_registry := si_reader_registry w'\<rparr>"
    using begin_reader_ok [OF ok assms(2)] by blast
  have e: "ws_pager w' = ws_pager w" "si_page_size w' = si_page_size w" "si_checkpoint_pending w' = si_checkpoint_pending w"
    "retained_snapshot_lsn w' = retained_snapshot_lsn w" by (subst g(4), simp add: retained_snapshot_lsn_def)+
  have "pages_at (si_page_size w) fs D (rg_snapshot_lsn g) = replay fs D" for D
    using ok(1) g(2) by (intro pages_at_end) (simp add: wal_ok_def wal_log_def)
  then have "serves_log cpu winv wcontent inv content (Suc n) ((g, P) # live) P fs w'"
    using s g(3) e by (simp add: serves_log_def)
  then show ?thesis using g(1) by (auto simp: serves_def)
qed

lemma serves_end:
  assumes "serves cpu winv wcontent inv content n live P w" "(g, S) \<in> set live"
  shows "serves cpu winv wcontent inv content n (remove1 (g, S) live) P (end_reader g w)"
proof -
  obtain fs where s: "serves_log cpu winv wcontent inv content n live P fs w" using assms(1) by (auto simp: serves_def)
  then have ok: "wal_ok winv wcontent inv content n (map fst live) fs w" by (simp add: serves_log_def)
  have "g \<in> set (map fst live)" using assms(2) by force
  from end_reader_ok [OF ok this] map_fst_remove1 [OF serves_distinct [OF ok] assms(2)]
  have "wal_ok winv wcontent inv content n (map fst (remove1 (g, S) live)) fs (end_reader g w)" by simp
  then have "serves_log cpu winv wcontent inv content n (remove1 (g, S) live) P fs (end_reader g w)"
    using s set_remove1_subset [of "(g, S)" live] by (auto simp: serves_log_def end_reader_def retained_snapshot_lsn_def split: if_splits)
  then show ?thesis by (auto simp: serves_def)
qed

lemma serves_read:
  assumes "serves cpu winv wcontent inv content n live P w" "q \<noteq> 0"
    and "(g, S) \<in> set live \<and> s = rg_snapshot_lsn g \<or> s = latest_snapshot w \<and> S = P"
  shows "\<exists>page w'. snapshot_read_page wops ops xops s q w = Some (Inr page, w') \<and> (q \<noteq> 1 \<longrightarrow> page = S q) \<and>
    serves cpu winv wcontent inv content n live P w'"
proof -
  obtain fs where s: "serves_log cpu winv wcontent inv content n live P fs w" using assms(1) by (auto simp: serves_def)
  let ?D = "pager_page content (ws_pager w)" and ?ps = "si_page_size w"
  have ok: "wal_ok winv wcontent inv content n (map fst live) fs w" using s by (simp add: serves_log_def)
  have held: "s \<in> held_snapshots (map fst live) w" using assms(3) by (force simp: held_snapshots_def latest_snapshot_def)
  have "pages_at ?ps fs ?D (si_wal_end_lsn w) = replay fs ?D" using ok by (intro pages_at_end) (simp add: wal_ok_def wal_log_def)
  then have sd: "same_data (pages_at ?ps fs ?D s) S" using assms(3) s by (auto simp: serves_log_def latest_snapshot_def)
  obtain w' where r: "snapshot_read_page wops ops xops s q w = Some (Inr (pages_at ?ps fs ?D s q), w')"
    and w': "wal_ok winv wcontent inv content n (map fst live) fs w'" "pg_file (ws_pager w') = pg_file (ws_pager w)"
      "wal_config w' = wal_config w" "si_checkpoint_pending w' = si_checkpoint_pending w"
    using snapshot_read_page_ok [OF ok held assms(2)] by blast
  note c = wal_config_simps [OF w'(3)]
  have pg: "pg_page_size (ws_pager w') = pg_page_size (ws_pager w)" using ok w'(1) c by (simp add: wal_ok_def)
  then have "pager_page content (ws_pager w') = ?D" "pg_db_page_count (ws_pager w') = pg_db_page_count (ws_pager w)"
    using w'(1,2) ok pager_same_count [of inv content "ws_pager w" "ws_pager w'"] by (simp_all add: pager_page_def wal_ok_def)
  then have "serves_log cpu winv wcontent inv content n live P fs w'" using s w' c by (simp add: serves_log_def)
  then show ?thesis using r sd assms(2) by (auto simp: serves_def same_data_def)
qed

lemma serves_checkpoint:
  assumes "serves cpu winv wcontent inv content n live P w" and ho: "\<And>ks. mset (hash_order ks) = mset ks"
  shows "\<exists>w'. checkpoint cpu spawn_ok hash_order wops ops xops timeout now w = Some (Inr (), w') \<and>
    serves cpu winv wcontent inv content n live P w' \<and> (live = [] \<longrightarrow> si_checkpoint_epoch w' = si_checkpoint_epoch w + 1)"
proof -
  obtain fs where s: "serves_log cpu winv wcontent inv content n live P fs w" using assms(1) by (auto simp: serves_def)
  have ok: "wal_ok winv wcontent inv content n (map fst live) fs w" and ret: "retained_snapshot_lsn w = None"
    and cnt: "0 < unat (pg_db_page_count (ws_pager w))" using s by (simp_all add: serves_log_def)
  show ?thesis
  proof (cases "live = []")
    case True
    obtain h where h: "replay fs (pager_page content (ws_pager w)) 1 = header_image cpu (si_page_size w) h" "plain_header (si_page_size w) h"
      using s by (auto simp: serves_log_def holds_header_def)
    have ok0: "wal_ok winv wcontent inv content n [] fs w" using ok True by simp
    obtain w' where w': "checkpoint cpu spawn_ok hash_order wops ops xops timeout now w = Some (Inr (), w')"
      "wal_ok winv wcontent inv content n [] [] w'" "wal_config w' = wal_config w" "\<not> si_checkpoint_pending w'"
      "si_checkpoint_epoch w' = si_checkpoint_epoch w + 1" "0 < unat (pg_db_page_count (ws_pager w'))"
      "\<forall>q. q \<noteq> 0 \<longrightarrow> pager_page content (ws_pager w') q =
         (if q = 1 then header_image cpu (si_page_size w) (stamped cpu (si_wal_end_lsn w) h)
          else replay fs (pager_page content (ws_pager w)) q)"
      using checkpoint_ok [OF ok0 ret ho cnt h] by blast
    note c = wal_config_simps [OF w'(3)]
    have "holds_header cpu (si_page_size w') (pager_page content (ws_pager w') 1)"
      using w'(7) c stamped_plain [OF h(2)] by (auto simp: holds_header_def)
    then have "serves_log cpu winv wcontent inv content n live P [] w'"
      using s w' c ret True by (simp add: serves_log_def same_data_def)
    then show ?thesis using w'(1,5) by (auto simp: serves_def)
  next
    case False
    then obtain reg where r: "checkpoint cpu spawn_ok hash_order wops ops xops timeout now w =
        Some (Inr (), w\<lparr>si_reader_registry := reg, si_checkpoint_pending := False\<rparr>)" "registry_inv n reg (map fst live)"
      using checkpoint_blocked [OF ok] by fastforce
    have "wal_ok winv wcontent inv content n (map fst live) fs (w\<lparr>si_reader_registry := reg, si_checkpoint_pending := False\<rparr>)"
      using ok r(2) by (simp add: wal_ok_def wal_log_def held_snapshots_def retained_snapshot_lsn_def)
    then have "serves_log cpu winv wcontent inv content n live P fs (w\<lparr>si_reader_registry := reg, si_checkpoint_pending := False\<rparr>)"
      using s by (simp add: serves_log_def retained_snapshot_lsn_def split: if_splits)
    then show ?thesis using r(1) False by (auto simp: serves_def)
  qed
qed

lemma serves_auto_checkpoint:
  assumes "serves cpu winv wcontent inv content n live P w" and ho: "\<And>ks. mset (hash_order ks) = mset ks"
  shows "\<exists>w'. pignore (maybe_auto_checkpoint cpu spawn_ok hash_order wops ops xops now) w = Some (Inr (), w') \<and>
    serves cpu winv wcontent inv content n live P w'"
proof -
  let ?cp = "checkpoint cpu spawn_ok hash_order wops ops xops (ac_checkpoint_timeout_sec (si_auto_checkpoint w)) now w"
  obtain w' where w': "?cp = Some (Inr (), w')" "serves cpu winv wcontent inv content n live P w'"
    using serves_checkpoint [OF assms] by blast
  have "maybe_auto_checkpoint cpu spawn_ok hash_order wops ops xops now w = Some (Inr (), w) \<or>
      maybe_auto_checkpoint cpu spawn_ok hash_order wops ops xops now w = ?cp"
    by (simp add: maybe_auto_checkpoint_def Let_def)
  then show ?thesis using assms(1) w' by (auto simp: pignore_def)
qed

lemma commit_published:
  assumes s: "serves_log cpu winv wcontent inv content n live P fs w" and wf: "commit_wf cpu pages w"
  shows "\<exists>new w'. commit_at cpu spawn_ok hash_order wops ops xops now pages max_page_count (latest_snapshot w) w =
      pbind (pignore (maybe_auto_checkpoint cpu spawn_ok hash_order wops ops xops now)) (\<lambda>_. pret (si_wal_end_lsn w')) w' \<and>
    serves_log cpu winv wcontent inv content n live (page_updates pages P) (fs @ new @ [commit_frame]) w' \<and> commit_kept content w w'"
proof -
  let ?D = "pager_page content (ws_pager w)" and ?ps = "si_page_size w"
  have ok: "wal_ok winv wcontent inv content n (map fst live) fs w" using s by (simp add: serves_log_def)
  then have "unat (si_wal_end_lsn w) = log_end ?ps fs" by (simp add: wal_ok_def wal_log_def)
  then have "log_length ?ps fs \<le> unat (si_wal_end_lsn w)" by (simp add: log_end_def split: if_splits)
  then have bound: "45 + log_length ?ps fs + length pages * (13 + unat ?ps) < 2 ^ 62" using wf by (simp add: commit_wf_def)
  have wf': "pages_wf ?ps pages" "length pages \<le> MAX_PENDING_RECOVERY_FRAMES" using wf by (simp_all add: commit_wf_def)
  obtain new w1 where c: "commit_at cpu spawn_ok hash_order wops ops xops now pages max_page_count (latest_snapshot w) w =
      pbind (pignore (maybe_auto_checkpoint cpu spawn_ok hash_order wops ops xops now)) (\<lambda>_. pret (si_wal_end_lsn w1)) w1"
    "wal_ok winv wcontent inv content n (map fst live) (fs @ new @ [commit_frame]) w1" "commit_kept content w w1"
    "replay (fs @ new @ [commit_frame]) ?D = page_updates pages (replay fs ?D)"
    using commit_at_ok [OF ok wf' bound] by blast
  have k: "wal_config w1 = wal_config w" "pager_page content (ws_pager w1) = ?D" "si_checkpoint_pending w1 = si_checkpoint_pending w"
    "pg_db_page_count (ws_pager w1) = pg_db_page_count (ws_pager w)" using c(3) by (simp_all add: commit_kept_def)
  have old: "pages_at ?ps (fs @ new @ [commit_frame]) ?D (rg_snapshot_lsn g) = pages_at ?ps fs ?D (rg_snapshot_lsn g)"
    if gs: "(g, S) \<in> set live" for g S
  proof (rule pages_at_append)
    have "rg_snapshot_lsn g \<in> held_snapshots (map fst live) w" using gs by (force simp: held_snapshots_def)
    then show "unat (rg_snapshot_lsn g) \<le> log_end ?ps fs" using ok by (auto simp: wal_ok_def snapshot_holds_def)
  qed
  have "holds_header cpu ?ps (page_updates pages (replay fs ?D) 1)"
    using page_updates_cases [of pages "replay fs ?D" 1] s wf by (auto simp: serves_log_def commit_wf_def)
  then have "serves_log cpu winv wcontent inv content n live (page_updates pages P) (fs @ new @ [commit_frame]) w1"
    using s c(2,4) k wal_config_simps [OF k(1)] old by (auto simp: serves_log_def page_updates_same_data)
  then show ?thesis using c(1,3) by blast
qed

lemma serves_commit_at:
  assumes "serves cpu winv wcontent inv content n live P w" and ho: "\<And>ks. mset (hash_order ks) = mset ks" and wf: "commit_wf cpu pages w"
  shows "\<exists>e w'. commit_at cpu spawn_ok hash_order wops ops xops now pages max_page_count (latest_snapshot w) w = Some (Inr e, w') \<and>
    serves cpu winv wcontent inv content n live (page_updates pages P) w'"
proof -
  obtain fs where "serves_log cpu winv wcontent inv content n live P fs w" using assms(1) by (auto simp: serves_def)
  from commit_published [OF this wf]
  obtain w1 where c: "commit_at cpu spawn_ok hash_order wops ops xops now pages max_page_count (latest_snapshot w) w =
      pbind (pignore (maybe_auto_checkpoint cpu spawn_ok hash_order wops ops xops now)) (\<lambda>_. pret (si_wal_end_lsn w1)) w1"
    "serves cpu winv wcontent inv content n live (page_updates pages P) w1" unfolding serves_def by blast
  from serves_auto_checkpoint [OF c(2) ho]
  obtain w' where "pignore (maybe_auto_checkpoint cpu spawn_ok hash_order wops ops xops now) w1 = Some (Inr (), w')"
    "serves cpu winv wcontent inv content n live (page_updates pages P) w'" by blast
  then show ?thesis using c(1) by simp
qed

text \<open>Without automatic checkpoints a commit moves the end of the log and leaves the epoch alone.\<close>

lemma commit_without_checkpoint:
  assumes "serves cpu winv wcontent inv content n live P w" "commit_wf cpu pages w"
    and "ac_threshold_pages (si_auto_checkpoint w) = 0" "ac_threshold_bytes (si_auto_checkpoint w) = 0"
  shows "\<exists>e w'. commit_pages cpu spawn_ok hash_order wops ops xops now pages max_page_count w = Some (Inr e, w') \<and>
    latest_snapshot w < latest_snapshot w' \<and> si_checkpoint_epoch w' = si_checkpoint_epoch w \<and> wal_config w' = wal_config w \<and>
    serves cpu winv wcontent inv content n live (page_updates pages P) w'"
proof -
  obtain fs where s: "serves_log cpu winv wcontent inv content n live P fs w" using assms(1) by (auto simp: serves_def)
  obtain new w1 where c: "commit_at cpu spawn_ok hash_order wops ops xops now pages max_page_count (latest_snapshot w) w =
      pbind (pignore (maybe_auto_checkpoint cpu spawn_ok hash_order wops ops xops now)) (\<lambda>_. pret (si_wal_end_lsn w1)) w1"
    "serves_log cpu winv wcontent inv content n live (page_updates pages P) (fs @ new @ [commit_frame]) w1" "commit_kept content w w1"
    using commit_published [OF s assms(2)] by blast
  have k: "wal_config w1 = wal_config w" "si_checkpoint_epoch w1 = si_checkpoint_epoch w" using c(3) by (simp_all add: commit_kept_def)
  note cf = wal_config_simps [OF k(1)]
  have "unat (si_wal_end_lsn w) = log_end (si_page_size w) fs" "unat (si_wal_end_lsn w1) = log_end (si_page_size w) (fs @ new @ [commit_frame])"
    using s c(2) cf by (simp_all add: serves_log_def wal_ok_def wal_log_def)
  then have "latest_snapshot w < latest_snapshot w1" by (simp add: latest_snapshot_def word_less_nat_alt log_end_def)
  moreover have "commit_pages cpu spawn_ok hash_order wops ops xops now pages max_page_count w = Some (Inr (si_wal_end_lsn w1), w1)"
    using c(1) cf assms(3,4) by (simp add: commit_pages_def pignore_def maybe_auto_checkpoint_def Let_def)
  ultimately show ?thesis using c(2) k unfolding serves_def by blast
qed

lemma serves_reopen:
  fixes xops :: "'x vfs_file_ops" and w :: "('w, 'x, 'f) wal_sys"
  assumes "serves cpu winv wcontent inv content n live P w" and ho: "\<And>ks. mset (hash_order ks) = mset ks"
    and h: "h_page_size h = si_page_size w" and cfg: "default_config (si_page_size w) cfg"
  shows "\<exists>pg w'. open_with_page_pool ops (pg_file (ws_pager w)) h mb pool = Inr pg \<and>
    build_handle_from_file wops ops xops hash_order path cfg pg (si_file w) xf = Some (Inr w') \<and>
    serves cpu winv wcontent inv content 0 [] P w' \<and> si_page_size w' = si_page_size w"
proof -
  obtain fs where s: "serves_log cpu winv wcontent inv content n live P fs w" using assms(1) by (auto simp: serves_def)
  have ok: "wal_ok winv wcontent inv content n (map fst live) fs w" using s by (simp add: serves_log_def)
  then have pgo: "pager_ok inv content (ws_pager w)" "h_page_size h = pg_page_size (ws_pager w)" using h by (simp_all add: wal_ok_def)
  obtain pg where pg: "open_with_page_pool ops (pg_file (ws_pager w)) h mb pool = Inr pg" "pager_kept inv content (ws_pager w) pg"
    using open_pager_ok [OF pgo] by blast
  obtain w' where w': "build_handle_from_file wops ops xops hash_order path cfg pg (si_file w) xf = Some (Inr w')"
    "wal_ok winv wcontent inv content 0 [] fs w'" "pager_page content (ws_pager w') = pager_page content (ws_pager w)"
    "pg_db_page_count (ws_pager w') = pg_db_page_count (ws_pager w)" "si_page_size w' = si_page_size w"
    "retained_snapshot_lsn w' = None" "\<not> si_checkpoint_pending w'"
    using reopen_ok [OF ok pg(2) cfg ho] by blast
  then have "serves_log cpu winv wcontent inv content 0 [] P fs w'" using s by (simp add: serves_log_def)
  then show ?thesis using pg(1) w'(1,5) by (auto simp: serves_def)
qed

end

section \<open>Runs\<close>

text \<open>
  \<open>wal_run cpu spawn_ok hash_order wops ops xops w0 P0 n w live P\<close>: a run that began with handle \<open>w0\<close> over pages \<open>P0\<close> has come to
  handle \<open>w\<close>, with \<open>n\<close> readers begun on it, the readers in \<open>live\<close> still open, each with the pages current when it began, and
  \<open>P\<close> the pages committed last.  A crash loses the handle and the pager and keeps the files.
\<close>

inductive wal_run ::
  "crc_cpu \<Rightarrow> bool \<Rightarrow> (page_id list \<Rightarrow> page_id list) \<Rightarrow> 'w vfs_file_ops \<Rightarrow> 'f vfs_file_ops \<Rightarrow> 'x vfs_file_ops \<Rightarrow>
   ('w, 'x, 'f) wal_sys \<Rightarrow> pages \<Rightarrow> nat \<Rightarrow> ('w, 'x, 'f) wal_sys \<Rightarrow> (ReaderGuard \<times> pages) list \<Rightarrow> pages \<Rightarrow> bool"
  for cpu spawn_ok hash_order wops ops xops w0 P0
where
  run_start: "wal_run cpu spawn_ok hash_order wops ops xops w0 P0 0 w0 [] P0"
| run_begin: "wal_run cpu spawn_ok hash_order wops ops xops w0 P0 n w live P \<Longrightarrow> Suc n < 2 ^ 64 \<Longrightarrow>
    begin_reader now w = Some (Inr g, w') \<Longrightarrow> wal_run cpu spawn_ok hash_order wops ops xops w0 P0 (Suc n) w' ((g, P) # live) P"
| run_end: "wal_run cpu spawn_ok hash_order wops ops xops w0 P0 n w live P \<Longrightarrow> (g, S) \<in> set live \<Longrightarrow>
    wal_run cpu spawn_ok hash_order wops ops xops w0 P0 n (end_reader g w) (remove1 (g, S) live) P"
| run_read: "wal_run cpu spawn_ok hash_order wops ops xops w0 P0 n w live P \<Longrightarrow> (g, S) \<in> set live \<Longrightarrow> q \<noteq> 0 \<Longrightarrow>
    snapshot_read_page wops ops xops (rg_snapshot_lsn g) q w = Some (r, w') \<Longrightarrow>
    wal_run cpu spawn_ok hash_order wops ops xops w0 P0 n w' live P"
| run_commit: "wal_run cpu spawn_ok hash_order wops ops xops w0 P0 n w live P \<Longrightarrow> commit_wf cpu pages w \<Longrightarrow>
    commit_pages cpu spawn_ok hash_order wops ops xops now pages max_page_count w = Some (Inr e, w') \<Longrightarrow>
    wal_run cpu spawn_ok hash_order wops ops xops w0 P0 n w' live (page_updates pages P)"
| run_commit_if: "wal_run cpu spawn_ok hash_order wops ops xops w0 P0 n w live P \<Longrightarrow> commit_wf cpu pages w \<Longrightarrow>
    commit_pages_if_latest cpu spawn_ok hash_order wops ops xops now pages max_page_count lsn epoch w = Some (r, w') \<Longrightarrow>
    wal_run cpu spawn_ok hash_order wops ops xops w0 P0 n w' live (case r of Inl _ \<Rightarrow> P | Inr _ \<Rightarrow> page_updates pages P)"
| run_checkpoint: "wal_run cpu spawn_ok hash_order wops ops xops w0 P0 n w live P \<Longrightarrow>
    checkpoint cpu spawn_ok hash_order wops ops xops timeout now w = Some (r, w') \<Longrightarrow>
    wal_run cpu spawn_ok hash_order wops ops xops w0 P0 n w' live P"
| run_crash: "wal_run cpu spawn_ok hash_order wops ops xops w0 P0 n w live P \<Longrightarrow>
    h_page_size h = si_page_size w \<Longrightarrow> default_config (si_page_size w) cfg \<Longrightarrow>
    open_with_page_pool ops (pg_file (ws_pager w)) h mb pool = Inr pg \<Longrightarrow>
    build_handle_from_file wops ops xops hash_order path cfg pg (si_file w) xf = Some (Inr w') \<Longrightarrow>
    wal_run cpu spawn_ok hash_order wops ops xops w0 P0 0 w' [] P"

context wal_world
begin

lemma run_serves:
  fixes xops :: "'x vfs_file_ops" and w :: "('w, 'x, 'f) wal_sys"
  assumes "wal_run cpu spawn_ok hash_order wops ops xops w0 P0 n w live P"
    and start: "serves cpu winv wcontent inv content 0 [] P0 w0" and ho: "\<And>ks. mset (hash_order ks) = mset ks"
  shows "serves cpu winv wcontent inv content n live P w"
  using assms(1)
proof (induction rule: wal_run.induct)
  case run_start
  show ?case by (rule start)
next
  case (run_begin n w live P now g w')
  then show ?case using serves_begin [OF run_begin.IH, of now] by auto
next
  case (run_end n w live P g S)
  then show ?case by (intro serves_end)
next
  case (run_read n w live P g S q r w')
  then show ?case using serves_read [OF run_read.IH, of q g S "rg_snapshot_lsn g" xops] by auto
next
  case (run_commit n w live P pages now max_page_count e w')
  then show ?case using serves_commit_at [OF run_commit.IH ho, of pages spawn_ok xops now max_page_count]
    by (auto simp: commit_pages_def)
next
  case (run_commit_if n w live P pages now max_page_count lsn epoch r w')
  then show ?case using serves_commit_at [OF run_commit_if.IH ho, of pages spawn_ok xops now max_page_count]
    by (auto simp: commit_pages_if_latest_def Let_def split: if_splits)
next
  case (run_checkpoint n w live P timeout now r w')
  then show ?case using serves_checkpoint [OF run_checkpoint.IH ho, of spawn_ok xops timeout now] by auto
next
  case (run_crash n w live P h cfg mb pool pg path xf w')
  then show ?case using serves_reopen [OF run_crash.IH ho, of h cfg mb pool xops path xf] by auto
qed

text \<open>A new log over a database whose first page holds a header.\<close>

lemma fresh_serves:
  fixes xops :: "'x vfs_file_ops" and w0 :: "('w, 'x, 'f) wal_sys"
  assumes "winv f" "wcontent f = []" "pager_ok inv content pg" "default_config (pg_page_size pg) cfg" "0 < unat (pg_db_page_count pg)"
    and "holds_header cpu (pg_page_size pg) (pager_page content pg 1)"
    and "build_handle_from_file wops ops xops hash_order path cfg pg f xf = Some (Inr w0)"
  shows "serves cpu winv wcontent inv content 0 [] (pager_page content pg) w0"
proof -
  from open_fresh_ok [OF assms(1-4), of xops hash_order path xf] assms(7)
  have "wal_ok winv wcontent inv content 0 [] [] w0" "ws_pager w0 = pg" "si_page_size w0 = pg_page_size pg"
    "retained_snapshot_lsn w0 = None" "\<not> si_checkpoint_pending w0" by auto
  then have "serves_log cpu winv wcontent inv content 0 [] (pager_page content pg) [] w0"
    using assms(5,6) by (simp add: serves_log_def)
  then show ?thesis by (auto simp: serves_def)
qed

end

section \<open>Runs over files in memory\<close>

text \<open>
  The runs below start with an empty log over a database file of at least one page whose first page holds a
  header, with the default configuration of the page index.  Files are in memory, so that no operation fails; the order in which a hash map
  lists its keys is any permutation.
\<close>

definition fresh_database :: "crc_cpu \<Rightarrow> DbConfig \<Rightarrow> bytes Pager \<Rightarrow> bool" where
  "fresh_database cpu cfg pg \<longleftrightarrow> pager_ok mem_inv (\<lambda>d. d) pg \<and> default_config (pg_page_size pg) cfg \<and>
     0 < unat (pg_db_page_count pg) \<and> holds_header cpu (pg_page_size pg) (pager_page (\<lambda>d. d) pg 1)"

abbreviation mem_run ::
  "crc_cpu \<Rightarrow> bool \<Rightarrow> (page_id list \<Rightarrow> page_id list) \<Rightarrow> (bytes, bytes, bytes) wal_sys \<Rightarrow> pages \<Rightarrow>
   nat \<Rightarrow> (bytes, bytes, bytes) wal_sys \<Rightarrow> (ReaderGuard \<times> pages) list \<Rightarrow> pages \<Rightarrow> bool"
where
  "mem_run cpu spawn_ok hash_order \<equiv> wal_run cpu spawn_ok hash_order mem_file_ops mem_file_ops mem_file_ops"

abbreviation mem_serves ::
  "crc_cpu \<Rightarrow> nat \<Rightarrow> (ReaderGuard \<times> pages) list \<Rightarrow> pages \<Rightarrow> (bytes, bytes, bytes) wal_sys \<Rightarrow> bool"
where
  "mem_serves cpu \<equiv> serves cpu mem_inv (\<lambda>d. d) mem_inv (\<lambda>d. d)"

lemma mem_run_serves:
  assumes "fresh_database cpu cfg pg" "\<And>ks. mset (hash_order ks) = mset ks"
    and "build_handle_from_file mem_file_ops mem_file_ops mem_file_ops hash_order path cfg pg [] xf = Some (Inr w0)"
    and "mem_run cpu spawn_ok hash_order w0 (pager_page (\<lambda>d. d) pg) n w live P"
  shows "mem_serves cpu n live P w"
proof (rule memworld.run_serves [OF assms(4) _ assms(2)])
  show "mem_serves cpu 0 [] (pager_page (\<lambda>d. d) pg) w0"
    by (rule memworld.fresh_serves [OF _ _ _ _ _ _ assms(3)]) (use assms(1) in \<open>simp_all add: fresh_database_def mem_inv_def\<close>)
qed

section \<open>A run\<close>

text \<open>A database of a header page and a page of zeros; a reader begins, then page 2 is overwritten.\<close>

definition run_header :: DatabaseHeader where
  "run_header = sample_header\<lparr>h_freelist := \<lparr>fl_root_page_id = 0, fl_head_page_id = 0, fl_page_count = 0\<rparr>\<rparr>"

definition run_pager :: "bytes Pager" where
  "run_pager = open_with_known_page_count (header_image sse42_cpu 4096 run_header @ replicate 4096 0) run_header 1 4 2"

definition run_config :: DbConfig where
  "run_config = \<lparr>cfg_page_size = 4096, cfg_wal_sync_mode = Full, cfg_wal_index_hot_set_pages = 0,
     cfg_wal_resident_versions_per_page = 1, cfg_wal_checkpoint_threshold_pages = 0, cfg_wal_checkpoint_threshold_bytes = 0,
     cfg_checkpoint_timeout_sec = 10, cfg_release_freed_memory_after_checkpoint = False,
     cfg_background_checkpoint_worker = False\<rparr>"

abbreviation run_pages :: pages where
  "run_pages \<equiv> pager_page (\<lambda>d. d) run_pager"

lemma run_header_plain: "plain_header 4096 run_header" "length (header_image sse42_cpu 4096 run_header) = 4096"
proof -
  show p: "plain_header 4096 run_header"
    using sample_header_wf by (simp add: plain_header_def run_header_def header_wf_def sample_header_def)
  show "length (header_image sse42_cpu 4096 run_header) = 4096"
    using p length_encode [of run_header sse42_cpu] by (simp add: header_image_def plain_header_def)
qed

lemma run_pager_simps:
  "pg_page_size run_pager = 4096" "pg_db_page_count run_pager = 2"
  "pg_file run_pager = header_image sse42_cpu 4096 run_header @ replicate 4096 0"
  by (simp_all add: run_pager_def open_with_known_page_count_def Let_def run_header_def sample_header_def)

lemma run_pager_pages:
  "run_pages 1 = header_image sse42_cpu 4096 run_header" "run_pages 2 = replicate 4096 0"
  using run_header_plain(2)
  by (auto intro!: nth_equalityI simp: pager_page_def disk_page_def run_pager_simps pget_def nth_append)

lemma run_fresh: "fresh_database sse42_cpu run_config run_pager" "pg_page_size run_pager = 4096"
proof -
  have "holds_header sse42_cpu 4096 (run_pages 1)" using run_pager_pages(1) run_header_plain(1) by (auto simp: holds_header_def)
  moreover have "pager_ok mem_inv (\<lambda>d. d) run_pager"
    using run_header_plain(2)
    by (simp add: pager_ok_def pager_disk_def run_pager_simps mem_inv_def is_supported_page_size_def SUPPORTED_PAGE_SIZES_def)
       (simp add: run_pager_def open_with_known_page_count_def Let_def run_header_def sample_header_def)
  ultimately show "fresh_database sse42_cpu run_config run_pager"
    by (simp add: fresh_database_def default_config_def run_config_def run_pager_simps)
qed (rule run_pager_simps)

lemma run_begun:
  "\<exists>w0 g w. build_handle_from_file mem_file_ops mem_file_ops mem_file_ops (\<lambda>ks. ks) None run_config run_pager [] [] = Some (Inr w0) \<and>
     mem_run sse42_cpu True (\<lambda>ks. ks) w0 run_pages 1 w [(g, run_pages)] run_pages \<and> commit_wf sse42_cpu [(2, replicate 4096 7)] w \<and>
     si_page_size w = 4096 \<and> ac_threshold_pages (si_auto_checkpoint w) = 0 \<and> ac_threshold_bytes (si_auto_checkpoint w) = 0"
proof -
  have "mem_inv []" "pager_ok mem_inv (\<lambda>d. d) run_pager" "default_config (pg_page_size run_pager) run_config"
    using run_fresh by (simp_all add: fresh_database_def mem_inv_def)
  from memworld.open_fresh_ok [OF this(1) _ this(2,3), of mem_file_ops "\<lambda>ks. ks" None "[]"] obtain w0 where
    w0: "build_handle_from_file mem_file_ops mem_file_ops mem_file_ops (\<lambda>ks. ks) None run_config run_pager [] [] = Some (Inr w0)"
      "wal_ok mem_inv (\<lambda>d. d) mem_inv (\<lambda>d. d) 0 [] [] w0" "si_page_size w0 = 4096" "\<not> si_checkpoint_pending w0"
      "si_auto_checkpoint w0 = from_db_config run_config" using run_fresh(2) by auto
  obtain g w where g: "begin_reader 0 w0 = Some (Inr g, w)" "w = w0\<lparr>si_reader_registry := si_reader_registry w\<rparr>"
    using begin_reader_ok [OF w0(2,4), of 0] by auto
  have "mem_run sse42_cpu True (\<lambda>ks. ks) w0 run_pages 1 w [(g, run_pages)] run_pages"
    using run_begin [OF run_start _ g(1)] by simp
  moreover have e: "si_page_size w = si_page_size w0" "si_wal_end_lsn w = si_wal_end_lsn w0" "si_auto_checkpoint w = si_auto_checkpoint w0"
    by (subst g(2), simp)+
  moreover have "unat (si_wal_end_lsn w0) = 0" using w0(2) by (simp add: wal_ok_def wal_log_def log_end_def)
  ultimately show ?thesis using w0(1,3,5)
    by (intro exI [of _ w0] exI [of _ g] exI [of _ w])
       (simp add: commit_wf_def pages_wf_def MAX_PENDING_RECOVERY_FRAMES_def from_db_config_def run_config_def)
qed

lemma run_committed:
  "\<exists>w0 g w. build_handle_from_file mem_file_ops mem_file_ops mem_file_ops (\<lambda>ks. ks) None run_config run_pager [] [] = Some (Inr w0) \<and>
     mem_run sse42_cpu True (\<lambda>ks. ks) w0 run_pages 1 w [(g, run_pages)] (run_pages(2 := replicate 4096 7)) \<and> si_page_size w = 4096"
proof -
  obtain w0 g w where b: "build_handle_from_file mem_file_ops mem_file_ops mem_file_ops (\<lambda>ks. ks) None run_config run_pager [] [] = Some (Inr w0)"
    and r: "mem_run sse42_cpu True (\<lambda>ks. ks) w0 run_pages 1 w [(g, run_pages)] run_pages"
    and w: "commit_wf sse42_cpu [(2, replicate 4096 7)] w" "si_page_size w = 4096"
      "ac_threshold_pages (si_auto_checkpoint w) = 0" "ac_threshold_bytes (si_auto_checkpoint w) = 0"
    using run_begun by blast
  have "mem_serves sse42_cpu 1 [(g, run_pages)] run_pages w" by (rule mem_run_serves [OF run_fresh(1) _ b r]) simp
  from memworld.commit_without_checkpoint [OF this w(1,3,4), of True "\<lambda>ks. ks" mem_file_ops 0 2] obtain e w' where
    c: "commit_pages sse42_cpu True (\<lambda>ks. ks) mem_file_ops mem_file_ops mem_file_ops 0 [(2, replicate 4096 7)] 2 w = Some (Inr e, w')"
      "wal_config w' = wal_config w" by blast
  have "mem_run sse42_cpu True (\<lambda>ks. ks) w0 run_pages 1 w' [(g, run_pages)] (run_pages(2 := replicate 4096 7))"
    using run_commit [OF r w(1) c(1)] by simp
  then show ?thesis using b w(2) wal_config_simps [OF c(2)] by metis
qed

section \<open>Properties\<close>









text \<open>
  The check compares epochs only: when a checkpoint runs between the two commits, the second is
  accepted and silently overwrites the first.
\<close>

theorem conflict_missed_after_checkpoint:
  assumes "fresh_database cpu cfg pg" and ho: "\<And>ks. mset (hash_order ks) = mset ks"
    and "build_handle_from_file mem_file_ops mem_file_ops mem_file_ops hash_order path cfg pg [] xf = Some (Inr w0)"
    and "mem_run cpu spawn_ok hash_order w0 (pager_page (\<lambda>d. d) pg) n w [] P" "commit_wf cpu pages w"
    and "ac_threshold_pages (si_auto_checkpoint w) = 0" "ac_threshold_bytes (si_auto_checkpoint w) = 0"
  shows "\<exists>e w1 w2. commit_pages cpu spawn_ok hash_order mem_file_ops mem_file_ops mem_file_ops now pages max_page_count w = Some (Inr e, w1) \<and>
    checkpoint cpu spawn_ok hash_order mem_file_ops mem_file_ops mem_file_ops timeout now w1 = Some (Inr (), w2) \<and>
    (commit_wf cpu pages' w2 \<longrightarrow>
       (\<exists>e' w3. commit_pages_if_latest cpu spawn_ok hash_order mem_file_ops mem_file_ops mem_file_ops now pages' max_page_count
           (latest_snapshot w) (checkpoint_epoch w) w2 = Some (Inr e', w3) \<and> mem_serves cpu n [] (page_updates pages' (page_updates pages P)) w3))"
proof -
  obtain e w1 where w1: "commit_pages cpu spawn_ok hash_order mem_file_ops mem_file_ops mem_file_ops now pages max_page_count w = Some (Inr e, w1)"
    "si_checkpoint_epoch w1 = si_checkpoint_epoch w" "mem_serves cpu n [] (page_updates pages P) w1"
    using memworld.commit_without_checkpoint [OF mem_run_serves [OF assms(1-4)] assms(5-7), of spawn_ok hash_order mem_file_ops now max_page_count]
    by blast
  obtain w2 where w2: "checkpoint cpu spawn_ok hash_order mem_file_ops mem_file_ops mem_file_ops timeout now w1 = Some (Inr (), w2)"
    "mem_serves cpu n [] (page_updates pages P) w2" "si_checkpoint_epoch w2 = si_checkpoint_epoch w1 + 1"
    using memworld.serves_checkpoint [OF w1(3) ho, of spawn_ok mem_file_ops timeout now] by blast
  have "\<exists>e' w3. commit_pages_if_latest cpu spawn_ok hash_order mem_file_ops mem_file_ops mem_file_ops now pages' max_page_count
      (latest_snapshot w) (checkpoint_epoch w) w2 = Some (Inr e', w3) \<and> mem_serves cpu n [] (page_updates pages' (page_updates pages P)) w3"
    if "commit_wf cpu pages' w2"
    using memworld.serves_commit_at [OF w2(2) ho that, of spawn_ok mem_file_ops now max_page_count] w1(2) w2(3)
    by (simp add: commit_pages_if_latest_def checkpoint_epoch_def Let_def)
  then show ?thesis using w1(1) w2(1) by blast
qed

end
