(* ===== verification/Spec2Isabelle.thy ===== *)
theory Spec2Isabelle
  imports Varint OverflowUpdate DbHeader BtreeMap WalRun
begin

text \<open>
  A verification library for the storage core of DecentDB, the Rust crate \<open>src/crates/decentdb/src\<close>: everything
  below the SQL layer, from the bytes of a file to transactions on pages and sorted maps.  All paths below are
  relative to that directory.

  \<^bold>\<open>The program and its parts.\<close>  A database is a file of fixed-size pages with a header on page 1.  The
  \<^emph>\<open>pager\<close> reads and writes pages of this file through the \<^emph>\<open>page cache\<close> and keeps the
  list of free pages.  Transactions do not touch this file: the \<^emph>\<open>WAL writer\<close> appends their pages as
  frames, whole or as deltas, to the write-ahead log and ends them with a commit frame.  The
  \<^emph>\<open>WAL index\<close> lists the versions of each page; old versions may be demoted to the log or, with a hot-set limit, to a
  \<^emph>\<open>sidecar\<close> file.  A \<^emph>\<open>reader\<close> registers the end of the log it starts from and reads every page as of that end.  The
  \<^emph>\<open>checkpoint\<close> copies the latest versions back when no reader is open, syncs and truncates the log; \<^emph>\<open>recovery\<close>
  rebuilds the index from a log found on opening.  In the asynchronous mode a flusher thread syncs the log later and
  barriers wait for it.  \<^emph>\<open>B+trees\<close> and \<^emph>\<open>overflow chains\<close> store sorted maps and long values in pages of
  a page store.

  \<^bold>\<open>Conventions.\<close>  Machine integers are words, \<open>usize\<close> is \<open>nat\<close> with the bound written out where code
  depends on it.  Errors are values of \<open>db_error\<close> in a \<open>result\<close>, whose texts are abbreviated.  A routine that changes state is a
  \<open>prog\<close>: a function from the state to a result and the new state, with \<open>None\<close> for a loop that does not end; loops without an
  evident bound are \<open>partial_function\<close>s, and the theorems state that they return.  A trait is a record of operations, and the
  laws its clients rely on are a locale that is interpreted on the implementations.  There is no fuel anywhere.
  Locks are not modelled, since the operations of a handle are taken one after the other; they are never poisoned.
  Where the order of steps of several threads matters, for the flusher, it is a step relation.

  \<^bold>\<open>Theories.\<close>
  \<^item> \<open>Prelude\<close>: words, results, programs, slices and integer codecs, with the lemmas all others share.
  \<^item> \<open>Varint\<close> (\<open>record/mod.rs\<close>): zigzag and variable-length integers; round trips and bounds.
  \<^item> \<open>Checksum\<close> (\<open>storage/checksum.rs\<close>): CRC-32C in software and with two SSE4.2 instructions, which are parameters; the
    incremental patch.  Both routines agree, patching is recomputing, bursts are detected.
  \<^item> \<open>Pages\<close> (\<open>storage/page.rs\<close>, \<open>storage/freelist.rs\<close>): the locale \<open>page_store\<close> and the in-memory store that implements it.
  \<^item> \<open>Overflow\<close>, \<open>OverflowUpdate\<close> (\<open>record/overflow.rs\<close>, \<open>record/compression.rs\<close>): chains of pages for long payloads; writing,
    reading, freeing, rewriting, appending behind a remembered tail, and rewriting only dirty ranges.  The zlib codec is a parameter.
  \<^item> \<open>Vfs\<close> (\<open>vfs/mod.rs\<close>, \<open>vfs/mem.rs\<close>): the locale \<open>vfs_file\<close> of files with short transfers, the retry loops,
    in-memory files and the chunked files of the tests.
  \<^item> \<open>VfsFaulty\<close> (\<open>vfs/faulty.rs\<close>): failpoints, and the locale \<open>fallible_file\<close> of files whose operations may fail half-way.
  \<^item> \<open>DbHeader\<close> (\<open>storage/header.rs\<close>): the database header, its checksum, bootstrapping.
  \<^item> \<open>PageCache\<close>, \<open>Pager\<close> (\<open>storage/cache.rs\<close>, \<open>storage/pager.rs\<close>): cached pages live at addresses of a heap, as handles share
    them; invariant of cache and file, least-recently-used eviction, copyback, truncation of the free tail.
  \<^item> \<open>BtreePage\<close>, \<open>Btree\<close>, \<open>BtreeSearch\<close>, \<open>BtreeBuild\<close>, \<open>BtreeMap\<close> (\<open>btree/page.rs\<close>, \<open>read.rs\<close>, \<open>cursor.rs\<close>,
    \<open>write.rs\<close>): the page format, the operations, what pages represent, the builder, and the contract of a sorted map.
  \<^item> \<open>WalDelta\<close>, \<open>WalFormat\<close> (\<open>wal/delta.rs\<close>, \<open>wal/format.rs\<close>): page deltas, the log header and frames, three decoders.
  \<^item> \<open>WalReplay\<close>: what a log means, as a function on pages; the specification of recovery, writer and checkpoint.
  \<^item> \<open>WalIndex\<close>, \<open>WalSidecar\<close> (\<open>wal/index.rs\<close>, \<open>wal/index_sidecar.rs\<close>): versions of pages, demotion, the spill file and its
    behaviour under failing writes.
  \<^item> \<open>WalRecovery\<close> (\<open>wal/recovery.rs\<close>): recovery computes the meaning of the log, also over a file torn by a copyback.
  \<^item> \<open>Readers\<close> (\<open>wal/reader_registry.rs\<close>) and \<open>AsyncCommit\<close> (\<open>wal/async_commit.rs\<close>): the registry of readers; the watermarks
    of the asynchronous mode against the locale \<open>durable_file\<close> of files with stable storage.
  \<^item> \<open>WalHandle\<close>, \<open>WalCheckpoint\<close>, \<open>WalWriter\<close>, \<open>WalOpen\<close> (\<open>wal/mod.rs\<close>, \<open>wal/checkpoint.rs\<close>, \<open>wal/writer.rs\<close>,
    \<open>wal/shared.rs\<close>): the record \<open>wal_sys\<close> is \<open>SharedWalInner\<close> with the pager beside it; reads, checkpoints, commits and opening act on it.
  \<^item> \<open>WalCommit\<close>, \<open>WalHistory\<close>: the invariant \<open>wal_ok\<close> (log, index and pager agree for every snapshot that is held) survives a commit.
  \<^item> \<open>WalRun\<close>: runs as a step relation over readers, commits, checkpoints and reopenings, and the properties that span the components.

  \<^bold>\<open>What is shown.\<close>  The runs of \<open>WalRun\<close> refine a store with two abstract components, the pages committed last and the
  pages of each open reader: readers see their snapshots, commits and reopening do what they promise, conflicting transactions are
  refused.  Below this, recovery, checkpoint copyback, the sidecar and the registry are each proved against a specification of
  their own; B+trees implement sorted maps; overflow chains hold payloads; every on-disk format round trips and its optimised decoders agree
  with the plain ones.  Statements are on files in memory, or on every file that satisfies a stated contract.

  \<^bold>\<open>Bounds.\<close>  Files are below \<open>2 ^ 63\<close> bytes and a log below \<open>2 ^ 62\<close>, so that offsets do not wrap; a
  transaction has at most the 1,000,000 pages that recovery accepts; page sizes are the supported ones.

  \<^bold>\<open>What is left out.\<close>  The SQL layer (parser, planner, execution, catalog, values and keys) and the tools around it; files of
  the operating system, encryption and the browser, which appear as contracts; coordination between processes, so that a handle has no
  coordinator; the threads behind the background checkpoint; wall-clock time, which is an argument; lock poisoning, memory exhaustion
  and hints to the operating system.  In the runs the page index has no hot-set limit, so that no sidecar is open, and page 1 is compared
  up to the stamp of the last checkpoint.  The worker of the pipelined copyback writes each batch when it is sent, whether it can be
  started is an argument (\<open>spawn_ok\<close>), and the order in which a hash map lists its keys is any permutation (\<open>hash_order\<close>).
\<close>

end
